(* ===== verification/Prelude.thy ===== *)
theory Prelude
  imports Main "HOL-Library.Word"
begin

unbundle bit_operations_syntax

text \<open>
  Shared vocabulary of the development: bytes, refusals and the result type every fallible
  operation returns, Python's integer/byte conversions, and the byte cursor all three decoders of
  the reader share.

  Conventions.  A Python \<open>bytes\<close> value is a list of 8-bit words, a Python \<open>int\<close> is an
  unbounded \<open>int\<close>, \<open>Optional[T]\<close> is \<open>'a option\<close>, and an operation that can raise returns
  \<open>error + 'a\<close> with the exception as \<open>Inl\<close>.  Exception messages are not modelled; exception
  classes and the payloads the code reads back (a store's shortfall, a refusal's category) are.
\<close>

section \<open>Types\<close>

type_synonym byte = "8 word"
type_synonym bytes = "byte list"

text \<open>The categories of the protobuf profile's refusals (\<open>protobuf.ProtobufRefused\<close>).\<close>

datatype pb_category = Truncated | BadVarint | NotInProfile | TooLong | Duplicate

text \<open>The names of the inventory checks (\<open>inventory.CHECKS\<close>), in the order they are made.\<close>

datatype inv_check =
    Chk_decode | Chk_account | Chk_issuer | Chk_signature | Chk_freshness
  | Chk_duplicate_device | Chk_identity_key | Chk_binding_policy | Chk_statement_policy

text \<open>
  Every exception class the reader raises, grouped by the module that declares it.  The sparse
  ratchet's classes that share a name with the classical ratchet's carry the prefix \<open>Sp\<close>.
\<close>

datatype py_exn =
    ValueError | TypeError | IndexError | KeyError | OverflowError | AssertionError | AttributeError
  | StopIteration

datatype wire_exn =
    DecodeError | EncodeError | InconsistentBundle | NonCanonicalBundleKey | BundleSignatureFails
  | InvalidIdentityKey

datatype ratchet_exn =
    NoSendingChain | NoReceivingChain | ChainExhausted | TooManySkipped
  | SkippedStoreFull int | OutOfOrder

datatype spqr_exn =
    SpqrError | SpNoChain | SpChainRetired | SpOutOfOrder | SpChainExhausted | SpTooManySkipped
  | SpEpochGap | SpSkippedStoreFull int

datatype crypto_exn =
    NonContributory | AuthenticationFailure | FieldError | KemFailure | AgreementFailed

datatype persist_exn = WrongVersion | Malformed | NonCanonical | Inconsistent | Incoherent

datatype session_exn =
    UnknownPrekey | KemPrekeyRefused | KemCiphertextRefused | NotARepeatedInitial
  | ReplayedLastResort | LastResortRecordFull | RotationRefused

datatype record_exn = MalformedRecord | RetiredIdentity | UnexpectedIdentity

datatype error =
    PyE py_exn | WireE wire_exn | ProtobufRefused pb_category | RatchetE ratchet_exn
  | SpqrE spqr_exn | CryptoE crypto_exn | PersistE persist_exn | SessionE session_exn
  | RecordE record_exn | InventoryRefusal inv_check | IssuerRefusal

text \<open>The classes that derive from Python's \<open>ValueError\<close>, as an \<open>except ValueError\<close> sees them.\<close>

fun is_ValueError :: "error \<Rightarrow> bool" where
  "is_ValueError (PyE e) = (e = ValueError)"
| "is_ValueError (WireE e) = (e = DecodeError \<or> e = EncodeError)"
| "is_ValueError (ProtobufRefused _) = True"
| "is_ValueError (CryptoE e) = (e = NonContributory \<or> e = FieldError)"
| "is_ValueError _ = False"

type_synonym 'a res = "error + 'a"

section \<open>Sequencing fallible operations\<close>

named_theorems res_iff \<open>what it means for a fallible operation to succeed or to fail\<close>

definition bindR :: "'a res \<Rightarrow> ('a \<Rightarrow> 'b res) \<Rightarrow> 'b res" where
  "bindR m f = (case m of Inl e \<Rightarrow> Inl e | Inr x \<Rightarrow> f x)"

lemma bindR_simps [simp]:
  "bindR (Inl e) f = Inl e"
  "bindR (Inr x) f = f x"
  by (simp_all add: bindR_def)

lemma bindR_Inr_iff [res_iff]: "bindR m f = Inr y \<longleftrightarrow> (\<exists>x. m = Inr x \<and> f x = Inr y)"
  by (cases m) simp_all

lemma bindR_Inl_iff: "bindR m f = Inl e \<longleftrightarrow> m = Inl e \<or> (\<exists>x. m = Inr x \<and> f x = Inl e)"
  by (cases m) simp_all

lemma bindR_cong [fundef_cong]:
  "m = m' \<Longrightarrow> (\<And>x. m' = Inr x \<Longrightarrow> f x = f' x) \<Longrightarrow> bindR m f = bindR m' f'"
  by (cases m') simp_all

lemma if_Inl_iff [res_iff]: "(if c then Inl e else m) = Inr y \<longleftrightarrow> \<not> c \<and> m = Inr y"
  by simp

lemma case_option_Inl_iff:
  "(case x of None \<Rightarrow> Inl e | Some a \<Rightarrow> f a) = Inr y \<longleftrightarrow> (\<exists>a. x = Some a \<and> f a = Inr y)"
  by (cases x) simp_all

text \<open>\<open>try: m except E: h\<close>, for the exceptions \<open>E\<close> selects.\<close>

definition catchR :: "'a res \<Rightarrow> (error \<Rightarrow> bool) \<Rightarrow> (error \<Rightarrow> 'a res) \<Rightarrow> 'a res" where
  "catchR m E h = (case m of Inl e \<Rightarrow> if E e then h e else Inl e | Inr x \<Rightarrow> Inr x)"

lemma catchR_simps [simp]:
  "catchR (Inr x) E h = Inr x"
  "catchR (Inl e) E h = (if E e then h e else Inl e)"
  by (simp_all add: catchR_def)

text \<open>A list comprehension whose body may raise, and a loop of \<open>n\<close> reads.\<close>

fun mapR :: "('a \<Rightarrow> 'b res) \<Rightarrow> 'a list \<Rightarrow> 'b list res" where
  "mapR f [] = Inr []"
| "mapR f (x # xs) = bindR (f x) (\<lambda>y. bindR (mapR f xs) (\<lambda>ys. Inr (y # ys)))"

lemma mapR_Inr_iff: "mapR f xs = Inr ys \<longleftrightarrow> list_all2 (\<lambda>x y. f x = Inr y) xs ys"
  by (induction xs arbitrary: ys) (auto simp: bindR_Inr_iff list_all2_Cons1)

lemma mapR_total: "(\<And>x. x \<in> set xs \<Longrightarrow> f x = Inr (g x)) \<Longrightarrow> mapR f xs = Inr (map g xs)"
  by (induction xs) simp_all

lemma mapR_exact:
  assumes "\<And>x b. f x = Inr b \<longleftrightarrow> P x \<and> b = g x"
  shows "mapR f xs = Inr bs \<longleftrightarrow> (\<forall>x \<in> set xs. P x) \<and> bs = map g xs"
  by (induction xs arbitrary: bs) (auto simp: bindR_Inr_iff assms)

fun repeatR :: "nat \<Rightarrow> ('s \<Rightarrow> ('a \<times> 's) res) \<Rightarrow> 's \<Rightarrow> ('a list \<times> 's) res" where
  "repeatR 0 f s = Inr ([], s)"
| "repeatR (Suc n) f s =
     bindR (f s) (\<lambda>(x, s). bindR (repeatR n f s) (\<lambda>(xs, s). Inr (x # xs, s)))"

text \<open>A condition on an optional value, for the value when there is one.\<close>

definition opt_all :: "('a \<Rightarrow> bool) \<Rightarrow> 'a option \<Rightarrow> bool" where
  "opt_all P x = (case x of None \<Rightarrow> True | Some y \<Rightarrow> P y)"

lemma opt_all_simps [simp]: "opt_all P None" "opt_all P (Some y) = P y"
  by (simp_all add: opt_all_def)

section \<open>Python integers and bytes\<close>

text \<open>\<open>int.from_bytes(b, "big")\<close> and \<open>int.from_bytes(b, "little")\<close>.\<close>

definition be_int :: "bytes \<Rightarrow> int" where
  "be_int b = foldl (\<lambda>acc x. acc * 256 + uint x) 0 b"

definition le_int :: "bytes \<Rightarrow> int" where
  "le_int b = be_int (rev b)"

text \<open>The \<open>w\<close> base-256 digits of an integer, most significant first.\<close>

fun be_digits :: "nat \<Rightarrow> int \<Rightarrow> bytes" where
  "be_digits 0 v = []"
| "be_digits (Suc w) v = be_digits w (v div 256) @ [word_of_int v]"

text \<open>\<open>v.to_bytes(w, "big")\<close>, which raises \<open>OverflowError\<close> when \<open>v\<close> does not fit.\<close>

definition to_bytes_be :: "nat \<Rightarrow> int \<Rightarrow> bytes res" where
  "to_bytes_be w v = (if 0 \<le> v \<and> v < 256 ^ w then Inr (be_digits w v) else Inl (PyE OverflowError))"

definition to_bytes_le :: "nat \<Rightarrow> int \<Rightarrow> bytes res" where
  "to_bytes_le w v = (if 0 \<le> v \<and> v < 256 ^ w then Inr (rev (be_digits w v)) else Inl (PyE OverflowError))"

text \<open>\<open>bytes(n)\<close>: \<open>n\<close> zero bytes.\<close>

definition zeros :: "nat \<Rightarrow> bytes" where
  "zeros n = replicate n 0"

lemma zeros_0 [simp]: "zeros 0 = []"
  by (simp add: zeros_def)

lemma zeros_Suc [simp]: "zeros (Suc n) = 0 # zeros n"
  by (simp add: zeros_def)

lemma length_zeros [simp]: "length (zeros n) = n"
  by (simp add: zeros_def)

lemma be_int_Nil [simp]: "be_int [] = 0"
  by (simp add: be_int_def)

lemma be_int_snoc [simp]: "be_int (b @ [x]) = be_int b * 256 + uint x"
  by (simp add: be_int_def)

lemma be_int_single [simp]: "be_int [x] = uint x"
  by (simp add: be_int_def)

lemma uint_byte_bounds: "0 \<le> uint (x :: byte)" "uint (x :: byte) < 256"
  using uint_bounded [of x] by simp_all

lemma be_int_nonneg [simp]: "0 \<le> be_int b"
  by (induction b rule: rev_induct) (auto simp: uint_byte_bounds)

lemma be_int_less: "be_int b < 256 ^ length b"
proof (induction b rule: rev_induct)
  case Nil
  then show ?case by simp
next
  case (snoc x b)
  then have "be_int b + 1 \<le> 256 ^ length b" by simp
  then have "(be_int b + 1) * 256 \<le> 256 ^ length b * 256" by (intro mult_right_mono) simp_all
  with uint_byte_bounds(2) [of x] show ?case by (simp add: algebra_simps)
qed

lemma be_int_less': "length b = w \<Longrightarrow> be_int b < 256 ^ w"
  using be_int_less by blast

lemma length_be_digits [simp]: "length (be_digits w v) = w"
  by (induction w arbitrary: v) simp_all

lemma be_int_digits: "be_int (be_digits w v) = v mod 256 ^ w"
proof (induction w arbitrary: v)
  case (Suc w)
  have "uint (word_of_int v :: byte) = v mod 256"
    by (simp add: uint_word_of_int)
  moreover have "v div 256 mod 256 ^ w * 256 + v mod 256 = v mod (256 * 256 ^ w)"
    by (simp add: zmod_zmult2_eq)
  ultimately show ?case by (simp add: Suc.IH)
qed simp

lemma be_int_digits_id: "0 \<le> v \<Longrightarrow> v < 256 ^ w \<Longrightarrow> be_int (be_digits w v) = v"
  by (simp add: be_int_digits)

lemma be_digits_be_int: "length b = w \<Longrightarrow> be_digits w (be_int b) = b"
proof (induction b arbitrary: w rule: rev_induct)
  case (snoc x b)
  then obtain w' where w: "w = Suc w'" and len: "length b = w'" by (cases w) auto
  have "(be_int b * 256 + uint x) div 256 = be_int b"
    using uint_byte_bounds [of x] by simp
  moreover have "word_of_int (be_int b * 256 + uint x) = x"
    by (rule word_uint_eqI) (simp add: uint_word_of_int uint_byte_bounds del: wi_hom_syms of_int_add of_int_mult)
  ultimately show ?case
    using snoc.IH [OF len] w by simp
qed simp

lemma be_int_inj: "length a = length b \<Longrightarrow> be_int a = be_int b \<Longrightarrow> a = b"
  by (metis be_digits_be_int)

lemma be_digits_inj:
  "0 \<le> v \<Longrightarrow> v < 256 ^ w \<Longrightarrow> 0 \<le> u \<Longrightarrow> u < 256 ^ w \<Longrightarrow> be_digits w v = be_digits w u \<longleftrightarrow> v = u"
  by (metis be_int_digits_id)

lemma length_eq_digits:
  "length x = w \<longleftrightarrow> (\<exists>v. 0 \<le> v \<and> v < 256 ^ w \<and> x = be_digits w v)"
  by (metis be_digits_be_int be_int_less be_int_nonneg length_be_digits)

lemma to_bytes_be_iff [res_iff]:
  "to_bytes_be w v = Inr b \<longleftrightarrow> 0 \<le> v \<and> v < 256 ^ w \<and> b = be_digits w v"
  by (auto simp: to_bytes_be_def)

lemma to_bytes_le_iff [res_iff]:
  "to_bytes_le w v = Inr b \<longleftrightarrow> 0 \<le> v \<and> v < 256 ^ w \<and> b = rev (be_digits w v)"
  by (auto simp: to_bytes_le_def)

lemma le_int_nonneg [simp]: "0 \<le> le_int b"
  by (simp add: le_int_def)

lemma le_int_less: "le_int b < 256 ^ length b"
  using be_int_less [of "rev b"] by (simp add: le_int_def)

lemma le_int_digits_id: "0 \<le> v \<Longrightarrow> v < 256 ^ w \<Longrightarrow> le_int (rev (be_digits w v)) = v"
  by (simp add: le_int_def be_int_digits_id)

lemma le_int_inj: "length a = length b \<Longrightarrow> le_int a = le_int b \<Longrightarrow> a = b"
  unfolding le_int_def by (metis be_int_inj length_rev rev_rev_ident)

lemma be_int_zeros [simp]: "be_int (zeros n) = 0"
proof (induction n)
  case (Suc n)
  have "zeros (Suc n) = zeros n @ [0]"
    by (simp add: zeros_def replicate_append_same)
  then show ?case using Suc by (simp del: zeros_Suc)
qed (simp add: zeros_def)

lemma be_int_eq_0_iff: "length b = n \<Longrightarrow> be_int b = 0 \<longleftrightarrow> b = zeros n"
  by (metis be_int_inj be_int_zeros length_zeros)

lemma be_digits_0 [simp]: "be_digits n 0 = zeros n"
  by (metis be_int_zeros be_digits_be_int length_zeros)

section \<open>The byte cursor\<close>

text \<open>
  Three modules declare a private cursor class (\<open>wire._Reader\<close>, \<open>persistence._Reader\<close>,
  \<open>inventory._Cursor\<close>): a buffer and a position that only moves forward.  The decoders below carry
  the unread suffix \<open>buf[pos:]\<close> instead; \<open>Wire\<close> relates the two.  A cursor differs from module to
  module only in the exception a short read raises, so what a decoder needs of it is an interface.
\<close>

definition uint_of ::
  "(int \<Rightarrow> bytes \<Rightarrow> (bytes \<times> bytes) res) \<Rightarrow> int \<Rightarrow> bytes \<Rightarrow> (int \<times> bytes) res" where
  "uint_of tk w r = bindR (tk w r) (\<lambda>(x, r). Inr (be_int x, r))"

locale cursor =
  fixes tk :: "int \<Rightarrow> bytes \<Rightarrow> (bytes \<times> bytes) res" and short :: error
  assumes tk_enough:
    "0 \<le> n \<Longrightarrow> n \<le> int (length r) \<Longrightarrow> tk n r = Inr (take (nat n) r, drop (nat n) r)"
  and tk_short: "int (length r) < n \<Longrightarrow> tk n r = Inl short"
begin

lemma take_iff:
  assumes "0 \<le> n"
  shows "tk n r = Inr (x, r') \<longleftrightarrow> r = x @ r' \<and> int (length x) = n"
proof (cases "n \<le> int (length r)")
  case True
  with assms have tk: "tk n r = Inr (take (nat n) r, drop (nat n) r)"
    by (rule tk_enough)
  show ?thesis
  proof
    assume "tk n r = Inr (x, r')"
    then have "x = take (nat n) r" and "r' = drop (nat n) r" using tk by simp_all
    then show "r = x @ r' \<and> int (length x) = n" using assms True by simp
  next
    assume "r = x @ r' \<and> int (length x) = n"
    then show "tk n r = Inr (x, r')" using tk by auto
  qed
next
  case False
  then show ?thesis by (auto simp: tk_short)
qed

lemma take_fail_iff: "0 \<le> n \<Longrightarrow> tk n r = Inl e \<longleftrightarrow> int (length r) < n \<and> e = short"
  by (cases "n \<le> int (length r)") (auto simp: tk_enough tk_short)

lemma uint_iff:
  assumes "0 \<le> w"
  shows "uint_of tk w r = Inr (v, r') \<longleftrightarrow>
     0 \<le> v \<and> v < 256 ^ nat w \<and> r = be_digits (nat w) v @ r'"
proof
  assume "uint_of tk w r = Inr (v, r')"
  then obtain x where "r = x @ r'" "int (length x) = w" "v = be_int x"
    by (auto simp: uint_of_def bindR_Inr_iff take_iff [OF assms])
  then show "0 \<le> v \<and> v < 256 ^ nat w \<and> r = be_digits (nat w) v @ r'"
    by (auto simp: be_int_less' be_digits_be_int)
next
  assume "0 \<le> v \<and> v < 256 ^ nat w \<and> r = be_digits (nat w) v @ r'"
  then show "uint_of tk w r = Inr (v, r')"
    using assms by (simp add: uint_of_def bindR_Inr_iff take_iff be_int_digits_id)
qed

lemma uint_fail_iff: "0 \<le> w \<Longrightarrow> uint_of tk w r = Inl e \<longleftrightarrow> int (length r) < w \<and> e = short"
  by (auto simp: uint_of_def bindR_Inl_iff take_fail_iff)

text \<open>The two reads evaluated on an input that starts with what they want.\<close>

lemma take_append: "int (length x) = n \<Longrightarrow> tk n (x @ r) = Inr (x, r)"
  by (simp add: take_iff)

lemma take_all: "int (length x) = n \<Longrightarrow> tk n x = Inr (x, [])"
  by (simp add: take_iff)

lemma uint_append:
  "w = int k \<Longrightarrow> 0 \<le> v \<Longrightarrow> v < 256 ^ k \<Longrightarrow> uint_of tk w (be_digits k v @ r) = Inr (v, r)"
  by (simp add: uint_iff)

lemma uint_byte: "0 \<le> v \<Longrightarrow> v < 256 \<Longrightarrow> uint_of tk 1 (word_of_int v # r) = Inr (v, r)"
  using uint_append [of 1 1 v r] by simp

lemmas eval = take_append take_all uint_append uint_append [where r = "[]", simplified] uint_byte

text \<open>
  A loop of reads: if one read is exactly "the encoding of a good value, and the rest", so are
  \<open>n\<close> of them.
\<close>

lemma repeat_iff:
  assumes "\<And>r x r'. f r = Inr (x, r') \<longleftrightarrow> good x \<and> r = enc x @ r'"
  shows "repeatR n f r = Inr (xs, r') \<longleftrightarrow>
     length xs = n \<and> (\<forall>x \<in> set xs. good x) \<and> r = concat (map enc xs) @ r'"
proof (induction n arbitrary: r xs)
  case 0
  then show ?case by auto
next
  case (Suc n)
  show ?case
    by (cases xs) (auto simp: bindR_Inr_iff assms Suc.IH)
qed

end

lemma nat_eq_of_int: "int n = w \<Longrightarrow> n = nat w"
  by simp

lemma append_eq_split: "length a = length c \<Longrightarrow> a @ b = c @ d \<longleftrightarrow> a = c \<and> b = d"
  by simp

section \<open>Codecs\<close>

text \<open>
  What every format of the program promises.  An exact codec's decoder accepts exactly the encodings
  of the format's good values; a prefix codec's does so at the front of its input.  From that alone
  follow the round trips in both directions, that no value has two spellings and that no spelling has
  two values.
\<close>

locale exact_codec =
  fixes enc :: "'a \<Rightarrow> bytes res" and good :: "'a \<Rightarrow> bool" and dec :: "bytes \<Rightarrow> 'a res"
  assumes dec_iff: "dec b = Inr x \<longleftrightarrow> good x \<and> enc x = Inr b"
begin

lemma dec_enc: "good x \<Longrightarrow> enc x = Inr b \<Longrightarrow> dec b = Inr x"
  by (simp add: dec_iff)

lemma enc_dec: "dec b = Inr x \<Longrightarrow> enc x = Inr b"
  by (simp add: dec_iff)

lemma one_spelling: "dec b = Inr x \<Longrightarrow> dec c = Inr x \<Longrightarrow> b = c"
  by (simp add: dec_iff)

lemma enc_inj: "good x \<Longrightarrow> good y \<Longrightarrow> enc x = Inr b \<Longrightarrow> enc y = Inr b \<Longrightarrow> x = y"
  by (metis Inr_inject dec_iff)

lemma refuses_iff: "(\<exists>e. dec b = Inl e) \<longleftrightarrow> (\<forall>x. good x \<longrightarrow> enc x \<noteq> Inr b)"
  by (metis Inl_Inr_False dec_iff sumE)

end

locale prefix_codec =
  fixes enc :: "'a \<Rightarrow> bytes res" and good :: "'a \<Rightarrow> bool" and decp :: "bytes \<Rightarrow> ('a \<times> bytes) res"
  assumes decp_iff: "decp b = Inr (x, r) \<longleftrightarrow> good x \<and> (\<exists>e. enc x = Inr e \<and> b = e @ r)"
begin

text \<open>No good encoding is a proper prefix of another, so concatenations parse in one way.\<close>

lemma self_delimiting:
  assumes "good x" "good y" "enc x = Inr e" "enc y = Inr f" "e @ r = f @ s"
  shows "x = y \<and> e = f \<and> r = s"
proof -
  have "decp (e @ r) = Inr (x, r)" and "decp (e @ r) = Inr (y, s)"
    using assms by (auto simp: decp_iff)
  with assms show ?thesis by auto
qed

text \<open>Refusing trailing bytes turns a prefix codec into an exact one.\<close>

lemma exact_of_prefix:
  assumes "\<And>b. dec b = bindR (decp b) (\<lambda>(x, r). if r \<noteq> [] then Inl err else Inr x)"
  shows "exact_codec enc good dec"
  by unfold_locales (auto simp: assms bindR_Inr_iff decp_iff)

end

lemma or_push_bit: "0 \<le> v \<Longrightarrow> v < 2 ^ n \<Longrightarrow> v OR push_bit n x = v + x * 2 ^ n" for v x :: int
proof -
  assume v: "0 \<le> v" "v < 2 ^ n"
  then have t: "take_bit n v = v" by (simp add: take_bit_int_eq_self)
  have "v + push_bit n x = v OR push_bit n x"
    by (rule disjunctive_add_eq_or, rule bit_eqI, subst t [symmetric]) (simp add: bit_simps)
  then show ?thesis by (simp add: push_bit_eq_mult)
qed

section \<open>Cutting a byte string into blocks\<close>

text \<open>\<open>[b[i:i + k] for i in range(0, len(b), k)]\<close>: the last block may be short.\<close>

function blocks_of :: "nat \<Rightarrow> 'a list \<Rightarrow> 'a list list" where
  "blocks_of k xs = (if xs = [] \<or> k = 0 then [] else take k xs # blocks_of k (drop k xs))"
  by pat_completeness auto
termination
  by (relation "measure (\<lambda>(k, xs). length xs)") auto

declare blocks_of.simps [simp del]

lemma blocks_of_Nil [simp]: "blocks_of k [] = []"
  by (simp add: blocks_of.simps)

lemma blocks_of_Cons: "0 < k \<Longrightarrow> xs \<noteq> [] \<Longrightarrow> blocks_of k xs = take k xs # blocks_of k (drop k xs)"
  by (subst blocks_of.simps) simp

lemma concat_blocks_of: "0 < k \<Longrightarrow> concat (blocks_of k xs) = xs"
  by (induction k xs rule: blocks_of.induct) (subst blocks_of.simps, auto)

lemma blocks_of_append:
  "0 < k \<Longrightarrow> length x = k \<Longrightarrow> blocks_of k (x @ xs) = x # blocks_of k xs"
  by (subst blocks_of.simps) auto

lemma blocks_of_concat:
  "0 < k \<Longrightarrow> \<forall>b \<in> set bs. length b = k \<Longrightarrow> blocks_of k (concat bs) = bs"
  by (induction bs) (auto simp: blocks_of_append)

lemma length_blocks_of_dvd:
  "0 < k \<Longrightarrow> k dvd length xs \<Longrightarrow> b \<in> set (blocks_of k xs) \<Longrightarrow> length b = k"
proof (induction k xs rule: blocks_of.induct)
  case (1 k xs)
  show ?case
  proof (cases "xs = []")
    case False
    with "1.prems" have "k \<le> length xs" by (auto dest: dvd_imp_le)
    with "1.prems" False "1.IH" show ?thesis
      by (auto simp: blocks_of.simps [of k xs] dvd_diff_nat)
  qed (use "1.prems" in simp)
qed

lemma length_blocks_of: "0 < k \<Longrightarrow> k dvd length xs \<Longrightarrow> length (blocks_of k xs) = length xs div k"
proof (induction k xs rule: blocks_of.induct)
  case (1 k xs)
  show ?case
  proof (cases "xs = []")
    case False
    with "1.prems" have "k \<le> length xs" by (auto dest: dvd_imp_le)
    with "1.prems" False "1.IH" show ?thesis
      by (simp add: blocks_of.simps [of k xs] dvd_diff_nat le_div_geq)
  qed simp
qed

end
