(* ===== verification/PyDict.thy ===== *)
theory PyDict
  imports Prelude
begin

text \<open>
  Python's \<open>dict\<close>.  Insertion order is observable in this program (eviction takes the oldest stored
  key, the stored formats write entries in store order), so a dict is the list of its items with
  distinct keys.  Assigning to a held key keeps its place, as Python does; the code that wants a
  fresh place deletes first.
\<close>

type_synonym ('k, 'v) dict = "('k \<times> 'v) list"

definition dict_ok :: "('k, 'v) dict \<Rightarrow> bool" where
  "dict_ok d \<longleftrightarrow> distinct (map fst d)"

definition dict_in :: "'k \<Rightarrow> ('k, 'v) dict \<Rightarrow> bool" where
  "dict_in k d \<longleftrightarrow> k \<in> set (map fst d)"

definition dict_get :: "('k, 'v) dict \<Rightarrow> 'k \<Rightarrow> 'v option" where
  "dict_get d k = map_of d k"

definition dict_del :: "'k \<Rightarrow> ('k, 'v) dict \<Rightarrow> ('k, 'v) dict" where
  "dict_del k d = filter (\<lambda>e. fst e \<noteq> k) d"

definition dict_set :: "'k \<Rightarrow> 'v \<Rightarrow> ('k, 'v) dict \<Rightarrow> ('k, 'v) dict" where
  "dict_set k v d =
     (if dict_in k d then map (\<lambda>e. if fst e = k then (k, v) else e) d else d @ [(k, v)])"

definition dict_of :: "('k \<times> 'v) list \<Rightarrow> ('k, 'v) dict" where
  "dict_of items = fold (\<lambda>(k, v). dict_set k v) items []"

section \<open>Laws\<close>

lemma dict_ok_Nil [simp]: "dict_ok []"
  by (simp add: dict_ok_def)

lemma dict_in_Nil [simp]: "\<not> dict_in k []"
  by (simp add: dict_in_def)

lemma dict_ok_del [simp]: "dict_ok d \<Longrightarrow> dict_ok (dict_del k d)"
  by (simp add: dict_ok_def dict_del_def distinct_map_filter)

lemma dict_in_del [simp]: "dict_in j (dict_del k d) \<longleftrightarrow> j \<noteq> k \<and> dict_in j d"
  by (auto simp: dict_in_def dict_del_def)

lemma map_fst_dict_set:
  "map fst (dict_set k v d) = (if dict_in k d then map fst d else map fst d @ [k])"
  by (auto simp: dict_set_def)

lemma dict_in_set [simp]: "dict_in j (dict_set k v d) \<longleftrightarrow> j = k \<or> dict_in j d"
  unfolding dict_in_def [of j] by (auto simp: map_fst_dict_set dict_in_def)

lemma dict_ok_set [simp]: "dict_ok d \<Longrightarrow> dict_ok (dict_set k v d)"
  by (auto simp: dict_ok_def map_fst_dict_set dict_in_def)

lemma dict_in_iff_get: "dict_in k d \<longleftrightarrow> (\<exists>v. dict_get d k = Some v)"
  by (simp add: dict_in_def dict_get_def flip: not_None_eq) (metis map_of_eq_None_iff)

lemma dict_get_del: "dict_get (dict_del k d) j = (if j = k then None else dict_get d j)"
  by (induction d) (auto simp: dict_get_def dict_del_def)

lemma map_of_replace:
  "map_of (map (\<lambda>e. if fst e = k then (k, v) else e) d) j =
     (if j = k then map_option (\<lambda>_. v) (map_of d k) else map_of d j)"
  by (induction d) auto

lemma dict_get_set: "dict_get (dict_set k v d) j = (if j = k then Some v else dict_get d j)"
proof (cases "dict_in k d")
  case True
  then obtain u where "map_of d k = Some u" by (auto simp: dict_in_iff_get dict_get_def)
  with True show ?thesis by (simp add: dict_set_def dict_get_def map_of_replace)
next
  case False
  then have "map_of d k = None" by (simp add: dict_in_def map_of_eq_None_iff)
  with False show ?thesis by (auto simp: dict_set_def dict_get_def map_add_def split: option.splits)
qed

lemma length_dict_del_le: "length (dict_del k d) \<le> length d"
  by (simp add: dict_del_def)

lemma length_dict_set: "length (dict_set k v d) = (if dict_in k d then length d else Suc (length d))"
  by (simp add: dict_set_def)

lemma dict_del_absent: "\<not> dict_in k d \<Longrightarrow> dict_del k d = d"
  unfolding dict_del_def dict_in_def by (auto intro: filter_True)

lemma length_dict_del:
  "dict_ok d \<Longrightarrow> length (dict_del k d) = (if dict_in k d then length d - 1 else length d)"
proof (induction d)
  case (Cons e d)
  then have ok: "dict_ok d" and new: "fst e \<notin> set (map fst d)" by (auto simp: dict_ok_def)
  show ?case
  proof (cases "fst e = k")
    case True
    with new have "dict_del k d = d" by (intro dict_del_absent) (simp add: dict_in_def)
    with True show ?thesis by (simp add: dict_del_def dict_in_def)
  next
    case False
    have "dict_in k d \<Longrightarrow> length d \<noteq> 0" by (auto simp: dict_in_def)
    with False Cons.IH [OF ok] show ?thesis by (auto simp: dict_del_def dict_in_def)
  qed
qed (simp add: dict_del_def dict_in_def)

lemma dict_ok_filter [simp]: "dict_ok d \<Longrightarrow> dict_ok (filter P d)"
  by (simp add: dict_ok_def distinct_map_filter)

lemma dict_del_append [simp]: "dict_del k (a @ b) = dict_del k a @ dict_del k b"
  by (simp add: dict_del_def)

lemma set_dict_del: "set (dict_del k d) = {e \<in> set d. fst e \<noteq> k}"
  by (auto simp: dict_del_def)

lemma set_dict_set: "set (dict_set k v d) = {e \<in> set d. fst e \<noteq> k} \<union> {(k, v)}"
  by (force simp: dict_set_def dict_in_def)

lemma dict_get_Some_in: "dict_get d k = Some v \<Longrightarrow> (k, v) \<in> set d"
  by (simp add: dict_get_def map_of_SomeD)

lemma dict_get_iff: "dict_ok d \<Longrightarrow> dict_get d k = Some v \<longleftrightarrow> (k, v) \<in> set d"
  by (simp add: dict_get_def dict_ok_def)

lemma fold_dict_set_ok: "dict_ok d \<Longrightarrow> dict_ok (fold (\<lambda>(k, v). dict_set k v) items d)"
  by (induction items arbitrary: d) auto

lemma dict_ok_of [simp]: "dict_ok (dict_of items)"
  by (simp add: dict_of_def fold_dict_set_ok)

lemma fold_dict_set_distinct:
  "distinct (map fst (d @ items)) \<Longrightarrow> fold (\<lambda>(k, v). dict_set k v) items d = d @ items"
proof (induction items arbitrary: d)
  case (Cons e items)
  obtain k v where e: "e = (k, v)" by (cases e)
  with Cons.prems have "\<not> dict_in k d" by (auto simp: dict_in_def)
  then have step: "dict_set k v d = d @ [(k, v)]" by (simp add: dict_set_def)
  have "distinct (map fst ((d @ [(k, v)]) @ items))" using Cons.prems e by auto
  then show ?case using Cons.IH [of "d @ [(k, v)]"] e step by simp
qed simp

lemma dict_of_distinct: "distinct (map fst items) \<Longrightarrow> dict_of items = items"
  using fold_dict_set_distinct [of "[]" items] by (simp add: dict_of_def)

text \<open>Deleting the keys of a list of items, as eviction and the sparse ratchet do.\<close>

lemma fold_dict_del:
  "fold (\<lambda>(k, _). dict_del k) vs d = filter (\<lambda>e. fst e \<notin> fst ` set vs) d"
proof (induction vs arbitrary: d)
  case (Cons v vs)
  obtain k w where v: "v = (k, w)" by (cases v)
  show ?case by (simp add: Cons.IH v) (auto simp: dict_del_def intro!: filter_cong)
qed simp

text \<open>In a dict an entry is known by its key, so removing keys removes exactly the chosen entries.\<close>

lemma dict_ok_mem_key: "dict_ok d \<Longrightarrow> e \<in> set d \<Longrightarrow> v \<in> set d \<Longrightarrow> fst e = fst v \<Longrightarrow> e = v"
  by (metis dict_get_iff prod.collapse option.inject)

lemma dict_drop_keys:
  assumes "dict_ok d" "set vs \<subseteq> set d" "distinct vs"
  shows "set (filter (\<lambda>e. fst e \<notin> fst ` set vs) d) = set d - set vs"
    and "length (filter (\<lambda>e. fst e \<notin> fst ` set vs) d) = length d - length vs"
proof -
  have dist: "distinct d" using assms(1) by (auto simp: dict_ok_def distinct_map)
  have "fst e \<notin> fst ` set vs \<longleftrightarrow> e \<notin> set vs" if "e \<in> set d" for e
  proof
    assume "e \<notin> set vs"
    then have "fst v \<noteq> fst e" if "v \<in> set vs" for v
      using that dict_ok_mem_key [OF assms(1) \<open>e \<in> set d\<close>, of v] assms(2) by auto
    then show "fst e \<notin> fst ` set vs" by force
  qed auto
  then show s: "set (filter (\<lambda>e. fst e \<notin> fst ` set vs) d) = set d - set vs" by auto
  have "length (filter (\<lambda>e. fst e \<notin> fst ` set vs) d) = card (set d - set vs)"
    unfolding s [symmetric] by (rule distinct_card [symmetric]) (rule distinct_filter [OF dist])
  also have "\<dots> = length d - length vs"
    using assms(2,3) dist by (simp add: card_Diff_subset distinct_card)
  finally show "length (filter (\<lambda>e. fst e \<notin> fst ` set vs) d) = length d - length vs" .
qed

section \<open>Runs of numbered keys\<close>

text \<open>
  Both ratchets key a stored message key by a chain and a number, and both replace a run of numbers
  \<open>a <= n < b\<close> of one chain at a time: the store without that run, and its size.
\<close>

definition outside_run :: "'a \<Rightarrow> int \<Rightarrow> int \<Rightarrow> ('a \<times> int, 'v) dict \<Rightarrow> ('a \<times> int, 'v) dict" where
  "outside_run p a b = filter (\<lambda>((q, n), _). \<not> (q = p \<and> a \<le> n \<and> n < b))"

lemma length_inside_run:
  assumes "dict_ok st"
  shows "length (filter (\<lambda>((d, n), _). d = dh \<and> a \<le> n \<and> n < b) st) =
     length (filter (\<lambda>n. dict_in (dh, n) st) [a..b - 1])" (is "length ?l = length ?r")
proof -
  have l: "distinct (map fst ?l)" using assms by (simp add: dict_ok_def distinct_map_filter)
  have r: "distinct (map (Pair dh) ?r)" by (simp add: distinct_map inj_on_def)
  have "set (map fst ?l) = set (map (Pair dh) ?r)"
    by (auto simp: dict_in_def image_iff) (rule rev_bexI, assumption, simp)
  then show ?thesis
    using distinct_card [OF l] distinct_card [OF r] by (simp only: length_map)
qed

lemma length_outside_run:
  assumes "dict_ok st" "a \<le> b"
  shows "length (outside_run p a b st) + nat (b - a) =
     length st + length (filter (\<lambda>n. \<not> dict_in (p, n) st) [a..b - 1])"
proof -
  let ?in = "\<lambda>((q, n), _). q = p \<and> a \<le> n \<and> n < b"
  have "length (outside_run p a b st) + length (filter ?in st) = length st"
    unfolding outside_run_def
    using sum_length_filter_compl [of ?in st] by (simp add: case_prod_unfold add.commute)
  moreover have "length (filter (\<lambda>n. dict_in (p, n) st) [a..b - 1])
        + length (filter (\<lambda>n. \<not> dict_in (p, n) st) [a..b - 1]) = nat (b - a)"
    using sum_length_filter_compl [of "\<lambda>n. dict_in (p, n) st" "[a..b - 1]"] by simp
  ultimately show ?thesis by (simp add: length_inside_run [OF assms(1)])
qed

lemma outside_run_refl: "outside_run p a a st = st"
  by (auto simp: outside_run_def intro: filter_True)

lemma set_outside_run:
  "set (outside_run p a b st) = {((q, n), v) \<in> set st. \<not> (q = p \<and> a \<le> n \<and> n < b)}"
  by (auto simp: outside_run_def)

lemma dict_ok_outside_run: "dict_ok st \<Longrightarrow> dict_ok (outside_run p a b st)"
  by (simp add: outside_run_def)

lemma fold_del_run: "fold (\<lambda>m. dict_del (p, m)) [a..b - 1] st = outside_run p a b st"
proof -
  have "fold (\<lambda>m. dict_del (p, m)) ms st = filter (\<lambda>e. fst e \<notin> Pair p ` set ms) st" for ms
  proof (induction ms arbitrary: st)
    case (Cons m ms)
    show ?case by (simp add: Cons.IH) (auto simp: dict_del_def intro!: filter_cong)
  qed simp
  then show ?thesis by (auto simp: outside_run_def intro!: filter_cong)
qed

section \<open>Dicts as maps\<close>

text \<open>The interface the ratchets' stores rely on: a finite map that also keeps an order.\<close>

locale key_store =
  fixes get :: "'d \<Rightarrow> 'k \<Rightarrow> 'v option"
    and put :: "'k \<Rightarrow> 'v \<Rightarrow> 'd \<Rightarrow> 'd"
    and del :: "'k \<Rightarrow> 'd \<Rightarrow> 'd"
    and ok :: "'d \<Rightarrow> bool"
  assumes get_put: "ok d \<Longrightarrow> get (put k v d) j = (if j = k then Some v else get d j)"
    and get_del: "ok d \<Longrightarrow> get (del k d) j = (if j = k then None else get d j)"
    and ok_put: "ok d \<Longrightarrow> ok (put k v d)"
    and ok_del: "ok d \<Longrightarrow> ok (del k d)"
begin

text \<open>Taking a key out for good: after a use-and-remove no later read finds it.\<close>

lemma get_after_del: "ok d \<Longrightarrow> get (del k d) k = None"
  by (simp add: get_del)

lemma get_put_fresh: "ok d \<Longrightarrow> get (put k v (del k d)) j = (if j = k then Some v else get d j)"
  by (simp add: get_put get_del ok_del)

lemma get_puts:
  "ok d \<Longrightarrow> get (fold (\<lambda>(k, v). put k v) kvs d) j =
     (case map_of (rev kvs) j of None \<Rightarrow> get d j | Some v \<Rightarrow> Some v)"
proof (induction kvs arbitrary: d)
  case (Cons kv kvs)
  obtain k v where kv: "kv = (k, v)" by (cases kv)
  show ?case
    using Cons.IH [OF ok_put [OF Cons.prems]] Cons.prems
    by (auto simp: kv get_put map_add_def split: option.splits)
qed simp

end

interpretation dict_store: key_store dict_get dict_set dict_del dict_ok
  by unfold_locales (auto simp: dict_get_set dict_get_del)

end
