(* ===== verification/Constants.thy ===== *)
theory Constants
  imports PyDict
begin

text \<open>
  The reader's constants (\<open>tacenta_reader/constants.py\<close>), in the module's order and under its
  names.  Widths and tag bytes are simplification rules; the labels, the field prime and the
  counter ceilings stay folded unless a proof asks for them through \<open>const_defs\<close>.
\<close>

named_theorems const_defs \<open>the values of the folded constants\<close>

definition ascii :: "string \<Rightarrow> bytes" where
  "ascii s = map of_char s"

lemma length_ascii [simp]: "length (ascii s) = length s"
  by (simp add: ascii_def)

section \<open>Wire-sensitive values\<close>

definition VERSION :: byte where [simp]: "VERSION = 0x01"
definition TYPE_RATCHET :: byte where [simp]: "TYPE_RATCHET = 0x01"
definition TYPE_INITIAL :: byte where [simp]: "TYPE_INITIAL = 0x02"
definition TYPE_BUNDLE :: byte where [simp]: "TYPE_BUNDLE = 0x03"
definition ENCODE_EC_BYTE :: byte where [simp]: "ENCODE_EC_BYTE = 0x05"
definition ENCODE_KEM_BYTE :: byte where [simp]: "ENCODE_KEM_BYTE = 0x08"
definition EC_KEY_LEN :: int where [simp]: "EC_KEY_LEN = 32"
definition ENCODED_EC_LEN :: int where [simp]: "ENCODED_EC_LEN = 33"
definition MLKEM1024_EK_LEN :: int where [simp]: "MLKEM1024_EK_LEN = 1568"
definition MLKEM1024_CT_LEN :: int where [simp]: "MLKEM1024_CT_LEN = 1568"
definition SIGNATURE_LEN :: int where [simp]: "SIGNATURE_LEN = 64"
definition COMPOSITE_LEN :: int where [simp]: "COMPOSITE_LEN = 102"
definition CHUNK_BYTES :: int where [simp]: "CHUNK_BYTES = 32"
definition AG_NONE :: int where [simp]: "AG_NONE = 0x00"
definition AG_HDR :: int where [simp]: "AG_HDR = 0x01"
definition AG_EK :: int where [simp]: "AG_EK = 0x02"
definition AG_EK_CT1_ACK :: int where [simp]: "AG_EK_CT1_ACK = 0x03"
definition AG_CT1 :: int where [simp]: "AG_CT1 = 0x04"
definition AG_CT2 :: int where [simp]: "AG_CT2 = 0x05"

definition AG_TYPES :: "int set" where
  [simp]: "AG_TYPES = {AG_NONE, AG_HDR, AG_EK, AG_EK_CT1_ACK, AG_CT1, AG_CT2}"

definition PRESENT :: int where [simp]: "PRESENT = 0x01"
definition ABSENT :: int where [simp]: "ABSENT = 0x00"
definition ABSENT_ID :: int where [simp]: "ABSENT_ID = 0"
definition AEAD_TAG_LEN :: int where [simp]: "AEAD_TAG_LEN = 32"
definition AES_BLOCK :: int where [simp]: "AES_BLOCK = 16"

section \<open>Derivation labels\<close>

definition RK_INFO :: bytes where "RK_INFO = ascii ''Tacenta RK''"
definition MK_INFO :: bytes where "MK_INFO = ascii ''Tacenta MK''"
definition SK_INFO :: bytes where "SK_INFO = ascii ''Tacenta_CURVE25519_SHA-256_ML-KEM-1024''"
definition COMBINE_INFO :: bytes where "COMBINE_INFO = ascii ''Tacenta_CURVE25519_SHA-256_MLKEM1024''"
definition SPLIT_INFO :: bytes where "SPLIT_INFO = COMBINE_INFO @ ascii '':Split''"
definition BRAID_PROTOCOL_INFO :: bytes where "BRAID_PROTOCOL_INFO = ascii ''Tacenta_MLKEM1024_SHA-256''"
definition BRAID_SCKA_KEY :: bytes where "BRAID_SCKA_KEY = ascii '':SCKA Key''"
definition BRAID_AUTH_UPDATE :: bytes where "BRAID_AUTH_UPDATE = ascii '':Authenticator Update''"
definition SPQR_PROTOCOL_INFO :: bytes where "SPQR_PROTOCOL_INFO = ascii ''Tacenta SPQR''"
definition SPQR_CHAIN_START :: bytes where "SPQR_CHAIN_START = ascii ''Chain Start''"
definition SPQR_ROOT :: bytes where "SPQR_ROOT = ascii ''Root''"
definition SPQR_CHAIN :: bytes where "SPQR_CHAIN = ascii ''Chain''"
definition SPQR_SEPARATOR :: bytes where "SPQR_SEPARATOR = []"
definition PQXDH_F :: bytes where "PQXDH_F = replicate 32 0xFF"
definition APP_SIGNATURE_LABEL :: bytes where
  "APP_SIGNATURE_LABEL = ascii ''tacenta:application-signature:v1''"
definition APP_SIGNATURE_PREFIX :: bytes where "APP_SIGNATURE_PREFIX = APP_SIGNATURE_LABEL @ [0xFF]"
definition PAIR_DIGEST_LABEL :: bytes where
  "PAIR_DIGEST_LABEL = ascii ''Tacenta:identity:pair-digest:v1'' @ [0xFF]"
definition VERIFICATION_NUMBER_DIGITS :: nat where [simp]: "VERIFICATION_NUMBER_DIGITS = 60"
definition BRAID_EKHEADER :: bytes where "BRAID_EKHEADER = ascii '':ekheader''"
definition BRAID_CIPHERTEXT :: bytes where "BRAID_CIPHERTEXT = ascii '':ciphertext''"
definition LAST_RESORT_HANDSHAKE_LABEL :: bytes where
  "LAST_RESORT_HANDSHAKE_LABEL = ascii ''tacenta last-resort handshake v2''"

text \<open>The module asserts this when it is imported.\<close>

lemma pair_digest_label_length: "length PAIR_DIGEST_LABEL = 32"
  by (simp add: PAIR_DIGEST_LABEL_def)

section \<open>The field, the bounds and the counters\<close>

definition CURVE25519_P :: int where [const_defs]: "CURVE25519_P = 2 ^ 255 - 19"

definition MAX_SKIP :: int where [const_defs]: "MAX_SKIP = 1000"
definition MAX_SKIPPED_STORE :: int where [const_defs]: "MAX_SKIPPED_STORE = 2000"
definition MAX_SKIPPED_AGE :: int where [const_defs]: "MAX_SKIPPED_AGE = 1000"
definition EPOCHS_KEPT :: int where [const_defs]: "EPOCHS_KEPT = 2"
definition MAX_CODEWORDS :: int where [const_defs]: "MAX_CODEWORDS = 65536"
definition MAX_LAST_RESORT_SEEN :: int where [const_defs]: "MAX_LAST_RESORT_SEEN = 1024"

definition U16_MAX :: int where [const_defs]: "U16_MAX = 2 ^ 16 - 1"
definition U32_MAX :: int where [const_defs]: "U32_MAX = 2 ^ 32 - 1"
definition U64_MAX :: int where [const_defs]: "U64_MAX = 2 ^ 64 - 1"
definition MAX_EVENTS :: int where [const_defs]: "MAX_EVENTS = U32_MAX - 1"
definition GF_POLY :: int where [const_defs]: "GF_POLY = 0x1100B"

definition PB_MAX_MESSAGE_LEN :: int where [const_defs]: "PB_MAX_MESSAGE_LEN = 16384"
definition PB_MAX_FIELD_NUMBER :: int where [const_defs]: "PB_MAX_FIELD_NUMBER = 15"
definition PB_MAX_FIELDS :: int where [const_defs]: "PB_MAX_FIELDS = 32"
definition PB_MAX_VARINT_BYTES :: nat where [const_defs]: "PB_MAX_VARINT_BYTES = 5"
definition PB_MAX_U32 :: int where [const_defs]: "PB_MAX_U32 = U32_MAX"

section \<open>Storage formats\<close>

definition STATE_VERSION :: byte where [simp]: "STATE_VERSION = 0x01"
definition SESSION_VERSION :: byte where [simp]: "SESSION_VERSION = 0x01"
definition PREKEY_STORE_VERSION :: byte where [simp]: "PREKEY_STORE_VERSION = 0x05"
definition PREKEY_STORE_VERSIONS_READ :: "byte set" where
  [simp]: "PREKEY_STORE_VERSIONS_READ = {0x01, 0x02, 0x03, 0x04, 0x05}"
definition LABELS_TACENTA :: int where [simp]: "LABELS_TACENTA = 0x00"
definition DIRECTION_A2B :: int where [simp]: "DIRECTION_A2B = 0x00"
definition DIRECTION_B2A :: int where [simp]: "DIRECTION_B2A = 0x01"
definition BRAID_HEADER_LEN :: int where [simp]: "BRAID_HEADER_LEN = 64"
definition BRAID_EK_VECTOR_LEN :: int where [simp]: "BRAID_EK_VECTOR_LEN = 1536"
definition BRAID_CT1_LEN :: int where [simp]: "BRAID_CT1_LEN = 1408"
definition BRAID_CT2_LEN :: int where [simp]: "BRAID_CT2_LEN = 160"
definition BRAID_MAC_LEN :: int where [simp]: "BRAID_MAC_LEN = 32"
definition BRAID_KEY_PAIR_LEN :: int where [simp]: "BRAID_KEY_PAIR_LEN = 11872"
definition BRAID_ENCAPS_LEN :: int where [simp]: "BRAID_ENCAPS_LEN = 2592"
definition BRAID_MAX_TAG :: int where [simp]: "BRAID_MAX_TAG = 11"
definition BRAID_FAILED_TAG :: int where [simp]: "BRAID_FAILED_TAG = 11"
definition BRAID_HDR_VALUE_LEN :: int where
  [simp]: "BRAID_HDR_VALUE_LEN = BRAID_HEADER_LEN + BRAID_MAC_LEN"
definition BRAID_CT2_VALUE_LEN :: int where
  [simp]: "BRAID_CT2_VALUE_LEN = BRAID_CT2_LEN + BRAID_MAC_LEN"
definition ERASURE_MAX_NEEDED :: int where [simp]: "ERASURE_MAX_NEEDED = 65536"
definition ERASURE_MAX_SIZE :: int where [simp]: "ERASURE_MAX_SIZE = 65536 * CHUNK_BYTES"
definition KEM_DK_LEN :: int where [simp]: "KEM_DK_LEN = 3168"
definition KEM_EK_LEN :: int where [simp]: "KEM_EK_LEN = 1568"
definition KEM_PAIR_LEN :: int where [simp]: "KEM_PAIR_LEN = KEM_DK_LEN + KEM_EK_LEN"
definition MLKEM_Q :: int where [simp]: "MLKEM_Q = 3329"

lemma curve25519_p_less: "CURVE25519_P < 256 ^ 32"
  by (simp add: const_defs)

end
