(* ===== verification/Hashes.thy ===== *)
theory Hashes
  imports Constants
begin

text \<open>
  The hash functions the reader takes from Python's standard library (\<open>hashlib\<close>): SHA-256 and
  SHA-512 (FIPS 180-4), SHA3-256, SHA3-512 and SHAKE256 (FIPS 202).  Nothing in the development
  depends on more than their output lengths; they are written out so that every definition above
  them computes.
\<close>

section \<open>SHA-256\<close>

text \<open>
  The round constants are the leading fractional bits of the cube roots of the first primes, the
  initial values those of the square roots, in decimal.
\<close>

definition sha256_K :: "32 word list" where
  "sha256_K = [
     1116352408, 1899447441, 3049323471, 3921009573, 961987163, 1508970993, 2453635748, 2870763221,
     3624381080, 310598401, 607225278, 1426881987, 1925078388, 2162078206, 2614888103, 3248222580,
     3835390401, 4022224774, 264347078, 604807628, 770255983, 1249150122, 1555081692, 1996064986,
     2554220882, 2821834349, 2952996808, 3210313671, 3336571891, 3584528711, 113926993, 338241895,
     666307205, 773529912, 1294757372, 1396182291, 1695183700, 1986661051, 2177026350, 2456956037,
     2730485921, 2820302411, 3259730800, 3345764771, 3516065817, 3600352804, 4094571909, 275423344,
     430227734, 506948616, 659060556, 883997877, 958139571, 1322822218, 1537002063, 1747873779,
     1955562222, 2024104815, 2227730452, 2361852424, 2428436474, 2756734187, 3204031479, 3329325298]"

definition sha256_H0 :: "32 word list" where
  "sha256_H0 = [
     1779033703, 3144134277, 1013904242, 2773480762, 1359893119, 2600822924, 528734635, 1541459225]"

definition sha2_padding :: "nat \<Rightarrow> nat \<Rightarrow> bytes \<Rightarrow> bytes" where
  "sha2_padding block lenbytes m =
     m @ [0x80] @ zeros (nat ((int block - 1 - int lenbytes - int (length m)) mod int block))
       @ be_digits lenbytes (8 * int (length m))"

fun sha256_schedule :: "nat \<Rightarrow> 32 word list \<Rightarrow> 32 word list" where
  "sha256_schedule 0 w = w"
| "sha256_schedule (Suc n) w =
     (let t = length w; a = w ! (t - 15); b = w ! (t - 2);
          s0 = word_rotr 7 a XOR word_rotr 18 a XOR drop_bit 3 a;
          s1 = word_rotr 17 b XOR word_rotr 19 b XOR drop_bit 10 b
      in sha256_schedule n (w @ [w ! (t - 16) + s0 + w ! (t - 7) + s1]))"

fun sha256_round :: "32 word list \<Rightarrow> 32 word \<times> 32 word \<Rightarrow> 32 word list" where
  "sha256_round [a, b, c, d, e, f, g, h] (k, w) =
     (let S1 = word_rotr 6 e XOR word_rotr 11 e XOR word_rotr 25 e;
          ch = (e AND f) XOR (NOT e AND g);
          t1 = h + S1 + ch + k + w;
          S0 = word_rotr 2 a XOR word_rotr 13 a XOR word_rotr 22 a;
          maj = (a AND b) XOR (a AND c) XOR (b AND c);
          t2 = S0 + maj
      in [t1 + t2, a, b, c, d + t1, e, f, g])"
| "sha256_round s _ = s"

definition sha256_block :: "32 word list \<Rightarrow> bytes \<Rightarrow> 32 word list" where
  "sha256_block H blk =
     (let w = sha256_schedule 48 (map (\<lambda>b. word_of_int (be_int b)) (blocks_of 4 blk))
      in map2 (+) H (foldl sha256_round H (zip sha256_K w)))"

definition sha256 :: "bytes \<Rightarrow> bytes" where
  "sha256 m = concat (map (\<lambda>w. be_digits 4 (uint w))
     (foldl sha256_block sha256_H0 (blocks_of 64 (sha2_padding 64 8 m))))"

section \<open>SHA-512\<close>

definition sha512_K :: "64 word list" where
  "sha512_K = [
     4794697086780616226, 8158064640168781261, 13096744586834688815, 16840607885511220156,
     4131703408338449720, 6480981068601479193, 10538285296894168987, 12329834152419229976,
     15566598209576043074, 1334009975649890238, 2608012711638119052, 6128411473006802146,
     8268148722764581231, 9286055187155687089, 11230858885718282805, 13951009754708518548,
     16472876342353939154, 17275323862435702243, 1135362057144423861, 2597628984639134821,
     3308224258029322869, 5365058923640841347, 6679025012923562964, 8573033837759648693,
     10970295158949994411, 12119686244451234320, 12683024718118986047, 13788192230050041572,
     14330467153632333762, 15395433587784984357, 489312712824947311, 1452737877330783856,
     2861767655752347644, 3322285676063803686, 5560940570517711597, 5996557281743188959,
     7280758554555802590, 8532644243296465576, 9350256976987008742, 10552545826968843579,
     11727347734174303076, 12113106623233404929, 14000437183269869457, 14369950271660146224,
     15101387698204529176, 15463397548674623760, 17586052441742319658, 1182934255886127544,
     1847814050463011016, 2177327727835720531, 2830643537854262169, 3796741975233480872,
     4115178125766777443, 5681478168544905931, 6601373596472566643, 7507060721942968483,
     8399075790359081724, 8693463985226723168, 9568029438360202098, 10144078919501101548,
     10430055236837252648, 11840083180663258601, 13761210420658862357, 14299343276471374635,
     14566680578165727644, 15097957966210449927, 16922976911328602910, 17689382322260857208,
     500013540394364858, 748580250866718886, 1242879168328830382, 1977374033974150939,
     2944078676154940804, 3659926193048069267, 4368137639120453308, 4836135668995329356,
     5532061633213252278, 6448918945643986474, 6902733635092675308, 7801388544844847127]"

definition sha512_H0 :: "64 word list" where
  "sha512_H0 = [
     7640891576956012808, 13503953896175478587, 4354685564936845355, 11912009170470909681,
     5840696475078001361, 11170449401992604703, 2270897969802886507, 6620516959819538809]"

fun sha512_schedule :: "nat \<Rightarrow> 64 word list \<Rightarrow> 64 word list" where
  "sha512_schedule 0 w = w"
| "sha512_schedule (Suc n) w =
     (let t = length w; a = w ! (t - 15); b = w ! (t - 2);
          s0 = word_rotr 1 a XOR word_rotr 8 a XOR drop_bit 7 a;
          s1 = word_rotr 19 b XOR word_rotr 61 b XOR drop_bit 6 b
      in sha512_schedule n (w @ [w ! (t - 16) + s0 + w ! (t - 7) + s1]))"

fun sha512_round :: "64 word list \<Rightarrow> 64 word \<times> 64 word \<Rightarrow> 64 word list" where
  "sha512_round [a, b, c, d, e, f, g, h] (k, w) =
     (let S1 = word_rotr 14 e XOR word_rotr 18 e XOR word_rotr 41 e;
          ch = (e AND f) XOR (NOT e AND g);
          t1 = h + S1 + ch + k + w;
          S0 = word_rotr 28 a XOR word_rotr 34 a XOR word_rotr 39 a;
          maj = (a AND b) XOR (a AND c) XOR (b AND c);
          t2 = S0 + maj
      in [t1 + t2, a, b, c, d + t1, e, f, g])"
| "sha512_round s _ = s"

definition sha512_block :: "64 word list \<Rightarrow> bytes \<Rightarrow> 64 word list" where
  "sha512_block H blk =
     (let w = sha512_schedule 64 (map (\<lambda>b. word_of_int (be_int b)) (blocks_of 8 blk))
      in map2 (+) H (foldl sha512_round H (zip sha512_K w)))"

definition sha512 :: "bytes \<Rightarrow> bytes" where
  "sha512 m = concat (map (\<lambda>w. be_digits 8 (uint w))
     (foldl sha512_block sha512_H0 (blocks_of 128 (sha2_padding 128 16 m))))"

section \<open>The Keccak functions\<close>

text \<open>The state is 25 lanes of 64 bits, lane \<open>(x, y)\<close> at index \<open>x + 5 * y\<close>.\<close>

definition keccak_RC :: "64 word list" where
  "keccak_RC = [
     0x0000000000000001, 0x0000000000008082, 0x800000000000808a, 0x8000000080008000,
     0x000000000000808b, 0x0000000080000001, 0x8000000080008081, 0x8000000000008009,
     0x000000000000008a, 0x0000000000000088, 0x0000000080008009, 0x000000008000000a,
     0x000000008000808b, 0x800000000000008b, 0x8000000000008089, 0x8000000000008003,
     0x8000000000008002, 0x8000000000000080, 0x000000000000800a, 0x800000008000000a,
     0x8000000080008081, 0x8000000000008080, 0x0000000080000001, 0x8000000080008008]"

definition keccak_rot :: "nat list" where
  "keccak_rot =
     [0, 1, 62, 28, 27, 36, 44, 6, 55, 20, 3, 10, 43, 25, 39, 41, 45, 15, 21, 8, 18, 2, 61, 56, 14]"

definition keccak_round :: "64 word list \<Rightarrow> 64 word \<Rightarrow> 64 word list" where
  "keccak_round A rc =
     (let C = map (\<lambda>x. A ! x XOR A ! (x + 5) XOR A ! (x + 10) XOR A ! (x + 15) XOR A ! (x + 20)) [0..<5];
          D = map (\<lambda>x. C ! ((x + 4) mod 5) XOR word_rotl 1 (C ! ((x + 1) mod 5))) [0..<5];
          R = map (\<lambda>i. word_rotl (keccak_rot ! i) (A ! i XOR D ! (i mod 5))) [0..<25];
          \<comment> \<open>pi: \<open>B[x, y] = R[x + 3 y, x]\<close>\<close>
          B = map (\<lambda>i. let x = i mod 5; y = i div 5 in R ! ((x + 3 * y) mod 5 + 5 * x)) [0..<25];
          E = map (\<lambda>i. let x = i mod 5; y = i div 5 in
                 B ! i XOR (NOT (B ! ((x + 1) mod 5 + 5 * y)) AND B ! ((x + 2) mod 5 + 5 * y))) [0..<25]
      in E[0 := E ! 0 XOR rc])"

definition keccak_f :: "64 word list \<Rightarrow> 64 word list" where
  "keccak_f A = foldl keccak_round A keccak_RC"

definition le_lane :: "bytes \<Rightarrow> 64 word" where
  "le_lane b = word_of_int (le_int b)"

definition keccak_absorb :: "nat \<Rightarrow> 64 word list \<Rightarrow> bytes \<Rightarrow> 64 word list" where
  "keccak_absorb rate A blk =
     (let L = map le_lane (blocks_of 8 blk)
      in keccak_f (map2 (XOR) (take (rate div 8) A) L @ drop (rate div 8) A))"

definition keccak_pad :: "nat \<Rightarrow> byte \<Rightarrow> bytes \<Rightarrow> bytes" where
  "keccak_pad rate suffix m =
     (let q = rate - length m mod rate
      in if q = 1 then m @ [suffix XOR 0x80] else m @ [suffix] @ zeros (q - 2) @ [0x80])"

definition keccak_bytes :: "64 word list \<Rightarrow> bytes" where
  "keccak_bytes A = concat (map (\<lambda>w. rev (be_digits 8 (uint w))) A)"

text \<open>\<open>n\<close> blocks of output, cut to the length asked for.\<close>

fun keccak_squeeze :: "nat \<Rightarrow> nat \<Rightarrow> 64 word list \<Rightarrow> bytes" where
  "keccak_squeeze 0 rate A = []"
| "keccak_squeeze (Suc n) rate A = take rate (keccak_bytes A) @ keccak_squeeze n rate (keccak_f A)"

definition keccak :: "nat \<Rightarrow> byte \<Rightarrow> nat \<Rightarrow> bytes \<Rightarrow> bytes" where
  "keccak rate suffix outlen m =
     (let A = foldl (keccak_absorb rate) (replicate 25 0) (blocks_of rate (keccak_pad rate suffix m))
      in take outlen (keccak_squeeze (outlen div rate + 1) rate A))"

definition sha3_256 :: "bytes \<Rightarrow> bytes" where "sha3_256 m = keccak 136 0x06 32 m"
definition sha3_512 :: "bytes \<Rightarrow> bytes" where "sha3_512 m = keccak 72 0x06 64 m"
definition shake_256 :: "nat \<Rightarrow> bytes \<Rightarrow> bytes" where "shake_256 n m = keccak 136 0x1F n m"

section \<open>Output lengths\<close>

lemma length_foldl_block:
  assumes "\<And>H b. length H = n \<Longrightarrow> length (f H b) = n" and "length H = n"
  shows "length (foldl f H bs) = n"
  using assms(2) by (induction bs arbitrary: H) (simp_all add: assms(1))

lemma length_concat_digits: "length (concat (map (\<lambda>w. be_digits k (g w)) ws)) = k * length ws"
  by (induction ws) simp_all

lemma length_sha256_round [simp]: "length (sha256_round s kw) = length s"
  by (induction s kw rule: sha256_round.induct) (simp_all add: Let_def)

lemma length_sha512_round [simp]: "length (sha512_round s kw) = length s"
  by (induction s kw rule: sha512_round.induct) (simp_all add: Let_def)

lemma length_sha256_block: "length H = n \<Longrightarrow> length (sha256_block H blk) = n"
  by (simp add: sha256_block_def Let_def length_foldl_block)

lemma length_sha512_block: "length H = n \<Longrightarrow> length (sha512_block H blk) = n"
  by (simp add: sha512_block_def Let_def length_foldl_block)

lemma length_sha256 [simp]: "length (sha256 m) = 32"
proof -
  have "length (foldl sha256_block sha256_H0 bs) = 8" for bs
    by (rule length_foldl_block) (simp_all add: length_sha256_block sha256_H0_def)
  then show ?thesis by (simp add: sha256_def length_concat_digits)
qed

lemma length_sha512 [simp]: "length (sha512 m) = 64"
proof -
  have "length (foldl sha512_block sha512_H0 bs) = 8" for bs
    by (rule length_foldl_block) (simp_all add: length_sha512_block sha512_H0_def)
  then show ?thesis by (simp add: sha512_def length_concat_digits)
qed

lemma length_keccak_round [simp]: "length (keccak_round A rc) = 25"
  by (simp add: keccak_round_def Let_def)

lemma length_keccak_f [simp]: "length A = 25 \<Longrightarrow> length (keccak_f A) = 25"
  by (simp add: keccak_f_def length_foldl_block)

lemma length_keccak_bytes: "length (keccak_bytes A) = 8 * length A"
  by (simp add: keccak_bytes_def length_concat comp_def sum_list_triv)

lemma length_keccak_squeeze:
  "length A = 25 \<Longrightarrow> rate \<le> 200 \<Longrightarrow> length (keccak_squeeze n rate A) = n * rate"
  by (induction n arbitrary: A) (simp_all add: length_keccak_bytes)

lemma length_keccak:
  assumes "8 dvd rate" "0 < rate" "rate \<le> 200"
  shows "length (keccak rate suffix outlen m) = outlen"
proof -
  have pad: "rate dvd length (keccak_pad rate suffix m)"
  proof -
    have "length m mod rate < rate" using assms(2) by simp
    then have "length (keccak_pad rate suffix m) = length m + (rate - length m mod rate)"
      by (simp add: keccak_pad_def Let_def) arith
    also have "\<dots> = (length m div rate + 1) * rate"
      using div_mult_mod_eq [of "length m" rate] mod_less_divisor [of rate "length m"] assms(2)
      unfolding add_mult_distrib by linarith
    finally show ?thesis by simp
  qed
  have absorb: "length (foldl (keccak_absorb rate) A bs) = 25"
    if "length A = 25" "\<forall>b \<in> set bs. length b = rate" for A bs
    using that
  proof (induction bs arbitrary: A)
    case (Cons b bs)
    have "length (blocks_of 8 b) = rate div 8"
      using Cons.prems(2) assms(1) by (simp add: length_blocks_of)
    moreover have "rate div 8 \<le> 25" using assms(3) by linarith
    ultimately have "length (keccak_absorb rate A b) = 25"
      using Cons.prems(1) by (simp add: keccak_absorb_def Let_def)
    with Cons show ?case by simp
  qed simp
  have "outlen \<le> (outlen div rate + 1) * rate"
    using assms(2) mod_less_divisor [of rate outlen] div_mult_mod_eq [of outlen rate]
    unfolding add_mult_distrib by linarith
  moreover have "length (foldl (keccak_absorb rate) (replicate 25 0) (blocks_of rate (keccak_pad rate suffix m))) = 25"
    using assms(2) pad by (intro absorb) (auto simp: length_blocks_of_dvd)
  ultimately show ?thesis
    using assms(3) by (simp add: keccak_def Let_def length_keccak_squeeze del: keccak_squeeze.simps)
qed

lemma length_sha3 [simp]:
  "length (sha3_256 m) = 32" "length (sha3_512 m) = 64" "length (shake_256 n m) = n"
  by (simp_all add: sha3_256_def sha3_512_def shake_256_def length_keccak)

end
