(* ===== verification/Kdf.thy ===== *)
theory Kdf
  imports Hashes
begin

text \<open>
  HMAC-SHA256 and HKDF-SHA256 (\<open>tacenta_reader/kdf.py\<close>).  HMAC is Python's \<open>hmac\<close> module over
  SHA-256: a key longer than the 64-byte block is hashed first.
\<close>

definition HASH_LEN :: int where [simp]: "HASH_LEN = 32"

definition hmac_block_key :: "bytes \<Rightarrow> bytes" where
  "hmac_block_key key =
     (let k = (if length key > 64 then sha256 key else key) in k @ zeros (64 - length k))"

definition hmac_sha256 :: "bytes \<Rightarrow> bytes \<Rightarrow> bytes" where
  "hmac_sha256 key data =
     (let k = hmac_block_key key
      in sha256 (map (\<lambda>b. b XOR 0x5C) k @ sha256 (map (\<lambda>b. b XOR 0x36) k @ data)))"

lemma length_hmac_sha256 [simp]: "length (hmac_sha256 key data) = 32"
  by (simp add: hmac_sha256_def Let_def)

definition hkdf_extract :: "bytes option \<Rightarrow> bytes \<Rightarrow> bytes" where
  "hkdf_extract salt ikm =
     (let s = (case salt of None \<Rightarrow> zeros 32 | Some s \<Rightarrow> if length s = 0 then zeros 32 else s)
      in hmac_sha256 s ikm)"

text \<open>
  The expansion loop: \<open>out\<close> grows by one 32-byte block per round, so the distance to the length
  asked for shrinks.  The counter byte is \<open>bytes([i])\<close>; the caller's bound keeps it at most 255.
\<close>

function hkdf_loop :: "bytes \<Rightarrow> bytes \<Rightarrow> int \<Rightarrow> bytes \<Rightarrow> bytes \<Rightarrow> int \<Rightarrow> bytes" where
  "hkdf_loop prk info len out t i =
     (if int (length out) < len
      then let t = hmac_sha256 prk (t @ info @ [word_of_int i])
           in hkdf_loop prk info len (out @ t) t (i + 1)
      else take (nat len) out)"
  by pat_completeness auto
termination
  by (relation "measure (\<lambda>(prk, info, len, out, t, i). nat (len - int (length out)))")
    (auto simp: Let_def)

declare hkdf_loop.simps [simp del]

definition hkdf_expand :: "bytes \<Rightarrow> bytes \<Rightarrow> int \<Rightarrow> bytes res" where
  "hkdf_expand prk info len =
     (if len < 0 \<or> len > 255 * HASH_LEN then Inl (PyE ValueError)
      else Inr (hkdf_loop prk info len [] [] 1))"

definition hkdf_sha256 :: "bytes \<Rightarrow> bytes \<Rightarrow> bytes \<Rightarrow> int \<Rightarrow> bytes res" where
  "hkdf_sha256 salt ikm info len = hkdf_expand (hkdf_extract (Some salt) ikm) info len"

text \<open>The call with a constant in-range length, as every derivation of the protocol makes it.\<close>

definition hkdf :: "bytes \<Rightarrow> bytes \<Rightarrow> bytes \<Rightarrow> nat \<Rightarrow> bytes" where
  "hkdf salt ikm info len = hkdf_loop (hkdf_extract (Some salt) ikm) info (int len) [] [] 1"

lemma hkdf_sha256_in_range: "n \<le> 8160 \<Longrightarrow> hkdf_sha256 salt ikm info (int n) = Inr (hkdf salt ikm info n)"
  by (simp add: hkdf_sha256_def hkdf_expand_def hkdf_def)

lemma length_hkdf_loop:
  "0 \<le> len \<Longrightarrow> length (hkdf_loop prk info len out t i) = nat len"
proof (induction prk info len out t i rule: hkdf_loop.induct)
  case (1 prk info len out t i)
  then show ?case
    by (subst hkdf_loop.simps) (auto simp: Let_def)
qed

lemma length_hkdf [simp]: "length (hkdf salt ikm info n) = n"
  by (simp add: hkdf_def length_hkdf_loop)

text \<open>A shorter output is a prefix of a longer one.\<close>

lemma hkdf_loop_extends: "\<exists>more. hkdf_loop prk info len out t i = take (nat len) (out @ more)"
proof (induction prk info len out t i rule: hkdf_loop.induct)
  case (1 prk info len out t i)
  show ?case
  proof (cases "int (length out) < len")
    case True
    let ?t = "hmac_sha256 prk (t @ info @ [word_of_int i])"
    obtain more where "hkdf_loop prk info len (out @ ?t) ?t (i + 1) = take (nat len) (out @ (?t @ more))"
      using "1.IH" [OF True refl] by auto
    with True show ?thesis by (subst hkdf_loop.simps) (auto simp: Let_def simp del: take_append)
  next
    case False
    then have "hkdf_loop prk info len out t i = take (nat len) (out @ [])"
      by (subst hkdf_loop.simps) simp
    then show ?thesis ..
  qed
qed

lemma hkdf_loop_prefix:
  "0 \<le> len \<Longrightarrow> len \<le> len' \<Longrightarrow>
     hkdf_loop prk info len out t i = take (nat len) (hkdf_loop prk info len' out t i)"
proof (induction prk info len out t i rule: hkdf_loop.induct)
  case (1 prk info len out t i)
  show ?case
  proof (cases "int (length out) < len")
    case True
    with 1 show ?thesis
      by (simp add: hkdf_loop.simps [of prk info len out] hkdf_loop.simps [of prk info len' out] Let_def)
  next
    case False
    with hkdf_loop_extends [of prk info len' out t i] "1.prems" show ?thesis
      by (auto simp: hkdf_loop.simps [of prk info len out])
  qed
qed

lemma hkdf_prefix: "m \<le> n \<Longrightarrow> hkdf salt ikm info m = take m (hkdf salt ikm info n)"
  using hkdf_loop_prefix [of "int m" "int n"] by (simp add: hkdf_def)

end
