(* ===== verification/Wire.thy ===== *)
theory Wire
  imports Kdf
begin

text \<open>
  The wire formats (\<open>tacenta_reader/wire.py\<close>): the cursor, EncodeEC and EncodeKEM, the composite
  header and the ratchet message, CONCAT, the initial message and the prekey bundle.  Decoders and
  encoders are written field by field as the module writes them; the lemmas show that each decoder
  accepts exactly the encodings of the values its format admits.
\<close>

section \<open>Field helpers\<close>

definition be_field :: "int \<Rightarrow> nat \<Rightarrow> bytes res" where
  "be_field v w = (if v < 0 \<or> v \<ge> 2 ^ (8 * w) then Inl (WireE EncodeError) else Inr (be_digits w v))"

definition fixed :: "bytes \<Rightarrow> int \<Rightarrow> bytes res" where
  "fixed v w = (if int (length v) \<noteq> w then Inl (WireE EncodeError) else Inr v)"

lemma pow_2_8: "(2::int) ^ (8 * w) = 256 ^ w"
  by (simp add: power_mult)

lemma be_field_iff [res_iff]:
  "be_field v w = Inr b \<longleftrightarrow> 0 \<le> v \<and> v < 256 ^ w \<and> b = be_digits w v"
  unfolding be_field_def pow_2_8 by auto

lemma fixed_iff [res_iff]: "fixed v w = Inr b \<longleftrightarrow> int (length v) = w \<and> b = v"
  by (auto simp: fixed_def)

section \<open>The cursor\<close>

text \<open>The class \<open>_Reader\<close>: the buffer and the position of the next unread byte.\<close>

record Reader =
  buf :: bytes
  pos :: nat

definition reader_remaining :: "Reader \<Rightarrow> int" where
  "reader_remaining r = int (length (buf r)) - int (pos r)"

definition reader_take :: "int \<Rightarrow> Reader \<Rightarrow> (bytes \<times> Reader) res" where
  "reader_take n r =
     (if n < 0 \<or> n > reader_remaining r then Inl (WireE DecodeError)
      else Inr (take (nat n) (drop (pos r) (buf r)), r\<lparr>pos := pos r + nat n\<rparr>))"

definition reader_rest :: "Reader \<Rightarrow> bytes \<times> Reader" where
  "reader_rest r = (drop (pos r) (buf r), r\<lparr>pos := length (buf r)\<rparr>)"

text \<open>The same operations on the unread suffix, which is what the decoders thread.\<close>

definition unread :: "Reader \<Rightarrow> bytes" where
  "unread r = drop (pos r) (buf r)"

definition rd_take :: "int \<Rightarrow> bytes \<Rightarrow> (bytes \<times> bytes) res" where
  "rd_take n r =
     (if n < 0 \<or> n > int (length r) then Inl (WireE DecodeError)
      else Inr (take (nat n) r, drop (nat n) r))"

abbreviation rd_uint :: "int \<Rightarrow> bytes \<Rightarrow> (int \<times> bytes) res" where
  "rd_uint \<equiv> uint_of rd_take"

lemma reader_take_simulates:
  assumes "pos r \<le> length (buf r)"
  shows "rd_take n (unread r) =
           (case reader_take n r of Inl e \<Rightarrow> Inl e | Inr (x, r') \<Rightarrow> Inr (x, unread r'))"
    and "reader_take n r = Inr (x, r') \<Longrightarrow> pos r' \<le> length (buf r')"
    and "int (length (unread r)) = reader_remaining r"
  using assms
  by (auto simp: rd_take_def reader_take_def reader_remaining_def unread_def add.commute
      split: if_splits)

lemma reader_rest_simulates: "fst (reader_rest r) = unread r \<and> unread (snd (reader_rest r)) = []"
  by (simp add: reader_rest_def unread_def)

interpretation wire_cursor: cursor rd_take "WireE DecodeError"
  by unfold_locales (simp_all add: rd_take_def)

lemmas rd_iff [res_iff] = wire_cursor.take_iff wire_cursor.uint_iff

section \<open>Framing\<close>

definition check_framing :: "bytes \<Rightarrow> byte \<Rightarrow> unit res" where
  "check_framing b ty =
     (if length b < 2 then Inl (WireE DecodeError)
      else if b ! 0 \<noteq> VERSION then Inl (WireE DecodeError)
      else if b ! 1 \<noteq> ty then Inl (WireE DecodeError)
      else Inr ())"

lemma check_framing_iff: "check_framing b ty = Inr u \<longleftrightarrow> (\<exists>r. b = VERSION # ty # r)"
  by (cases b; cases "tl b") (auto simp: check_framing_def)

lemma check_framing_Cons [simp]:
  "check_framing (x # y # r) ty = (if x = VERSION \<and> y = ty then Inr () else Inl (WireE DecodeError))"
  by (simp add: check_framing_def)

lemma rd_take_framing [simp]: "rd_take 2 (x # y # r) = Inr ([x, y], r)"
  by (simp add: rd_take_def)

lemma bindR_framing:
  "bindR (check_framing b ty) f = Inr y \<longleftrightarrow> (\<exists>r. b = VERSION # ty # r \<and> f () = Inr y)"
  by (auto simp: bindR_Inr_iff check_framing_iff)

section \<open>EncodeEC and EncodeKEM\<close>

definition encode_ec :: "bytes \<Rightarrow> bytes res" where
  "encode_ec key = bindR (fixed key EC_KEY_LEN) (\<lambda>k. Inr ([ENCODE_EC_BYTE] @ k))"

definition check_curve_byte :: "bytes \<Rightarrow> unit res" where
  "check_curve_byte encoded =
     (if int (length encoded) \<noteq> ENCODED_EC_LEN then Inl (WireE DecodeError)
      else if encoded ! 0 \<noteq> ENCODE_EC_BYTE then Inl (WireE DecodeError)
      else Inr ())"

definition check_curve_key :: "bytes \<Rightarrow> bytes res" where
  "check_curve_key key =
     (if int (length key) \<noteq> EC_KEY_LEN then Inl (WireE DecodeError)
      else if le_int key \<ge> CURVE25519_P then Inl (WireE DecodeError)
      else Inr key)"

definition is_canonical_curve_key :: "bytes \<Rightarrow> bool" where
  "is_canonical_curve_key key \<longleftrightarrow> int (length key) = EC_KEY_LEN \<and> le_int key < CURVE25519_P"

definition decode_ec :: "bytes \<Rightarrow> bytes res" where
  "decode_ec encoded = bindR (check_curve_byte encoded) (\<lambda>_. check_curve_key (drop 1 encoded))"

definition encode_kem :: "bytes \<Rightarrow> int \<Rightarrow> bytes res" where
  "encode_kem key key_len = bindR (fixed key key_len) (\<lambda>k. Inr ([ENCODE_KEM_BYTE] @ k))"

definition decode_kem :: "bytes \<Rightarrow> int \<Rightarrow> bytes res" where
  "decode_kem encoded key_len =
     (if int (length encoded) \<noteq> key_len + 1 then Inl (WireE DecodeError)
      else case encoded of [] \<Rightarrow> Inl (PyE IndexError)
           | b # key \<Rightarrow> if b \<noteq> ENCODE_KEM_BYTE then Inl (WireE DecodeError) else Inr key)"

lemma check_curve_byte_iff [res_iff]:
  "check_curve_byte e = Inr u \<longleftrightarrow> (\<exists>k. e = 0x05 # k \<and> length k = 32)"
  by (cases e) (auto simp: check_curve_byte_def)

lemma check_curve_key_iff [res_iff]: "check_curve_key k = Inr k' \<longleftrightarrow> k' = k \<and> is_canonical_curve_key k"
  by (auto simp: check_curve_key_def is_canonical_curve_key_def)

lemma canonical_length: "is_canonical_curve_key k \<Longrightarrow> length k = 32"
  by (simp add: is_canonical_curve_key_def)

lemma canonical_inj:
  "is_canonical_curve_key a \<Longrightarrow> is_canonical_curve_key b \<Longrightarrow> le_int a = le_int b \<longleftrightarrow> a = b"
  by (metis canonical_length le_int_inj)

lemma encode_ec_iff [res_iff]: "encode_ec k = Inr e \<longleftrightarrow> length k = 32 \<and> e = 0x05 # k"
  by (auto simp: encode_ec_def res_iff)

lemma encode_kem_iff [res_iff]: "encode_kem k n = Inr e \<longleftrightarrow> int (length k) = n \<and> e = 0x08 # k"
  by (auto simp: encode_kem_def res_iff)

lemma decode_ec_iff [res_iff]:
  "decode_ec e = Inr k \<longleftrightarrow> e = 0x05 # k \<and> is_canonical_curve_key k"
  by (auto simp: decode_ec_def res_iff canonical_length)

lemma decode_kem_iff [res_iff]: "decode_kem e n = Inr k \<longleftrightarrow> int (length k) = n \<and> e = 0x08 # k"
  by (auto simp: decode_kem_def split: list.splits)

section \<open>The composite header\<close>

record codeword =
  cw_index :: int
  cw_data :: bytes

record composite_header =
  ch_dh :: bytes
  ch_pn :: int
  ch_n :: int
  ch_pq_epoch :: int
  ch_pq_n :: int
  ch_ag_epoch :: int
  ch_ag_type :: int
  ch_codeword :: "codeword option"

definition encode_codeword :: "codeword option \<Rightarrow> bytes res" where
  "encode_codeword c =
     (case c of
        None \<Rightarrow> Inr ([word_of_int ABSENT] @ zeros (nat (2 + CHUNK_BYTES)))
      | Some cw \<Rightarrow>
          bindR (be_field (cw_index cw) 2) (\<lambda>i.
          bindR (fixed (cw_data cw) CHUNK_BYTES) (\<lambda>d.
          Inr ([word_of_int PRESENT] @ i @ d))))"

definition encode_composite :: "composite_header \<Rightarrow> bytes res" where
  "encode_composite h =
     (if ch_ag_type h \<notin> AG_TYPES then Inl (WireE EncodeError)
      else
        bindR (fixed (ch_dh h) EC_KEY_LEN) (\<lambda>dh.
        bindR (be_field (ch_pn h) 4) (\<lambda>pn.
        bindR (be_field (ch_n h) 4) (\<lambda>n.
        bindR (be_field (ch_pq_epoch h) 8) (\<lambda>pqe.
        bindR (be_field (ch_pq_n h) 8) (\<lambda>pqn.
        bindR (be_field (ch_ag_epoch h) 8) (\<lambda>age.
        bindR (encode_codeword (ch_codeword h)) (\<lambda>cw.
        let out = [VERSION, TYPE_RATCHET] @ dh @ pn @ n @ pqe @ pqn @ age
                    @ [word_of_int (ch_ag_type h)] @ cw
        in if int (length out) \<noteq> COMPOSITE_LEN then Inl (PyE AssertionError) else Inr out))))))))"

definition decode_codeword :: "int \<Rightarrow> bytes \<Rightarrow> bytes \<Rightarrow> codeword option res" where
  "decode_codeword present index_bytes data =
     (if present = ABSENT then
        (if index_bytes \<noteq> zeros 2 \<or> data \<noteq> zeros (nat CHUNK_BYTES) then Inl (WireE DecodeError)
         else Inr None)
      else if present = PRESENT then
        Inr (Some \<lparr>cw_index = be_int index_bytes, cw_data = data\<rparr>)
      else Inl (WireE DecodeError))"

definition decode_composite_prefix :: "bytes \<Rightarrow> (composite_header \<times> bytes) res" where
  "decode_composite_prefix b =
     bindR (check_framing b TYPE_RATCHET) (\<lambda>_.
     if int (length b) < COMPOSITE_LEN then Inl (WireE DecodeError)
     else
       bindR (rd_take 2 b) (\<lambda>(_, r).
       bindR (rd_take 32 r) (\<lambda>(dh0, r).
       bindR (check_curve_key dh0) (\<lambda>dh.
       bindR (rd_uint 4 r) (\<lambda>(pn, r).
       bindR (rd_uint 4 r) (\<lambda>(n, r).
       bindR (rd_uint 8 r) (\<lambda>(pq_epoch, r).
       bindR (rd_uint 8 r) (\<lambda>(pq_n, r).
       bindR (rd_uint 8 r) (\<lambda>(ag_epoch, r).
       bindR (rd_uint 1 r) (\<lambda>(ag_type, r).
       if ag_type \<notin> AG_TYPES then Inl (WireE DecodeError)
       else
         bindR (rd_uint 1 r) (\<lambda>(present, r).
         bindR (rd_take 2 r) (\<lambda>(index_bytes, r).
         bindR (rd_take CHUNK_BYTES r) (\<lambda>(data, r).
         bindR (decode_codeword present index_bytes data) (\<lambda>cw.
         Inr (\<lparr>ch_dh = dh, ch_pn = pn, ch_n = n, ch_pq_epoch = pq_epoch, ch_pq_n = pq_n,
               ch_ag_epoch = ag_epoch, ch_ag_type = ag_type, ch_codeword = cw\<rparr>, r)))))))))))))))"

definition decode_composite :: "bytes \<Rightarrow> composite_header res" where
  "decode_composite b =
     bindR (decode_composite_prefix b) (\<lambda>(header, rest).
     if rest \<noteq> [] then Inl (WireE DecodeError) else Inr header)"

lemma be_digits_1: "be_digits (Suc 0) v = [word_of_int v]"
  by simp

lemma decode_codeword_iff:
  assumes "length ib = 2" "length d = 32" "0 \<le> p" "p < 256"
  shows "decode_codeword p ib d = Inr c \<longleftrightarrow> encode_codeword c = Inr (be_digits 1 p @ ib @ d)"
proof -
  have p: "be_digits 1 p = [word_of_int p]" by simp
  have tag: "word_of_int p = (word_of_int q :: byte) \<longleftrightarrow> p = q" if "0 \<le> q" "q < 256" for q
    using be_digits_inj [of p 1 q] assms(3,4) that by simp
  have ib: "be_int ib < 65536" "be_digits 2 (be_int ib) = ib"
    using be_int_less' [OF assms(1)] be_digits_be_int [OF assms(1)] by simp_all
  show ?thesis
  proof (cases c)
    case None
    have "encode_codeword None = Inr (be_digits 1 p @ ib @ d) \<longleftrightarrow>
        (word_of_int 0 :: byte) = word_of_int p \<and> zeros 34 = ib @ d"
      by (auto simp: encode_codeword_def p)
    also have "zeros 34 = ib @ d \<longleftrightarrow> zeros 2 = ib \<and> zeros 32 = d"
      using assms(1,2) append_eq_split [of "zeros 2" ib "zeros 32" d]
      by (simp add: zeros_def flip: replicate_add)
    finally show ?thesis using tag [of 0] None by (auto simp: decode_codeword_def)
  next
    case (Some cw)
    have "encode_codeword c = Inr (be_digits 1 p @ ib @ d) \<longleftrightarrow>
        p = 1 \<and> 0 \<le> cw_index cw \<and> cw_index cw < 65536 \<and> be_digits 2 (cw_index cw) = ib \<and>
        length (cw_data cw) = 32 \<and> cw_data cw = d"
      using assms(1,2) tag [of 1] by (auto simp: encode_codeword_def Some res_iff p append_eq_split)
    also have "\<dots> \<longleftrightarrow> decode_codeword p ib d = Inr c"
      using ib assms(2) be_int_digits_id [of "cw_index cw" 2]
      by (cases cw) (auto simp: decode_codeword_def Some)
    finally show ?thesis ..
  qed
qed

lemma encode_codeword_shape:
  assumes "encode_codeword c = Inr b"
  obtains p ib d where "b = be_digits 1 p @ ib @ d" "0 \<le> p" "p < 256" "length ib = 2" "length d = 32"
proof (cases c)
  case None
  with assms have "b = be_digits 1 0 @ zeros 2 @ zeros 32"
    by (auto simp: encode_codeword_def zeros_def simp flip: replicate_add)
  with that [of 0 "zeros 2" "zeros 32"] show ?thesis by simp
next
  case (Some cw)
  with assms have "b = be_digits 1 1 @ be_digits 2 (cw_index cw) @ cw_data cw" "length (cw_data cw) = 32"
    by (auto simp: encode_codeword_def res_iff)
  with that [of 1 "be_digits 2 (cw_index cw)" "cw_data cw"] show ?thesis by simp
qed

lemma ag_type_range: "t \<in> AG_TYPES \<Longrightarrow> 0 \<le> t \<and> t < 256"
  by auto

lemma decode_composite_prefix_sound:
  assumes "decode_composite_prefix b = Inr (h, rest)"
  shows "is_canonical_curve_key (ch_dh h) \<and> (\<exists>e. encode_composite h = Inr e \<and> b = e @ rest)"
proof -
  from assms obtain r where b: "b = VERSION # TYPE_RATCHET # r"
    by (auto simp: decode_composite_prefix_def bindR_framing)
  from assms show ?thesis
    by (clarsimp simp: b decode_composite_prefix_def res_iff decode_codeword_iff simp del: AG_TYPES_def)
      (simp add: encode_composite_def be_field_def fixed_def canonical_length del: AG_TYPES_def)
qed

lemma decode_composite_prefix_complete:
  assumes "is_canonical_curve_key (ch_dh h)" and "encode_composite h = Inr e"
  shows "decode_composite_prefix (e @ rest) = Inr (h, rest)"
proof -
  from assms(2) obtain cw where cw: "encode_codeword (ch_codeword h) = Inr cw"
    and e: "e = [VERSION, TYPE_RATCHET] @ ch_dh h @ be_digits 4 (ch_pn h) @ be_digits 4 (ch_n h)
        @ be_digits 8 (ch_pq_epoch h) @ be_digits 8 (ch_pq_n h) @ be_digits 8 (ch_ag_epoch h)
        @ be_digits 1 (ch_ag_type h) @ cw" and "length e = 102" and "ch_ag_type h \<in> AG_TYPES"
    by (auto simp: encode_composite_def res_iff Let_def simp del: AG_TYPES_def split: if_splits)
  moreover from cw obtain p ib d where "cw = be_digits 1 p @ ib @ d" "0 \<le> p" "p < 256"
    "length ib = 2" "length d = 32" by (rule encode_codeword_shape)
  moreover from calculation have "decode_codeword p ib d = Inr (ch_codeword h)"
    by (simp add: decode_codeword_iff)
  moreover have "0 \<le> ch_pn h" "ch_pn h < 256 ^ 4" "0 \<le> ch_n h" "ch_n h < 256 ^ 4"
    "0 \<le> ch_pq_epoch h" "ch_pq_epoch h < 256 ^ 8" "0 \<le> ch_pq_n h" "ch_pq_n h < 256 ^ 8"
    "0 \<le> ch_ag_epoch h" "ch_ag_epoch h < 256 ^ 8" "length (ch_dh h) = 32"
    using assms(2) by (auto simp: encode_composite_def res_iff Let_def simp del: AG_TYPES_def)
  moreover have "check_curve_key (ch_dh h) = Inr (ch_dh h)"
    using assms(1) by (simp add: check_curve_key_iff)
  moreover note ag_type_range [of "ch_ag_type h"]
  ultimately show ?thesis
    by (simp add: decode_composite_prefix_def wire_cursor.eval del: AG_TYPES_def)
qed
lemma decode_composite_prefix_iff:
  "decode_composite_prefix b = Inr (h, rest) \<longleftrightarrow>
     is_canonical_curve_key (ch_dh h) \<and> (\<exists>e. encode_composite h = Inr e \<and> b = e @ rest)"
  using decode_composite_prefix_sound decode_composite_prefix_complete by blast

interpretation composite_prefix:
  prefix_codec encode_composite "\<lambda>h. is_canonical_curve_key (ch_dh h)" decode_composite_prefix
  by unfold_locales (rule decode_composite_prefix_iff)

interpretation composite:
  exact_codec encode_composite "\<lambda>h. is_canonical_curve_key (ch_dh h)" decode_composite
  by (rule composite_prefix.exact_of_prefix) (simp add: decode_composite_def)

lemma length_encode_composite: "encode_composite h = Inr e \<Longrightarrow> length e = 102"
  by (auto simp: encode_composite_def res_iff Let_def simp del: AG_TYPES_def split: if_splits)

section \<open>Ratchet messages and associated data\<close>

definition encode_ratchet_message :: "composite_header \<Rightarrow> bytes \<Rightarrow> bytes res" where
  "encode_ratchet_message h ciphertext = bindR (encode_composite h) (\<lambda>e. Inr (e @ ciphertext))"

definition decode_ratchet_message :: "bytes \<Rightarrow> (composite_header \<times> bytes) res" where
  "decode_ratchet_message b = decode_composite_prefix b"

text \<open>The \<open>except DecodeError\<close> re-raises as \<open>EncodeError\<close>.\<close>

definition as_encode_error :: "'a res \<Rightarrow> 'a res" where
  "as_encode_error m = catchR m (\<lambda>e. e = WireE DecodeError) (\<lambda>_. Inl (WireE EncodeError))"

lemma as_encode_error_iff [res_iff]: "as_encode_error m = Inr x \<longleftrightarrow> m = Inr x"
  by (cases m) (auto simp: as_encode_error_def)

definition concat_ad :: "bytes \<Rightarrow> bytes \<Rightarrow> bytes res" where
  "concat_ad ad header =
     bindR (as_encode_error (decode_composite header)) (\<lambda>_.
     bindR (be_field (int (length ad)) 4) (\<lambda>n.
     Inr (n @ ad @ header)))"

lemma concat_ad_iff [res_iff]:
  "concat_ad ad header = Inr b \<longleftrightarrow>
     (\<exists>h. decode_composite header = Inr h) \<and> length ad < 256 ^ 4 \<and>
     b = be_digits 4 (int (length ad)) @ ad @ header"
  by (auto simp: concat_ad_def res_iff)

section \<open>The initial message\<close>

record initial_message =
  im_identity :: bytes
  im_ephemeral :: bytes
  im_kem_ciphertext :: bytes
  im_signed_prekey_id :: int
  im_one_time_prekey_id :: int
  im_kem_prekey_id :: int
  im_ratchet_message :: bytes

definition one_time_prekey_used :: "initial_message \<Rightarrow> bool" where
  "one_time_prekey_used m \<longleftrightarrow> im_one_time_prekey_id m \<noteq> ABSENT_ID"

definition encode_initial :: "initial_message \<Rightarrow> bytes res" where
  "encode_initial m =
     bindR (as_encode_error (check_curve_byte (im_identity m))) (\<lambda>_.
     bindR (as_encode_error (check_curve_byte (im_ephemeral m))) (\<lambda>_.
     bindR (be_field (int (length (im_kem_ciphertext m))) 4) (\<lambda>ct_len.
     bindR (be_field (im_signed_prekey_id m) 4) (\<lambda>spk.
     bindR (be_field (im_one_time_prekey_id m) 4) (\<lambda>otpk.
     bindR (be_field (im_kem_prekey_id m) 4) (\<lambda>kem.
     Inr ([VERSION, TYPE_INITIAL] @ im_identity m @ im_ephemeral m @ ct_len @ im_kem_ciphertext m
            @ spk @ otpk @ kem @ im_ratchet_message m)))))))"

definition decode_initial :: "bytes \<Rightarrow> initial_message res" where
  "decode_initial b =
     bindR (check_framing b TYPE_INITIAL) (\<lambda>_.
     bindR (rd_take 2 b) (\<lambda>(_, r).
     bindR (rd_take ENCODED_EC_LEN r) (\<lambda>(identity, r).
     bindR (rd_take ENCODED_EC_LEN r) (\<lambda>(ephemeral, r).
     bindR (check_curve_byte identity) (\<lambda>_.
     bindR (check_curve_byte ephemeral) (\<lambda>_.
     bindR (check_curve_key (drop 1 identity)) (\<lambda>_.
     bindR (check_curve_key (drop 1 ephemeral)) (\<lambda>_.
     bindR (rd_uint 4 r) (\<lambda>(ct_len, r).
     if ct_len > int (length r) then Inl (WireE DecodeError)
     else
       bindR (rd_take ct_len r) (\<lambda>(kem_ciphertext, r).
       bindR (rd_uint 4 r) (\<lambda>(spk_id, r).
       bindR (rd_uint 4 r) (\<lambda>(otpk_id, r).
       bindR (rd_uint 4 r) (\<lambda>(kem_id, r).
       Inr \<lparr>im_identity = identity, im_ephemeral = ephemeral, im_kem_ciphertext = kem_ciphertext,
            im_signed_prekey_id = spk_id, im_one_time_prekey_id = otpk_id,
            im_kem_prekey_id = kem_id, im_ratchet_message = r\<rparr>)))))))))))))"

definition initial_good :: "initial_message \<Rightarrow> bool" where
  "initial_good m \<longleftrightarrow>
     is_canonical_curve_key (drop 1 (im_identity m)) \<and> is_canonical_curve_key (drop 1 (im_ephemeral m))"

lemma decode_initial_sound:
  assumes "decode_initial b = Inr m"
  shows "initial_good m \<and> encode_initial m = Inr b"
proof -
  from assms obtain r where b: "b = VERSION # TYPE_INITIAL # r"
    by (auto simp: decode_initial_def bindR_framing)
  from assms show ?thesis
    by (clarsimp simp: b decode_initial_def res_iff initial_good_def encode_initial_def)
qed

lemma decode_initial_complete:
  assumes "initial_good m" and "encode_initial m = Inr b"
  shows "decode_initial b = Inr m"
proof -
  let ?n = "int (length (im_kem_ciphertext m))"
  have id: "check_curve_byte (im_identity m) = Inr ()" "check_curve_byte (im_ephemeral m) = Inr ()"
    "check_curve_key (drop 1 (im_identity m)) = Inr (drop 1 (im_identity m))"
    "check_curve_key (drop 1 (im_ephemeral m)) = Inr (drop 1 (im_ephemeral m))"
    "length (im_identity m) = 33" "length (im_ephemeral m) = 33"
    using assms by (auto simp: encode_initial_def initial_good_def res_iff)
  have "0 \<le> ?n" "?n < 256 ^ 4"
    "0 \<le> im_signed_prekey_id m" "im_signed_prekey_id m < 256 ^ 4"
    "0 \<le> im_one_time_prekey_id m" "im_one_time_prekey_id m < 256 ^ 4"
    "0 \<le> im_kem_prekey_id m" "im_kem_prekey_id m < 256 ^ 4"
    and b: "b = VERSION # TYPE_INITIAL # im_identity m @ im_ephemeral m @ be_digits 4 ?n
        @ im_kem_ciphertext m @ be_digits 4 (im_signed_prekey_id m)
        @ be_digits 4 (im_one_time_prekey_id m) @ be_digits 4 (im_kem_prekey_id m)
        @ im_ratchet_message m"
    using assms(2) by (auto simp: encode_initial_def res_iff)
  then show ?thesis
    using id by (simp add: decode_initial_def wire_cursor.eval)
qed

interpretation initial: exact_codec encode_initial initial_good decode_initial
  by unfold_locales (metis decode_initial_sound decode_initial_complete)

section \<open>The prekey bundle\<close>

record prekey_bundle =
  pb_identity_key :: bytes
  pb_signed_prekey :: bytes
  pb_signed_prekey_signature :: bytes
  pb_kem_prekey :: bytes
  pb_kem_prekey_signature :: bytes
  pb_one_time_prekey :: "bytes option"
  pb_signed_prekey_id :: int
  pb_one_time_prekey_id :: int
  pb_kem_prekey_id :: int

definition encode_one_time :: "bytes option \<Rightarrow> bytes res" where
  "encode_one_time k =
     (case k of None \<Rightarrow> Inr ([word_of_int ABSENT] @ zeros 32)
      | Some k \<Rightarrow> bindR (fixed k 32) (\<lambda>k. Inr ([word_of_int PRESENT] @ k)))"

definition encode_bundle :: "prekey_bundle \<Rightarrow> int option \<Rightarrow> bytes res" where
  "encode_bundle b kem_prekey_len =
     (if (case kem_prekey_len of None \<Rightarrow> False | Some n \<Rightarrow> int (length (pb_kem_prekey b)) \<noteq> n)
      then Inl (WireE EncodeError)
      else
        bindR (fixed (pb_identity_key b) 32) (\<lambda>ik.
        bindR (fixed (pb_signed_prekey b) 32) (\<lambda>spk.
        bindR (fixed (pb_signed_prekey_signature b) 64) (\<lambda>spks.
        bindR (be_field (int (length (pb_kem_prekey b))) 4) (\<lambda>kem_len.
        bindR (fixed (pb_kem_prekey_signature b) 64) (\<lambda>kems.
        bindR (encode_one_time (pb_one_time_prekey b)) (\<lambda>ot.
        bindR (be_field (pb_signed_prekey_id b) 4) (\<lambda>spk_id.
        bindR (be_field (pb_one_time_prekey_id b) 4) (\<lambda>ot_id.
        bindR (be_field (pb_kem_prekey_id b) 4) (\<lambda>kem_id.
        Inr ([VERSION, TYPE_BUNDLE] @ ik @ spk @ spks @ kem_len @ pb_kem_prekey b @ kems @ ot
               @ spk_id @ ot_id @ kem_id)))))))))))"

definition decode_one_time :: "int \<Rightarrow> bytes \<Rightarrow> bytes option res" where
  "decode_one_time present otpk =
     (if present = ABSENT then
        (if otpk \<noteq> zeros 32 then Inl (WireE DecodeError) else Inr None)
      else if present = PRESENT then bindR (check_curve_key otpk) (\<lambda>k. Inr (Some k))
      else Inl (WireE DecodeError))"

definition decode_bundle :: "bytes \<Rightarrow> int option \<Rightarrow> prekey_bundle res" where
  "decode_bundle b kem_prekey_len =
     bindR (check_framing b TYPE_BUNDLE) (\<lambda>_.
     bindR (rd_take 2 b) (\<lambda>(_, r).
     bindR (rd_take 32 r) (\<lambda>(identity_key, r).
     bindR (rd_take 32 r) (\<lambda>(signed_prekey, r).
     bindR (rd_take 64 r) (\<lambda>(spk_sig, r).
     bindR (rd_uint 4 r) (\<lambda>(kem_len, r).
     if kem_len > int (length r) then Inl (WireE DecodeError)
     else if (case kem_prekey_len of None \<Rightarrow> False | Some n \<Rightarrow> kem_len \<noteq> n) then Inl (WireE DecodeError)
     else
       bindR (rd_take kem_len r) (\<lambda>(kem_prekey, r).
       bindR (rd_take 64 r) (\<lambda>(kem_sig, r).
       bindR (rd_uint 1 r) (\<lambda>(present, r).
       bindR (rd_take 32 r) (\<lambda>(otpk, r).
       bindR (rd_uint 4 r) (\<lambda>(spk_id, r).
       bindR (rd_uint 4 r) (\<lambda>(otpk_id, r).
       bindR (rd_uint 4 r) (\<lambda>(kem_id, r).
       if r \<noteq> [] then Inl (WireE DecodeError)
       else
         bindR (check_curve_key identity_key) (\<lambda>_.
         bindR (check_curve_key signed_prekey) (\<lambda>_.
         bindR (decode_one_time present otpk) (\<lambda>one_time.
         Inr \<lparr>pb_identity_key = identity_key, pb_signed_prekey = signed_prekey,
              pb_signed_prekey_signature = spk_sig, pb_kem_prekey = kem_prekey,
              pb_kem_prekey_signature = kem_sig, pb_one_time_prekey = one_time,
              pb_signed_prekey_id = spk_id, pb_one_time_prekey_id = otpk_id,
              pb_kem_prekey_id = kem_id\<rparr>))))))))))))))))"

definition bundle_good :: "prekey_bundle \<Rightarrow> bool" where
  "bundle_good b \<longleftrightarrow>
     is_canonical_curve_key (pb_identity_key b) \<and> is_canonical_curve_key (pb_signed_prekey b) \<and>
     (case pb_one_time_prekey b of None \<Rightarrow> True | Some k \<Rightarrow> is_canonical_curve_key k)"

lemma decode_one_time_iff:
  assumes "length d = 32" "0 \<le> p" "p < 256"
  shows "decode_one_time p d = Inr k \<longleftrightarrow>
     (case k of None \<Rightarrow> True | Some k \<Rightarrow> is_canonical_curve_key k) \<and>
     encode_one_time k = Inr (be_digits 1 p @ d)"
proof -
  have tag: "word_of_int p = (word_of_int q :: byte) \<longleftrightarrow> p = q" if "0 \<le> q" "q < 256" for q
    using be_digits_inj [of p 1 q] assms that by simp
  show ?thesis
    using assms tag [of 0] tag [of 1]
    by (cases k) (auto simp: decode_one_time_def encode_one_time_def res_iff)
qed

lemma encode_one_time_shape:
  assumes "encode_one_time k = Inr b"
  obtains p d where "b = be_digits 1 p @ d" "0 \<le> p" "p < 256" "length d = 32"
proof (cases k)
  case None
  with assms that [of 0 "zeros 32"] show ?thesis by (simp add: encode_one_time_def)
next
  case (Some k')
  with assms that [of 1 k'] show ?thesis by (auto simp: encode_one_time_def res_iff)
qed

lemma decode_bundle_sound:
  assumes "decode_bundle b n = Inr x"
  shows "bundle_good x \<and> encode_bundle x n = Inr b"
proof -
  from assms obtain r where b: "b = VERSION # TYPE_BUNDLE # r"
    by (auto simp: decode_bundle_def bindR_framing)
  from assms show ?thesis
    by (clarsimp simp: b decode_bundle_def res_iff bundle_good_def encode_bundle_def decode_one_time_iff)
      (auto simp: be_field_def fixed_def canonical_length split: option.splits)
qed

lemma decode_bundle_complete:
  assumes "bundle_good x" and "encode_bundle x n = Inr b"
  shows "decode_bundle b n = Inr x"
proof -
  let ?n = "int (length (pb_kem_prekey x))"
  from assms(2) obtain ot where ot: "encode_one_time (pb_one_time_prekey x) = Inr ot"
    and b: "b = VERSION # TYPE_BUNDLE # pb_identity_key x @ pb_signed_prekey x
        @ pb_signed_prekey_signature x @ be_digits 4 ?n @ pb_kem_prekey x
        @ pb_kem_prekey_signature x @ ot @ be_digits 4 (pb_signed_prekey_id x)
        @ be_digits 4 (pb_one_time_prekey_id x) @ be_digits 4 (pb_kem_prekey_id x)"
    and "length (pb_identity_key x) = 32" "length (pb_signed_prekey x) = 32"
      "length (pb_signed_prekey_signature x) = 64" "length (pb_kem_prekey_signature x) = 64"
      "0 \<le> ?n" "?n < 256 ^ 4"
      "0 \<le> pb_signed_prekey_id x" "pb_signed_prekey_id x < 256 ^ 4"
      "0 \<le> pb_one_time_prekey_id x" "pb_one_time_prekey_id x < 256 ^ 4"
      "0 \<le> pb_kem_prekey_id x" "pb_kem_prekey_id x < 256 ^ 4"
      "\<not> (case n of None \<Rightarrow> False | Some n \<Rightarrow> ?n \<noteq> n)"
    by (auto simp: encode_bundle_def res_iff)
  moreover from ot obtain p d where p: "ot = be_digits 1 p @ d" "0 \<le> p" "p < 256" "length d = 32"
    by (rule encode_one_time_shape)
  moreover have "decode_one_time p d = Inr (pb_one_time_prekey x)"
    using ot p assms(1) by (simp add: decode_one_time_iff bundle_good_def)
  moreover have "check_curve_key (pb_identity_key x) = Inr (pb_identity_key x)"
    "check_curve_key (pb_signed_prekey x) = Inr (pb_signed_prekey x)"
    using assms(1) by (auto simp: bundle_good_def check_curve_key_iff)
  ultimately show ?thesis
    by (simp add: decode_bundle_def wire_cursor.eval)
qed

interpretation prekey_bundle_codec:
  exact_codec "\<lambda>x. encode_bundle x n" bundle_good "\<lambda>b. decode_bundle b n" for n
  by unfold_locales (metis decode_bundle_sound decode_bundle_complete)

end
