(* ===== verification/Protobuf.thy ===== *)
theory Protobuf
  imports Constants
begin

text \<open>
  The bounded protobuf profile (\<open>tacenta_reader/protobuf.py\<close>): varints, tags, the parser with its
  refusals, the two message types and the encoder.  The module's position argument is carried as the
  unread suffix.  The lemmas show that the varint reader accepts exactly the minimal encodings of
  32-bit values, that parsing stops, and that it inverts the encoder.
\<close>

definition WIRE_VARINT :: int where [simp]: "WIRE_VARINT = 0"
definition WIRE_LEN :: int where [simp]: "WIRE_LEN = 2"

datatype pb_value = VInt int | VBytes bytes

text \<open>A message type: field number to (name, wire type, required), in the order it is declared.\<close>

type_synonym pb_message_type = "(int \<times> (string \<times> int \<times> bool)) list"

definition RATCHET_BODY :: pb_message_type where
  "RATCHET_BODY =
     [(1, ''ratchetKey'', WIRE_LEN, True),
      (2, ''counter'', WIRE_VARINT, True),
      (3, ''previousCounter'', WIRE_VARINT, True),
      (4, ''ciphertext'', WIRE_LEN, True),
      (5, ''pq'', WIRE_LEN, True)]"

definition PREKEY_ENVELOPE :: pb_message_type where
  "PREKEY_ENVELOPE =
     [(1, ''prekeyId'', WIRE_VARINT, False),
      (2, ''baseKey'', WIRE_LEN, True),
      (3, ''identityKey'', WIRE_LEN, True),
      (4, ''message'', WIRE_LEN, True),
      (5, ''registrationId'', WIRE_VARINT, True),
      (6, ''signedPrekeyId'', WIRE_VARINT, True),
      (7, ''pqPrekeyId'', WIRE_VARINT, True),
      (8, ''kem'', WIRE_LEN, True)]"

section \<open>Varints\<close>

text \<open>The body of \<open>for i in range(PB_MAX_VARINT_BYTES)\<close>, from index \<open>i\<close>.\<close>

function read_varint_from :: "nat \<Rightarrow> int \<Rightarrow> bytes \<Rightarrow> (int \<times> bytes) res" where
  "read_varint_from i v r =
     (if i \<ge> PB_MAX_VARINT_BYTES then Inl (ProtobufRefused BadVarint)
      else case r of
        [] \<Rightarrow> Inl (ProtobufRefused Truncated)
      | b # r \<Rightarrow>
          let v = v OR push_bit (7 * i) (uint b AND 0x7F)
          in if v > PB_MAX_U32 then Inl (ProtobufRefused BadVarint)
             else if uint b AND 0x80 = 0 then
               (if i > 0 \<and> b = 0x00 then Inl (ProtobufRefused BadVarint) else Inr (v, r))
             else read_varint_from (Suc i) v r)"
  by pat_completeness auto
termination
  by (relation "measure (\<lambda>(i, v, r). PB_MAX_VARINT_BYTES - i)") auto

declare read_varint_from.simps [simp del]

definition read_varint :: "bytes \<Rightarrow> (int \<times> bytes) res" where
  "read_varint r = read_varint_from 0 0 r"

text \<open>
  The encoder's \<open>while True\<close>: one byte per seven bits.  The value is never negative here, so the
  code's test \<open>if v:\<close> is \<open>0 < v\<close>.
\<close>

function encode_varint_loop :: "int \<Rightarrow> bytes" where
  "encode_varint_loop v =
     (let b = v AND 0x7F; v' = drop_bit 7 v
      in if 0 < v' then word_of_int (b OR 0x80) # encode_varint_loop v' else [word_of_int b])"
  by pat_completeness auto
termination
  by (relation "measure nat") (auto simp: drop_bit_eq_div pos_imp_zdiv_pos_iff int_div_less_self)

declare encode_varint_loop.simps [simp del]

definition encode_varint :: "int \<Rightarrow> bytes res" where
  "encode_varint v =
     (if \<not> (0 \<le> v \<and> v \<le> PB_MAX_U32) then Inl (PyE ValueError) else Inr (encode_varint_loop v))"

lemma and_127: "(v::int) AND 127 = v mod 128"
proof -
  have "v AND mask 7 = v mod 2 ^ 7" by (simp flip: take_bit_eq_mask add: take_bit_eq_mod)
  then show ?thesis by (simp add: mask_eq_exp_minus_1)
qed

lemma and_128_byte: "uint (b :: byte) AND 128 = 0 \<longleftrightarrow> uint b < 128"
proof -
  have "uint b AND 128 = 0 \<longleftrightarrow> \<not> bit (uint b) 7"
    using and_exp_eq_0_iff_not_bit [of "uint b" 7] by simp
  also have "\<dots> \<longleftrightarrow> uint b div 128 mod 2 = 0"
    by (simp add: bit_iff_odd even_iff_mod_2_eq_zero)
  also have "\<dots> \<longleftrightarrow> uint b < 128"
    using uint_byte_bounds [of b] int_div_pos_eq [of "uint b" 128 1 "uint b - 128"]
    by (cases "uint b < 128") simp_all
  finally show ?thesis .
qed

lemma byte_of_septet:
  "0 \<le> w \<Longrightarrow> w < 128 \<Longrightarrow> uint (word_of_int w :: byte) = w"
  "0 \<le> w \<Longrightarrow> w < 128 \<Longrightarrow> uint (word_of_int (w OR 128) :: byte) = w + 128"
  using or_push_bit [of w 7 1] by (simp_all add: uint_word_of_int del: of_int_add)

text \<open>What is left of a value once \<open>7 * i\<close> of its bits have been read.\<close>

lemma encode_varint_loop_small: "0 \<le> w \<Longrightarrow> w < 128 \<Longrightarrow> encode_varint_loop w = [word_of_int w]"
  by (subst encode_varint_loop.simps) (simp add: drop_bit_eq_div and_127)

lemma encode_varint_loop_large:
  "0 \<le> w \<Longrightarrow> w < 128 \<Longrightarrow> 0 < w' \<Longrightarrow>
     encode_varint_loop (w + 128 * w') = word_of_int (w OR 128) # encode_varint_loop w'"
  by (subst encode_varint_loop.simps) (simp add: drop_bit_eq_div and_127)

lemma read_varint_from_small:
  assumes "i < 5" "0 \<le> w" "w < 128" "v + w * 2 ^ (7 * i) \<le> PB_MAX_U32" "0 \<le> v" "v < 2 ^ (7 * i)"
    "i = 0 \<or> w \<noteq> 0"
  shows "read_varint_from i v (word_of_int w # r) = Inr (v + w * 2 ^ (7 * i), r)"
proof -
  have w: "uint (word_of_int w :: byte) = w" using assms by (simp add: byte_of_septet)
  then have "(word_of_int w :: byte) = 0 \<longleftrightarrow> w = 0" by (metis uint_0_iff)
  moreover have "w AND 128 = 0" using assms w and_128_byte [of "word_of_int w"] by simp
  ultimately show ?thesis
    using assms w by (subst read_varint_from.simps)
      (auto simp: PB_MAX_VARINT_BYTES_def Let_def and_127 or_push_bit)
qed

lemma read_varint_from_large:
  assumes "i < 5" "0 \<le> w" "w < 128" "v + w * 2 ^ (7 * i) \<le> PB_MAX_U32" "0 \<le> v" "v < 2 ^ (7 * i)"
  shows "read_varint_from i v (word_of_int (w OR 128) # r) =
           read_varint_from (Suc i) (v + w * 2 ^ (7 * i)) r"
proof -
  have w: "uint (word_of_int (w OR 128) :: byte) = w + 128" using assms by (simp add: byte_of_septet)
  moreover have "(w + 128) mod 128 = w" using assms by simp
  moreover have "(w + 128) AND 128 \<noteq> 0" using assms w and_128_byte [of "word_of_int (w OR 128)"] by simp
  ultimately show ?thesis
    using assms by (subst read_varint_from.simps)
      (auto simp: PB_MAX_VARINT_BYTES_def Let_def and_127 or_push_bit)
qed

lemma septet_step:
  fixes v w :: int
  assumes "0 \<le> v" "v < 2 ^ (7 * i)" "0 \<le> w" "w < 128"
  shows "0 \<le> v + w * 2 ^ (7 * i) \<and> v + w * 2 ^ (7 * i) < 2 ^ (7 * Suc i)"
proof -
  have "w * 2 ^ (7 * i) \<le> 127 * 2 ^ (7 * i)" using assms by (intro mult_right_mono) simp_all
  moreover have "(2::int) ^ (7 * Suc i) = 128 * 2 ^ (7 * i)" by (simp add: power_add)
  moreover have "0 \<le> w * 2 ^ (7 * i)" using assms by simp
  ultimately show ?thesis using assms by linarith
qed

text \<open>Reading what was written, from any point of the loop.\<close>

lemma read_varint_complete:
  assumes "0 \<le> w" "v + w * 2 ^ (7 * i) \<le> PB_MAX_U32" "0 \<le> v" "v < 2 ^ (7 * i)" "i = 0 \<or> w \<noteq> 0"
  shows "read_varint_from i v (encode_varint_loop w @ r) = Inr (v + w * 2 ^ (7 * i), r)"
  using assms
proof (induction w arbitrary: i v rule: encode_varint_loop.induct)
  case (1 w)
  have i: "i < 5"
  proof (rule ccontr)
    assume "\<not> i < 5"
    then have "(2::int) ^ 35 \<le> 2 ^ (7 * i)" by (intro power_increasing) simp_all
    moreover have "1 * 2 ^ (7 * i) \<le> w * 2 ^ (7 * i)"
      using "1.prems" \<open>\<not> i < 5\<close> by (intro mult_right_mono) auto
    moreover have "PB_MAX_U32 < 2 ^ 35" by (simp add: const_defs)
    ultimately show False using "1.prems"(2,3) by linarith
  qed
  define a where "a = w mod 128"
  define c where "c = w div 128"
  have w: "w = a + 128 * c" and a: "0 \<le> a" "a < 128" and c: "0 \<le> c"
    using "1.prems" by (simp_all add: a_def c_def pos_imp_zdiv_nonneg_iff)
  have total: "v + a * 2 ^ (7 * i) + c * 2 ^ (7 * Suc i) = v + w * 2 ^ (7 * i)"
    by (simp add: w algebra_simps power_add)
  show ?case
  proof (cases "0 < c")
    case True
    have "0 \<le> c * 2 ^ (7 * Suc i)" using c by simp
    then have part: "v + a * 2 ^ (7 * i) \<le> PB_MAX_U32" using total "1.prems"(2) by linarith
    have "read_varint_from i v (encode_varint_loop w @ r) =
            read_varint_from (Suc i) (v + a * 2 ^ (7 * i)) (encode_varint_loop c @ r)"
      using i a True part "1.prems" by (simp add: w encode_varint_loop_large read_varint_from_large)
    also have "\<dots> = Inr (v + w * 2 ^ (7 * i), r)"
      using "1.IH" [OF refl refl, where i = "Suc i" and v = "v + a * 2 ^ (7 * i)"] True c total "1.prems"
        septet_step [OF "1.prems"(3,4) a]
      by (simp add: drop_bit_eq_div c_def)
    finally show ?thesis .
  next
    case False
    with c have "w = a" by (simp add: w)
    with i a "1.prems" show ?thesis by (simp add: encode_varint_loop_small read_varint_from_small)
  qed
qed

text \<open>Whatever the reader accepts was a minimal encoding.\<close>

lemma read_varint_sound:
  assumes "read_varint_from i v r = Inr (x, r')" "0 \<le> v" "v < 2 ^ (7 * i)"
  shows "\<exists>w. 0 \<le> w \<and> x = v + w * 2 ^ (7 * i) \<and> x \<le> PB_MAX_U32 \<and> (i = 0 \<or> w \<noteq> 0) \<and>
           r = encode_varint_loop w @ r'"
  using assms
proof (induction i v r rule: read_varint_from.induct)
  case (1 i v r)
  obtain b s where r: "r = b # s" and i: "i < 5"
    using "1.prems"(1) by (subst (asm) read_varint_from.simps)
      (auto simp: PB_MAX_VARINT_BYTES_def split: list.splits if_splits)
  define a where "a = uint b mod 128"
  have a: "0 \<le> a" "a < 128" by (simp_all add: a_def)
  have or: "v OR push_bit (7 * i) (uint b AND 127) = v + a * 2 ^ (7 * i)"
    using "1.prems" by (simp add: or_push_bit and_127 a_def)
  have bound: "v + a * 2 ^ (7 * i) \<le> PB_MAX_U32"
    using "1.prems"(1) or by (subst (asm) read_varint_from.simps)
      (auto simp: r Let_def PB_MAX_VARINT_BYTES_def split: if_splits)
  show ?case
  proof (cases "uint b < 128")
    case True
    then have ab: "a = uint b" by (simp add: a_def)
    have res: "x = v + a * 2 ^ (7 * i)" "r' = s" "i = 0 \<or> b \<noteq> 0"
      using "1.prems"(1) True or i bound by (subst (asm) read_varint_from.simps,
        auto simp: r Let_def and_128_byte PB_MAX_VARINT_BYTES_def split: if_splits)+
    have "encode_varint_loop a = [b]" using a ab by (simp add: encode_varint_loop_small)
    with res a ab bound r show ?thesis
      by (intro exI [of _ a]) (auto simp: uint_0_iff)
  next
    case False
    then have b: "uint b = a + 128"
      using uint_byte_bounds [of b] by (simp add: a_def) presburger
    have "read_varint_from (Suc i) (v + a * 2 ^ (7 * i)) s = Inr (x, r')"
      using "1.prems"(1) False or i bound by (subst (asm) read_varint_from.simps)
        (auto simp: r Let_def and_128_byte PB_MAX_VARINT_BYTES_def split: if_splits)
    then obtain w where w: "0 \<le> w" "x = v + a * 2 ^ (7 * i) + w * 2 ^ (7 * Suc i)" "x \<le> PB_MAX_U32"
      "w \<noteq> 0" "s = encode_varint_loop w @ r'"
      using "1.IH" [of b s "v + a * 2 ^ (7 * i)"] septet_step [OF "1.prems"(2,3) a] i r or bound False "1.prems"(2)
      by (auto simp: PB_MAX_VARINT_BYTES_def and_128_byte)
    have "word_of_int (a OR 128) = b"
      using byte_of_septet(2) [OF a] b by (intro word_uint_eqI) simp
    then have "r = encode_varint_loop (a + 128 * w) @ r'"
      using w a r by (simp add: encode_varint_loop_large)
    with w a show ?thesis
      by (intro exI [of _ "a + 128 * w"]) (auto simp: algebra_simps power_add)
  qed
qed

lemma read_varint_iff [res_iff]:
  "read_varint b = Inr (v, r) \<longleftrightarrow> 0 \<le> v \<and> v \<le> PB_MAX_U32 \<and> b = encode_varint_loop v @ r"
  using read_varint_sound [of 0 0 b v r] read_varint_complete [of v 0 0 r]
  by (auto simp: read_varint_def)

interpretation varint: prefix_codec encode_varint "\<lambda>_. True" read_varint
  by unfold_locales (auto simp: res_iff encode_varint_def)

lemma encode_varint_loop_nonempty [simp]: "encode_varint_loop v \<noteq> []"
  by (subst encode_varint_loop.simps) (simp add: Let_def)

lemma read_varint_append [simp]:
  "0 \<le> v \<Longrightarrow> v \<le> PB_MAX_U32 \<Longrightarrow> read_varint (encode_varint_loop v @ r) = Inr (v, r)"
  by (simp add: res_iff)

section \<open>Tags and the parser\<close>

definition read_tag :: "bytes \<Rightarrow> (int \<times> int \<times> bytes) res" where
  "read_tag r =
     bindR (read_varint r) (\<lambda>(v, r).
     let field = drop_bit 3 v; wire = v AND 7
     in if field = 0 \<or> field > PB_MAX_FIELD_NUMBER then Inl (ProtobufRefused NotInProfile)
        else if wire \<noteq> WIRE_VARINT \<and> wire \<noteq> WIRE_LEN then Inl (ProtobufRefused NotInProfile)
        else Inr (field, wire, r))"

definition read_value :: "int \<Rightarrow> bytes \<Rightarrow> (pb_value \<times> bytes) res" where
  "read_value wire r =
     (if wire = WIRE_VARINT then bindR (read_varint r) (\<lambda>(v, r). Inr (VInt v, r))
      else
        bindR (read_varint r) (\<lambda>(n, r).
        if n > int (length r) then Inl (ProtobufRefused Truncated)
        else Inr (VBytes (take (nat n) r), drop (nat n) r)))"

lemma read_varint_shorter: "read_varint r = Inr (v, r') \<Longrightarrow> length r' < length r"
  by (auto simp: res_iff)

lemma read_tag_shorter: "read_tag r = Inr (f, w, r') \<Longrightarrow> length r' < length r"
  by (auto simp: read_tag_def bindR_Inr_iff Let_def dest: read_varint_shorter split: if_splits)

lemma read_value_shorter: "read_value w r = Inr (v, r') \<Longrightarrow> length r' < length r"
  by (auto simp: read_value_def bindR_Inr_iff dest!: read_varint_shorter split: if_splits)

text \<open>The loop of \<open>parse\<close>: what is unread, the fields recorded so far, and the result so far.\<close>

function parse_loop ::
  "pb_message_type \<Rightarrow> bytes \<Rightarrow> int list \<Rightarrow> (string, pb_value) dict \<Rightarrow> (string, pb_value) dict res"
where
  "parse_loop mt r recorded out =
     (if r = [] then Inr out
      else
        bindR (read_tag r) (\<lambda>(field, wire, r).
        if field \<in> set recorded then Inl (ProtobufRefused Duplicate)
        else if int (length recorded) \<ge> PB_MAX_FIELDS then Inl (ProtobufRefused NotInProfile)
        else
          case map_of mt field of
            None \<Rightarrow> Inl (ProtobufRefused NotInProfile)
          | Some (name, w, required) \<Rightarrow>
              if w \<noteq> wire then Inl (ProtobufRefused NotInProfile)
              else
                bindR (read_value wire r) (\<lambda>(v, r).
                parse_loop mt r (recorded @ [field]) (dict_set name v out))))"
  by pat_completeness auto
termination
  by (relation "measure (\<lambda>(mt, r, recorded, out). length r)")
    (auto dest!: read_tag_shorter read_value_shorter)

declare parse_loop.simps [simp del]

definition pb_parse :: "bytes \<Rightarrow> pb_message_type \<Rightarrow> (string, pb_value) dict res" where
  "pb_parse region mt =
     (if int (length region) > PB_MAX_MESSAGE_LEN then Inl (ProtobufRefused TooLong)
      else
        bindR (parse_loop mt region [] []) (\<lambda>out.
        if list_ex (\<lambda>(field, name, w, required). required \<and> \<not> dict_in name out) mt
        then Inl (ProtobufRefused NotInProfile)
        else Inr out))"

definition parse_ratchet_body :: "bytes \<Rightarrow> (string, pb_value) dict res" where
  "parse_ratchet_body region = pb_parse region RATCHET_BODY"

definition parse_prekey_envelope :: "bytes \<Rightarrow> (string, pb_value) dict res" where
  "parse_prekey_envelope region = pb_parse region PREKEY_ENVELOPE"

section \<open>The encoder\<close>

text \<open>A value of the other kind than its wire type needs makes Python raise a \<open>TypeError\<close>.\<close>

definition encode_field :: "int \<Rightarrow> int \<Rightarrow> pb_value \<Rightarrow> bytes res" where
  "encode_field field wire v =
     bindR (encode_varint (push_bit 3 field OR wire)) (\<lambda>tag.
     if wire = WIRE_VARINT then
       (case v of VInt x \<Rightarrow> bindR (encode_varint x) (\<lambda>b. Inr (tag @ b)) | VBytes _ \<Rightarrow> Inl (PyE TypeError))
     else
       (case v of VInt _ \<Rightarrow> Inl (PyE TypeError)
        | VBytes x \<Rightarrow> bindR (encode_varint (int (length x))) (\<lambda>b. Inr (tag @ b @ x))))"

definition encode_entry ::
  "(string, pb_value) dict \<Rightarrow> int \<times> string \<times> int \<times> bool \<Rightarrow> bytes res" where
  "encode_entry vals = (\<lambda>(field, name, wire, required).
     case dict_get vals name of None \<Rightarrow> Inr [] | Some v \<Rightarrow> encode_field field wire v)"

definition pb_encode :: "(string, pb_value) dict \<Rightarrow> pb_message_type \<Rightarrow> bytes res" where
  "pb_encode vals mt =
     bindR (mapR (encode_entry vals) (sort_key fst mt)) (\<lambda>parts. Inr (concat parts))"

section \<open>Parsing what was encoded\<close>

definition mt_ok :: "pb_message_type \<Rightarrow> bool" where
  "mt_ok mt \<longleftrightarrow>
     distinct (map fst mt) \<and> distinct (map (fst \<circ> snd) mt) \<and> length mt \<le> 32 \<and>
     list_all (\<lambda>(field, name, wire, required). 1 \<le> field \<and> field \<le> 15 \<and> (wire = 0 \<or> wire = 2)) mt"

lemma mt_ok_ratchet_body: "mt_ok RATCHET_BODY"
  by (simp add: mt_ok_def RATCHET_BODY_def)

lemma mt_ok_prekey_envelope: "mt_ok PREKEY_ENVELOPE"
  by (simp add: mt_ok_def PREKEY_ENVELOPE_def)

lemma tag_arith:
  assumes "0 \<le> (field::int)" "wire = 0 \<or> wire = 2"
  shows "push_bit 3 field OR wire = field * 8 + wire"
    and "drop_bit 3 (field * 8 + wire) = field" and "(field * 8 + wire) AND 7 = wire"
proof -
  have w: "0 \<le> wire" "wire < 2 ^ 3" using assms(2) by auto
  from or_push_bit [OF w, of field] show "push_bit 3 field OR wire = field * 8 + wire"
    by (simp add: or.commute)
  show "drop_bit 3 (field * 8 + wire) = field"
    using w by (simp add: drop_bit_eq_div)
  have "(field * 8 + wire) AND mask 3 = (field * 8 + wire) mod 8"
    by (simp flip: take_bit_eq_mask add: take_bit_eq_mod)
  then show "(field * 8 + wire) AND 7 = wire"
    using w by (simp add: mask_eq_exp_minus_1)
qed

lemma encode_varint_iff [res_iff]:
  "encode_varint v = Inr b \<longleftrightarrow> 0 \<le> v \<and> v \<le> PB_MAX_U32 \<and> b = encode_varint_loop v"
  by (auto simp: encode_varint_def)

lemma read_encoded_field:
  assumes "encode_field field wire v = Inr e" "1 \<le> field" "field \<le> 15" "wire = 0 \<or> wire = 2"
  obtains p where "read_tag (e @ r) = Inr (field, wire, p @ r)" "read_value wire (p @ r) = Inr (v, r)"
    "e \<noteq> []"
proof -
  have tag: "push_bit 3 field OR wire = field * 8 + wire" "drop_bit 3 (field * 8 + wire) = field"
    "(field * 8 + wire) AND 7 = wire" using assms tag_arith [of field wire] by auto
  from assms obtain p where e: "e = encode_varint_loop (field * 8 + wire) @ p"
    and p: "read_value wire (p @ r) = Inr (v, r)"
    by (auto simp: encode_field_def read_value_def tag encode_varint_iff bindR_Inr_iff
        split: pb_value.splits)
  have "field * 8 + wire \<le> PB_MAX_U32" using assms by (auto simp: const_defs)
  then have "read_varint (e @ r) = Inr (field * 8 + wire, p @ r)"
    using assms by (auto simp: res_iff e)
  then have "read_tag (e @ r) = Inr (field, wire, p @ r)"
    using assms tag by (auto simp: read_tag_def const_defs)
  with p e that show ?thesis by simp
qed

text \<open>The entries of a message type that a value dict fills, in the order given.\<close>

definition filled :: "(string, pb_value) dict \<Rightarrow> pb_message_type \<Rightarrow> (string, pb_value) dict" where
  "filled vals mt =
     List.map_filter (\<lambda>(field, name, wire, required). map_option (Pair name) (dict_get vals name)) mt"

lemma parse_loop_encoded:
  assumes "mt_ok mt"
  shows "mapR (encode_entry vals) es = Inr parts \<Longrightarrow> set es \<subseteq> set mt \<Longrightarrow>
     distinct (map fst es) \<Longrightarrow> distinct (map (fst \<circ> snd) es) \<Longrightarrow>
     set (map fst es) \<inter> set recorded = {} \<Longrightarrow>
     length recorded + length es \<le> 32 \<Longrightarrow>
     (\<forall>e \<in> set es. \<not> dict_in (fst (snd e)) out) \<Longrightarrow>
     parse_loop mt (concat parts) recorded out = Inr (out @ filled vals es)"
proof (induction es arbitrary: parts recorded out)
  case Nil
  then show ?case by (simp add: parse_loop.simps filled_def List.map_filter_def)
next
  case (Cons e es)
  obtain field name wire req where e: "e = (field, name, wire, req)" by (cases e)
  from Cons.prems(1) obtain b ps where b: "encode_entry vals e = Inr b"
    and ps: "mapR (encode_entry vals) es = Inr ps" and parts: "parts = b # ps"
    by (auto simp: bindR_Inr_iff)
  have mem: "e \<in> set mt" using Cons.prems(2) by simp
  then have lookup: "map_of mt field = Some (name, wire, req)"
    using assms e by (simp add: mt_ok_def)
  have ranges: "1 \<le> field" "field \<le> 15" "wire = 0 \<or> wire = 2"
    using assms mem e by (auto simp: mt_ok_def list_all_iff)
  show ?case
  proof (cases "dict_get vals name")
    case None
    then have "b = []" using b e by (simp add: encode_entry_def)
    moreover have "parse_loop mt (concat ps) recorded out = Inr (out @ filled vals es)"
      using Cons.prems by (intro Cons.IH [OF ps]) auto
    ultimately show ?thesis using None e parts by (simp add: filled_def List.map_filter_def)
  next
    case (Some v)
    then have "encode_field field wire v = Inr b" using b e by (simp add: encode_entry_def)
    then obtain p where p: "read_tag (b @ concat ps) = Inr (field, wire, p @ concat ps)"
      "read_value wire (p @ concat ps) = Inr (v, concat ps)" "b \<noteq> []"
      using ranges by (rule read_encoded_field)
    have fresh: "\<not> dict_in name out" using Cons.prems(7) e by simp
    then have set_out: "dict_set name v out = out @ [(name, v)]" by (simp add: dict_set_def)
    have IH: "parse_loop mt (concat ps) (recorded @ [field]) (out @ [(name, v)]) =
                Inr ((out @ [(name, v)]) @ filled vals es)"
      using Cons.prems e by (intro Cons.IH [OF ps]) (auto simp: dict_in_def)
    have "parse_loop mt (b @ concat ps) recorded out =
            parse_loop mt (concat ps) (recorded @ [field]) (out @ [(name, v)])"
      using p lookup Cons.prems(5,6) e set_out
      by (subst parse_loop.simps) (auto simp: const_defs)
    with IH Some e parts show ?thesis by (simp add: filled_def List.map_filter_def)
  qed
qed

lemma map_of_filled:
  "distinct (map (fst \<circ> snd) es) \<Longrightarrow>
     dict_get (filled vals es) name = (if name \<in> (fst \<circ> snd) ` set es then dict_get vals name else None)"
proof (induction es)
  case (Cons e es)
  obtain field nm wire req where e: "e = (field, nm, wire, req)" by (cases e)
  show ?case
    using Cons by (cases "dict_get vals nm")
      (auto simp: e filled_def List.map_filter_def dict_get_def)
qed (simp add: filled_def List.map_filter_def dict_get_def)

text \<open>
  What the parser makes of an encoding: it refuses one that is too long or leaves a required field out,
  and otherwise returns the values that were encoded.
\<close>

lemma pb_parse_encoded:
  assumes mt: "mt_ok mt" and enc: "pb_encode vals mt = Inr b"
  shows "pb_parse b mt =
    (if int (length b) > PB_MAX_MESSAGE_LEN then Inl (ProtobufRefused TooLong)
     else if \<exists>(field, name, w, required) \<in> set mt. required \<and> \<not> dict_in name vals then Inl (ProtobufRefused NotInProfile)
     else Inr (filled vals (sort_key fst mt)))"
proof -
  let ?es = "sort_key fst mt"
  from enc obtain parts where parts: "mapR (encode_entry vals) ?es = Inr parts" and b: "b = concat parts"
    by (auto simp: pb_encode_def res_iff)
  have dist: "distinct (map fst ?es)" "distinct (map (fst \<circ> snd) ?es)"
    using mt by (auto simp: mt_ok_def distinct_map inj_on_def)
  have "parse_loop mt b [] [] = Inr ([] @ filled vals ?es)"
    using mt parts dist unfolding b by (intro parse_loop_encoded) (auto simp: mt_ok_def)
  moreover have "dict_in name (filled vals ?es) \<longleftrightarrow> dict_in name vals" if e: "(f, name, w, req) \<in> set mt" for f name w req
  proof -
    have "name \<in> (fst \<circ> snd) ` set ?es" using imageI [OF e, of "fst \<circ> snd"] by simp
    then show ?thesis by (simp only: dict_in_iff_get map_of_filled [OF dist(2)] if_True)
  qed
  ultimately show ?thesis
    by (auto simp: pb_parse_def list_ex_iff)
qed

lemma filled_get:
  assumes "mt_ok mt"
  shows "dict_get (filled vals (sort_key fst mt)) name = (if name \<in> (fst \<circ> snd) ` set mt then dict_get vals name else None)"
proof -
  have "distinct (map (fst \<circ> snd) (sort_key fst mt))" using assms by (simp add: mt_ok_def distinct_map inj_on_def)
  then show ?thesis by (simp add: map_of_filled)
qed

end
