(* ===== verification/Channel.thy ===== *)
theory Channel
  imports Prelude
begin

text \<open>
  A sender and a receiver joined by a channel that may delay, drop, reorder and repeat, and the
  contract both ratchets are shown to meet over it.  A schedule says when the sender sends and which
  message sent so far reaches the receiver next; a refused operation changes neither party, as the
  callers' commit rule has it.
\<close>

datatype chan_event = Send | Deliver nat

type_synonym ('a, 'b, 'h, 'k) chan = "'a \<times> 'b \<times> ('h \<times> 'k) list \<times> (nat \<times> 'k) list"

fun chan_step ::
  "('a \<Rightarrow> ('a \<times> 'h \<times> 'k) res) \<Rightarrow> ('b \<Rightarrow> 'h \<Rightarrow> ('b \<times> 'k) res) \<Rightarrow> chan_event \<Rightarrow>
     ('a, 'b, 'h, 'k) chan \<Rightarrow> ('a, 'b, 'h, 'k) chan" where
  "chan_step snd_op rcv_op Send (a, b, sent, got) =
     (case snd_op a of Inl _ \<Rightarrow> (a, b, sent, got) | Inr (a', h, k) \<Rightarrow> (a', b, sent @ [(h, k)], got))"
| "chan_step snd_op rcv_op (Deliver i) (a, b, sent, got) =
     (if i < length sent
      then case rcv_op b (fst (sent ! i)) of
             Inl _ \<Rightarrow> (a, b, sent, got)
           | Inr (b', k) \<Rightarrow> (a, b', sent, got @ [(i, k)])
      else (a, b, sent, got))"

definition chan_run ::
  "('a \<Rightarrow> ('a \<times> 'h \<times> 'k) res) \<Rightarrow> ('b \<Rightarrow> 'h \<Rightarrow> ('b \<times> 'k) res) \<Rightarrow> chan_event list \<Rightarrow>
     'a \<Rightarrow> 'b \<Rightarrow> ('a, 'b, 'h, 'k) chan" where
  "chan_run snd_op rcv_op evs a b = fold (chan_step snd_op rcv_op) evs (a, b, [], [])"

definition chan_sent :: "('a, 'b, 'h, 'k) chan \<Rightarrow> ('h \<times> 'k) list" where
  "chan_sent c = fst (snd (snd c))"

definition chan_got :: "('a, 'b, 'h, 'k) chan \<Rightarrow> (nat \<times> 'k) list" where
  "chan_got c = snd (snd (snd c))"

text \<open>The two safety claims: every key delivered is the key sent, and no message is taken twice.\<close>

definition chan_agrees :: "('a, 'b, 'h, 'k) chan \<Rightarrow> bool" where
  "chan_agrees c \<longleftrightarrow> (\<forall>(i, k) \<in> set (chan_got c). i < length (chan_sent c) \<and> k = snd (chan_sent c ! i))"

definition chan_once :: "('a, 'b, 'h, 'k) chan \<Rightarrow> bool" where
  "chan_once c \<longleftrightarrow> distinct (map fst (chan_got c))"

text \<open>
  What a sending and a receiving operation promise each other: \<open>key_for\<close> is the key a header stands
  for, and \<open>spent\<close> says that the receiver will not take a header again.
\<close>

locale key_agreement =
  fixes snd_op :: "'a \<Rightarrow> ('a \<times> 'h \<times> 'k) res"
    and rcv_op :: "'b \<Rightarrow> 'h \<Rightarrow> ('b \<times> 'k) res"
    and key_for :: "'h \<Rightarrow> 'k"
    and ok_a :: "'a \<Rightarrow> bool" and ok_b :: "'b \<Rightarrow> bool"
    and valid :: "'h \<Rightarrow> bool"
    and spent :: "'b \<Rightarrow> 'h \<Rightarrow> bool"
  assumes sends: "ok_a a \<Longrightarrow> snd_op a = Inr (a', h, k) \<Longrightarrow>
      ok_a a' \<and> valid h \<and> k = key_for h"
    and receives: "ok_b b \<Longrightarrow> valid h \<Longrightarrow> rcv_op b h = Inr (b', k) \<Longrightarrow>
      ok_b b' \<and> k = key_for h \<and> spent b' h"
    and spent_kept: "ok_b b \<Longrightarrow> valid h \<Longrightarrow> valid h' \<Longrightarrow> rcv_op b h = Inr (b', k) \<Longrightarrow>
      spent b h' \<Longrightarrow> spent b' h'"
    and spent_refused: "ok_b b \<Longrightarrow> spent b h \<Longrightarrow> \<exists>e. rcv_op b h = Inl e"
begin

definition consistent :: "('a, 'b, 'h, 'k) chan \<Rightarrow> bool" where
  "consistent c \<longleftrightarrow> (case c of (a, b, sent, got) \<Rightarrow>
     ok_a a \<and> ok_b b \<and> (\<forall>(h, k) \<in> set sent. valid h \<and> k = key_for h)
     \<and> (\<forall>(i, k) \<in> set got. i < length sent \<and> k = snd (sent ! i) \<and> spent b (fst (sent ! i)))
     \<and> distinct (map fst got))"

lemma consistent_send:
  assumes "consistent (a, b, sent, got)"
  shows "consistent (chan_step snd_op rcv_op Send (a, b, sent, got))"
proof (cases "snd_op a")
  case (Inr r)
  obtain a' h k where r: "r = (a', h, k)" by (cases r)
  have s: "ok_a a'" "valid h" "k = key_for h"
    using sends [of a a' h k] assms Inr r by (simp_all add: consistent_def)
  show ?thesis
    using assms s by (fastforce simp: consistent_def Inr r nth_append)
qed (use assms in simp)

lemma consistent_deliver:
  assumes "consistent (a, b, sent, got)"
  shows "consistent (chan_step snd_op rcv_op (Deliver i) (a, b, sent, got))"
proof (cases "i < length sent")
  case True
  obtain h k where hk: "sent ! i = (h, k)" by (cases "sent ! i")
  have mem: "(h, k) \<in> set sent" using True hk nth_mem by fastforce
  have ok: "ok_b b" and all: "\<And>h k. (h, k) \<in> set sent \<Longrightarrow> valid h \<and> k = key_for h"
    using assms by (auto simp: consistent_def)
  have h: "valid h" "k = key_for h" using all [OF mem] by auto
  show ?thesis
  proof (cases "rcv_op b h")
    case (Inr r)
    obtain b' k' where r: "rcv_op b h = Inr (b', k')" using Inr by (cases r) simp
    have new: "ok_b b'" "k' = k" "spent b' h" using receives [OF ok h(1) r] h by auto
    have "\<not> spent b h" using spent_refused [OF ok, of h] r by auto
    then have fresh: "i \<notin> fst ` set got" using assms hk by (fastforce simp: consistent_def)
    have keep: "spent b' (fst (sent ! j))" if "(j, l) \<in> set got" for j l
    proof (rule spent_kept [OF ok h(1) _ r])
      have j: "j < length sent" "spent b (fst (sent ! j))" using assms that by (auto simp: consistent_def)
      then show "valid (fst (sent ! j))" "spent b (fst (sent ! j))"
        using all [of "fst (sent ! j)" "snd (sent ! j)"] by auto
    qed
    have "distinct (map fst (got @ [(i, k')]))" using assms fresh by (auto simp: consistent_def)
    moreover have "\<forall>(j, l) \<in> set (got @ [(i, k')]).
        j < length sent \<and> l = snd (sent ! j) \<and> spent b' (fst (sent ! j))"
      using assms keep True new hk by (auto simp: consistent_def)
    ultimately show ?thesis
      using assms True new(1) by (auto simp: consistent_def hk r)
  qed (use assms True hk in simp)
qed (use assms in simp)

lemma consistent_run:
  "consistent c \<Longrightarrow> consistent (fold (chan_step snd_op rcv_op) evs c)"
proof (induction evs arbitrary: c)
  case (Cons ev evs)
  obtain a b sent got where c: "c = (a, b, sent, got)" by (cases c)
  have "consistent (chan_step snd_op rcv_op ev c)"
    using Cons.prems consistent_send consistent_deliver unfolding c by (cases ev) auto
  then show ?case by (simp add: Cons.IH)
qed simp

text \<open>Whatever the channel does, both safety claims hold.\<close>

lemma agreement:
  assumes "ok_a a" "ok_b b"
  shows "chan_agrees (chan_run snd_op rcv_op evs a b) \<and> chan_once (chan_run snd_op rcv_op evs a b)"
proof -
  have "consistent (chan_run snd_op rcv_op evs a b)"
    unfolding chan_run_def using assms by (intro consistent_run) (simp add: consistent_def)
  then show ?thesis
    by (auto simp: consistent_def chan_agrees_def chan_once_def chan_sent_def chan_got_def split: prod.splits)
qed

end

end
