(* ===== verification/Ratchet.thy ===== *)
theory Ratchet
  imports Constants Kdf Channel
begin

text \<open>
  The classical Double Ratchet (\<open>tacenta_reader/ratchet.py\<close>): its state, the derivations, sending,
  receiving with the skipped-key store, ageing and eviction.  Every operation returns a new state;
  \<open>state.clone()\<close> is therefore the value itself.  Diffie-Hellman is the injected \<open>dh_step\<close>, an
  argument that may itself refuse, exactly as in the code.

  A stored key's place is keyed by \<open>(s.dhr, n)\<close>, and \<open>dhr\<close> is optional, so the first half of a key
  is a \<open>bytes option\<close>; the invariant below shows that no reachable store holds a key without one.
\<close>

section \<open>State\<close>

record rheader =
  rh_dh :: bytes
  rh_pn :: int
  rh_n :: int

type_synonym rkey = "bytes option \<times> int"
type_synonym rstore = "(rkey, bytes \<times> int) dict"

record rstate =
  r_dhs_pub :: bytes
  r_dhr :: "bytes option"
  r_rk :: bytes
  r_cks :: "bytes option"
  r_ckr :: "bytes option"
  r_ns :: int
  r_nr :: int
  r_pn :: int
  r_events :: int
  r_labels :: int
  r_skipped :: rstore

section \<open>Derivations\<close>

definition kdf_rk :: "bytes \<Rightarrow> bytes \<Rightarrow> bytes \<times> bytes" where
  "kdf_rk rk dh_out = (let out = hkdf rk dh_out RK_INFO 64 in (take 32 out, drop 32 out))"

definition kdf_ck :: "bytes \<Rightarrow> bytes \<times> bytes" where
  "kdf_ck ck = (hmac_sha256 ck [0x02], hmac_sha256 ck [0x01])"

definition expand_message_key :: "bytes \<Rightarrow> bytes \<times> bytes \<times> bytes" where
  "expand_message_key mk =
     (let out = hkdf (zeros 32) mk MK_INFO 80
      in (take 32 out, take 32 (drop 32 out), take 16 (drop 64 out)))"

section \<open>Initialisation\<close>

definition ratchet_init_initiator :: "bytes \<Rightarrow> bytes \<Rightarrow> bytes \<Rightarrow> bytes \<Rightarrow> rstate" where
  "ratchet_init_initiator sk dhs_pub peer_signed_prekey dh_out =
     (let (rk, cks) = kdf_rk sk dh_out
      in \<lparr> r_dhs_pub = dhs_pub, r_dhr = Some peer_signed_prekey, r_rk = rk, r_cks = Some cks,
           r_ckr = None, r_ns = 0, r_nr = 0, r_pn = 0, r_events = 0, r_labels = LABELS_TACENTA,
           r_skipped = [] \<rparr>)"

definition ratchet_init_responder :: "bytes \<Rightarrow> bytes \<Rightarrow> rstate" where
  "ratchet_init_responder sk signed_prekey_pub =
     \<lparr> r_dhs_pub = signed_prekey_pub, r_dhr = None, r_rk = sk, r_cks = None, r_ckr = None,
       r_ns = 0, r_nr = 0, r_pn = 0, r_events = 0, r_labels = LABELS_TACENTA, r_skipped = [] \<rparr>"

section \<open>Sending\<close>

definition ratchet_send :: "rstate \<Rightarrow> (rstate \<times> rheader \<times> bytes) res" where
  "ratchet_send s =
     (case r_cks s of
        None \<Rightarrow> Inl (RatchetE NoSendingChain)
      | Some ck \<Rightarrow>
          if r_ns s = U32_MAX then Inl (RatchetE ChainExhausted)
          else (let (ck', mk) = kdf_ck ck;
                    header = \<lparr> rh_dh = r_dhs_pub s, rh_pn = r_pn s, rh_n = r_ns s \<rparr>
                in Inr (s\<lparr> r_cks := Some ck', r_ns := r_ns s + 1 \<rparr>, header, mk)))"

section \<open>Receiving\<close>

definition store_key :: "rstate \<Rightarrow> bytes option \<Rightarrow> int \<Rightarrow> bytes \<Rightarrow> rstate res" where
  "store_key s dh n key =
     (if n \<ge> U32_MAX then Inl (RatchetE ChainExhausted)
      else (let k = (dh, n);
                st = (if dict_in k (r_skipped s) then dict_del k (r_skipped s) else r_skipped s)
            in Inr (s\<lparr> r_skipped := dict_set k (key, r_events s) st \<rparr>)))"

text \<open>
  The \<open>while s.nr < until\<close> loop of \<open>_skip\<close>.  Stepping an absent chain key is \<open>hmac.new(None, ..)\<close>,
  which raises \<open>TypeError\<close>.
\<close>

function skip_loop :: "rstate \<Rightarrow> int \<Rightarrow> rstate res" where
  "skip_loop s until =
     (if r_nr s < until
      then (case r_ckr s of
              None \<Rightarrow> Inl (PyE TypeError)
            | Some ck \<Rightarrow>
                (let (ck', mk) = kdf_ck ck
                 in case store_key (s\<lparr> r_ckr := Some ck' \<rparr>) (r_dhr s) (r_nr s) mk of
                      Inl e \<Rightarrow> Inl e
                    | Inr s' \<Rightarrow> skip_loop (s'\<lparr> r_nr := r_nr s' + 1 \<rparr>) until))
      else Inr s)"
  by pat_completeness auto
termination
  by (relation "measure (\<lambda>(s, until). nat (until - r_nr s))")
    (auto simp: store_key_def Let_def split: if_splits)

declare skip_loop.simps [simp del]

definition skip_keys :: "rstate \<Rightarrow> int \<Rightarrow> rstate res" where
  "skip_keys s until =
     (if until \<le> r_nr s then Inr s
      else if until - r_nr s > MAX_SKIP then Inl (RatchetE TooManySkipped)
      else
        (let fresh = int (length (filter (\<lambda>n. \<not> dict_in (r_dhr s, n) (r_skipped s)) [r_nr s..until - 1]));
             over = int (length (r_skipped s)) + fresh - MAX_SKIPPED_STORE
         in if over > 0 then Inl (RatchetE (SkippedStoreFull over)) else skip_loop s until))"

definition age_keys :: "rstate \<Rightarrow> rstate" where
  "age_keys s =
     (let events = min (r_events s + 1) MAX_EVENTS
      in s\<lparr> r_events := events,
           r_skipped := filter (\<lambda>(k, (key, at)). \<not> events - at \<ge> MAX_SKIPPED_AGE) (r_skipped s) \<rparr>)"

type_synonym dh_step = "bytes \<Rightarrow> (bytes \<times> bytes \<times> bytes) res"

text \<open>Steps 1 to 3 of the Diffie-Hellman ratchet.\<close>

definition dh_ratchet :: "dh_step \<Rightarrow> bytes \<Rightarrow> int \<Rightarrow> rstate \<Rightarrow> rstate res" where
  "dh_ratchet step hdh pn s =
     bindR (if r_ckr s \<noteq> None then skip_keys s pn else Inr s) (\<lambda>s.
     bindR (step hdh) (\<lambda>(dh_recv, new_pub, dh_send).
       let (rk, ckr) = kdf_rk (r_rk s) dh_recv;
           s = s\<lparr> r_rk := rk, r_ckr := Some ckr, r_dhr := Some hdh, r_nr := 0,
                 r_pn := r_ns s, r_ns := 0, r_dhs_pub := new_pub \<rparr>;
           (rk, cks) = kdf_rk (r_rk s) dh_send
       in Inr (s\<lparr> r_rk := rk, r_cks := Some cks \<rparr>)))"

text \<open>The tail of \<open>receive\<close>: skip up to the header's number and step the receiving chain once.\<close>

definition receive_on_chain :: "rstate \<Rightarrow> int \<Rightarrow> (rstate \<times> bytes) res" where
  "receive_on_chain s n =
     bindR (skip_keys s n) (\<lambda>s.
       case r_ckr s of
         None \<Rightarrow> Inl (RatchetE NoReceivingChain)
       | Some ck \<Rightarrow>
           if r_nr s = U32_MAX then Inl (RatchetE ChainExhausted)
           else (let (ck', mk) = kdf_ck ck
                 in Inr (age_keys (s\<lparr> r_ckr := Some ck', r_nr := r_nr s + 1 \<rparr>), mk)))"

definition ratchet_receive :: "rstate \<Rightarrow> rheader \<Rightarrow> dh_step \<Rightarrow> (rstate \<times> bytes \<times> bool) res" where
  "ratchet_receive s header step =
     (let hdh = rh_dh header; key = (Some hdh, rh_n header)
      in case dict_get (r_skipped s) key of
           Some (mk, _) \<Rightarrow> Inr (age_keys (s\<lparr> r_skipped := dict_del key (r_skipped s) \<rparr>), mk, False)
         | None \<Rightarrow>
             bindR
               (if r_dhr s = None \<or> Some hdh \<noteq> r_dhr s
                then bindR (dh_ratchet step hdh (rh_pn header) s) (\<lambda>s. Inr (s, True))
                else if r_ckr s = None then Inl (RatchetE NoReceivingChain)
                else if rh_n header < r_nr s then Inl (RatchetE OutOfOrder)
                else Inr (s, False))
               (\<lambda>(s, stepped).
                 bindR (receive_on_chain s (rh_n header)) (\<lambda>(s, mk). Inr (s, mk, stepped))))"

section \<open>Eviction\<close>

definition ratchet_evict :: "rstate \<Rightarrow> int \<Rightarrow> rstate" where
  "ratchet_evict s count =
     (let order = sort_key (\<lambda>(k, (key, at)). at) (r_skipped s);
          victims = take (nat (max 0 count)) order
      in s\<lparr> r_skipped := fold (\<lambda>(k, _). dict_del k) victims (r_skipped s) \<rparr>)"

text \<open>The mutating wrappers: the caller's state is replaced only when the operation succeeds.\<close>

definition ratchet_encrypt :: "rstate \<Rightarrow> rstate \<times> (rheader \<times> bytes) res" where
  "ratchet_encrypt s =
     (case ratchet_send s of
        Inl e \<Rightarrow> (s, Inl e)
      | Inr (s', header, mk) \<Rightarrow> (s', Inr (header, mk)))"

definition ratchet_decrypt :: "rstate \<Rightarrow> rheader \<Rightarrow> dh_step \<Rightarrow> rstate \<times> bytes res" where
  "ratchet_decrypt s header step =
     (case ratchet_receive s header step of
        Inl e \<Rightarrow> (s, Inl e)
      | Inr (s', mk, _) \<Rightarrow> (s', Inr mk))"

section \<open>The symmetric chain\<close>

text \<open>The \<open>i\<close>-th chain key and message key after a given chain key.\<close>

definition chain_key :: "bytes \<Rightarrow> nat \<Rightarrow> bytes" where
  "chain_key ck i = ((\<lambda>ck. fst (kdf_ck ck)) ^^ i) ck"

definition message_key :: "bytes \<Rightarrow> nat \<Rightarrow> bytes" where
  "message_key ck i = snd (kdf_ck (chain_key ck i))"

lemma chain_key_0 [simp]: "chain_key ck 0 = ck"
  by (simp add: chain_key_def)

lemma chain_key_Suc: "chain_key ck (Suc i) = fst (kdf_ck (chain_key ck i))"
  by (simp add: chain_key_def)

lemma chain_key_step: "chain_key (fst (kdf_ck ck)) i = chain_key ck (Suc i)"
  by (induction i) (simp_all add: chain_key_Suc)

lemma message_key_step: "message_key (fst (kdf_ck ck)) i = message_key ck (Suc i)"
  by (simp add: message_key_def chain_key_step)

lemma chain_key_add: "chain_key (chain_key ck i) j = chain_key ck (i + j)"
  by (simp add: chain_key_def funpow_add add.commute [of i])

lemma message_key_add: "message_key (chain_key ck i) j = message_key ck (i + j)"
  by (simp add: message_key_def chain_key_add)

lemma length_kdf_rk [simp]:
  "length (fst (kdf_rk rk d)) = 32" "length (snd (kdf_rk rk d)) = 32"
  by (simp_all add: kdf_rk_def Let_def)

lemma length_kdf_ck [simp]: "length (fst (kdf_ck ck)) = 32" "length (snd (kdf_ck ck)) = 32"
  by (simp_all add: kdf_ck_def)

lemma length_message_key [simp]: "length (message_key ck i) = 32"
  by (simp add: message_key_def)

lemma length_chain_key [simp]: "length ck = 32 \<Longrightarrow> length (chain_key ck i) = 32"
  by (induction i) (simp_all add: chain_key_Suc)

section \<open>What the skip loop computes\<close>

lemma store_key_eq:
  "store_key s dh n key =
     (if n \<ge> U32_MAX then Inl (RatchetE ChainExhausted)
      else Inr (s\<lparr> r_skipped := dict_del (dh, n) (r_skipped s) @ [((dh, n), (key, r_events s))] \<rparr>))"
  by (auto simp: store_key_def Let_def dict_set_def dict_del_absent)

text \<open>The entries one skip stores.\<close>

definition skip_entries :: "bytes option \<Rightarrow> int \<Rightarrow> bytes \<Rightarrow> int \<Rightarrow> int \<Rightarrow> rstore" where
  "skip_entries dh ev ck nr until =
     map (\<lambda>i. ((dh, nr + int i), (message_key ck i, ev))) [0..<nat (until - nr)]"

lemma skip_entries_step:
  "nr < until \<Longrightarrow> skip_entries dh ev ck nr until =
     ((dh, nr), (message_key ck 0, ev)) # skip_entries dh ev (fst (kdf_ck ck)) (nr + 1) until"
proof -
  assume "nr < until"
  then have n: "nat (until - nr) = Suc (nat (until - (nr + 1)))" by simp
  show ?thesis
    unfolding skip_entries_def n
    by (simp only: upt_conv_Cons map_Suc_upt [symmetric] list.map map_map zero_less_Suc)
      (simp add: message_key_step comp_def add.assoc algebra_simps)
qed

lemma outside_run_step:
  assumes "nr < until"
  shows "outside_run dh (nr + 1) until (dict_del (dh, nr) st @ [((dh, nr), v)]) =
     outside_run dh nr until st @ [((dh, nr), v)]"
proof -
  have "(\<not> (d = dh \<and> nr + 1 \<le> n \<and> n < until) \<and> (d, n) \<noteq> (dh, nr)) =
          (\<not> (d = dh \<and> nr \<le> n \<and> n < until))" for d n
    using assms by auto
  then show ?thesis
    by (auto simp: outside_run_def dict_del_def filter_filter case_prod_unfold intro!: filter_cong)
qed

lemma skip_loop_closed:
  "r_ckr s = Some ck \<Longrightarrow> r_nr s \<le> until \<Longrightarrow> until \<le> U32_MAX \<Longrightarrow>
     skip_loop s until =
       Inr (s\<lparr> r_ckr := Some (chain_key ck (nat (until - r_nr s))), r_nr := until,
              r_skipped := outside_run (r_dhr s) (r_nr s) until (r_skipped s)
                @ skip_entries (r_dhr s) (r_events s) ck (r_nr s) until \<rparr>)"
proof (induction "nat (until - r_nr s)" arbitrary: s ck)
  case 0
  then have "until = r_nr s" by simp
  moreover have "outside_run (r_dhr s) (r_nr s) (r_nr s) (r_skipped s) = r_skipped s"
    by (auto simp: outside_run_def intro: filter_True)
  ultimately show ?case
    using "0.prems" by (subst skip_loop.simps) (simp add: skip_entries_def)
next
  case (Suc m)
  then have less: "r_nr s < until" by simp
  let ?s = "s\<lparr> r_ckr := Some (fst (kdf_ck ck)),
    r_skipped := dict_del (r_dhr s, r_nr s) (r_skipped s) @
      [((r_dhr s, r_nr s), (message_key ck 0, r_events s))], r_nr := r_nr s + 1 \<rparr>"
  have "skip_loop s until = skip_loop ?s until"
    using less Suc.prems by (subst skip_loop.simps) (simp add: store_key_eq message_key_def split_beta)
  also have "skip_loop ?s until =
     Inr (?s\<lparr> r_ckr := Some (chain_key (fst (kdf_ck ck)) (nat (until - r_nr ?s))), r_nr := until,
            r_skipped := outside_run (r_dhr ?s) (r_nr ?s) until (r_skipped ?s)
              @ skip_entries (r_dhr ?s) (r_events ?s) (fst (kdf_ck ck)) (r_nr ?s) until \<rparr>)"
    by (rule Suc.hyps(1)) (use Suc.hyps(2) Suc.prems less in auto)
  also have "nat (until - r_nr ?s) = m" using Suc.hyps(2) by simp
  finally show ?case
    using less Suc.hyps(2) [symmetric]
    by (simp add: chain_key_step skip_entries_step outside_run_step)
qed

lemma skip_loop_too_far:
  "r_ckr s = Some ck \<Longrightarrow> r_nr s \<le> U32_MAX \<Longrightarrow> U32_MAX < until \<Longrightarrow>
     skip_loop s until = Inl (RatchetE ChainExhausted)"
proof (induction "nat (U32_MAX - r_nr s)" arbitrary: s ck)
  case 0
  then show ?case by (subst skip_loop.simps) (simp add: store_key_eq split_beta)
next
  case (Suc m)
  then have less: "r_nr s < U32_MAX" by simp
  let ?s = "s\<lparr> r_ckr := Some (fst (kdf_ck ck)),
    r_skipped := dict_del (r_dhr s, r_nr s) (r_skipped s) @
      [((r_dhr s, r_nr s), (snd (kdf_ck ck), r_events s))], r_nr := r_nr s + 1 \<rparr>"
  have "skip_loop s until = skip_loop ?s until"
    using less Suc.prems by (subst skip_loop.simps) (simp add: store_key_eq split_beta)
  moreover have "skip_loop ?s until = Inl (RatchetE ChainExhausted)"
    by (rule Suc.hyps(1)) (use Suc.hyps(2) Suc.prems in auto)
  ultimately show ?case by simp
qed

text \<open>The state after a skip, and how far it would overfill the store.\<close>

definition skipped_to :: "rstate \<Rightarrow> bytes \<Rightarrow> int \<Rightarrow> rstate" where
  "skipped_to s ck until =
     s\<lparr> r_ckr := Some (chain_key ck (nat (until - r_nr s))), r_nr := until,
        r_skipped := outside_run (r_dhr s) (r_nr s) until (r_skipped s)
          @ skip_entries (r_dhr s) (r_events s) ck (r_nr s) until \<rparr>"

definition skip_shortfall :: "rstate \<Rightarrow> int \<Rightarrow> int" where
  "skip_shortfall s until =
     int (length (r_skipped s))
       + int (length (filter (\<lambda>n. \<not> dict_in (r_dhr s, n) (r_skipped s)) [r_nr s..until - 1]))
       - MAX_SKIPPED_STORE"

lemma skip_keys_eq:
  assumes "r_ckr s = Some ck" "r_nr s \<le> U32_MAX"
  shows "skip_keys s until =
     (if until \<le> r_nr s then Inr s
      else if until - r_nr s > MAX_SKIP then Inl (RatchetE TooManySkipped)
      else if skip_shortfall s until > 0 then Inl (RatchetE (SkippedStoreFull (skip_shortfall s until)))
      else if until > U32_MAX then Inl (RatchetE ChainExhausted)
      else Inr (skipped_to s ck until))"
proof (cases "until \<le> r_nr s")
  case False
  then show ?thesis
    using skip_loop_closed [OF assms(1), of until] skip_loop_too_far [OF assms, of until]
    by (auto simp: skip_keys_def skip_shortfall_def skipped_to_def Let_def)
qed (simp add: skip_keys_def)

lemma length_skipped_to:
  assumes "dict_ok (r_skipped s)" "r_nr s \<le> until"
  shows "int (length (r_skipped (skipped_to s ck until))) = skip_shortfall s until + MAX_SKIPPED_STORE"
  using length_outside_run [OF assms, of "r_dhr s"] assms(2)
  by (simp add: skipped_to_def skip_shortfall_def skip_entries_def)

lemma set_skipped_to:
  "set (r_skipped (skipped_to s ck until)) =
     {((d, n), v) \<in> set (r_skipped s). \<not> (d = r_dhr s \<and> r_nr s \<le> n \<and> n < until)}
     \<union> {((r_dhr s, n), (message_key ck (nat (n - r_nr s)), r_events s)) | n. r_nr s \<le> n \<and> n < until}"
proof -
  have "set (skip_entries dh ev ck a b) =
          {((dh, n), (message_key ck (nat (n - a)), ev)) | n. a \<le> n \<and> n < b}" for dh ev a b
  proof (intro set_eqI iffI)
    fix x
    assume "x \<in> {((dh, n), (message_key ck (nat (n - a)), ev)) | n. a \<le> n \<and> n < b}"
    then obtain n where "x = ((dh, n), (message_key ck (nat (n - a)), ev))" "a \<le> n" "n < b" by auto
    then show "x \<in> set (skip_entries dh ev ck a b)"
      by (auto simp: skip_entries_def image_iff intro!: bexI [of _ "nat (n - a)"])
  qed (auto simp: skip_entries_def)
  then show ?thesis by (auto simp: skipped_to_def outside_run_def)
qed

lemma dict_ok_skipped_to:
  assumes "dict_ok (r_skipped s)"
  shows "dict_ok (r_skipped (skipped_to s ck until))"
proof -
  have "distinct (map fst (skip_entries dh ev ck a b))" for dh ev a b
    by (auto simp: skip_entries_def comp_def distinct_map inj_on_def)
  moreover have "distinct (map fst (outside_run (r_dhr s) (r_nr s) until (r_skipped s)))"
    using assms by (simp add: outside_run_def dict_ok_def distinct_map_filter)
  ultimately show ?thesis
    by (auto simp: skipped_to_def dict_ok_def outside_run_def skip_entries_def)
qed

section \<open>The state invariant\<close>

text \<open>
  What every state the operations build satisfies.  \<open>P\<close> is any property of curve public keys that the
  peer's header keys and the fresh keys have (that they are canonical encodings, say): the invariant
  carries it to every key the state holds.
\<close>

definition entry_ok :: "(bytes \<Rightarrow> bool) \<Rightarrow> int \<Rightarrow> rkey \<times> (bytes \<times> int) \<Rightarrow> bool" where
  "entry_ok P ev e = (case e of ((dh, n), (mk, at)) \<Rightarrow>
     (case dh of None \<Rightarrow> False | Some d \<Rightarrow> P d) \<and> 0 \<le> n \<and> n < U32_MAX \<and> 0 \<le> at \<and> at \<le> ev
       \<and> ev - at < MAX_SKIPPED_AGE \<and> length mk = 32)"

definition ratchet_ok :: "(bytes \<Rightarrow> bool) \<Rightarrow> rstate \<Rightarrow> bool" where
  "ratchet_ok P s \<longleftrightarrow>
     P (r_dhs_pub s) \<and> opt_all P (r_dhr s) \<and> length (r_rk s) = 32
     \<and> opt_all (\<lambda>ck. length ck = 32) (r_cks s) \<and> opt_all (\<lambda>ck. length ck = 32) (r_ckr s)
     \<and> (r_ckr s \<noteq> None \<longrightarrow> r_cks s \<noteq> None \<and> r_dhr s \<noteq> None)
     \<and> 0 \<le> r_ns s \<and> r_ns s \<le> U32_MAX \<and> 0 \<le> r_nr s \<and> r_nr s \<le> U32_MAX
     \<and> 0 \<le> r_pn s \<and> r_pn s \<le> U32_MAX \<and> 0 \<le> r_events s \<and> r_events s \<le> MAX_EVENTS
     \<and> r_labels s = LABELS_TACENTA
     \<and> dict_ok (r_skipped s) \<and> int (length (r_skipped s)) \<le> MAX_SKIPPED_STORE
     \<and> list_all (entry_ok P (r_events s)) (r_skipped s)"

lemma ratchet_init_initiator_ok:
  "P dhs_pub \<Longrightarrow> P peer \<Longrightarrow> ratchet_ok P (ratchet_init_initiator sk dhs_pub peer dh_out)"
  by (simp add: ratchet_ok_def ratchet_init_initiator_def split_beta const_defs)

lemma ratchet_init_responder_ok:
  "P spk \<Longrightarrow> length sk = 32 \<Longrightarrow> ratchet_ok P (ratchet_init_responder sk spk)"
  by (simp add: ratchet_ok_def ratchet_init_responder_def const_defs)

lemma ratchet_send_ok:
  "ratchet_ok P s \<Longrightarrow> ratchet_send s = Inr (s', h, mk) \<Longrightarrow> ratchet_ok P s'"
  by (auto simp: ratchet_ok_def ratchet_send_def split_beta split: option.splits if_splits)

lemma skip_keys_ok:
  assumes ok: "ratchet_ok P s" and ckr: "r_ckr s = Some ck" and skip: "skip_keys s until = Inr s'"
  shows "ratchet_ok P s' \<and> s' = (if until \<le> r_nr s then s else skipped_to s ck until)"
proof (cases "until \<le> r_nr s")
  case True
  with skip ok show ?thesis by (simp add: skip_keys_def)
next
  case False
  have nr: "r_nr s \<le> U32_MAX" using ok by (simp add: ratchet_ok_def)
  with skip False have s': "s' = skipped_to s ck until" and le: "until \<le> U32_MAX"
    and room: "skip_shortfall s until \<le> 0"
    by (auto simp: skip_keys_eq [OF ckr nr] split: if_splits)
  have store: "dict_ok (r_skipped s')" "int (length (r_skipped s')) \<le> MAX_SKIPPED_STORE"
    using ok False room dict_ok_skipped_to length_skipped_to [of s until ck]
    by (auto simp: s' ratchet_ok_def)
  obtain d where d: "r_dhr s = Some d" "P d" using ok ckr by (auto simp: ratchet_ok_def)
  have "list_all (entry_ok P (r_events s)) (r_skipped s')"
    using ok le d unfolding s' list_all_iff set_skipped_to
    by (auto simp: ratchet_ok_def list_all_iff entry_ok_def const_defs)
  with store show ?thesis
    using ok False le ckr by (auto simp: ratchet_ok_def s' skipped_to_def)
qed

lemma age_keys_ok:
  assumes "ratchet_ok P s" shows "ratchet_ok P (age_keys s)"
proof -
  let ?old = "\<lambda>(k, key, at). \<not> min (r_events s + 1) MAX_EVENTS - at \<ge> MAX_SKIPPED_AGE"
  have "int (length (filter ?old (r_skipped s))) \<le> MAX_SKIPPED_STORE"
    using assms length_filter_le [of ?old "r_skipped s"] unfolding ratchet_ok_def by linarith
  moreover have "list_all (entry_ok P (min (r_events s + 1) MAX_EVENTS)) (filter ?old (r_skipped s))"
    using assms by (auto simp: ratchet_ok_def list_all_iff entry_ok_def const_defs)
  moreover have "0 \<le> min (r_events s + 1) MAX_EVENTS" "dict_ok (filter ?old (r_skipped s))"
    using assms by (auto simp: ratchet_ok_def const_defs)
  ultimately show ?thesis using assms by (simp add: ratchet_ok_def age_keys_def Let_def)
qed

lemma dh_ratchet_ok:
  assumes ok: "ratchet_ok P s" and P: "P hdh"
    and step: "\<And>a b c. step hdh = Inr (a, b, c) \<Longrightarrow> P b"
    and run: "dh_ratchet step hdh pn s = Inr s'"
  shows "ratchet_ok P s' \<and> r_dhr s' = Some hdh \<and> r_nr s' = 0 \<and> r_ckr s' \<noteq> None"
proof -
  obtain s1 a b c where first: "(if r_ckr s \<noteq> None then skip_keys s pn else Inr s) = Inr s1"
    and abc: "step hdh = Inr (a, b, c)"
    and s': "s' = s1\<lparr> r_ckr := Some (snd (kdf_rk (r_rk s1) a)), r_dhr := Some hdh, r_nr := 0,
      r_pn := r_ns s1, r_ns := 0, r_dhs_pub := b, r_rk := fst (kdf_rk (fst (kdf_rk (r_rk s1) a)) c),
      r_cks := Some (snd (kdf_rk (fst (kdf_rk (r_rk s1) a)) c)) \<rparr>"
    using run by (auto simp: dh_ratchet_def bindR_Inr_iff split_beta)
  have "ratchet_ok P s1"
    using first ok skip_keys_ok [OF ok] by (cases "r_ckr s") auto
  then show ?thesis using step [OF abc] P by (auto simp: s' ratchet_ok_def const_defs)
qed

lemma receive_on_chain_ok:
  assumes ok: "ratchet_ok P s" and run: "receive_on_chain s n = Inr (s', mk)" and ckr: "r_ckr s \<noteq> None"
  shows "ratchet_ok P s'"
proof -
  obtain s1 ck where first: "skip_keys s n = Inr s1" and s1: "r_ckr s1 = Some ck" "r_nr s1 \<noteq> U32_MAX"
    and s': "s' = age_keys (s1\<lparr> r_ckr := Some (fst (kdf_ck ck)), r_nr := r_nr s1 + 1 \<rparr>)"
    using run by (auto simp: receive_on_chain_def bindR_Inr_iff split_beta split: option.splits if_splits)
  have "ratchet_ok P s1" using first ckr skip_keys_ok [OF ok] by auto
  then have "ratchet_ok P (s1\<lparr> r_ckr := Some (fst (kdf_ck ck)), r_nr := r_nr s1 + 1 \<rparr>)"
    using s1 by (auto simp: ratchet_ok_def)
  then show ?thesis unfolding s' by (rule age_keys_ok)
qed

lemma ratchet_receive_ok:
  assumes ok: "ratchet_ok P s" and P: "P (rh_dh h)"
    and step: "\<And>a b c. step (rh_dh h) = Inr (a, b, c) \<Longrightarrow> P b"
    and run: "ratchet_receive s h step = Inr (s', mk, stepped)"
  shows "ratchet_ok P s'"
proof (cases "dict_get (r_skipped s) (Some (rh_dh h), rh_n h)")
  case None
  then obtain s1 where s1: "receive_on_chain s1 (rh_n h) = Inr (s', mk)"
    and "s1 = s \<and> r_ckr s \<noteq> None \<or> dh_ratchet step (rh_dh h) (rh_pn h) s = Inr s1"
    using run by (auto simp: ratchet_receive_def Let_def res_iff split: if_splits)
  then have "ratchet_ok P s1 \<and> r_ckr s1 \<noteq> None"
    using ok dh_ratchet_ok [OF ok P, of step] step by blast
  with s1 show ?thesis using receive_on_chain_ok by blast
next
  case (Some v)
  let ?s = "s\<lparr> r_skipped := dict_del (Some (rh_dh h), rh_n h) (r_skipped s) \<rparr>"
  have "ratchet_ok P ?s"
    using ok length_dict_del_le [of "(Some (rh_dh h), rh_n h)" "r_skipped s"]
    by (auto simp: ratchet_ok_def list_all_iff set_dict_del)
  then have "ratchet_ok P (age_keys ?s)" by (rule age_keys_ok)
  moreover have "s' = age_keys ?s" using run Some by (simp add: ratchet_receive_def split_beta)
  ultimately show ?thesis by simp
qed

section \<open>Receiving on the current chain, branch by branch\<close>

lemma skipped_to_refl: "r_ckr s = Some ck \<Longrightarrow> skipped_to s ck (r_nr s) = s"
proof -
  have "outside_run (r_dhr s) (r_nr s) (r_nr s) (r_skipped s) = r_skipped s"
    by (auto simp: outside_run_def intro: filter_True)
  then show "r_ckr s = Some ck \<Longrightarrow> skipped_to s ck (r_nr s) = s"
    by (simp add: skipped_to_def skip_entries_def)
qed

text \<open>The state after accepting number \<open>n\<close> of the current chain.\<close>

definition accepted :: "rstate \<Rightarrow> bytes \<Rightarrow> int \<Rightarrow> rstate" where
  "accepted s ck n =
     age_keys ((skipped_to s ck n)\<lparr> r_ckr := Some (chain_key ck (nat (n + 1 - r_nr s))), r_nr := n + 1 \<rparr>)"

lemma receive_on_chain_eq:
  assumes ckr: "r_ckr s = Some ck" and nr: "r_nr s \<le> n" "r_nr s \<le> U32_MAX"
  shows "receive_on_chain s n =
     (if n - r_nr s > MAX_SKIP then Inl (RatchetE TooManySkipped)
      else if r_nr s < n \<and> skip_shortfall s n > 0 then Inl (RatchetE (SkippedStoreFull (skip_shortfall s n)))
      else if n \<ge> U32_MAX then Inl (RatchetE ChainExhausted)
      else Inr (accepted s ck n, message_key ck (nat (n - r_nr s))))"
proof (cases "r_nr s = n")
  case True
  then have "nat (n + 1 - r_nr s) = Suc 0" by simp
  then show ?thesis
    using True ckr nr skipped_to_refl [OF ckr]
    by (auto simp: receive_on_chain_def skip_keys_def accepted_def split_beta chain_key_Suc
        message_key_def const_defs)
next
  case False
  with nr have "nat (n + 1 - r_nr s) = Suc (nat (n - r_nr s))" by simp
  moreover have "r_ckr (skipped_to s ck n) = Some (chain_key ck (nat (n - r_nr s)))"
    "r_nr (skipped_to s ck n) = n" by (simp_all add: skipped_to_def)
  ultimately show ?thesis
    using False nr skip_keys_eq [OF ckr nr(2), of n]
    by (auto simp: receive_on_chain_def accepted_def split_beta chain_key_Suc message_key_def)
qed

lemma ratchet_receive_current:
  assumes ok: "ratchet_ok P s" and dhr: "r_dhr s = Some (rh_dh h)" and ckr: "r_ckr s = Some ck"
  shows "ratchet_receive s h step =
     (case dict_get (r_skipped s) (Some (rh_dh h), rh_n h) of
        Some (mk, at) \<Rightarrow>
          Inr (age_keys (s\<lparr> r_skipped := dict_del (Some (rh_dh h), rh_n h) (r_skipped s) \<rparr>), mk, False)
      | None \<Rightarrow>
          if rh_n h < r_nr s then Inl (RatchetE OutOfOrder)
          else if rh_n h - r_nr s > MAX_SKIP then Inl (RatchetE TooManySkipped)
          else if r_nr s < rh_n h \<and> skip_shortfall s (rh_n h) > 0
          then Inl (RatchetE (SkippedStoreFull (skip_shortfall s (rh_n h))))
          else if rh_n h \<ge> U32_MAX then Inl (RatchetE ChainExhausted)
          else Inr (accepted s ck (rh_n h), message_key ck (nat (rh_n h - r_nr s)), False))"
proof (cases "dict_get (r_skipped s) (Some (rh_dh h), rh_n h)")
  case None
  have "r_nr s \<le> U32_MAX" using ok by (simp add: ratchet_ok_def)
  with None dhr ckr show ?thesis
    using receive_on_chain_eq [OF ckr, of "rh_n h"]
    by (simp add: ratchet_receive_def Let_def)
qed (auto simp: ratchet_receive_def Let_def)

section \<open>Two parties on one chain\<close>

text \<open>
  A sender at number \<open>ns\<close> of the chain from \<open>c\<close>, and a receiver that has followed the same chain: its
  chain key is the \<open>nr\<close>-th, and every key it stores under the chain's ratchet key is the right one.
\<close>

definition sends_on :: "bytes \<Rightarrow> bytes \<Rightarrow> rstate \<Rightarrow> bool" where
  "sends_on c dh s \<longleftrightarrow> 0 \<le> r_ns s \<and> r_dhs_pub s = dh \<and> r_cks s = Some (chain_key c (nat (r_ns s)))"

definition tracks :: "bytes \<Rightarrow> bytes \<Rightarrow> rstate \<Rightarrow> bool" where
  "tracks c dh s \<longleftrightarrow> 0 \<le> r_nr s \<and> r_dhr s = Some dh \<and> r_ckr s = Some (chain_key c (nat (r_nr s)))
     \<and> (\<forall>((d, n), (mk, at)) \<in> set (r_skipped s). d = Some dh \<longrightarrow>
          0 \<le> n \<and> n < r_nr s \<and> mk = message_key c (nat n))"

definition spent_number :: "rstate \<Rightarrow> int \<Rightarrow> bool" where
  "spent_number s n \<longleftrightarrow> n < r_nr s \<and> \<not> dict_in (r_dhr s, n) (r_skipped s)"

lemma sends_on_step:
  assumes "sends_on c dh s" "ratchet_send s = Inr (s', h, mk)"
  shows "sends_on c dh s' \<and> rh_dh h = dh \<and> rh_n h = r_ns s \<and> r_ns s' = r_ns s + 1
     \<and> mk = message_key c (nat (rh_n h))"
proof -
  have "nat (r_ns s + 1) = Suc (nat (r_ns s))" using assms(1) by (simp add: sends_on_def nat_add_distrib)
  then show ?thesis
    using assms by (auto simp: sends_on_def ratchet_send_def split_beta chain_key_Suc message_key_def
        split: if_splits)
qed

lemma tracks_age: "tracks c dh s \<Longrightarrow> tracks c dh (age_keys s)"
  by (auto simp: tracks_def age_keys_def Let_def)

lemma tracks_accepted:
  assumes tr: "tracks c dh s" and n: "r_nr s \<le> n"
  shows "tracks c dh (accepted s (chain_key c (nat (r_nr s))) n)"
    and "message_key (chain_key c (nat (r_nr s))) (nat (n - r_nr s)) = message_key c (nat n)"
proof -
  have nr: "0 \<le> r_nr s" using tr by (simp add: tracks_def)
  then have plus: "nat (r_nr s) + nat (m - r_nr s) = nat m" if "r_nr s \<le> m" for m
    using that by simp
  have "tracks c dh ((skipped_to s (chain_key c (nat (r_nr s))) n)
      \<lparr> r_ckr := Some (chain_key c (nat (n + 1))), r_nr := n + 1 \<rparr>)"
    using tr n nr unfolding tracks_def
    by (auto simp: set_skipped_to message_key_add plus, auto simp: skipped_to_def)
  then show "tracks c dh (accepted s (chain_key c (nat (r_nr s))) n)"
    using n by (simp add: accepted_def chain_key_add plus tracks_age)
  show "message_key (chain_key c (nat (r_nr s))) (nat (n - r_nr s)) = message_key c (nat n)"
    using n by (simp add: message_key_add plus)
qed

lemma store_after:
  "set (r_skipped (age_keys s)) \<subseteq> set (r_skipped s)"
  "set (r_skipped (accepted s ck n)) \<subseteq> set (r_skipped (skipped_to s ck n))"
  by (auto simp: accepted_def age_keys_def Let_def)

lemma age_keys_fields [simp]:
  "r_nr (age_keys s) = r_nr s" "r_dhr (age_keys s) = r_dhr s" "r_ckr (age_keys s) = r_ckr s"
  "r_rk (age_keys s) = r_rk s" "r_cks (age_keys s) = r_cks s" "r_ns (age_keys s) = r_ns s"
  "r_dhs_pub (age_keys s) = r_dhs_pub s" "r_pn (age_keys s) = r_pn s"
  by (simp_all add: age_keys_def Let_def)

text \<open>
  One accepted receive on a followed chain: the right key comes out, the receiver still follows, the
  number is spent, and nothing spent comes back.
\<close>

lemma tracks_receive:
  assumes ok: "ratchet_ok P s" and tr: "tracks c dh s" and h: "rh_dh h = dh" "0 \<le> rh_n h"
    and run: "ratchet_receive s h step = Inr (s', mk, stepped)"
  shows "tracks c dh s' \<and> mk = message_key c (nat (rh_n h)) \<and> \<not> stepped
     \<and> spent_number s' (rh_n h) \<and> (\<forall>n. spent_number s n \<longrightarrow> spent_number s' n)"
proof -
  let ?ck = "chain_key c (nat (r_nr s))" and ?n = "rh_n h"
  have dhr: "r_dhr s = Some (rh_dh h)" and ckr: "r_ckr s = Some ?ck"
    using tr h by (simp_all add: tracks_def)
  note run = run [unfolded ratchet_receive_current [OF ok dhr ckr]]
  show ?thesis
  proof (cases "dict_get (r_skipped s) (Some (rh_dh h), ?n)")
    case (Some v)
    obtain key at where v: "v = (key, at)" by (cases v)
    let ?s = "s\<lparr> r_skipped := dict_del (Some (rh_dh h), ?n) (r_skipped s) \<rparr>"
    have mem: "((Some dh, ?n), (key, at)) \<in> set (r_skipped s)"
      using dict_get_Some_in [OF Some] v h by simp
    then have "?n < r_nr s" "key = message_key c (nat ?n)" using tr by (auto simp: tracks_def)
    moreover have s': "s' = age_keys ?s" "mk = key" "\<not> stepped" using run Some v by simp_all
    moreover have "tracks c dh ?s" using tr by (auto simp: tracks_def set_dict_del)
    moreover have "spent_number s' m" if "spent_number s m \<or> m = ?n \<and> m < r_nr s" for m
      using that store_after(1) [of ?s] dhr
      by (force simp: s' spent_number_def dict_in_def set_dict_del)
    ultimately show ?thesis using tracks_age by auto
  next
    case None
    then have n: "r_nr s \<le> ?n" and s': "s' = accepted s ?ck ?n"
      and mk: "mk = message_key ?ck (nat (?n - r_nr s))" and st: "\<not> stepped"
      using run by (auto split: if_splits)
    have fields: "r_nr s' = ?n + 1" "r_dhr s' = r_dhr s"
      by (simp_all add: s' accepted_def skipped_to_def)
    have absent: "\<not> dict_in (r_dhr s, ?n) (r_skipped s)"
      using None dhr by (simp add: dict_in_iff_get)
    have "spent_number s' m" if "spent_number s m \<or> m = ?n" for m
      using that n store_after(2) [of s ?ck ?n] fields absent
      by (fastforce simp: s' spent_number_def dict_in_def set_skipped_to)
    then show ?thesis
      using tracks_accepted [OF tr n] st by (auto simp: s' mk)
  qed
qed

lemma spent_refused:
  assumes ok: "ratchet_ok P s" and tr: "tracks c dh s" and h: "rh_dh h = dh"
    and sp: "spent_number s (rh_n h)"
  shows "ratchet_receive s h step = Inl (RatchetE OutOfOrder)"
proof -
  have dhr: "r_dhr s = Some (rh_dh h)" and ckr: "r_ckr s = Some (chain_key c (nat (r_nr s)))"
    using tr h by (simp_all add: tracks_def)
  have "dict_get (r_skipped s) (Some (rh_dh h), rh_n h) = None"
    using sp dhr
    by (cases "dict_get (r_skipped s) (Some (rh_dh h), rh_n h)") (auto simp: spent_number_def dict_in_iff_get)
  then show ?thesis
    using sp by (simp add: ratchet_receive_current [OF ok dhr ckr] spent_number_def)
qed

text \<open>
  A receiver that has not taken the step yet: the sender's ratchet key is new to it, and its root key
  with the Diffie-Hellman output of the step gives the sender's chain.
\<close>

definition awaits :: "bytes \<Rightarrow> bytes \<Rightarrow> dh_step \<Rightarrow> rstate \<Rightarrow> bool" where
  "awaits c dh step s \<longleftrightarrow> r_dhr s \<noteq> Some dh
     \<and> list_all (\<lambda>((d, n), _). d \<noteq> Some dh) (r_skipped s)
     \<and> (case step dh of Inl _ \<Rightarrow> False | Inr (dh_recv, _) \<Rightarrow> snd (kdf_rk (r_rk s) dh_recv) = c)"

lemma awaits_steps:
  assumes ok: "ratchet_ok P s" and aw: "awaits c dh step s" and run: "dh_ratchet step dh pn s = Inr s'"
  shows "tracks c dh s'"
proof -
  obtain s1 dh_recv pub dh_send where first: "(if r_ckr s \<noteq> None then skip_keys s pn else Inr s) = Inr s1"
    and st: "step dh = Inr (dh_recv, pub, dh_send)"
    and s': "r_dhr s' = Some dh" "r_nr s' = 0" "r_skipped s' = r_skipped s1"
      "r_ckr s' = Some (snd (kdf_rk (r_rk s1) dh_recv))"
    using run by (auto simp: dh_ratchet_def bindR_Inr_iff split_beta)
  have c: "snd (kdf_rk (r_rk s) dh_recv) = c" and old: "r_dhr s \<noteq> Some dh"
    and none: "\<And>n v. ((Some dh, n), v) \<notin> set (r_skipped s)"
    using aw st by (auto simp: awaits_def list_all_iff)
  have "s1 = s \<or> (\<exists>ck. s1 = skipped_to s ck pn)"
  proof (cases "r_ckr s")
    case (Some ck)
    then show ?thesis using first skip_keys_ok [OF ok Some, of pn s1] by (auto split: if_splits)
  qed (use first in simp)
  then have "r_rk s1 = r_rk s" "\<And>n v. ((Some dh, n), v) \<notin> set (r_skipped s1)"
    using old none by (auto simp: set_skipped_to) (simp add: skipped_to_def)
  with c s' show ?thesis by (auto simp: tracks_def)
qed

definition classical_recv :: "dh_step \<Rightarrow> rstate \<Rightarrow> rheader \<Rightarrow> (rstate \<times> bytes) res" where
  "classical_recv step s h = bindR (ratchet_receive s h step) (\<lambda>(s, mk, _). Inr (s, mk))"

definition follows :: "bytes \<Rightarrow> bytes \<Rightarrow> dh_step \<Rightarrow> rstate \<Rightarrow> bool" where
  "follows c dh step s \<longleftrightarrow> ratchet_ok (\<lambda>_. True) s \<and> (tracks c dh s \<or> awaits c dh step s)"

lemma awaits_receive:
  assumes ok: "ratchet_ok (\<lambda>_. True) s" and aw: "awaits c dh step s" and h: "rh_dh h = dh" "0 \<le> rh_n h"
    and run: "ratchet_receive s h step = Inr (s', mk, stepped)"
  shows "tracks c dh s' \<and> mk = message_key c (nat (rh_n h)) \<and> spent_number s' (rh_n h)"
proof -
  have "dict_get (r_skipped s) (Some dh, rh_n h) = None"
    using aw dict_get_Some_in [of "r_skipped s" "(Some dh, rh_n h)"]
    by (cases "dict_get (r_skipped s) (Some dh, rh_n h)") (fastforce simp: awaits_def list_all_iff)+
  moreover have "Some dh \<noteq> r_dhr s" using aw by (auto simp: awaits_def)
  ultimately obtain s1 where s1: "dh_ratchet step dh (rh_pn h) s = Inr s1"
    and on: "receive_on_chain s1 (rh_n h) = Inr (s', mk)"
    using run h by (auto simp: ratchet_receive_def Let_def bindR_Inr_iff split: if_splits)
  have ok1: "ratchet_ok (\<lambda>_. True) s1" and z: "r_nr s1 = 0"
    using dh_ratchet_ok [OF ok _ _ s1] by auto
  have tr: "tracks c dh s1" by (rule awaits_steps [OF ok aw s1])
  have none: "dict_get (r_skipped s1) (Some (rh_dh h), rh_n h) = None"
    using tr dict_get_Some_in [of "r_skipped s1" "(Some dh, rh_n h)"] h z
    by (cases "dict_get (r_skipped s1) (Some dh, rh_n h)") (fastforce simp: tracks_def)+
  have "ratchet_receive s1 h step = Inr (s', mk, False)"
    using none tr h z on by (simp add: ratchet_receive_def Let_def tracks_def)
  from tracks_receive [OF ok1 tr h this] show ?thesis by simp
qed

interpretation classical: key_agreement ratchet_send "classical_recv step"
  "\<lambda>h. message_key c (nat (rh_n h))" "sends_on c dh" "follows c dh step"
  "\<lambda>h. rh_dh h = dh \<and> 0 \<le> rh_n h" "\<lambda>s h. tracks c dh s \<and> rh_dh h = dh \<and> spent_number s (rh_n h)"
  for c dh step
proof (unfold_locales, goal_cases)
  case (1 a a' h k)
  then show ?case using sends_on_step [OF 1] by (auto simp: sends_on_def)
next
  case (2 b h b' k)
  then obtain st where run: "ratchet_receive b h step = Inr (b', k, st)"
    by (auto simp: classical_recv_def bindR_Inr_iff)
  have ok: "ratchet_ok (\<lambda>_. True) b" and h: "rh_dh h = dh" "0 \<le> rh_n h"
    and "tracks c dh b \<or> awaits c dh step b"
    using 2 by (auto simp: follows_def)
  then have "tracks c dh b' \<and> k = message_key c (nat (rh_n h)) \<and> spent_number b' (rh_n h)"
    using tracks_receive [OF ok _ h run] awaits_receive [OF ok _ h run] by blast
  moreover have "ratchet_ok (\<lambda>_. True) b'" by (rule ratchet_receive_ok [OF ok _ _ run]) simp_all
  ultimately show ?case using h by (simp add: follows_def)
next
  case (3 b h h' b' k)
  then obtain st where run: "ratchet_receive b h step = Inr (b', k, st)"
    by (auto simp: classical_recv_def bindR_Inr_iff)
  have "ratchet_ok (\<lambda>_. True) b" "tracks c dh b" "rh_dh h = dh" "0 \<le> rh_n h"
    using 3 by (auto simp: follows_def)
  from tracks_receive [OF this run] 3 show ?case by blast
next
  case (4 b h)
  then have "ratchet_receive b h step = Inl (RatchetE OutOfOrder)"
    by (intro spent_refused [of "\<lambda>_. True" b c dh h step]) (auto simp: follows_def)
  then show ?case by (simp add: classical_recv_def)
qed

lemma follows_responder:
  "length sk = 32 \<Longrightarrow> step dh = Inr (dh_out, pub, dh_send) \<Longrightarrow>
     follows (snd (kdf_rk sk dh_out)) dh step (ratchet_init_responder sk spk)"
  by (auto simp: follows_def awaits_def ratchet_init_responder_def ratchet_ok_def const_defs)

lemma sends_on_initiator:
  "sends_on (snd (kdf_rk sk dh_out)) dh (ratchet_init_initiator sk dh peer dh_out)"
  by (simp add: sends_on_def ratchet_init_initiator_def split_beta)

section \<open>The two root chains stay in step\<close>

text \<open>
  \<open>in_step d c a b\<close>: one step of \<open>b\<close>'s root key with the Diffie-Hellman output \<open>d\<close> gives \<open>a\<close>'s root key
  and the chain \<open>c\<close> that \<open>a\<close> sends on.  A step hands the role over.
\<close>

definition in_step :: "bytes \<Rightarrow> bytes \<Rightarrow> rstate \<Rightarrow> rstate \<Rightarrow> bool" where
  "in_step d c a b \<longleftrightarrow> kdf_rk (r_rk b) d = (r_rk a, c)"

lemma skip_keys_frame:
  assumes "ratchet_ok P s" "(if r_ckr s \<noteq> None then skip_keys s pn else Inr s) = Inr s1"
  shows "r_rk s1 = r_rk s \<and> r_ns s1 = r_ns s"
proof (cases "r_ckr s")
  case (Some ck)
  then show ?thesis
    using assms skip_keys_ok [OF assms(1) Some, of pn s1] by (auto simp: skipped_to_def split: if_splits)
qed (use assms in simp)

lemma dh_ratchet_in_step:
  assumes ok: "ratchet_ok P b" and sync: "in_step d c a b"
    and st: "step dh = Inr (d, pub, d')" and run: "dh_ratchet step dh pn b = Inr b'"
  shows "r_ckr b' = Some c \<and> r_dhr b' = Some dh \<and> r_nr b' = 0 \<and> r_pn b' = r_ns b
     \<and> (\<exists>c'. in_step d' c' b' a \<and> sends_on c' pub b' \<and> r_ns b' = 0)"
proof -
  obtain s1 where first: "(if r_ckr b \<noteq> None then skip_keys b pn else Inr b) = Inr s1"
    and b': "b' = s1\<lparr> r_ckr := Some (snd (kdf_rk (r_rk s1) d)), r_dhr := Some dh, r_nr := 0,
      r_pn := r_ns s1, r_ns := 0, r_dhs_pub := pub, r_rk := fst (kdf_rk (fst (kdf_rk (r_rk s1) d)) d'),
      r_cks := Some (snd (kdf_rk (fst (kdf_rk (r_rk s1) d)) d')) \<rparr>"
    using run st by (auto simp: dh_ratchet_def bindR_Inr_iff split_beta)
  have "kdf_rk (r_rk s1) d = (r_rk a, c)" "r_ns s1 = r_ns b"
    using sync skip_keys_frame [OF ok first] by (auto simp: in_step_def)
  then show ?thesis by (simp add: b' in_step_def sends_on_def)
qed

text \<open>The receive that takes the step: the sender's and the receiver's roles are exchanged.\<close>

lemma receive_in_step:
  assumes ok: "ratchet_ok (\<lambda>_. True) b" and sync: "in_step d c a b" and sends: "sends_on c dh a"
    and st: "step dh = Inr (d, pub, d')" and h: "rh_dh h = dh"
    and run: "ratchet_receive b h step = Inr (b', mk, True)"
  shows "\<exists>c'. in_step d' c' b' a \<and> sends_on c' pub b'"
proof -
  obtain b1 where b1: "dh_ratchet step dh (rh_pn h) b = Inr b1"
    and on: "receive_on_chain b1 (rh_n h) = Inr (b', mk)"
    using run h by (auto simp: ratchet_receive_def Let_def bindR_Inr_iff split: option.splits if_splits)
  obtain c' where c': "in_step d' c' b1 a" "sends_on c' pub b1" "r_ckr b1 = Some c"
    using dh_ratchet_in_step [OF ok sync st b1] by blast
  have ok1: "ratchet_ok (\<lambda>_. True) b1" using dh_ratchet_ok [OF ok _ _ b1] by simp
  obtain s where s: "skip_keys b1 (rh_n h) = Inr s"
    and b': "r_rk b' = r_rk s" "r_cks b' = r_cks s" "r_ns b' = r_ns s" "r_dhs_pub b' = r_dhs_pub s"
    using on by (auto simp: receive_on_chain_def bindR_Inr_iff split_beta split: option.splits if_splits)
  have "s = b1 \<or> s = skipped_to b1 c (rh_n h)"
    using skip_keys_ok [OF ok1 c'(3) s] by (auto split: if_splits)
  then have "r_rk b' = r_rk b1 \<and> r_cks b' = r_cks b1 \<and> r_ns b' = r_ns b1 \<and> r_dhs_pub b' = r_dhs_pub b1"
    using b' by (auto simp: skipped_to_def)
  with c' show ?thesis by (auto simp: in_step_def sends_on_def)
qed

section \<open>Eviction\<close>

definition stored_at :: "rkey \<times> (bytes \<times> int) \<Rightarrow> int" where
  "stored_at e = snd (snd e)"

lemma ratchet_evict_eq:
  "ratchet_evict s count =
     s\<lparr> r_skipped := filter (\<lambda>e. fst e \<notin> fst ` set (take (nat count) (sort_key stored_at (r_skipped s))))
       (r_skipped s) \<rparr>"
proof -
  have "(\<lambda>(k, key, at). at) = stored_at" by (auto simp: stored_at_def fun_eq_iff)
  moreover have "nat (max 0 count) = nat count" by simp
  ultimately show ?thesis by (simp add: ratchet_evict_def fold_dict_del)
qed

lemma ratchet_evict_spec:
  fixes s :: rstate and count :: int
  assumes "dict_ok (r_skipped s)"
  defines "vs \<equiv> take (nat count) (sort_key stored_at (r_skipped s))"
  shows "set (r_skipped (ratchet_evict s count)) = set (r_skipped s) - set vs"
    and "length (r_skipped (ratchet_evict s count)) = length (r_skipped s) - nat count"
    and "v \<in> set vs \<Longrightarrow> e \<in> set (r_skipped (ratchet_evict s count)) \<Longrightarrow> stored_at v \<le> stored_at e"
proof -
  let ?d = "r_skipped s" and ?o = "sort_key stored_at (r_skipped s)"
  have dist: "distinct ?o" using assms(1) by (auto simp: dict_ok_def distinct_map)
  have vs: "set vs \<subseteq> set ?d" "distinct vs"
    using set_take_subset [of "nat count" ?o] dist by (auto simp: vs_def)
  show kept: "set (r_skipped (ratchet_evict s count)) = set ?d - set vs"
    using dict_drop_keys(1) [OF assms(1) vs] by (simp add: ratchet_evict_eq vs_def)
  show "length (r_skipped (ratchet_evict s count)) = length ?d - nat count"
    using dict_drop_keys(2) [OF assms(1) vs] by (simp add: ratchet_evict_eq vs_def)
  have "sorted (map stored_at (take k ?o @ drop k ?o))" for k by simp
  then have sorted: "\<forall>x \<in> set (take k ?o). \<forall>y \<in> set (drop k ?o). stored_at x \<le> stored_at y" for k
    unfolding map_append sorted_append by auto
  assume v: "v \<in> set vs" and e: "e \<in> set (r_skipped (ratchet_evict s count))"
  have "set ?o = set vs \<union> set (drop (nat count) ?o)"
    unfolding vs_def by (metis append_take_drop_id set_append)
  then have "e \<in> set (drop (nat count) ?o)" using e kept by auto
  with v sorted show "stored_at v \<le> stored_at e" by (auto simp: vs_def)
qed

lemma ratchet_evict_ok: "ratchet_ok P s \<Longrightarrow> ratchet_ok P (ratchet_evict s count)"
proof -
  assume ok: "ratchet_ok P s"
  let ?Q = "\<lambda>e. fst e \<notin> fst ` set (take (nat count) (sort_key stored_at (r_skipped s)))"
  have "int (length (filter ?Q (r_skipped s))) \<le> MAX_SKIPPED_STORE"
    using ok length_filter_le [of ?Q "r_skipped s"] unfolding ratchet_ok_def by linarith
  moreover have "list_all (entry_ok P (r_events s)) (filter ?Q (r_skipped s))"
    using ok by (auto simp: ratchet_ok_def list_all_iff)
  ultimately show ?thesis using ok by (simp add: ratchet_ok_def ratchet_evict_eq)
qed

section \<open>The states a session passes through\<close>

text \<open>
  One operation of a session, on any header and with any ratchet step; \<open>P\<close> restricts the peer's keys
  and the fresh keys the step draws.
\<close>

inductive ratchet_step :: "(bytes \<Rightarrow> bool) \<Rightarrow> rstate \<Rightarrow> rstate \<Rightarrow> bool" for P where
  on_send: "ratchet_send s = Inr (s', h, mk) \<Longrightarrow> ratchet_step P s s'"
| on_receive: "P (rh_dh h) \<Longrightarrow> (\<And>a b c. step (rh_dh h) = Inr (a, b, c) \<Longrightarrow> P b) \<Longrightarrow>
    ratchet_receive s h step = Inr (s', mk, stepped) \<Longrightarrow> ratchet_step P s s'"
| on_evict: "ratchet_step P s (ratchet_evict s count)"

lemma ratchet_step_ok: "ratchet_step P s s' \<Longrightarrow> ratchet_ok P s \<Longrightarrow> ratchet_ok P s'"
proof (induction rule: ratchet_step.induct)
  case on_send
  then show ?case by (blast intro: ratchet_send_ok)
next
  case (on_receive h step s s' mk stepped)
  then show ?case using ratchet_receive_ok [of P s h step s' mk stepped] by blast
next
  case on_evict
  then show ?case by (rule ratchet_evict_ok)
qed

lemma ratchet_steps_ok: "(ratchet_step P)\<^sup>*\<^sup>* s s' \<Longrightarrow> ratchet_ok P s \<Longrightarrow> ratchet_ok P s'"
  by (induction rule: rtranclp_induct) (auto intro: ratchet_step_ok)

end
