(* ===== verification/Lagrange.thy ===== *)
theory Lagrange
  imports Main
begin

text \<open>
  Polynomials over a field as coefficient lists, lowest degree first, and the interpolation theorem the
  erasure code rests on: the values of a polynomial of degree below \<open>k\<close> at any \<open>k\<close> distinct points
  determine it everywhere, by Lagrange's formula.
\<close>

fun poly_at :: "'a::field list \<Rightarrow> 'a \<Rightarrow> 'a" where
  "poly_at [] x = 0"
| "poly_at (c # cs) x = c + x * poly_at cs x"

fun poly_add :: "'a::field list \<Rightarrow> 'a list \<Rightarrow> 'a list" where
  "poly_add [] ds = ds"
| "poly_add cs [] = cs"
| "poly_add (c # cs) (d # ds) = (c + d) # poly_add cs ds"

lemma poly_at_add [simp]: "poly_at (poly_add cs ds) x = poly_at cs x + poly_at ds x"
  by (induction cs ds rule: poly_add.induct) (simp_all add: algebra_simps)

lemma length_poly_add [simp]: "length (poly_add cs ds) = max (length cs) (length ds)"
  by (induction cs ds rule: poly_add.induct) simp_all

lemma poly_at_scale [simp]: "poly_at (map ((*) a) cs) x = a * poly_at cs x"
  by (induction cs) (simp_all add: algebra_simps)

lemma poly_at_zeros [simp]: "poly_at (replicate n 0) x = 0"
  by (induction n) simp_all

section \<open>A polynomial has no more roots than its degree\<close>

lemma factor_difference:
  "\<exists>qs. length qs = length cs - 1 \<and> (\<forall>x. poly_at cs x - poly_at cs a = (x - a) * poly_at qs x)"
proof (induction cs)
  case (Cons c cs)
  then obtain qs where qs: "length qs = length cs - 1"
    and eq: "\<And>x. poly_at cs x - poly_at cs a = (x - a) * poly_at qs x"
    by blast
  have "poly_at (c # cs) x - poly_at (c # cs) a = (x - a) * poly_at (poly_add cs (map ((*) a) qs)) x" for x
  proof -
    have "poly_at (c # cs) x - poly_at (c # cs) a =
        (x - a) * poly_at cs x + a * (poly_at cs x - poly_at cs a)"
      by (simp add: algebra_simps)
    then show ?thesis by (simp add: eq algebra_simps)
  qed
  moreover have "length (poly_add cs (map ((*) a) qs)) = length (c # cs) - 1"
    using qs by simp
  ultimately show ?case by blast
qed simp

lemma roots_bound:
  "finite S \<Longrightarrow> (\<forall>a \<in> S. poly_at cs a = 0) \<Longrightarrow> length cs \<le> card S \<Longrightarrow> poly_at cs x = 0"
proof (induction "length cs" arbitrary: cs S x)
  case (Suc n)
  then obtain a where a: "a \<in> S" by (metis card.empty ex_in_conv not_less_eq_eq zero_le)
  obtain qs where "length qs = length cs - 1" and eq: "\<And>x. poly_at cs x - poly_at cs a = (x - a) * poly_at qs x"
    using factor_difference [of cs a] by blast
  then have qs: "length qs = n" using Suc.hyps(2) by simp
  have "poly_at qs b = 0" if "b \<in> S - {a}" for b
    using eq [of b] that Suc.prems(2) a by auto
  moreover have "length qs \<le> card (S - {a})"
    using Suc.prems(1,3) Suc.hyps(2) a qs by simp
  ultimately have "poly_at qs x = 0"
    using Suc.hyps(1) [of qs "S - {a}"] Suc.prems(1) qs by simp
  then show ?case using eq [of x] Suc.prems(2) a by simp
qed simp

section \<open>Lagrange's formula\<close>

lemma prod_is_poly:
  assumes "finite S"
  shows "\<exists>cs. length cs = Suc (card S) \<and> (\<forall>x. poly_at cs x = (\<Prod>b \<in> S. x - b))"
  using assms
proof (induction rule: finite_induct)
  case empty
  have "length [1] = Suc (card {}) \<and> (\<forall>x. poly_at [1] x = (\<Prod>b \<in> {}. x - b))" by simp
  then show ?case by blast
next
  case (insert b S)
  then obtain cs where cs: "length cs = Suc (card S)" "\<And>x. poly_at cs x = (\<Prod>b \<in> S. x - b)" by blast
  have "poly_at (poly_add (0 # cs) (map ((*) (- b)) cs)) x = (\<Prod>b \<in> insert b S. x - b)" for x
    using insert.hyps by (simp add: cs algebra_simps)
  moreover have "length (poly_add (0 # cs) (map ((*) (- b)) cs)) = Suc (card (insert b S))"
    using insert.hyps cs by simp
  ultimately show ?case by blast
qed

definition lagrange_basis :: "'a::field list \<Rightarrow> nat \<Rightarrow> 'a \<Rightarrow> 'a" where
  "lagrange_basis nodes m x =
     (\<Prod>l \<in> {..<length nodes} - {m}. (x - nodes ! l) / (nodes ! m - nodes ! l))"

definition lagrange :: "'a::field list \<Rightarrow> 'a list \<Rightarrow> 'a \<Rightarrow> 'a" where
  "lagrange nodes ys x = (\<Sum>m < length nodes. ys ! m * lagrange_basis nodes m x)"

lemma lagrange_basis_node:
  assumes "distinct nodes" "m < length nodes" "l < length nodes"
  shows "lagrange_basis nodes m (nodes ! l) = (if l = m then 1 else 0)"
proof (cases "l = m")
  case True
  have "(nodes ! m - nodes ! i) / (nodes ! m - nodes ! i) = 1" if "i \<in> {..<length nodes} - {m}" for i
    using that assms by (auto simp: nth_eq_iff_index_eq)
  then show ?thesis using True by (simp add: lagrange_basis_def)
next
  case False
  then have "l \<in> {..<length nodes} - {m}" using assms by simp
  then show ?thesis using False by (auto simp: lagrange_basis_def prod_zero_iff)
qed

lemma lagrange_node:
  "distinct nodes \<Longrightarrow> l < length nodes \<Longrightarrow> lagrange nodes ys (nodes ! l) = ys ! l"
  by (simp add: lagrange_def lagrange_basis_node if_distrib [of "(*) _"] sum.delta cong: if_cong)

lemma lagrange_basis_is_poly:
  assumes "distinct nodes" "m < length nodes"
  shows "\<exists>cs. length cs = length nodes \<and> (\<forall>x. poly_at cs x = lagrange_basis nodes m x)"
proof -
  let ?I = "{..<length nodes} - {m}"
  have inj: "inj_on ((!) nodes) ?I" using assms(1) by (auto simp: inj_on_def nth_eq_iff_index_eq)
  have card: "card ((!) nodes ` ?I) = length nodes - 1"
    using assms(2) by (simp add: card_image [OF inj])
  obtain cs where cs: "length cs = Suc (card ((!) nodes ` ?I))"
    "\<And>x. poly_at cs x = (\<Prod>b \<in> (!) nodes ` ?I. x - b)"
    using prod_is_poly [of "(!) nodes ` ?I"] by auto
  let ?den = "\<Prod>l \<in> ?I. nodes ! m - nodes ! l"
  have "poly_at (map ((*) (inverse ?den)) cs) x = lagrange_basis nodes m x" for x
    by (simp add: cs prod.reindex [OF inj] lagrange_basis_def prod_dividef field_simps)
  moreover have "length (map ((*) (inverse ?den)) cs) = length nodes"
    using cs card assms(2) by simp
  ultimately show ?thesis by blast
qed

lemma sum_is_poly:
  fixes f :: "nat \<Rightarrow> 'a::field \<Rightarrow> 'a"
  assumes "\<And>m. m < n \<Longrightarrow> \<exists>cs. length cs = k \<and> (\<forall>x. poly_at cs x = f m x)"
  shows "\<exists>cs. length cs = k \<and> (\<forall>x. poly_at cs x = (\<Sum>m < n. a m * f m x))"
  using assms
proof (induction n)
  case 0
  have "length (replicate k 0) = k \<and> (\<forall>x. poly_at (replicate k 0) x = (\<Sum>m < 0. a m * f m x))" by simp
  then show ?case by blast
next
  case (Suc n)
  then obtain cs ds where cs: "length cs = k" "\<And>x. poly_at cs x = (\<Sum>m < n. a m * f m x)"
    and ds: "length ds = k" "\<And>x. poly_at ds x = f n x"
    by (metis less_Suc_eq)
  have "length (poly_add cs (map ((*) (a n)) ds)) = k
      \<and> (\<forall>x. poly_at (poly_add cs (map ((*) (a n)) ds)) x = (\<Sum>m < Suc n. a m * f m x))"
    by (simp add: cs ds)
  then show ?case by blast
qed

lemma lagrange_is_poly:
  assumes "distinct nodes"
  shows "\<exists>cs. length cs = length nodes \<and> (\<forall>x. poly_at cs x = lagrange nodes ys x)"
  unfolding lagrange_def by (rule sum_is_poly) (rule lagrange_basis_is_poly [OF assms])

text \<open>Interpolating a polynomial of degree below \<open>k\<close> through \<open>k\<close> of its points gives it back.\<close>

lemma lagrange_unique:
  assumes "distinct nodes" "length cs \<le> length nodes"
  shows "lagrange nodes (map (poly_at cs) nodes) x = poly_at cs x"
proof -
  obtain ds where ds: "length ds = length nodes"
    "\<And>x. poly_at ds x = lagrange nodes (map (poly_at cs) nodes) x"
    using lagrange_is_poly [OF assms(1)] by blast
  let ?diff = "poly_add ds (map ((*) (- 1)) cs)"
  have "poly_at ?diff a = 0" if "a \<in> set nodes" for a
    using that lagrange_node [OF assms(1)] by (auto simp: in_set_conv_nth ds)
  moreover have "length ?diff \<le> card (set nodes)"
    using ds assms by (simp add: distinct_card)
  ultimately have "poly_at ?diff x = 0" using roots_bound [of "set nodes" ?diff x] by simp
  then show ?thesis by (simp add: ds)
qed

text \<open>
  The form the erasure code uses: what interpolation through one set of nodes predicts, interpolation
  through any other set of as many points of it reproduces.
\<close>

lemma lagrange_exchange:
  assumes "distinct nodes" "distinct points" "length points = length nodes"
  shows "lagrange points (map (lagrange nodes ys) points) x = lagrange nodes ys x"
proof -
  obtain cs where "length cs = length nodes" and eq: "\<And>x. poly_at cs x = lagrange nodes ys x"
    using lagrange_is_poly [OF assms(1)] by blast
  moreover have "lagrange nodes ys = poly_at cs" using eq by (simp add: fun_eq_iff)
  ultimately show ?thesis using lagrange_unique [OF assms(2), of cs x] assms(3) by simp
qed

end
