(* ===== verification/Spqr.thy ===== *)
theory Spqr
  imports Constants Kdf Channel
begin

text \<open>
  The Sparse Post-Quantum Ratchet (\<open>tacenta_reader/spqr.py\<close>).  The agreement is a boundary: a send or
  a receive is told the epoch it names and, optionally, a secret with the epoch it belongs to.  Both
  dicts keep their order: \<open>chains\<close> the order in which entries were last replaced, \<open>skipped\<close> the order
  in which keys were stored.
\<close>

section \<open>State\<close>

record chain =
  ch_ck :: bytes
  ch_n :: int

type_synonym qchains = "(int, chain option \<times> chain option) dict"
type_synonym qstore = "(int \<times> int, bytes) dict"

record qstate =
  q_rk :: bytes
  q_epoch :: int
  q_direction :: int
  q_chains :: qchains
  q_skipped :: qstore

section \<open>Derivations\<close>

definition spqr_info :: "bytes \<Rightarrow> bytes" where
  "spqr_info suffix = SPQR_PROTOCOL_INFO @ SPQR_SEPARATOR @ suffix"

definition spqr_kdf_init :: "bytes \<Rightarrow> bytes \<times> bytes \<times> bytes" where
  "spqr_kdf_init sk =
     (let out = hkdf (zeros 32) sk (spqr_info SPQR_CHAIN_START) 96
      in (take 32 out, take 32 (drop 32 out), drop 64 out))"

definition spqr_kdf_root :: "bytes \<Rightarrow> bytes \<Rightarrow> bytes \<times> bytes \<times> bytes" where
  "spqr_kdf_root rk secret =
     (let out = hkdf rk secret (spqr_info SPQR_ROOT) 96
      in (take 32 out, take 32 (drop 32 out), drop 64 out))"

definition spqr_kdf_chain :: "bytes \<Rightarrow> int \<Rightarrow> (bytes \<times> bytes) res" where
  "spqr_kdf_chain ck n =
     (if n < 0 \<or> n > U64_MAX then Inl (SpqrE SpqrError)
      else bindR (to_bytes_be 8 n) (\<lambda>m.
        let out = hkdf ck m (spqr_info SPQR_CHAIN) 64 in Inr (take 32 out, drop 32 out)))"

section \<open>Initialisation and epochs\<close>

definition spqr_assign :: "int \<Rightarrow> bytes \<Rightarrow> bytes \<Rightarrow> (chain option \<times> chain option) res" where
  "spqr_assign direction ck1 ck2 =
     (if direction = DIRECTION_A2B
      then Inr (Some \<lparr> ch_ck = ck1, ch_n = 0 \<rparr>, Some \<lparr> ch_ck = ck2, ch_n = 0 \<rparr>)
      else if direction = DIRECTION_B2A
      then Inr (Some \<lparr> ch_ck = ck2, ch_n = 0 \<rparr>, Some \<lparr> ch_ck = ck1, ch_n = 0 \<rparr>)
      else Inl (SpqrE SpqrError))"

definition spqr_init :: "bytes \<Rightarrow> int \<Rightarrow> qstate res" where
  "spqr_init sk direction =
     (let (rk, ck1, ck2) = spqr_kdf_init sk
      in bindR (spqr_assign direction ck1 ck2) (\<lambda>pair.
         Inr \<lparr> q_rk = rk, q_epoch = 0, q_direction = direction,
               q_chains = dict_set 0 pair [], q_skipped = [] \<rparr>))"

text \<open>\<open>_touch\<close>: pop an entry and put it back last.\<close>

definition spqr_touch :: "int \<Rightarrow> qstate \<Rightarrow> qstate" where
  "spqr_touch epoch s =
     (case dict_get (q_chains s) epoch of
        None \<Rightarrow> s
      | Some entry \<Rightarrow> s\<lparr> q_chains := dict_set epoch entry (dict_del epoch (q_chains s)) \<rparr>)"

definition epoch_kept :: "int \<Rightarrow> int \<Rightarrow> bool" where
  "epoch_kept current e \<longleftrightarrow> current < min (e + EPOCHS_KEPT) U64_MAX"

definition spqr_advance :: "qstate \<Rightarrow> bytes \<Rightarrow> int \<Rightarrow> qstate res" where
  "spqr_advance s secret secret_epoch =
     (if secret_epoch \<noteq> q_epoch s + 1 then Inl (SpqrE SpEpochGap)
      else if secret_epoch = U64_MAX then Inl (SpqrE SpChainExhausted)
      else
        (let (rk, ck1, ck2) = spqr_kdf_root (q_rk s) secret
         in bindR (spqr_assign (q_direction s) ck1 ck2) (\<lambda>pair.
            let chains = dict_set secret_epoch pair (dict_del secret_epoch (q_chains s));
                kept = filter (\<lambda>(e, _). epoch_kept secret_epoch e) chains
            in Inr (s\<lparr> q_rk := rk, q_epoch := secret_epoch, q_chains := kept,
                      q_skipped := filter (\<lambda>(k, _). dict_in (fst k) kept) (q_skipped s) \<rparr>))))"

text \<open>
  \<open>if secret is not None: _advance(s, secret, secret_epoch)\<close>.  A secret without its epoch compares
  unequal to every epoch.
\<close>

definition spqr_offer :: "qstate \<Rightarrow> bytes option \<Rightarrow> int option \<Rightarrow> qstate res" where
  "spqr_offer s secret secret_epoch =
     (case secret of
        None \<Rightarrow> Inr s
      | Some sec \<Rightarrow>
          (case secret_epoch of None \<Rightarrow> Inl (SpqrE SpEpochGap) | Some e \<Rightarrow> spqr_advance s sec e))"

section \<open>Sending\<close>

definition spqr_send ::
  "qstate \<Rightarrow> int \<Rightarrow> bytes option \<Rightarrow> int option \<Rightarrow> (qstate \<times> int \<times> int \<times> bytes) res" where
  "spqr_send s agreement_epoch secret secret_epoch =
     bindR (spqr_offer s secret secret_epoch) (\<lambda>s.
       case dict_get (q_chains s) agreement_epoch of
         None \<Rightarrow> Inl (SpqrE SpNoChain)
       | Some (snd_chain, rcv_chain) \<Rightarrow>
           (case snd_chain of
              None \<Rightarrow> Inl (SpqrE SpChainRetired)
            | Some c \<Rightarrow>
                if ch_n c = U64_MAX then Inl (SpqrE SpChainExhausted)
                else bindR (spqr_kdf_chain (ch_ck c) (ch_n c + 1)) (\<lambda>(ck, mk).
                  let c' = \<lparr> ch_ck = ck, ch_n = ch_n c + 1 \<rparr>;
                      s = s\<lparr> q_chains := dict_set agreement_epoch (Some c', rcv_chain) (q_chains s) \<rparr>
                  in Inr (spqr_touch agreement_epoch s, agreement_epoch, ch_n c', mk))))"

section \<open>Receiving\<close>

text \<open>The loop that steps the chain up to \<open>n\<close>, exclusive, storing the keys it passes.\<close>

function spqr_step_loop :: "int \<Rightarrow> int \<Rightarrow> chain \<Rightarrow> qstore \<Rightarrow> (chain \<times> qstore) res" where
  "spqr_step_loop epoch n c store =
     (if ch_n c + 1 < n
      then (case spqr_kdf_chain (ch_ck c) (ch_n c + 1) of
              Inl e \<Rightarrow> Inl e
            | Inr (ck, mk) \<Rightarrow>
                spqr_step_loop epoch n \<lparr> ch_ck = ck, ch_n = ch_n c + 1 \<rparr>
                  (dict_set (epoch, ch_n c + 1) mk store))
      else Inr (c, store))"
  by pat_completeness auto
termination
  by (relation "measure (\<lambda>(epoch, n, c, store). nat (n - ch_n c))") auto

declare spqr_step_loop.simps [simp del]

definition spqr_receive ::
  "qstate \<Rightarrow> int \<Rightarrow> int \<Rightarrow> bytes option \<Rightarrow> int option \<Rightarrow> (qstate \<times> bytes) res" where
  "spqr_receive s msg_epoch n secret secret_epoch =
     bindR (spqr_offer s secret secret_epoch) (\<lambda>s.
       case dict_get (q_skipped s) (msg_epoch, n) of
         Some mk \<Rightarrow> Inr (s\<lparr> q_skipped := dict_del (msg_epoch, n) (q_skipped s) \<rparr>, mk)
       | None \<Rightarrow>
       (case dict_get (q_chains s) msg_epoch of
          None \<Rightarrow> Inl (SpqrE SpNoChain)
        | Some (snd_chain, rcv_chain) \<Rightarrow>
       (case rcv_chain of
          None \<Rightarrow> Inl (SpqrE SpChainRetired)
        | Some c \<Rightarrow>
            if n \<le> ch_n c
            then Inl (SpqrE (if ch_n c = U64_MAX then SpChainExhausted else SpOutOfOrder))
            else if n - 1 - ch_n c > MAX_SKIP then Inl (SpqrE SpTooManySkipped)
            else
              (let numbers = [ch_n c + 1..n - 1];
                   fresh = int (length (filter (\<lambda>m. \<not> dict_in (msg_epoch, m) (q_skipped s)) numbers));
                   over = int (length (q_skipped s)) + fresh - MAX_SKIPPED_STORE
               in if over > 0 then Inl (SpqrE (SpSkippedStoreFull over))
                  else
                    bindR (spqr_step_loop msg_epoch n c
                             (fold (\<lambda>m. dict_del (msg_epoch, m)) numbers (q_skipped s))) (\<lambda>(c, store).
                    bindR (spqr_kdf_chain (ch_ck c) (ch_n c + 1)) (\<lambda>(ck, mk).
                      let c' = \<lparr> ch_ck = ck, ch_n = ch_n c + 1 \<rparr>;
                          s = s\<lparr> q_chains := dict_set msg_epoch (snd_chain, Some c') (q_chains s),
                                q_skipped := store \<rparr>
                      in Inr (spqr_touch msg_epoch s, mk)))))))"

section \<open>Eviction\<close>

definition spqr_evict :: "qstate \<Rightarrow> int \<Rightarrow> qstate" where
  "spqr_evict s count =
     s\<lparr> q_skipped := fold (\<lambda>(k, _). dict_del k) (take (nat (max 0 count)) (q_skipped s)) (q_skipped s) \<rparr>"

section \<open>The chain, as a reference\<close>

definition chain_out :: "bytes \<Rightarrow> int \<Rightarrow> bytes \<times> bytes" where
  "chain_out ck n =
     (let out = hkdf ck (be_digits 8 n) (spqr_info SPQR_CHAIN) 64 in (take 32 out, drop 32 out))"

lemma spqr_kdf_chain_eq:
  "spqr_kdf_chain ck n = (if n < 0 \<or> n > U64_MAX then Inl (SpqrE SpqrError) else Inr (chain_out ck n))"
  by (simp add: spqr_kdf_chain_def chain_out_def to_bytes_be_def const_defs Let_def)

lemma length_chain_out [simp]: "length (fst (chain_out ck n)) = 32" "length (snd (chain_out ck n)) = 32"
  by (simp_all add: chain_out_def Let_def)

text \<open>The chain key \<open>i\<close> steps after counter \<open>k\<close>, and the key of the message stepped next.\<close>

fun chain_from :: "bytes \<Rightarrow> int \<Rightarrow> nat \<Rightarrow> bytes" where
  "chain_from ck k 0 = ck"
| "chain_from ck k (Suc i) = fst (chain_out (chain_from ck k i) (k + int i + 1))"

definition chain_msg :: "bytes \<Rightarrow> int \<Rightarrow> nat \<Rightarrow> bytes" where
  "chain_msg ck k i = snd (chain_out (chain_from ck k i) (k + int i + 1))"

lemma chain_from_add: "chain_from (chain_from ck k i) (k + int i) j = chain_from ck k (i + j)"
  by (induction j) (simp_all add: algebra_simps)

lemma chain_msg_add: "chain_msg (chain_from ck k i) (k + int i) j = chain_msg ck k (i + j)"
  by (simp add: chain_msg_def chain_from_add algebra_simps)

lemma chain_from_step: "chain_from (fst (chain_out ck (k + 1))) (k + 1) j = chain_from ck k (Suc j)"
  using chain_from_add [of ck k 1 j] by simp

lemma chain_msg_step: "chain_msg (fst (chain_out ck (k + 1))) (k + 1) j = chain_msg ck k (Suc j)"
  using chain_msg_add [of ck k 1 j] by simp

lemma length_chain_from: "length ck = 32 \<Longrightarrow> length (chain_from ck k i) = 32"
  by (cases i) simp_all

lemma length_chain_msg [simp]: "length (chain_msg ck k i) = 32"
  by (simp add: chain_msg_def)

text \<open>The entries stored on the way from counter \<open>k\<close> to number \<open>n\<close>, exclusive.\<close>

definition passed_keys :: "int \<Rightarrow> bytes \<Rightarrow> int \<Rightarrow> int \<Rightarrow> qstore" where
  "passed_keys epoch ck k n = map (\<lambda>i. ((epoch, k + 1 + int i), chain_msg ck k i)) [0..<nat (n - 1 - k)]"

lemma passed_keys_step:
  assumes "k + 1 < n"
  shows "passed_keys epoch ck k n =
     ((epoch, k + 1), chain_msg ck k 0) # passed_keys epoch (fst (chain_out ck (k + 1))) (k + 1) n"
proof -
  have n: "nat (n - 1 - k) = Suc (nat (n - 1 - (k + 1)))" using assms by simp
  show ?thesis
    unfolding passed_keys_def n
    by (simp only: upt_conv_Cons map_Suc_upt [symmetric] list.map map_map zero_less_Suc)
      (simp add: chain_msg_step comp_def add.assoc)
qed

lemma set_passed_keys:
  "set (passed_keys epoch ck k n) = {((epoch, m), chain_msg ck k (nat (m - k - 1))) | m. k < m \<and> m < n}"
proof (intro set_eqI iffI)
  fix x assume "x \<in> {((epoch, m), chain_msg ck k (nat (m - k - 1))) | m. k < m \<and> m < n}"
  then obtain m where "x = ((epoch, m), chain_msg ck k (nat (m - k - 1)))" "k < m" "m < n" by auto
  then show "x \<in> set (passed_keys epoch ck k n)"
    by (auto simp: passed_keys_def image_iff intro!: bexI [of _ "nat (m - k - 1)"])
qed (auto simp: passed_keys_def)

lemma distinct_passed_keys: "distinct (map fst (passed_keys epoch ck k n))"
  by (auto simp: passed_keys_def comp_def distinct_map inj_on_def)

lemma step_loop_closed:
  "0 \<le> ch_n c \<Longrightarrow> ch_n c < n \<Longrightarrow> n - 1 \<le> U64_MAX \<Longrightarrow>
     (\<forall>m. ch_n c < m \<and> m < n \<longrightarrow> \<not> dict_in (epoch, m) store) \<Longrightarrow>
     spqr_step_loop epoch n c store =
       Inr (\<lparr> ch_ck = chain_from (ch_ck c) (ch_n c) (nat (n - 1 - ch_n c)), ch_n = n - 1 \<rparr>,
            store @ passed_keys epoch (ch_ck c) (ch_n c) n)"
proof (induction "nat (n - 1 - ch_n c)" arbitrary: c store)
  case 0
  then have "n - 1 = ch_n c" by simp
  then show ?case by (subst spqr_step_loop.simps) (simp add: passed_keys_def)
next
  case (Suc i)
  then have less: "ch_n c + 1 < n" by simp
  let ?c = "\<lparr> ch_ck = fst (chain_out (ch_ck c) (ch_n c + 1)), ch_n = ch_n c + 1 \<rparr>"
  let ?store = "store @ [((epoch, ch_n c + 1), chain_msg (ch_ck c) (ch_n c) 0)]"
  have "dict_set (epoch, ch_n c + 1) mk store = store @ [((epoch, ch_n c + 1), mk)]" for mk
    using less Suc.prems(4) by (simp add: dict_set_def)
  then have "spqr_step_loop epoch n c store = spqr_step_loop epoch n ?c ?store"
    using less Suc.prems
    by (subst spqr_step_loop.simps) (simp add: spqr_kdf_chain_eq chain_msg_def split_beta)
  also have "\<dots> = Inr (\<lparr> ch_ck = chain_from (ch_ck ?c) (ch_n ?c) (nat (n - 1 - ch_n ?c)), ch_n = n - 1 \<rparr>,
      ?store @ passed_keys epoch (ch_ck ?c) (ch_n ?c) n)"
    by (rule Suc.hyps(1)) (use Suc.hyps(2) Suc.prems less in \<open>auto simp: dict_in_def\<close>)
  also have "nat (n - 1 - ch_n ?c) = i" using Suc.hyps(2) by simp
  finally show ?case
    using less Suc.hyps(2) [symmetric] by (simp add: chain_from_step passed_keys_step)
qed

lemma step_loop_too_far:
  "0 \<le> ch_n c \<Longrightarrow> ch_n c \<le> U64_MAX \<Longrightarrow> U64_MAX < n - 1 \<Longrightarrow>
     spqr_step_loop epoch n c store = Inl (SpqrE SpqrError)"
proof (induction "nat (U64_MAX - ch_n c)" arbitrary: c store)
  case 0
  then show ?case by (subst spqr_step_loop.simps) (simp add: spqr_kdf_chain_eq)
next
  case (Suc i)
  then have less: "ch_n c + 1 \<le> U64_MAX" by simp
  let ?c = "\<lparr> ch_ck = fst (chain_out (ch_ck c) (ch_n c + 1)), ch_n = ch_n c + 1 \<rparr>"
  have "spqr_step_loop epoch n c store =
      spqr_step_loop epoch n ?c (dict_set (epoch, ch_n c + 1) (snd (chain_out (ch_ck c) (ch_n c + 1))) store)"
    using less Suc.prems by (subst spqr_step_loop.simps) (simp add: spqr_kdf_chain_eq split_beta)
  moreover have "spqr_step_loop epoch n ?c st = Inl (SpqrE SpqrError)" for st
    by (rule Suc.hyps(1)) (use Suc.hyps(2) Suc.prems less in auto)
  ultimately show ?case by simp
qed

section \<open>Receiving on one chain, branch by branch\<close>

definition spqr_shortfall :: "qstate \<Rightarrow> int \<Rightarrow> int \<Rightarrow> int \<Rightarrow> int" where
  "spqr_shortfall s epoch k n =
     int (length (q_skipped s))
       + int (length (filter (\<lambda>m. \<not> dict_in (epoch, m) (q_skipped s)) [k + 1..n - 1])) - MAX_SKIPPED_STORE"

text \<open>The state after accepting number \<open>n\<close> on the receiving chain \<open>c\<close> of \<open>epoch\<close>.\<close>

definition spqr_accepted :: "qstate \<Rightarrow> int \<Rightarrow> chain option \<Rightarrow> chain \<Rightarrow> int \<Rightarrow> qstate" where
  "spqr_accepted s epoch snd_chain c n =
     s\<lparr> q_chains := dict_del epoch (q_chains s)
          @ [(epoch, (snd_chain, Some \<lparr> ch_ck = chain_from (ch_ck c) (ch_n c) (nat (n - ch_n c)), ch_n = n \<rparr>))],
        q_skipped := outside_run epoch (ch_n c + 1) n (q_skipped s) @ passed_keys epoch (ch_ck c) (ch_n c) n \<rparr>"

lemma dict_set_after_del: "dict_set e v (dict_del e d) = dict_del e d @ [(e, v)]"
  by (simp add: dict_set_def)

lemma dict_del_set: "dict_del e (dict_set e v d) = dict_del e d"
proof -
  have "filter (\<lambda>x. fst x \<noteq> e) (map (\<lambda>x. if fst x = e then (e, v) else x) d) = filter (\<lambda>x. fst x \<noteq> e) d"
    by (induction d) auto
  then show ?thesis by (simp add: dict_set_def dict_del_def)
qed

lemma touch_set:
  "spqr_touch e (s\<lparr> q_chains := dict_set e v (q_chains s) \<rparr>) =
     s\<lparr> q_chains := dict_del e (q_chains s) @ [(e, v)] \<rparr>"
  "spqr_touch e (s\<lparr> q_chains := dict_set e v (q_chains s), q_skipped := st \<rparr>) =
     s\<lparr> q_chains := dict_del e (q_chains s) @ [(e, v)], q_skipped := st \<rparr>"
  by (simp_all add: spqr_touch_def dict_get_set dict_set_after_del dict_del_set)

lemma spqr_receive_offer:
  "spqr_receive s e n secret se = bindR (spqr_offer s secret se) (\<lambda>s. spqr_receive s e n None None)"
  by (cases "spqr_offer s secret se") (simp_all add: spqr_receive_def spqr_offer_def)

lemma spqr_receive_current:
  assumes get: "dict_get (q_chains s) e = Some (snd_chain, Some c)"
    and range: "0 \<le> ch_n c" "ch_n c \<le> U64_MAX"
  shows "spqr_receive s e n None None =
     (case dict_get (q_skipped s) (e, n) of
        Some mk \<Rightarrow> Inr (s\<lparr> q_skipped := dict_del (e, n) (q_skipped s) \<rparr>, mk)
      | None \<Rightarrow>
          if n \<le> ch_n c then Inl (SpqrE (if ch_n c = U64_MAX then SpChainExhausted else SpOutOfOrder))
          else if n - 1 - ch_n c > MAX_SKIP then Inl (SpqrE SpTooManySkipped)
          else if spqr_shortfall s e (ch_n c) n > 0
          then Inl (SpqrE (SpSkippedStoreFull (spqr_shortfall s e (ch_n c) n)))
          else if n > U64_MAX then Inl (SpqrE SpqrError)
          else Inr (spqr_accepted s e snd_chain c n, chain_msg (ch_ck c) (ch_n c) (nat (n - 1 - ch_n c))))"
proof (cases "dict_get (q_skipped s) (e, n)")
  case None
  let ?st = "outside_run e (ch_n c + 1) n (q_skipped s)"
  let ?c = "\<lparr> ch_ck = chain_from (ch_ck c) (ch_n c) (nat (n - 1 - ch_n c)), ch_n = n - 1 \<rparr>"
  have absent: "\<forall>m. ch_n c < m \<and> m < n \<longrightarrow> \<not> dict_in (e, m) ?st"
    by (auto simp: dict_in_def set_outside_run)
  have loop: "spqr_step_loop e n c ?st =
      (if n - 1 \<le> U64_MAX then Inr (?c, ?st @ passed_keys e (ch_ck c) (ch_n c) n) else Inl (SpqrE SpqrError))"
    if "ch_n c < n"
    using that range step_loop_too_far [OF range, of n e ?st] step_loop_closed [OF range(1) _ _ absent]
    by simp
  have next_key: "chain_out (ch_ck ?c) n =
      (chain_from (ch_ck c) (ch_n c) (nat (n - ch_n c)), chain_msg (ch_ck c) (ch_n c) (nat (n - 1 - ch_n c)))"
    if "ch_n c < n"
  proof -
    have "nat (n - ch_n c) = Suc (nat (n - 1 - ch_n c))" "ch_n c + int (nat (n - 1 - ch_n c)) + 1 = n"
      using that by auto
    then show ?thesis by (simp add: chain_msg_def)
  qed
  show ?thesis
  proof (cases "ch_n c < n")
    case True
    have "\<not> n < 0" using True range by simp
    then show ?thesis
      using None get True loop [OF True] next_key [OF True]
      by (auto simp: spqr_receive_def spqr_offer_def Let_def spqr_shortfall_def spqr_kdf_chain_eq
          fold_del_run [of e "ch_n c + 1", simplified] spqr_accepted_def touch_set)
  qed (use None get in \<open>simp add: spqr_receive_def spqr_offer_def\<close>)
qed (simp add: spqr_receive_def spqr_offer_def)

section \<open>The state invariant\<close>

definition chain_ok :: "chain \<Rightarrow> bool" where
  "chain_ok c \<longleftrightarrow> length (ch_ck c) = 32 \<and> 0 \<le> ch_n c \<and> ch_n c \<le> U64_MAX"

definition chains_entry_ok :: "int \<Rightarrow> int \<times> (chain option \<times> chain option) \<Rightarrow> bool" where
  "chains_entry_ok epoch e = (case e of (e, (snd_chain, rcv_chain)) \<Rightarrow>
     0 \<le> e \<and> e \<le> epoch \<and> epoch_kept epoch e \<and> opt_all chain_ok snd_chain \<and> opt_all chain_ok rcv_chain)"

definition spqr_ok :: "qstate \<Rightarrow> bool" where
  "spqr_ok s \<longleftrightarrow>
     length (q_rk s) = 32 \<and> q_direction s \<in> {DIRECTION_A2B, DIRECTION_B2A}
     \<and> dict_ok (q_chains s) \<and> list_all (chains_entry_ok (q_epoch s)) (q_chains s)
     \<and> dict_in (q_epoch s) (q_chains s)
     \<and> dict_ok (q_skipped s) \<and> int (length (q_skipped s)) \<le> MAX_SKIPPED_STORE
     \<and> list_all (\<lambda>((e, n), mk). dict_in e (q_chains s) \<and> 0 \<le> n \<and> n \<le> U64_MAX \<and> length mk = 32)
         (q_skipped s)"

lemma spqr_ok_chain:
  assumes "spqr_ok s" "dict_get (q_chains s) e = Some (sc, rc)"
  shows "opt_all chain_ok sc \<and> opt_all chain_ok rc \<and> 0 \<le> e \<and> e \<le> q_epoch s \<and> epoch_kept (q_epoch s) e"
  using assms dict_get_Some_in [OF assms(2)]
  by (auto simp: spqr_ok_def list_all_iff chains_entry_ok_def)

lemma spqr_ok_epoch: "spqr_ok s \<Longrightarrow> 0 \<le> q_epoch s \<and> q_epoch s < U64_MAX"
proof -
  assume ok: "spqr_ok s"
  then obtain sc rc where "dict_get (q_chains s) (q_epoch s) = Some (sc, rc)"
    by (auto simp: spqr_ok_def dict_in_iff_get)
  with spqr_ok_chain [OF ok this] show ?thesis by (simp add: epoch_kept_def)
qed

lemma length_kdf_init:
  "spqr_kdf_init sk = (rk, ck1, ck2) \<Longrightarrow> length rk = 32 \<and> length ck1 = 32 \<and> length ck2 = 32"
  by (auto simp: spqr_kdf_init_def Let_def)

lemma length_kdf_root:
  "spqr_kdf_root r sec = (rk, ck1, ck2) \<Longrightarrow> length rk = 32 \<and> length ck1 = 32 \<and> length ck2 = 32"
  by (auto simp: spqr_kdf_root_def Let_def)

lemma spqr_assign_ok:
  "spqr_assign d ck1 ck2 = Inr (sc, rc) \<Longrightarrow> length ck1 = 32 \<Longrightarrow> length ck2 = 32 \<Longrightarrow>
     opt_all chain_ok sc \<and> opt_all chain_ok rc \<and> d \<in> {DIRECTION_A2B, DIRECTION_B2A}"
  by (auto simp: spqr_assign_def chain_ok_def const_defs split: if_splits)

lemma spqr_init_ok: "spqr_init sk d = Inr s \<Longrightarrow> spqr_ok s"
proof -
  assume run: "spqr_init sk d = Inr s"
  obtain rk ck1 ck2 where k: "spqr_kdf_init sk = (rk, ck1, ck2)" by (cases "spqr_kdf_init sk")
  with run obtain pair where p: "spqr_assign d ck1 ck2 = Inr pair"
    and s: "s = \<lparr> q_rk = rk, q_epoch = 0, q_direction = d, q_chains = [(0, pair)], q_skipped = [] \<rparr>"
    by (auto simp: spqr_init_def bindR_Inr_iff dict_set_def)
  obtain sc rc where pair: "pair = (sc, rc)" by (cases pair)
  show ?thesis
    using spqr_assign_ok [OF p [unfolded pair]] length_kdf_init [OF k]
    by (auto simp: s pair spqr_ok_def chains_entry_ok_def epoch_kept_def dict_ok_def dict_in_def const_defs)
qed

lemma spqr_advance_ok:
  assumes ok: "spqr_ok s" and run: "spqr_advance s sec e = Inr s'"
  shows "spqr_ok s'"
proof -
  obtain rk ck1 ck2 where k: "spqr_kdf_root (q_rk s) sec = (rk, ck1, ck2)"
    by (cases "spqr_kdf_root (q_rk s) sec")
  obtain sc rc where e: "e = q_epoch s + 1" "e \<noteq> U64_MAX" and p: "spqr_assign (q_direction s) ck1 ck2 = Inr (sc, rc)"
    and s': "s' = s\<lparr> q_rk := rk, q_epoch := e,
      q_chains := filter (\<lambda>(f, _). epoch_kept e f) (dict_del e (q_chains s) @ [(e, (sc, rc))]),
      q_skipped := filter (\<lambda>(k, _). dict_in (fst k)
        (filter (\<lambda>(f, _). epoch_kept e f) (dict_del e (q_chains s) @ [(e, (sc, rc))]))) (q_skipped s) \<rparr>"
    using run k by (auto simp: spqr_advance_def Let_def bindR_Inr_iff dict_set_after_del split: if_splits)
  have range: "0 \<le> e" "epoch_kept e e"
    using spqr_ok_epoch [OF ok] e by (auto simp: epoch_kept_def const_defs)
  have fields: "q_rk s' = rk" "q_epoch s' = e" "q_direction s' = q_direction s"
    by (simp_all add: s')
  have "dict_ok (dict_del e (q_chains s) @ [(e, (sc, rc))])"
    using ok by (simp flip: dict_set_after_del add: spqr_ok_def)
  then have "dict_ok (q_chains s')" unfolding s' by (simp del: filter_append)
  moreover have "list_all (chains_entry_ok e) (q_chains s')"
    using ok spqr_assign_ok [OF p] length_kdf_root [OF k] e range
    by (auto simp: s' list_all_iff spqr_ok_def chains_entry_ok_def set_dict_del)
  moreover have "dict_in e (q_chains s')" using range by (auto simp: s' dict_in_def)
  moreover have "dict_ok (q_skipped s')" using ok by (simp add: s' spqr_ok_def)
  moreover have "int (length (q_skipped s')) \<le> MAX_SKIPPED_STORE"
  proof -
    have "length (q_skipped s') \<le> length (q_skipped s)" by (simp add: s')
    then show ?thesis using ok unfolding spqr_ok_def by linarith
  qed
  moreover have "list_all (\<lambda>((e, n), mk). dict_in e (q_chains s') \<and> 0 \<le> n \<and> n \<le> U64_MAX \<and> length mk = 32)
      (q_skipped s')"
    using ok by (auto simp: s' spqr_ok_def list_all_iff)
  ultimately show ?thesis
    using ok length_kdf_root [OF k] unfolding spqr_ok_def fields by blast
qed

lemma spqr_offer_ok: "spqr_ok s \<Longrightarrow> spqr_offer s sec se = Inr s' \<Longrightarrow> spqr_ok s'"
  by (auto simp: spqr_offer_def spqr_advance_ok split: option.splits)

text \<open>Replacing one chains entry, and moving it last, keeps the invariant.\<close>

lemma spqr_ok_replace:
  assumes ok: "spqr_ok s" and old: "dict_get (q_chains s) e = Some pair"
    and new: "opt_all chain_ok sc" "opt_all chain_ok rc"
  shows "spqr_ok (s\<lparr> q_chains := dict_del e (q_chains s) @ [(e, (sc, rc))] \<rparr>)"
proof -
  have "dict_in e (q_chains s)" using old by (auto simp: dict_in_iff_get)
  then have same: "dict_in f (dict_del e (q_chains s) @ [(e, (sc, rc))]) = dict_in f (q_chains s)" for f
    by (auto simp flip: dict_set_after_del)
  have "dict_ok (dict_del e (q_chains s) @ [(e, (sc, rc))])"
    using ok by (simp flip: dict_set_after_del add: spqr_ok_def)
  moreover have "list_all (chains_entry_ok (q_epoch s)) (dict_del e (q_chains s) @ [(e, (sc, rc))])"
    using ok new spqr_ok_chain [OF ok, of e "fst pair" "snd pair"] old
    by (auto simp: spqr_ok_def list_all_iff chains_entry_ok_def set_dict_del)
  ultimately show ?thesis using ok by (simp add: spqr_ok_def same)
qed

lemma spqr_send_offer:
  "spqr_send s e secret se = bindR (spqr_offer s secret se) (\<lambda>s. spqr_send s e None None)"
  by (cases "spqr_offer s secret se") (simp_all add: spqr_send_def spqr_offer_def)

lemma spqr_send_current:
  assumes get: "dict_get (q_chains s) e = Some (Some c, rc)" and range: "0 \<le> ch_n c" "ch_n c \<le> U64_MAX"
  shows "spqr_send s e None None =
     (if ch_n c = U64_MAX then Inl (SpqrE SpChainExhausted)
      else Inr (s\<lparr> q_chains := dict_del e (q_chains s) @
              [(e, (Some \<lparr> ch_ck = chain_from (ch_ck c) (ch_n c) 1, ch_n = ch_n c + 1 \<rparr>, rc))] \<rparr>,
            e, ch_n c + 1, chain_msg (ch_ck c) (ch_n c) 0))"
  using assms
  by (auto simp: spqr_send_def spqr_offer_def spqr_kdf_chain_eq split_beta touch_set chain_msg_def)

lemma spqr_send_ok:
  assumes ok: "spqr_ok s" and run: "spqr_send s e sec se = Inr (s', e', n, mk)"
  shows "spqr_ok s'"
proof -
  obtain s1 where s1: "spqr_offer s sec se = Inr s1" and on: "spqr_send s1 e None None = Inr (s', e', n, mk)"
    using run by (subst (asm) spqr_send_offer) (auto simp: bindR_Inr_iff)
  have ok1: "spqr_ok s1" by (rule spqr_offer_ok [OF ok s1])
  obtain c rc where get: "dict_get (q_chains s1) e = Some (Some c, rc)"
    using on by (auto simp: spqr_send_def spqr_offer_def split: option.splits prod.splits)
  have c: "opt_all chain_ok rc" "chain_ok c" using spqr_ok_chain [OF ok1 get] by auto
  then have range: "0 \<le> ch_n c" "ch_n c \<le> U64_MAX" by (simp_all add: chain_ok_def)
  have n: "ch_n c \<noteq> U64_MAX" and s': "s' = s1\<lparr> q_chains := dict_del e (q_chains s1) @
      [(e, (Some \<lparr> ch_ck = chain_from (ch_ck c) (ch_n c) 1, ch_n = ch_n c + 1 \<rparr>, rc))] \<rparr>"
    using on by (auto simp: spqr_send_current [OF get range] split: if_splits)
  have "chain_ok \<lparr> ch_ck = chain_from (ch_ck c) (ch_n c) 1, ch_n = ch_n c + 1 \<rparr>"
    using n range by (simp add: chain_ok_def)
  then show ?thesis
    using c unfolding s' by (intro spqr_ok_replace [OF ok1 get]) simp_all
qed

lemma spqr_ok_store:
  assumes "spqr_ok s" "dict_ok st" "int (length st) \<le> MAX_SKIPPED_STORE"
    "list_all (\<lambda>((e, n), mk). dict_in e (q_chains s) \<and> 0 \<le> n \<and> n \<le> U64_MAX \<and> length mk = 32) st"
  shows "spqr_ok (s\<lparr> q_skipped := st \<rparr>)"
  using assms by (simp add: spqr_ok_def)

lemma length_spqr_accepted:
  assumes "dict_ok (q_skipped s)" "ch_n c < n"
  shows "int (length (q_skipped (spqr_accepted s e sc c n))) = spqr_shortfall s e (ch_n c) n + MAX_SKIPPED_STORE"
  using length_outside_run [OF assms(1), of "ch_n c + 1" n e] assms(2)
  by (simp add: spqr_accepted_def spqr_shortfall_def passed_keys_def)

lemma spqr_accepted_ok:
  assumes ok: "spqr_ok s" and get: "dict_get (q_chains s) e = Some (sc, Some c)"
    and n: "ch_n c < n" "n \<le> U64_MAX" and room: "\<not> spqr_shortfall s e (ch_n c) n > 0"
  shows "spqr_ok (spqr_accepted s e sc c n)"
proof -
  let ?st = "outside_run e (ch_n c + 1) n (q_skipped s) @ passed_keys e (ch_ck c) (ch_n c) n"
  have c: "chain_ok c" using spqr_ok_chain [OF ok get] by simp
  have "distinct (map fst ?st)"
    using ok distinct_passed_keys [of e "ch_ck c" "ch_n c" n] dict_ok_outside_run [of "q_skipped s"]
    by (auto simp: spqr_ok_def dict_ok_def set_outside_run set_passed_keys)
  moreover have "int (length ?st) \<le> MAX_SKIPPED_STORE"
    using length_spqr_accepted [of s c n e sc] ok n room by (simp add: spqr_ok_def spqr_accepted_def)
  moreover have "dict_in e (q_chains s)" using get by (auto simp: dict_in_iff_get)
  ultimately have "spqr_ok (s\<lparr> q_skipped := ?st \<rparr>)"
    using ok n c
    by (intro spqr_ok_store [OF ok])
      (auto simp: dict_ok_def spqr_ok_def chain_ok_def list_all_iff set_outside_run set_passed_keys)
  then have "spqr_ok (s\<lparr> q_skipped := ?st \<rparr>\<lparr> q_chains := dict_del e (q_chains (s\<lparr> q_skipped := ?st \<rparr>)) @
      [(e, (sc, Some \<lparr> ch_ck = chain_from (ch_ck c) (ch_n c) (nat (n - ch_n c)), ch_n = n \<rparr>))] \<rparr>)"
    using get c n spqr_ok_chain [OF ok get]
    by (intro spqr_ok_replace) (auto simp: chain_ok_def length_chain_from)
  then show ?thesis by (cases s) (simp add: spqr_accepted_def)
qed

lemma spqr_receive_ok:
  assumes ok: "spqr_ok s" and run: "spqr_receive s e n sec se = Inr (s', mk)"
  shows "spqr_ok s'"
proof -
  obtain s1 where s1: "spqr_offer s sec se = Inr s1" and on: "spqr_receive s1 e n None None = Inr (s', mk)"
    using run by (subst (asm) spqr_receive_offer) (auto simp: bindR_Inr_iff)
  have ok1: "spqr_ok s1" by (rule spqr_offer_ok [OF ok s1])
  show ?thesis
  proof (cases "dict_get (q_skipped s1) (e, n)")
    case (Some v)
    then have s': "s' = s1\<lparr> q_skipped := dict_del (e, n) (q_skipped s1) \<rparr>"
      using on by (simp add: spqr_receive_def spqr_offer_def)
    have "length (dict_del (e, n) (q_skipped s1)) \<le> length (q_skipped s1)" by (rule length_dict_del_le)
    then have "int (length (dict_del (e, n) (q_skipped s1))) \<le> MAX_SKIPPED_STORE"
      using ok1 unfolding spqr_ok_def by linarith
    then show ?thesis
      unfolding s' using ok1
      by (intro spqr_ok_store [OF ok1]) (auto simp: spqr_ok_def list_all_iff set_dict_del)
  next
    case None
    then obtain sc c where get: "dict_get (q_chains s1) e = Some (sc, Some c)"
      using on by (auto simp: spqr_receive_def spqr_offer_def split: option.splits prod.splits)
    have range: "0 \<le> ch_n c" "ch_n c \<le> U64_MAX"
      using spqr_ok_chain [OF ok1 get] by (simp_all add: chain_ok_def)
    have "ch_n c < n \<and> n \<le> U64_MAX \<and> \<not> spqr_shortfall s1 e (ch_n c) n > 0
        \<and> s' = spqr_accepted s1 e sc c n"
      using on None by (auto simp: spqr_receive_current [OF get range] split: if_splits)
    then show ?thesis using spqr_accepted_ok [OF ok1 get] by blast
  qed
qed

section \<open>Eviction\<close>

lemma dict_ok_distinct: "dict_ok d \<Longrightarrow> distinct d"
  by (auto simp: dict_ok_def distinct_map)

lemma spqr_evict_eq:
  assumes "dict_ok (q_skipped s)"
  shows "spqr_evict s count = s\<lparr> q_skipped := drop (nat count) (q_skipped s) \<rparr>"
proof -
  let ?d = "q_skipped s" and ?k = "nat count"
  have "distinct (map fst (take ?k ?d @ drop ?k ?d))" using assms by (simp add: dict_ok_def)
  then have disj: "fst ` set (take ?k ?d) \<inter> fst ` set (drop ?k ?d) = {}"
    unfolding map_append distinct_append by simp
  have "filter (\<lambda>e. fst e \<notin> fst ` set (take ?k ?d)) (take ?k ?d @ drop ?k ?d) = drop ?k ?d"
    unfolding filter_append using disj
    by (auto simp: filter_empty_conv intro!: filter_True)
  moreover have "nat (max 0 count) = ?k" by simp
  ultimately show ?thesis by (simp add: spqr_evict_def fold_dict_del)
qed

lemma spqr_evict_ok: "spqr_ok s \<Longrightarrow> spqr_ok (spqr_evict s count)"
proof -
  assume ok: "spqr_ok s"
  then have d: "dict_ok (q_skipped s)" by (simp add: spqr_ok_def)
  have "dict_ok (drop (nat count) (q_skipped s))"
    using d by (simp add: dict_ok_def drop_map distinct_drop flip: drop_map)
  moreover have "length (drop (nat count) (q_skipped s)) \<le> length (q_skipped s)" by simp
  then have "int (length (drop (nat count) (q_skipped s))) \<le> MAX_SKIPPED_STORE"
    using ok unfolding spqr_ok_def by linarith
  ultimately show ?thesis
    unfolding spqr_evict_eq [OF d] using ok
    by (intro spqr_ok_store [OF ok]) (auto simp: spqr_ok_def list_all_iff dest: in_set_dropD)
qed

section \<open>Two parties on one chain of one epoch\<close>

text \<open>
  A receiver that has followed the chain from \<open>c\<close> in epoch \<open>e\<close>: its counter and chain key are that
  chain's, and every key it stores under the epoch is the right one.  Once the epoch is retired it
  holds neither a chain nor a key of it.
\<close>

definition q_sends :: "bytes \<Rightarrow> int \<Rightarrow> qstate \<Rightarrow> bool" where
  "q_sends c e s \<longleftrightarrow> spqr_ok s \<and>
     (\<exists>k rc. 0 \<le> k \<and> dict_get (q_chains s) e = Some (Some \<lparr> ch_ck = chain_from c 0 (nat k), ch_n = k \<rparr>, rc))"

definition q_tracks :: "bytes \<Rightarrow> int \<Rightarrow> qstate \<Rightarrow> bool" where
  "q_tracks c e s \<longleftrightarrow>
     (\<exists>k sc. 0 \<le> k \<and> dict_get (q_chains s) e = Some (sc, Some \<lparr> ch_ck = chain_from c 0 (nat k), ch_n = k \<rparr>)
        \<and> (\<forall>((f, n), mk) \<in> set (q_skipped s). f = e \<longrightarrow> 1 \<le> n \<and> n \<le> k \<and> mk = chain_msg c 0 (nat (n - 1))))"

definition q_follows :: "bytes \<Rightarrow> int \<Rightarrow> qstate \<Rightarrow> bool" where
  "q_follows c e s \<longleftrightarrow> spqr_ok s \<and> (q_tracks c e s \<or> \<not> dict_in e (q_chains s) \<and> e \<le> q_epoch s)"

definition q_spent :: "int \<Rightarrow> qstate \<Rightarrow> int \<Rightarrow> bool" where
  "q_spent e s n \<longleftrightarrow> \<not> dict_in (e, n) (q_skipped s) \<and>
     (case dict_get (q_chains s) e of None \<Rightarrow> True | Some (_, rc) \<Rightarrow> opt_all (\<lambda>c. n \<le> ch_n c) rc)"

lemma dict_get_filter_key:
  "dict_get (filter (\<lambda>(f, _). P f) d) e = (if P e then dict_get d e else None)"
  by (induction d) (auto simp: dict_get_def)

lemma dict_get_append_other: "e \<noteq> f \<Longrightarrow> dict_get (d @ [(f, v)]) e = dict_get d e"
  by (simp add: dict_get_def map_add_def split: option.splits)

lemma spqr_ok_skipped: "spqr_ok s \<Longrightarrow> ((e, n), mk) \<in> set (q_skipped s) \<Longrightarrow> dict_in e (q_chains s)"
  by (auto simp: spqr_ok_def list_all_iff)

lemma q_offer:
  assumes f: "q_follows c e s" and run: "spqr_offer s sec se = Inr s'"
  shows "q_follows c e s' \<and> (\<forall>n. q_spent e s n \<longrightarrow> q_spent e s' n)"
proof (cases sec)
  case None
  then show ?thesis using f run by (simp add: spqr_offer_def)
next
  case (Some secret)
  then obtain e' where adv: "spqr_advance s secret e' = Inr s'"
    using run by (auto simp: spqr_offer_def split: option.splits)
  have ok: "spqr_ok s" and ok': "spqr_ok s'"
    using f spqr_advance_ok [OF _ adv] by (auto simp: q_follows_def)
  obtain pair where e': "e' = q_epoch s + 1" and s': "q_epoch s' = e'"
    "q_chains s' = filter (\<lambda>(f, _). epoch_kept e' f) (dict_del e' (q_chains s) @ [(e', pair)])"
    "q_skipped s' = filter (\<lambda>(k, _). dict_in (fst k) (q_chains s')) (q_skipped s)"
    using adv
    by (auto simp: spqr_advance_def Let_def bindR_Inr_iff dict_set_after_del split_beta
        simp del: filter_append filter.simps split: if_splits)
  have "e \<le> q_epoch s"
    using f spqr_ok_chain [OF ok, of e] by (auto simp: q_follows_def q_tracks_def)
  then have ne: "e \<noteq> e'" using e' by simp
  have get: "dict_get (q_chains s') e = (if epoch_kept e' e then dict_get (q_chains s) e else None)"
    unfolding s'(2) dict_get_filter_key dict_get_append_other [OF ne]
    using ne by (simp add: dict_get_del)
  have kept: "set (q_skipped s') \<subseteq> set (q_skipped s)" by (auto simp: s'(3))
  have "q_tracks c e s'" if "q_tracks c e s" "epoch_kept e' e"
    using that kept unfolding q_tracks_def get by fastforce
  moreover have "\<not> dict_in e (q_chains s')" if "\<not> epoch_kept e' e \<or> \<not> dict_in e (q_chains s)"
    using that get by (auto simp: dict_in_iff_get)
  moreover have "q_spent e s' n" if "q_spent e s n" for n
    using that kept by (auto simp: q_spent_def get dict_in_def)
  ultimately show ?thesis
    using f ok' \<open>e \<le> q_epoch s\<close> e' s'(1) unfolding q_follows_def by auto
qed

lemma q_tracks_receive:
  assumes ok: "spqr_ok s" and tr: "q_tracks c e s" and run: "spqr_receive s e n None None = Inr (s', mk)"
  shows "q_tracks c e s' \<and> mk = chain_msg c 0 (nat (n - 1)) \<and> q_spent e s' n
     \<and> (\<forall>m. q_spent e s m \<longrightarrow> q_spent e s' m)"
proof -
  obtain k sc where k: "0 \<le> k"
    and get: "dict_get (q_chains s) e = Some (sc, Some \<lparr> ch_ck = chain_from c 0 (nat k), ch_n = k \<rparr>)"
    and st: "\<And>m mk. ((e, m), mk) \<in> set (q_skipped s) \<Longrightarrow> 1 \<le> m \<and> m \<le> k \<and> mk = chain_msg c 0 (nat (m - 1))"
    using tr by (force simp: q_tracks_def)
  have range: "0 \<le> ch_n \<lparr> ch_ck = chain_from c 0 (nat k), ch_n = k \<rparr>"
    "ch_n \<lparr> ch_ck = chain_from c 0 (nat k), ch_n = k \<rparr> \<le> U64_MAX"
    using spqr_ok_chain [OF ok get] by (simp_all add: chain_ok_def)
  note run = run [unfolded spqr_receive_current [OF get range]]
  show ?thesis
  proof (cases "dict_get (q_skipped s) (e, n)")
    case (Some v)
    have v: "1 \<le> n" "n \<le> k" "v = chain_msg c 0 (nat (n - 1))" using st [OF dict_get_Some_in [OF Some]] by auto
    have s': "q_chains s' = q_chains s" "q_skipped s' = dict_del (e, n) (q_skipped s)" and "mk = v"
      using run Some by auto
    have "q_tracks c e s'"
      unfolding q_tracks_def s' using k get st by (auto simp: set_dict_del)
    moreover have "q_spent e s' m" if "q_spent e s m \<or> m = n" for m
      using that v get by (auto simp: q_spent_def s')
    ultimately show ?thesis using v \<open>mk = v\<close> by blast
  next
    case None
    then have n: "k < n" and s': "s' = spqr_accepted s e sc \<lparr> ch_ck = chain_from c 0 (nat k), ch_n = k \<rparr> n"
      and mk: "mk = chain_msg (chain_from c 0 (nat k)) k (nat (n - 1 - k))"
      using run by (auto split: if_splits)
    have shift: "chain_from (chain_from c 0 (nat k)) k (nat (m - k)) = chain_from c 0 (nat m)"
      "chain_msg (chain_from c 0 (nat k)) k (nat (m - k)) = chain_msg c 0 (nat m)" if "k \<le> m" for m
    proof -
      have "nat k + nat (m - k) = nat m" using that k by simp
      then show "chain_from (chain_from c 0 (nat k)) k (nat (m - k)) = chain_from c 0 (nat m)"
        "chain_msg (chain_from c 0 (nat k)) k (nat (m - k)) = chain_msg c 0 (nat m)"
        using k chain_from_add [of c 0 "nat k" "nat (m - k)"] chain_msg_add [of c 0 "nat k" "nat (m - k)"]
        by simp_all
    qed
    have get': "dict_get (q_chains s') e = Some (sc, Some \<lparr> ch_ck = chain_from c 0 (nat n), ch_n = n \<rparr>)"
      using n k by (simp add: s' spqr_accepted_def shift flip: dict_set_after_del add: dict_get_set)
    have shift': "chain_msg (chain_from c 0 (nat k)) k (nat (m - k - 1)) = chain_msg c 0 (nat (m - 1))"
      if "k < m" for m
      using that shift(2) [of "m - 1"] by (simp add: algebra_simps)
    have "q_tracks c e s'"
      unfolding q_tracks_def get' using n k st
      by (auto simp: s' spqr_accepted_def set_outside_run set_passed_keys shift' dest!: st)
    moreover have "q_spent e s' m" if "q_spent e s m \<or> m = n" for m
    proof -
      have "\<not> dict_in (e, m) (q_skipped s)" "m \<le> k \<or> m = n"
        using that None get by (auto simp: q_spent_def dict_in_iff_get)
      then have "\<not> dict_in (e, m) (q_skipped s')"
        by (auto simp: s' spqr_accepted_def dict_in_def image_iff set_outside_run set_passed_keys)
      then show ?thesis using that n get by (auto simp: q_spent_def get')
    qed
    ultimately show ?thesis using mk shift(2) [of "n - 1"] n by (simp add: algebra_simps)
  qed
qed

text \<open>
  A message of epoch \<open>e\<close> as the receiver takes it: its number, and whatever the agreement hands over
  with it, which may retire the epoch altogether.
\<close>

definition sparse_send :: "int \<Rightarrow> qstate \<Rightarrow> (qstate \<times> int \<times> bytes) res" where
  "sparse_send e s = bindR (spqr_send s e None None) (\<lambda>(s, _, n, mk). Inr (s, n, mk))"

definition sparse_recv :: "(int \<Rightarrow> bytes option \<times> int option) \<Rightarrow> int \<Rightarrow> qstate \<Rightarrow> int \<Rightarrow> (qstate \<times> bytes) res" where
  "sparse_recv offers e s n = (case offers n of (sec, se) \<Rightarrow> spqr_receive s e n sec se)"

lemma q_sends_step:
  assumes "q_sends c e s" "spqr_send s e None None = Inr (s', e', n, mk)"
  shows "q_sends c e s' \<and> mk = chain_msg c 0 (nat (n - 1))"
proof -
  obtain k rc where ok: "spqr_ok s" and k: "0 \<le> k"
    and get: "dict_get (q_chains s) e = Some (Some \<lparr> ch_ck = chain_from c 0 (nat k), ch_n = k \<rparr>, rc)"
    using assms(1) by (auto simp: q_sends_def)
  have range: "0 \<le> ch_n \<lparr> ch_ck = chain_from c 0 (nat k), ch_n = k \<rparr>"
    "ch_n \<lparr> ch_ck = chain_from c 0 (nat k), ch_n = k \<rparr> \<le> U64_MAX"
    using spqr_ok_chain [OF ok get] by (simp_all add: chain_ok_def)
  have shift: "chain_from (chain_from c 0 (nat k)) k (Suc 0) = chain_from c 0 (nat (k + 1))"
    "chain_msg (chain_from c 0 (nat k)) k 0 = chain_msg c 0 (nat k)"
    using k chain_from_add [of c 0 "nat k" 1] chain_msg_add [of c 0 "nat k" 0]
    by (simp_all add: nat_add_distrib)
  have s': "s' = s\<lparr> q_chains := dict_del e (q_chains s) @
        [(e, (Some \<lparr> ch_ck = chain_from c 0 (nat (k + 1)), ch_n = k + 1 \<rparr>, rc))] \<rparr>"
    and n: "n = k + 1" "mk = chain_msg c 0 (nat k)"
    using assms(2) shift by (auto simp: spqr_send_current [OF get range] split: if_splits)
  have "dict_get (q_chains s') e = Some (Some \<lparr> ch_ck = chain_from c 0 (nat (k + 1)), ch_n = k + 1 \<rparr>, rc)"
    by (simp add: s' dict_get_set flip: dict_set_after_del)
  moreover have "spqr_ok s'" by (rule spqr_send_ok [OF ok assms(2)])
  ultimately show ?thesis using k n by (auto simp: q_sends_def)
qed

lemma q_follows_receive:
  assumes f: "q_follows c e s" and run: "spqr_receive s e n sec se = Inr (s', mk)"
  shows "q_follows c e s' \<and> mk = chain_msg c 0 (nat (n - 1)) \<and> q_spent e s' n
     \<and> (\<forall>m. q_spent e s m \<longrightarrow> q_spent e s' m)"
proof -
  obtain s1 where s1: "spqr_offer s sec se = Inr s1" and on: "spqr_receive s1 e n None None = Inr (s', mk)"
    using run by (subst (asm) spqr_receive_offer) (auto simp: bindR_Inr_iff)
  have f1: "q_follows c e s1" and sp: "\<And>m. q_spent e s m \<Longrightarrow> q_spent e s1 m"
    using q_offer [OF f s1] by auto
  then have ok1: "spqr_ok s1" by (simp add: q_follows_def)
  have "q_tracks c e s1"
  proof (rule ccontr)
    assume "\<not> q_tracks c e s1"
    then have none: "\<not> dict_in e (q_chains s1)" using f1 by (simp add: q_follows_def)
    then have "dict_get (q_skipped s1) (e, n) = None"
      using spqr_ok_skipped [OF ok1] dict_get_Some_in by (metis option.exhaust)
    moreover have "dict_get (q_chains s1) e = None"
      using none by (cases "dict_get (q_chains s1) e") (auto simp: dict_in_iff_get)
    ultimately show False using on by (simp add: spqr_receive_def spqr_offer_def)
  qed
  from q_tracks_receive [OF ok1 this on] show ?thesis
    using sp spqr_receive_ok [OF ok1 on] by (auto simp: q_follows_def)
qed

lemma q_spent_refused:
  assumes f: "q_follows c e s" and sp: "q_spent e s n"
  shows "\<exists>err. spqr_receive s e n sec se = Inl err"
proof (rule ccontr)
  assume "\<not> ?thesis"
  then obtain s' mk where run: "spqr_receive s e n sec se = Inr (s', mk)"
    by (cases "spqr_receive s e n sec se") auto
  obtain s1 where s1: "spqr_offer s sec se = Inr s1" and on: "spqr_receive s1 e n None None = Inr (s', mk)"
    using run by (subst (asm) spqr_receive_offer) (auto simp: bindR_Inr_iff)
  have ok1: "spqr_ok s1" and sp1: "q_spent e s1 n" using q_offer [OF f s1] sp by (auto simp: q_follows_def)
  have none: "dict_get (q_skipped s1) (e, n) = None"
    using sp1 by (cases "dict_get (q_skipped s1) (e, n)") (auto simp: q_spent_def dict_in_iff_get)
  then obtain sc c where get: "dict_get (q_chains s1) e = Some (sc, Some c)"
    using on by (auto simp: spqr_receive_def spqr_offer_def split: option.splits prod.splits)
  have "n \<le> ch_n c" using sp1 get by (simp add: q_spent_def)
  with none get on show False by (simp add: spqr_receive_def spqr_offer_def)
qed

interpretation sparse: key_agreement "sparse_send e" "sparse_recv offers e"
  "\<lambda>h. chain_msg c 0 (nat (h - 1))" "q_sends c e" "q_follows c e" "\<lambda>_. True"
  "\<lambda>s h. q_spent e s (h)"
  for c e offers
proof (unfold_locales, goal_cases)
  case (1 a a' h k)
  then obtain e' where "spqr_send a e None None = Inr (a', e', h, k)"
    by (auto simp: sparse_send_def bindR_Inr_iff)
  from q_sends_step [OF 1(1) this] show ?case by simp
next
  case (2 b h b' k)
  then show ?case
    using q_follows_receive [of c e b "h"] by (auto simp: sparse_recv_def split: prod.splits)
next
  case (3 b h h' b' k)
  then show ?case
    using q_follows_receive [of c e b "h"] by (auto simp: sparse_recv_def split: prod.splits)
next
  case (4 b h)
  then show ?case
    using q_spent_refused [of c e b "h"] by (auto simp: sparse_recv_def split: prod.splits)
qed

text \<open>The two directions of a fresh epoch face each other.\<close>

lemma spqr_init_paired:
  assumes "spqr_init sk DIRECTION_A2B = Inr a" "spqr_init sk DIRECTION_B2A = Inr b"
  shows "\<exists>c d. q_sends c 0 a \<and> q_follows c 0 b \<and> q_sends d 0 b \<and> q_follows d 0 a"
proof -
  obtain rk ck1 ck2 where k: "spqr_kdf_init sk = (rk, ck1, ck2)" by (cases "spqr_kdf_init sk")
  have "q_chains a = [(0, (Some \<lparr> ch_ck = ck1, ch_n = 0 \<rparr>, Some \<lparr> ch_ck = ck2, ch_n = 0 \<rparr>))]"
    "q_chains b = [(0, (Some \<lparr> ch_ck = ck2, ch_n = 0 \<rparr>, Some \<lparr> ch_ck = ck1, ch_n = 0 \<rparr>))]"
    "q_skipped a = []" "q_skipped b = []"
    using assms k by (auto simp: spqr_init_def spqr_assign_def dict_set_def)
  then have "q_sends ck1 0 a \<and> q_follows ck1 0 b \<and> q_sends ck2 0 b \<and> q_follows ck2 0 a"
    using spqr_init_ok [OF assms(1)] spqr_init_ok [OF assms(2)]
    by (auto simp: q_sends_def q_follows_def q_tracks_def dict_get_def)
  then show ?thesis by blast
qed

text \<open>
  The same for every later epoch: two parties with the same root key and opposite directions that are
  given the same secret derive the same root and face each other on the new epoch's chains.
\<close>

definition opposite :: "int \<Rightarrow> int \<Rightarrow> bool" where
  "opposite d d' \<longleftrightarrow> d = DIRECTION_A2B \<and> d' = DIRECTION_B2A \<or> d = DIRECTION_B2A \<and> d' = DIRECTION_A2B"

lemma spqr_advance_paired:
  assumes ok: "spqr_ok a" "spqr_ok b" and same: "q_rk a = q_rk b" "q_epoch a = q_epoch b"
    and dir: "opposite (q_direction a) (q_direction b)"
    and run: "spqr_advance a sec e = Inr a'" "spqr_advance b sec e = Inr b'"
  shows "q_rk a' = q_rk b' \<and> (\<exists>c d. q_sends c e a' \<and> q_follows c e b' \<and> q_sends d e b' \<and> q_follows d e a')"
proof -
  obtain rk ck1 ck2 where k: "spqr_kdf_root (q_rk b) sec = (rk, ck1, ck2)"
    by (cases "spqr_kdf_root (q_rk b) sec")
  have new: "dict_get (q_chains s') e = Some pair \<and> q_rk s' = rk \<and> (\<forall>n v. ((e, n), v) \<notin> set (q_skipped s'))"
    if s: "spqr_ok s" "q_rk s = q_rk b" "spqr_advance s sec e = Inr s'"
      and p: "spqr_assign (q_direction s) ck1 ck2 = Inr pair" for s s' pair
  proof -
    have e: "e = q_epoch s + 1" "e \<noteq> U64_MAX"
      using s(3) by (auto simp: spqr_advance_def split: if_splits)
    have kept: "epoch_kept e e" using spqr_ok_epoch [OF s(1)] e by (auto simp: epoch_kept_def const_defs)
    have "\<not> dict_in e (q_chains s)"
    proof
      assume "dict_in e (q_chains s)"
      then obtain sc rc where "dict_get (q_chains s) e = Some (sc, rc)" by (auto simp: dict_in_iff_get)
      from spqr_ok_chain [OF s(1) this] e show False by simp
    qed
    then have "((e, n), v) \<notin> set (q_skipped s)" for n v using spqr_ok_skipped [OF s(1)] by blast
    then show ?thesis
      using s(2,3) p k kept
      by (auto simp: spqr_advance_def Let_def dict_get_filter_key dict_get_set split: if_splits)
  qed
  obtain pa pb where p: "spqr_assign (q_direction a) ck1 ck2 = Inr pa" "spqr_assign (q_direction b) ck1 ck2 = Inr pb"
    and swap: "snd pa = fst pb" "fst pa = snd pb"
    and fresh: "\<exists>c d. pa = (Some \<lparr> ch_ck = c, ch_n = 0 \<rparr>, Some \<lparr> ch_ck = d, ch_n = 0 \<rparr>)"
    using dir by (auto simp: opposite_def spqr_assign_def)
  obtain c d where pa: "pa = (Some \<lparr> ch_ck = c, ch_n = 0 \<rparr>, Some \<lparr> ch_ck = d, ch_n = 0 \<rparr>)"
    using fresh by blast
  then have pb: "pb = (Some \<lparr> ch_ck = d, ch_n = 0 \<rparr>, Some \<lparr> ch_ck = c, ch_n = 0 \<rparr>)"
    using swap by (cases pb) simp
  note a' = new [OF ok(1) same(1) run(1) p(1)] and b' = new [OF ok(2) refl run(2) p(2)]
  have "q_sends c e a' \<and> q_follows c e b' \<and> q_sends d e b' \<and> q_follows d e a'"
    using a' b' pa pb spqr_advance_ok [OF ok(1) run(1)] spqr_advance_ok [OF ok(2) run(2)]
    by (auto simp: q_sends_def q_follows_def q_tracks_def)
  moreover have "q_rk a' = q_rk b'" using a' b' by simp
  ultimately show ?thesis by blast
qed

section \<open>The states a session passes through\<close>

inductive spqr_step :: "qstate \<Rightarrow> qstate \<Rightarrow> bool" where
  on_send: "spqr_send s e sec se = Inr (s', e', n, mk) \<Longrightarrow> spqr_step s s'"
| on_receive: "spqr_receive s e n sec se = Inr (s', mk) \<Longrightarrow> spqr_step s s'"
| on_evict: "spqr_step s (spqr_evict s count)"

lemma spqr_step_ok: "spqr_step s s' \<Longrightarrow> spqr_ok s \<Longrightarrow> spqr_ok s'"
  by (induction rule: spqr_step.induct) (blast intro: spqr_send_ok spqr_receive_ok spqr_evict_ok)+

lemma spqr_steps_ok: "spqr_step\<^sup>*\<^sup>* s s' \<Longrightarrow> spqr_ok s \<Longrightarrow> spqr_ok s'"
  by (induction rule: rtranclp_induct) (auto intro: spqr_step_ok)

end
