(* ===== verification/XorLinear.thy ===== *)
theory XorLinear
  imports "HOL-Library.Word"
begin

text \<open>
  Maps on integers that are linear over exclusive or.  Both finite fields of the program, GF(2^16) of the
  erasure code and GF(2^8) of AES, are computed with such maps, and two of them that agree on the powers
  of two agree: an identity of the field becomes a handful of evaluations.
\<close>

unbundle bit_operations_syntax

section \<open>Linear maps and the basis of powers of two\<close>

definition xor_linear :: "(int \<Rightarrow> int) \<Rightarrow> bool" where
  "xor_linear f \<longleftrightarrow> (\<forall>x y. f (x XOR y) = f x XOR f y)"

lemma xor_linearD: "xor_linear f \<Longrightarrow> f (x XOR y) = f x XOR f y"
  by (simp add: xor_linear_def)

lemma xor_linear_0: "xor_linear f \<Longrightarrow> f 0 = 0"
  using xor_linearD [of f 0 0] by simp

lemma xor_linear_comp: "xor_linear f \<Longrightarrow> xor_linear g \<Longrightarrow> xor_linear (\<lambda>x. f (g x))"
  by (simp add: xor_linear_def)

lemma xor_linear_xor: "xor_linear f \<Longrightarrow> xor_linear g \<Longrightarrow> xor_linear (\<lambda>x. f x XOR g x)"
  by (simp add: xor_linear_def ac_simps)

lemma xor_linear_id: "xor_linear (\<lambda>x. x)"
  by (simp add: xor_linear_def)

lemma xor_linear_push_bit: "xor_linear (push_bit n)"
  by (simp add: xor_linear_def push_bit_xor)

text \<open>Splitting off the top bit, the step of every proof "on the basis".\<close>

lemma split_top_bit:
  fixes x :: int
  assumes "0 \<le> x" "x < 2 ^ Suc n" "2 ^ n \<le> x"
  shows "x = 2 ^ n XOR (x - 2 ^ n)" "0 \<le> x - 2 ^ n" "x - 2 ^ n < 2 ^ n"
proof -
  show range: "0 \<le> x - 2 ^ n" "x - 2 ^ n < 2 ^ n" using assms by simp_all
  have "2 ^ n AND (x - 2 ^ n) = 0"
  proof (rule bit_eqI)
    fix k
    have "take_bit n (x - 2 ^ n) = x - 2 ^ n" using range by (simp add: take_bit_int_eq_self)
    then have "\<not> bit (x - 2 ^ n) n" by (metis bit_take_bit_iff less_irrefl)
    then show "bit (2 ^ n AND (x - 2 ^ n)) k = bit 0 k" by (auto simp: bit_simps)
  qed
  then show "x = 2 ^ n XOR (x - 2 ^ n)"
    by (metis disjunctive_xor_eq_or plus_and_or add_0 add.commute diff_add_cancel)
qed

lemma linear_basis_induct [consumes 2, case_names zero step]:
  fixes P :: "int \<Rightarrow> bool"
  assumes "0 \<le> x" "x < 2 ^ n" "P 0"
    "\<And>i x. i < n \<Longrightarrow> P x \<Longrightarrow> 0 \<le> x \<Longrightarrow> x < 2 ^ i \<Longrightarrow> P (2 ^ i XOR x)"
  shows "P x"
  using assms(1,2,4)
proof (induction n arbitrary: x)
  case 0
  then have "x = 0" by simp
  then show ?case using assms(3) by simp
next
  case (Suc n)
  show ?case
  proof (cases "2 ^ n \<le> x")
    case True
    note top = split_top_bit [OF Suc.prems(1,2) True]
    have "P (x - 2 ^ n)" using Suc.IH [OF top(2,3)] Suc.prems(3) by simp
    then show ?thesis using Suc.prems(3) [of n "x - 2 ^ n"] top by simp
  qed (use Suc in simp)
qed

lemma linear_eq_on_basis:
  assumes "xor_linear f" "xor_linear g" "\<And>i. i < n \<Longrightarrow> f (2 ^ i) = g (2 ^ i)" "0 \<le> x" "x < 2 ^ n"
  shows "f x = g x"
  using assms(4,5)
proof (induction rule: linear_basis_induct)
  case zero
  show ?case using assms by (simp add: xor_linear_0)
next
  case (step i x)
  then show ?case using assms by (simp add: xor_linearD)
qed

lemma xor_range:
  fixes x y :: int
  assumes "0 \<le> x" "x < 2 ^ n" "0 \<le> y" "y < 2 ^ n"
  shows "0 \<le> x XOR y" "x XOR y < 2 ^ n"
  using assms XOR_upper [of x n y] by simp_all

lemma linear_range:
  assumes "xor_linear f" "\<And>i. i < n \<Longrightarrow> 0 \<le> f (2 ^ i) \<and> f (2 ^ i) < 2 ^ m" "0 \<le> x" "x < 2 ^ n"
  shows "0 \<le> f x \<and> f x < 2 ^ m"
  using assms(3,4)
proof (induction rule: linear_basis_induct)
  case zero
  show ?case using assms by (simp add: xor_linear_0)
next
  case (step i x)
  then show ?case using assms(2) [of i] xor_range [of "f (2 ^ i)" m "f x"] xor_linearD [OF assms(1)] by simp
qed

section \<open>Loops that select terms\<close>

text \<open>The exclusive or of the \<open>f i\<close> that \<open>c\<close> selects.\<close>

definition xor_sel :: "(nat \<Rightarrow> bool) \<Rightarrow> (nat \<Rightarrow> int) \<Rightarrow> nat list \<Rightarrow> int" where
  "xor_sel c f ks = fold (\<lambda>i r. if c i then r XOR f i else r) ks 0"

lemma xor_sel_acc: "fold (\<lambda>i r. if c i then r XOR f i else r) ks r = r XOR xor_sel c f ks"
proof (induction ks arbitrary: r)
  case (Cons i ks)
  show ?case
    using Cons.IH [of "r XOR f i"] Cons.IH [of "f i"] Cons.IH [of r]
    by (cases "c i") (simp_all add: xor_sel_def xor.assoc)
qed (simp add: xor_sel_def)

lemma xor_sel_Nil [simp]: "xor_sel c f [] = 0"
  by (simp add: xor_sel_def)

lemma xor_sel_Cons: "xor_sel c f (i # ks) = (if c i then f i else 0) XOR xor_sel c f ks"
proof (cases "c i")
  case True
  then have "xor_sel c f (i # ks) = fold (\<lambda>i r. if c i then r XOR f i else r) ks (f i)"
    by (simp add: xor_sel_def)
  then show ?thesis using True by (simp only: xor_sel_acc if_True)
qed (simp add: xor_sel_def)

lemma xor_sel_select: "xor_sel (bit (x XOR y)) f ks = xor_sel (bit x) f ks XOR xor_sel (bit y) f ks"
  for x y :: int
proof (induction ks)
  case (Cons i ks)
  then show ?case
    by (cases "bit x i"; cases "bit y i") (simp_all add: xor_sel_Cons bit_xor_iff ac_simps)
qed simp

lemma xor_sel_terms: "xor_sel c (\<lambda>i. f i XOR g i) ks = xor_sel c f ks XOR xor_sel c g ks"
proof (induction ks)
  case (Cons i ks)
  then show ?case by (cases "c i") (simp_all add: xor_sel_Cons ac_simps)
qed simp

lemma xor_linear_fold: "(\<And>i. xor_linear (h i)) \<Longrightarrow> xor_linear (fold h ks)"
  by (induction ks) (auto simp: xor_linear_def)

lemma xor_linear_reduce_step: "xor_linear (\<lambda>r. if bit r i then r XOR c else r)"
proof -
  have "(if bit (x XOR y) i then (x XOR y) XOR c else x XOR y) =
      (if bit x i then x XOR c else x) XOR (if bit y i then y XOR c else y)" for x y
    by (cases "bit x i"; cases "bit y i") (simp_all add: bit_xor_iff ac_simps)
  then show ?thesis unfolding xor_linear_def by blast
qed

section \<open>Finite checks\<close>

lemma all_between_list: "list_all P [m..<n] \<Longrightarrow> m \<le> i \<Longrightarrow> i < n \<Longrightarrow> P i"
  by (simp add: list_all_iff)

lemma all_less_list: "list_all P [0..<n] \<Longrightarrow> i < n \<Longrightarrow> P i"
  by (simp add: list_all_iff)

end
