(* ===== verification/Gf65536.thy ===== *)
theory Gf65536
  imports Constants XorLinear Lagrange
begin

text \<open>
  GF(2^16) arithmetic and interpolation (\<open>tacenta_reader/gf65536.py\<close>).  An element is a Python int;
  \<open>_check\<close> refuses one outside 0 .. 0xFFFF.  The definitions follow the module.  The lemmas show that
  they are a field (type \<open>gf\<close>), that the table-driven \<open>mul_fast\<close> and \<open>inv_fast\<close> agree with the
  definitions, and that \<open>interpolate\<close> is Lagrange's formula in that field.
\<close>

unbundle bit_operations_syntax

section \<open>The module's operations\<close>

text \<open>A \<open>for\<close> loop whose body may raise.\<close>

fun foldR :: "('x \<Rightarrow> 's \<Rightarrow> 's res) \<Rightarrow> 'x list \<Rightarrow> 's \<Rightarrow> 's res" where
  "foldR f [] s = Inr s"
| "foldR f (x # xs) s = bindR (f x s) (foldR f xs)"

definition gf_check :: "int \<Rightarrow> int res" where
  "gf_check a = (if a < 0 \<or> a > 0xFFFF then Inl (CryptoE FieldError) else Inr a)"

definition gf_add :: "int \<Rightarrow> int \<Rightarrow> int res" where
  "gf_add a b = bindR (gf_check a) (\<lambda>a. bindR (gf_check b) (\<lambda>b. Inr (a XOR b)))"

text \<open>The two loops of \<open>mul\<close>: the carry-less product, and its reduction from bit 30 down to bit 16.\<close>

definition gf_product :: "int \<Rightarrow> int \<Rightarrow> int" where
  "gf_product a b = fold (\<lambda>i r. if bit b i then r XOR push_bit i a else r) [0..<16] 0"

definition gf_reduce :: "int \<Rightarrow> int" where
  "gf_reduce r = fold (\<lambda>i r. if bit r i then r XOR push_bit (i - 16) GF_POLY else r) (rev [16..<31]) r"

definition gf_mul :: "int \<Rightarrow> int \<Rightarrow> int res" where
  "gf_mul a b = bindR (gf_check a) (\<lambda>_. bindR (gf_check b) (\<lambda>_. Inr (gf_reduce (gf_product a b))))"

function gf_pow_loop :: "int \<Rightarrow> int \<Rightarrow> nat \<Rightarrow> int res" where
  "gf_pow_loop result base e =
     (if e = 0 then Inr result
      else bindR (if bit e 0 then gf_mul result base else Inr result) (\<lambda>result.
           bindR (gf_mul base base) (\<lambda>base. gf_pow_loop result base (drop_bit 1 e))))"
  by pat_completeness auto
termination
  by (relation "measure (\<lambda>(result, base, e). e)") (auto simp: drop_bit_Suc)

declare gf_pow_loop.simps [simp del]

definition gf_pow :: "int \<Rightarrow> nat \<Rightarrow> int res" where
  "gf_pow a e = bindR (gf_check a) (\<lambda>base. gf_pow_loop 1 base e)"

definition gf_inv :: "int \<Rightarrow> int res" where
  "gf_inv a = bindR (gf_check a) (\<lambda>a. if a = 0 then Inl (CryptoE FieldError) else gf_pow a 0xFFFE)"

subsection \<open>Tables\<close>

definition gf_order :: nat where "gf_order = 0xFFFF"

definition is_generator :: "int \<Rightarrow> bool res" where
  "is_generator g =
     bindR (mapR (\<lambda>p. gf_pow g (gf_order div p)) [3, 5, 17, 257]) (\<lambda>ps. Inr (list_all (\<lambda>x. x \<noteq> 1) ps))"

text \<open>The search stops: past 0xFFFF the power itself raises.\<close>

function find_generator :: "int \<Rightarrow> int res" where
  "find_generator g = (case is_generator g of
     Inl e \<Rightarrow> Inl e | Inr True \<Rightarrow> Inr g | Inr False \<Rightarrow> find_generator (g + 1))"
  by pat_completeness auto
termination
proof (relation "measure (\<lambda>g. nat (0x10000 - g))", goal_cases)
  case (2 g b)
  then have "g \<le> 0xFFFF" by (auto simp: is_generator_def gf_pow_def gf_check_def split: if_splits)
  then show ?case by simp
qed simp

declare find_generator.simps [simp del]

definition table_step :: "int \<Rightarrow> nat \<Rightarrow> int list \<times> int list \<times> int \<Rightarrow> (int list \<times> int list \<times> int) res" where
  "table_step g i = (\<lambda>(exp, log, x).
     bindR (gf_mul x g) (\<lambda>x'. Inr (exp[i := x], log[nat x := int i], x')))"

definition gf_tables :: "(int list \<times> int list) res" where
  "gf_tables =
     bindR (find_generator 2) (\<lambda>g.
     bindR (foldR (table_step g) [0..<gf_order] (replicate (2 * gf_order) 0, replicate 0x10000 0, 1))
       (\<lambda>(exp, log, x).
         if x \<noteq> 1 then Inl (CryptoE FieldError)
         else Inr (take gf_order exp @ take gf_order exp, log)))"

text \<open>A list subscript: negative subscripts count from the end, others out of range raise.\<close>

definition py_nth :: "'a list \<Rightarrow> int \<Rightarrow> 'a res" where
  "py_nth xs i =
     (if 0 \<le> i \<and> i < int (length xs) then Inr (xs ! nat i)
      else if - int (length xs) \<le> i \<and> i < 0 then Inr (xs ! nat (int (length xs) + i))
      else Inl (PyE IndexError))"

definition gf_mul_fast :: "int \<Rightarrow> int \<Rightarrow> int res" where
  "gf_mul_fast a b =
     (if a = 0 \<or> b = 0 then Inr 0
      else bindR gf_tables (\<lambda>(exp, log).
           bindR (py_nth log a) (\<lambda>i. bindR (py_nth log b) (\<lambda>j. py_nth exp (i + j)))))"

definition gf_inv_fast :: "int \<Rightarrow> int res" where
  "gf_inv_fast a =
     (if a = 0 then Inl (CryptoE FieldError)
      else bindR gf_tables (\<lambda>(exp, log). bindR (py_nth log a) (\<lambda>i. py_nth exp (0xFFFF - i))))"

subsection \<open>Interpolation and element bytes\<close>

definition gf_interpolate :: "int list \<Rightarrow> int list \<Rightarrow> int \<Rightarrow> int res" where
  "gf_interpolate nodes vals x =
     (if length nodes \<noteq> length vals \<or> nodes = [] then Inl (CryptoE FieldError)
      else if \<not> distinct nodes then Inl (CryptoE FieldError)
      else foldR (\<lambda>(i, (xi, yi)) acc.
             bindR (foldR (\<lambda>(j, xj) (num, den).
                      if j \<noteq> i
                      then bindR (gf_add x xj) (\<lambda>d. bindR (gf_mul num d) (\<lambda>num.
                           bindR (gf_add xi xj) (\<lambda>e. bindR (gf_mul den e) (\<lambda>den. Inr (num, den)))))
                      else Inr (num, den))
                    (enumerate 0 nodes) (1, 1)) (\<lambda>(num, den).
             bindR (gf_check yi) (\<lambda>yi.
             bindR (gf_inv den) (\<lambda>iv. bindR (gf_mul num iv) (\<lambda>b.
             bindR (gf_mul yi b) (\<lambda>term. Inr (acc XOR term)))))))
           (enumerate 0 (zip nodes vals)) 0)"

definition element_from_bytes :: "bytes \<Rightarrow> int res" where
  "element_from_bytes b = (if length b \<noteq> 2 then Inl (CryptoE FieldError) else Inr (be_int b))"

definition elements_from_bytes :: "bytes \<Rightarrow> int list res" where
  "elements_from_bytes b =
     (if odd (length b) then Inl (CryptoE FieldError) else Inr (map be_int (blocks_of 2 b)))"

section \<open>The product is bilinear and reduces correctly\<close>

definition gmul :: "int \<Rightarrow> int \<Rightarrow> int" where
  "gmul a b = gf_reduce (gf_product a b)"

lemma gf_product_linear_right: "xor_linear (gf_product a)"
  by (simp add: xor_linear_def gf_product_def xor_sel_select flip: xor_sel_def)

lemma gf_product_linear_left: "xor_linear (\<lambda>a. gf_product a b)"
  by (simp add: xor_linear_def gf_product_def push_bit_xor xor_sel_terms flip: xor_sel_def)

lemma gf_reduce_linear: "xor_linear gf_reduce"
  unfolding gf_reduce_def [abs_def] by (intro xor_linear_fold xor_linear_reduce_step)

lemma gmul_linear_right: "xor_linear (gmul a)"
  unfolding gmul_def [abs_def] by (rule xor_linear_comp [OF gf_reduce_linear gf_product_linear_right])

lemma gmul_linear_left: "xor_linear (\<lambda>a. gmul a b)"
  unfolding gmul_def by (rule xor_linear_comp [OF gf_reduce_linear gf_product_linear_left])

lemmas gf_eval = gmul_def gf_product_def gf_reduce_def GF_POLY_def upt_rec

text \<open>Multiplication by a basis element is shifting, so by \<open>x\<close> it is shifting once.\<close>

lemma gf_product_basis: "i < 16 \<Longrightarrow> gf_product a (2 ^ i) = push_bit i a"
proof -
  have "list_all (\<lambda>i. gf_product a (2 ^ i) = push_bit i a) [0..<16]"
    by (simp add: upt_rec) (simp add: gf_product_def upt_rec)
  then show "i < 16 \<Longrightarrow> gf_product a (2 ^ i) = push_bit i a" by (rule all_less_list)
qed

definition times_x :: "int \<Rightarrow> int" where
  "times_x a = gf_reduce (push_bit 1 a)"

lemma times_x_linear: "xor_linear times_x"
  unfolding times_x_def [abs_def] by (rule xor_linear_comp [OF gf_reduce_linear xor_linear_push_bit])

lemma gf_reduce_small: "list_all (\<lambda>i. gf_reduce (2 ^ i) = 2 ^ i) [0..<16]"
  by (simp add: upt_rec) (simp add: gf_eval)

lemma gf_reduce_id: "0 \<le> a \<Longrightarrow> a < 2 ^ 16 \<Longrightarrow> gf_reduce a = a"
  by (rule linear_eq_on_basis [OF gf_reduce_linear xor_linear_id all_less_list [OF gf_reduce_small]])

lemma gf_reduce_shift_high:
  "list_all (\<lambda>i. gf_reduce (push_bit 1 (2 ^ i)) = times_x (gf_reduce (2 ^ i))) [16..<30]"
  by (simp add: upt_rec) (simp add: gf_eval times_x_def)

lemma gf_reduce_shift: "i < 30 \<Longrightarrow> gf_reduce (push_bit 1 (2 ^ i)) = times_x (gf_reduce (2 ^ i))"
proof (cases "i < 16")
  case True
  then have "(2::int) ^ i < 2 ^ 16" by (intro power_strict_increasing) simp_all
  then show ?thesis by (simp add: times_x_def gf_reduce_id del: push_bit_of_1 push_bit_numeral)
next
  case False
  assume "i < 30"
  with False show ?thesis by (intro all_between_list [OF gf_reduce_shift_high]) simp_all
qed

lemma gf_reduce_range_basis:
  "list_all (\<lambda>i. 0 \<le> gf_reduce (2 ^ i) \<and> gf_reduce (2 ^ i) < 2 ^ 16) [0..<31]"
  by (simp add: upt_rec) (simp add: gf_eval)

lemma gf_reduce_range: "0 \<le> r \<Longrightarrow> r < 2 ^ 31 \<Longrightarrow> 0 \<le> gf_reduce r \<and> gf_reduce r < 2 ^ 16"
  by (rule linear_range [OF gf_reduce_linear all_less_list [OF gf_reduce_range_basis]])

lemma gf_reduce_push:
  assumes "0 \<le> a" "a < 2 ^ 30"
  shows "gf_reduce (push_bit 1 a) = times_x (gf_reduce a)"
  by (rule linear_eq_on_basis [OF xor_linear_comp [OF gf_reduce_linear xor_linear_push_bit]
        xor_linear_comp [OF times_x_linear gf_reduce_linear] gf_reduce_shift assms])

section \<open>Commutativity, associativity, the unit\<close>

definition in_gf :: "int \<Rightarrow> bool" where
  "in_gf a \<longleftrightarrow> 0 \<le> a \<and> a < 2 ^ 16"

lemma gmul_basis: "i < 16 \<Longrightarrow> gmul a (2 ^ i) = gf_reduce (push_bit i a)"
  by (simp add: gmul_def gf_product_basis)

lemma push_bit_bound:
  fixes a :: int
  assumes "in_gf a" "i \<le> n"
  shows "0 \<le> push_bit i a" "push_bit i a < 2 ^ (n + 16)"
proof -
  have "a * 2 ^ i < 2 ^ 16 * 2 ^ i" using assms(1) by (simp add: in_gf_def)
  also have "\<dots> \<le> 2 ^ 16 * 2 ^ n" using assms(2) by (intro mult_left_mono power_increasing) simp_all
  also have "(2::int) ^ 16 * 2 ^ n = 2 ^ (n + 16)" by (simp only: power_add mult.commute)
  finally show "push_bit i a < 2 ^ (n + 16)" by (simp add: push_bit_eq_mult)
  show "0 \<le> push_bit i a" using assms(1) by (simp add: in_gf_def)
qed

lemma gmul_basis_Suc:
  assumes "in_gf a" "Suc i < 16"
  shows "gmul a (2 ^ Suc i) = times_x (gmul a (2 ^ i))"
proof -
  have "gmul a (2 ^ Suc i) = gf_reduce (push_bit 1 (push_bit i a))"
    using assms(2) by (simp only: gmul_basis push_bit_push_bit plus_1_eq_Suc)
  also have "\<dots> = times_x (gf_reduce (push_bit i a))"
    using push_bit_bound [OF assms(1), of i 14] assms(2) by (intro gf_reduce_push) simp_all
  finally show ?thesis using assms(2) by (simp add: gmul_basis)
qed

lemma gmul_0 [simp]: "gmul a 0 = 0" "gmul 0 b = 0"
  using xor_linear_0 [OF gmul_linear_right] xor_linear_0 [OF gmul_linear_left] by simp_all

lemma gmul_1_right: "in_gf a \<Longrightarrow> gmul a 1 = a"
  using gmul_basis [of 0 a] by (simp add: gf_reduce_id in_gf_def)

lemma gmul_1_left: "in_gf b \<Longrightarrow> gmul 1 b = b"
proof -
  have "gmul 1 (2 ^ i) = 2 ^ i" if "i < 16" for i
    using that gf_reduce_id [of "2 ^ i"] power_strict_increasing [OF that, of "2 :: int"]
    by (simp add: gmul_basis push_bit_eq_mult)
  then show "in_gf b \<Longrightarrow> gmul 1 b = b"
    using linear_eq_on_basis [OF gmul_linear_right [of 1] xor_linear_id, of 16 b] by (simp add: in_gf_def)
qed

lemma in_gf_basis: "i < 16 \<Longrightarrow> in_gf (2 ^ i)"
  using power_strict_increasing [of i 16 "2 :: int"] by (simp add: in_gf_def)

lemma in_gf_gmul [simp]:
  assumes "in_gf a" "in_gf b" shows "in_gf (gmul a b)"
proof -
  have "0 \<le> gmul a (2 ^ i) \<and> gmul a (2 ^ i) < 2 ^ 16" if "i < 16" for i
    using push_bit_bound [OF assms(1), of i 15] that gf_reduce_range [of "push_bit i a"]
    by (simp add: gmul_basis)
  then show ?thesis
    using assms(2) linear_range [OF gmul_linear_right [of a], of 16 16 b] by (simp add: in_gf_def)
qed

lemma in_gf_xor [simp]: "in_gf a \<Longrightarrow> in_gf b \<Longrightarrow> in_gf (a XOR b)"
  using xor_range [of a 16 b] by (simp add: in_gf_def)

lemma times_x_gmul: "in_gf a \<Longrightarrow> times_x a = gmul a 2"
  using gmul_basis [of 1 a] by (simp add: times_x_def)

lemma in_gf_times_x: "in_gf a \<Longrightarrow> in_gf (times_x a)"
  using in_gf_basis [of 1] by (simp add: times_x_gmul)

lemma times_x_basis: "Suc i < 16 \<Longrightarrow> times_x (2 ^ i) = 2 ^ Suc i"
  using gmul_basis_Suc [of 1 i] in_gf_basis [of 0] gmul_1_left [OF in_gf_basis [of i]]
    gmul_1_left [OF in_gf_basis [of "Suc i"]] by simp

text \<open>Wrapping around: \<open>x\<close> times the top basis element.\<close>

lemma times_x_top: "times_x (2 ^ 15) = 0x100B"
  by (simp add: times_x_def gf_eval)

lemma gmul_top_basis:
  "list_all (\<lambda>i. gmul (2 ^ i) 0x100B = times_x (gmul (2 ^ i) (2 ^ 15))) [0..<16]"
  by (simp add: upt_rec) (simp add: gf_eval times_x_def)

lemma gmul_times_x: "in_gf a \<Longrightarrow> in_gf b \<Longrightarrow> gmul a (times_x b) = times_x (gmul a b)"
proof -
  assume a: "in_gf a" and b: "in_gf b"
  have "gmul a 0x100B = times_x (gmul a (2 ^ 15))"
    using a unfolding in_gf_def
    by (intro linear_eq_on_basis [OF gmul_linear_left xor_linear_comp [OF times_x_linear gmul_linear_left]
          all_less_list [OF gmul_top_basis]]) auto
  then have "gmul a (times_x (2 ^ i)) = times_x (gmul a (2 ^ i))" if "i < 16" for i
    using that gmul_basis_Suc [OF a, of i] times_x_basis [of i] times_x_top
    by (cases "i = 15") (simp_all del: power_Suc)
  then show ?thesis
    using b linear_eq_on_basis [OF xor_linear_comp [OF gmul_linear_right [of a] times_x_linear]
        xor_linear_comp [OF times_x_linear gmul_linear_right [of a]], of 16 b]
    by (simp add: in_gf_def)
qed

text \<open>Two maps that are linear and commute with \<open>times_x\<close> agree when they agree at 1.\<close>

lemma equal_by_times_x:
  assumes f: "xor_linear f" "\<And>b. in_gf b \<Longrightarrow> f (times_x b) = times_x (f b)"
    and g: "xor_linear g" "\<And>b. in_gf b \<Longrightarrow> g (times_x b) = times_x (g b)"
    and one: "f 1 = g 1" and b: "in_gf b"
  shows "f b = g b"
proof -
  have "i < 16 \<Longrightarrow> f (2 ^ i) = g (2 ^ i)" for i
  proof (induction i)
    case (Suc i)
    then show ?case
      using f(2) [OF in_gf_basis [of i]] g(2) [OF in_gf_basis [of i]] times_x_basis [of i] by simp
  qed (simp add: one)
  then show ?thesis
    using b linear_eq_on_basis [OF f(1) g(1), of 16 b] by (simp add: in_gf_def)
qed

lemma gmul_times_x_left:
  assumes a: "in_gf a" and b: "in_gf b"
  shows "gmul (times_x a) b = times_x (gmul a b)"
proof (rule equal_by_times_x [where f = "gmul (times_x a)" and g = "\<lambda>b. times_x (gmul a b)", OF _ _ _ _ _ b])
  show "xor_linear (gmul (times_x a))" by (rule gmul_linear_right)
  show "xor_linear (\<lambda>b. times_x (gmul a b))" by (rule xor_linear_comp [OF times_x_linear gmul_linear_right])
  show "gmul (times_x a) 1 = times_x (gmul a 1)" by (simp add: a gmul_1_right in_gf_times_x)
qed (simp_all add: a gmul_times_x in_gf_times_x)

lemma gmul_commute:
  assumes a: "in_gf a" and b: "in_gf b"
  shows "gmul a b = gmul b a"
proof (rule equal_by_times_x [where f = "gmul a" and g = "\<lambda>b. gmul b a", OF _ _ _ _ _ b])
  show "xor_linear (gmul a)" by (rule gmul_linear_right)
  show "xor_linear (\<lambda>b. gmul b a)" by (rule gmul_linear_left)
qed (simp_all add: a gmul_times_x gmul_times_x_left gmul_1_left gmul_1_right)

lemma gmul_assoc:
  assumes a: "in_gf a" and b: "in_gf b" and c: "in_gf c"
  shows "gmul (gmul a b) c = gmul a (gmul b c)"
proof (rule equal_by_times_x [where f = "gmul (gmul a b)" and g = "\<lambda>c. gmul a (gmul b c)", OF _ _ _ _ _ c])
  show "xor_linear (gmul (gmul a b))" by (rule gmul_linear_right)
  show "xor_linear (\<lambda>c. gmul a (gmul b c))" by (rule xor_linear_comp [OF gmul_linear_right gmul_linear_right])
qed (simp_all add: a b gmul_times_x gmul_1_right)

section \<open>The field\<close>

typedef gf = "{a. in_gf a}"
  by (rule exI [of _ 0]) (simp add: in_gf_def)

setup_lifting type_definition_gf

lemma in_gf_0_1 [simp]: "in_gf 0" "in_gf 1"
  by (simp_all add: in_gf_def)

lemma in_gf_Rep [simp]: "in_gf (Rep_gf a)"
  using Rep_gf by simp

lemma gmul_distrib: "gmul (a XOR b) c = gmul a c XOR gmul b c" "gmul c (a XOR b) = gmul c a XOR gmul c b"
  using xor_linearD [OF gmul_linear_left] xor_linearD [OF gmul_linear_right] by simp_all

instantiation gf :: comm_ring_1
begin

lift_definition zero_gf :: gf is 0 by simp
lift_definition one_gf :: gf is 1 by simp
lift_definition plus_gf :: "gf \<Rightarrow> gf \<Rightarrow> gf" is "\<lambda>a b. a XOR b" by simp
lift_definition minus_gf :: "gf \<Rightarrow> gf \<Rightarrow> gf" is "\<lambda>a b. a XOR b" by simp
lift_definition uminus_gf :: "gf \<Rightarrow> gf" is "\<lambda>a. a" by simp
lift_definition times_gf :: "gf \<Rightarrow> gf \<Rightarrow> gf" is gmul by simp

instance
proof
  fix a b c :: gf
  show "a * b * c = a * (b * c)" by transfer (simp add: gmul_assoc)
  show "a * b = b * a" by transfer (rule gmul_commute)
  show "1 * a = a" by transfer (rule gmul_1_left)
  show "a + b + c = a + (b + c)" by transfer (rule xor.assoc)
  show "a + b = b + a" by transfer (rule xor.commute)
  show "0 + a = a" by transfer simp
  show "- a + a = 0" by transfer simp
  show "a - b = a + - b" by transfer simp
  show "(a + b) * c = a * c + b * c" by transfer (rule gmul_distrib)
  show "(0 :: gf) \<noteq> 1" by transfer simp
qed

end

lemma gf_char_2: "a + a = (0::gf)"
  by transfer simp

lemma gf_double: "(2::gf) = 0"
  using gf_char_2 [of 1] by simp

lemma gf_minus: "a - b = a + (b::gf)" "- a = (a::gf)"
  by (transfer; simp)+

text \<open>Squaring is additive, so is every iterate of it.\<close>

lemma gf_frobenius: "(a + b) ^ 2 = a ^ 2 + (b::gf) ^ 2"
  by (simp add: power2_sum gf_double)

lemma gf_frobenius_iter: "(a + b) ^ (2 ^ n) = a ^ (2 ^ n) + (b::gf) ^ (2 ^ n)"
proof (induction n)
  case (Suc n)
  have "x ^ 2 ^ Suc n = (x ^ 2 ^ n) ^ 2" for x :: gf
    by (simp add: power_mult [symmetric] mult.commute)
  then show ?case by (simp add: Suc.IH gf_frobenius)
qed simp

text \<open>Every element is a sum of powers of \<open>x\<close>; two additive maps agreeing on those agree.\<close>

definition gf_x :: gf where "gf_x = Abs_gf 2"

lemma Rep_gf_x_power: "i < 16 \<Longrightarrow> Rep_gf (gf_x ^ i) = 2 ^ i"
proof (induction i)
  case (Suc i)
  have two: "in_gf 2" using in_gf_basis [of 1] by simp
  then have "Rep_gf gf_x = 2" by (simp add: gf_x_def Abs_gf_inverse)
  then have "Rep_gf (gf_x ^ Suc i) = gmul 2 (2 ^ i)"
    using Suc by (simp add: times_gf.rep_eq)
  also have "\<dots> = times_x (2 ^ i)"
    using two Suc.prems by (simp add: gmul_commute in_gf_basis times_x_gmul)
  finally show ?case using times_x_basis [OF Suc.prems] by simp
qed (simp add: one_gf.rep_eq)

lemma gf_additive_eq:
  fixes f g :: "gf \<Rightarrow> gf"
  assumes f: "\<And>a b. f (a + b) = f a + f b" and g: "\<And>a b. g (a + b) = g a + g b"
    and eq: "\<And>i. i < 16 \<Longrightarrow> f (gf_x ^ i) = g (gf_x ^ i)"
  shows "f a = g a"
proof -
  have zero: "f 0 = 0" "g 0 = 0" using f [of 0 0] g [of 0 0] by (simp_all add: gf_char_2)
  have "\<forall>a. Rep_gf a = r \<longrightarrow> f a = g a" if "0 \<le> r" "r < 2 ^ 16" for r
    using that
  proof (induction rule: linear_basis_induct)
    case zero
    show ?case
    proof (intro allI impI)
      fix a assume "Rep_gf a = 0"
      then have "a = 0" by (metis Rep_gf_inverse zero_gf.abs_eq)
      then show "f a = g a" using \<open>f 0 = 0\<close> \<open>g 0 = 0\<close> by simp
    qed
  next
    case (step i x)
    have x: "in_gf x"
      using step power_strict_increasing [of i 16 "2 :: int"] by (simp add: in_gf_def)
    show ?case
    proof (intro allI impI)
      fix a assume "Rep_gf a = 2 ^ i XOR x"
      then have "Rep_gf a = Rep_gf (gf_x ^ i + Abs_gf x)"
        using x step.hyps(1) by (simp add: plus_gf.rep_eq Rep_gf_x_power Abs_gf_inverse)
      then have "a = gf_x ^ i + Abs_gf x" by (simp add: Rep_gf_inject)
      then show "f a = g a"
        using step.IH x eq [OF step.hyps(1)] by (simp add: f g Abs_gf_inverse)
    qed
  qed
  from this [of "Rep_gf a"] show ?thesis using in_gf_Rep [of a] by (simp add: in_gf_def)
qed

section \<open>Inverses\<close>

text \<open>The squares of \<open>x\<close>, sixteen times over, come back to \<open>x\<close>.\<close>

lemma squares_of_x:
  "gmul 2 2 = 4" "gmul 4 4 = 16" "gmul 16 16 = 256" "gmul 256 256 = 4107" "gmul 4107 4107 =
  7166" "gmul 7166 7166 = 23588" "gmul 23588 23588 = 58951" "gmul 58951 58951 = 2863" "gmul
  2863 2863 = 5790" "gmul 5790 5790 = 2680" "gmul 2680 2680 = 6016" "gmul 6016 6016 = 6951"
  "gmul 6951 6951 = 3429" "gmul 3429 3429 = 22093" "gmul 22093 22093 = 61638" "gmul 61638
  61638 = 2"
  by (simp_all add: gf_eval)

lemma Rep_gf_square: "Rep_gf (a ^ 2) = gmul (Rep_gf a) (Rep_gf a)"
  by (simp add: power2_eq_square times_gf.rep_eq)

lemma Rep_gf_power_two: "Rep_gf (a ^ (2 ^ n)) = ((\<lambda>r. gmul r r) ^^ n) (Rep_gf a)"
proof (induction n)
  case (Suc n)
  have "a ^ (2 ^ Suc n) = (a ^ (2 ^ n)) ^ 2" by (simp add: power_mult [symmetric] mult.commute)
  then show ?case by (simp add: Rep_gf_square Suc.IH)
qed simp

lemma gf_x_fermat: "gf_x ^ (2 ^ 16) = gf_x"
proof -
  have x: "Rep_gf gf_x = 2" using Rep_gf_x_power [of 1] by simp
  have "Rep_gf (gf_x ^ (2 ^ 16)) = ((\<lambda>r. gmul r r) ^^ 16) 2"
    unfolding Rep_gf_power_two x ..
  also have "\<dots> = 2"
    by (simp only: eval_nat_numeral funpow.simps comp_apply id_apply squares_of_x BitM.simps
        numeral_nat One_nat_def arith_simps)
  finally show ?thesis using x by (metis Rep_gf_inject)
qed

lemma gf_fermat: "a ^ (2 ^ 16) = (a::gf)"
proof (rule gf_additive_eq [where f = "\<lambda>a. a ^ (2 ^ 16)" and g = "\<lambda>a. a"])
  fix i :: nat
  have "(gf_x ^ i) ^ (2 ^ 16) = (gf_x ^ (2 ^ 16)) ^ i"
    by (simp only: power_mult [symmetric] mult.commute)
  then show "(gf_x ^ i) ^ (2 ^ 16) = gf_x ^ i" by (simp only: gf_x_fermat)
qed (rule gf_frobenius_iter, rule refl)

text \<open>
  The only idempotents are 0 and 1: the linear map with the columns below recovers \<open>a\<close> up to its
  constant term from \<open>a^2 + a\<close>.
\<close>

definition halve_columns :: "int list" where
  "halve_columns = [350, 42420, 42422, 7412, 42418, 10272, 7420, 1328, 42402,
     38610, 10240, 5068, 7356, 0, 1456, 21936]"

definition halve :: "int \<Rightarrow> int" where
  "halve r = xor_sel (bit r) ((!) halve_columns) [0..<16]"

lemma halve_linear: "halve (x XOR y) = halve x XOR halve y"
  by (simp add: halve_def xor_sel_select)

lemma halve_basis:
  "list_all (\<lambda>i. halve (gmul (2 ^ i) (2 ^ i) XOR 2 ^ i) = 2 ^ i) [1..<16]"
  by (simp add: upt_rec) (simp add: gf_eval halve_def xor_sel_def halve_columns_def)

lemma gf_idempotent:
  assumes "e * e = (e::gf)" shows "e = 0 \<or> e = 1"
proof -
  define low :: "gf \<Rightarrow> gf" where "low a = (if bit (Rep_gf a) 0 then 1 else 0)" for a
  have low_add: "low (a + b) = low a + low b" for a b
    by (simp add: low_def plus_gf.rep_eq bit_xor_iff gf_char_2)
  have range: "in_gf (halve r)" for r
  proof -
    have "in_gf (xor_sel c ((!) halve_columns) ks)" if "set ks \<subseteq> {..<16}" for c ks
      using that
    proof (induction ks)
      case (Cons i ks)
      have "list_all in_gf halve_columns" by (simp add: halve_columns_def in_gf_def)
      moreover have "length halve_columns = 16" by (simp add: halve_columns_def)
      ultimately have "in_gf (halve_columns ! i)" using Cons.prems by (simp add: list_all_length)
      then show ?case using Cons by (simp add: xor_sel_Cons)
    qed simp
    moreover have "set [0..<16] \<subseteq> {..<16}" by auto
    ultimately show ?thesis unfolding halve_def by blast
  qed
  have "Abs_gf (halve (Rep_gf (e * e + e))) = e + low e"
  proof (rule gf_additive_eq [where f = "\<lambda>a. Abs_gf (halve (Rep_gf (a * a + a)))" and g = "\<lambda>a. a + low a"])
    fix a b :: gf
    have "(a + b) * (a + b) + (a + b) = (a * a + a) + (b * b + b)"
      using gf_frobenius [of a b] by (simp add: power2_eq_square algebra_simps)
    then show "Abs_gf (halve (Rep_gf ((a + b) * (a + b) + (a + b)))) =
        Abs_gf (halve (Rep_gf (a * a + a))) + Abs_gf (halve (Rep_gf (b * b + b)))"
      by (simp add: plus_gf.rep_eq halve_linear plus_gf.abs_eq eq_onp_def range ac_simps)
    show "a + b + low (a + b) = a + low a + (b + low b)" by (simp add: low_add algebra_simps)
  next
    fix i :: nat assume i: "i < 16"
    have rep: "Rep_gf (gf_x ^ i * gf_x ^ i + gf_x ^ i) = gmul (2 ^ i) (2 ^ i) XOR 2 ^ i"
      using i by (simp add: plus_gf.rep_eq times_gf.rep_eq Rep_gf_x_power)
    show "Abs_gf (halve (Rep_gf (gf_x ^ i * gf_x ^ i + gf_x ^ i))) = gf_x ^ i + low (gf_x ^ i)"
    proof (cases "i = 0")
      case True
      then show ?thesis
        using halve_linear [of 0 0]
        by (simp add: gf_double low_def one_gf.rep_eq zero_gf.rep_eq flip: zero_gf.abs_eq)
    next
      case False
      then have "halve (gmul (2 ^ i) (2 ^ i) XOR 2 ^ i) = 2 ^ i"
        using i by (intro all_between_list [OF halve_basis]) simp_all
      moreover have "low (gf_x ^ i) = 0"
        using i False by (simp add: low_def Rep_gf_x_power bit_0)
      ultimately show ?thesis
        unfolding rep by (metis Rep_gf_inverse Rep_gf_x_power add.right_neutral i)
    qed
  qed
  moreover have "Abs_gf (halve (Rep_gf (e * e + e))) = 0"
    using assms halve_linear [of 0 0] by (simp add: gf_char_2 zero_gf.rep_eq flip: zero_gf.abs_eq)
  ultimately have "e = low e" by (metis add.commute add.left_neutral add.assoc gf_char_2)
  then show ?thesis by (auto simp: low_def split: if_splits)
qed

lemma gf_unit_power:
  assumes "a \<noteq> (0::gf)" shows "a ^ 65535 = 1"
proof -
  have "a ^ 65535 * a = a ^ (2 ^ 16)" by (simp flip: power_Suc2)
  then have one: "a ^ 65535 * a = a" by (simp only: gf_fermat)
  have "a ^ 65535 * a ^ 65535 = (a ^ 65535 * a) * a ^ 65534" by (simp add: mult.assoc flip: power_Suc power_add)
  also have "\<dots> = a ^ 65535" by (simp add: one flip: power_Suc)
  finally have "a ^ 65535 = 0 \<or> a ^ 65535 = 1" by (rule gf_idempotent)
  with one assms show ?thesis by auto
qed

instantiation gf :: field
begin

definition inverse_gf :: "gf \<Rightarrow> gf" where "inverse_gf a = a ^ 65534"
definition divide_gf :: "gf \<Rightarrow> gf \<Rightarrow> gf" where "divide_gf a b = a * inverse b"

instance
proof
  fix a b :: gf
  show "a \<noteq> 0 \<Longrightarrow> inverse a * a = 1"
    using gf_unit_power [of a] by (simp add: inverse_gf_def flip: power_Suc2)
  show "a div b = a * inverse b" by (simp add: divide_gf_def)
  show "inverse (0 :: gf) = 0" by (simp add: inverse_gf_def)
qed

end

section \<open>The module's operations are the field's\<close>

lemma gf_check_ok [simp]: "in_gf a \<Longrightarrow> gf_check a = Inr a"
  by (simp add: gf_check_def in_gf_def)

lemma gf_check_iff: "gf_check a = Inr b \<longleftrightarrow> in_gf a \<and> b = a"
  by (auto simp: gf_check_def in_gf_def)

lemma gf_add_eq: "gf_add (Rep_gf a) (Rep_gf b) = Inr (Rep_gf (a + b))"
  by (simp add: gf_add_def plus_gf.rep_eq)

lemma gf_mul_eq: "gf_mul (Rep_gf a) (Rep_gf b) = Inr (Rep_gf (a * b))"
  by (simp add: gf_mul_def times_gf.rep_eq gmul_def)

lemma gf_pow_loop_eq:
  "gf_pow_loop (Rep_gf r) (Rep_gf b) e = Inr (Rep_gf (r * b ^ e))"
proof (induction e arbitrary: r b rule: less_induct)
  case (less e)
  show ?case
  proof (cases "e = 0")
    case False
    have half: "drop_bit (Suc 0) e = e div 2" by (simp add: drop_bit_Suc)
    have "r' * (b * b) ^ (e div 2) = r * b ^ e" if "r' = (if odd e then r * b else r)" for r'
    proof -
      have "b ^ e = b ^ (2 * (e div 2) + e mod 2)" by simp
      also have "\<dots> = (b * b) ^ (e div 2) * b ^ (e mod 2)"
        by (simp only: power_add power_mult power2_eq_square)
      finally show ?thesis using that by (cases "odd e") (simp_all add: odd_iff_mod_2_eq_one ac_simps)
    qed
    moreover have "gf_pow_loop (Rep_gf r) (Rep_gf b) e =
        gf_pow_loop (Rep_gf (if odd e then r * b else r)) (Rep_gf (b * b)) (e div 2)"
      using False by (subst gf_pow_loop.simps) (simp add: gf_mul_eq half bit_0)
    ultimately show ?thesis using less [of "e div 2"] False by simp
  qed (simp add: gf_pow_loop.simps)
qed

lemma gf_pow_eq: "gf_pow (Rep_gf a) e = Inr (Rep_gf (a ^ e))"
  using gf_pow_loop_eq [of 1 a e] by (simp add: gf_pow_def one_gf.rep_eq)

lemma gf_inv_eq: "gf_inv (Rep_gf a) = (if a = 0 then Inl (CryptoE FieldError) else Inr (Rep_gf (inverse a)))"
proof -
  have "Rep_gf a = 0 \<longleftrightarrow> a = 0" by (metis Rep_gf_inject zero_gf.rep_eq)
  then show ?thesis by (simp add: gf_inv_def gf_pow_eq inverse_gf_def)
qed

section \<open>The tables\<close>

text \<open>The powers of \<open>x\<close> the generator test looks at, from its repeated squares.\<close>

lemma Rep_gf_x: "Rep_gf gf_x = 2"
  using Rep_gf_x_power [of 1] by simp

lemma Rep_gf_mult: "Rep_gf (a * b) = gmul (Rep_gf a) (Rep_gf b)"
  by (rule times_gf.rep_eq)

lemma Rep_gf_x_squares:
  "Rep_gf (gf_x ^ 1) = 2"
  "Rep_gf (gf_x ^ 2) = 4"
  "Rep_gf (gf_x ^ 4) = 16"
  "Rep_gf (gf_x ^ 8) = 256"
  "Rep_gf (gf_x ^ 16) = 4107"
  "Rep_gf (gf_x ^ 32) = 7166"
  "Rep_gf (gf_x ^ 64) = 23588"
  "Rep_gf (gf_x ^ 128) = 58951"
  "Rep_gf (gf_x ^ 256) = 2863"
  "Rep_gf (gf_x ^ 512) = 5790"
  "Rep_gf (gf_x ^ 1024) = 2680"
  "Rep_gf (gf_x ^ 2048) = 6016"
  "Rep_gf (gf_x ^ 4096) = 6951"
  "Rep_gf (gf_x ^ 8192) = 3429"
  "Rep_gf (gf_x ^ 16384) = 22093"
proof -
  show x1: "Rep_gf (gf_x ^ 1) = 2" by (simp add: Rep_gf_x)
  have sq: "Rep_gf (gf_x ^ (2 * n)) = gmul (Rep_gf (gf_x ^ n)) (Rep_gf (gf_x ^ n))" for n
    by (simp add: mult_2 power_add Rep_gf_mult)
  show x2: "Rep_gf (gf_x ^ 2) = 4" using sq [of 1] by (simp add: x1 Rep_gf_x squares_of_x)
  show x4: "Rep_gf (gf_x ^ 4) = 16" using sq [of 2] by (simp add: x2 Rep_gf_x squares_of_x)
  show x8: "Rep_gf (gf_x ^ 8) = 256" using sq [of 4] by (simp add: x4 Rep_gf_x squares_of_x)
  show x16: "Rep_gf (gf_x ^ 16) = 4107" using sq [of 8] by (simp add: x8 Rep_gf_x squares_of_x)
  show x32: "Rep_gf (gf_x ^ 32) = 7166" using sq [of 16] by (simp add: x16 Rep_gf_x squares_of_x)
  show x64: "Rep_gf (gf_x ^ 64) = 23588" using sq [of 32] by (simp add: x32 Rep_gf_x squares_of_x)
  show x128: "Rep_gf (gf_x ^ 128) = 58951" using sq [of 64] by (simp add: x64 Rep_gf_x squares_of_x)
  show x256: "Rep_gf (gf_x ^ 256) = 2863" using sq [of 128] by (simp add: x128 Rep_gf_x squares_of_x)
  show x512: "Rep_gf (gf_x ^ 512) = 5790" using sq [of 256] by (simp add: x256 Rep_gf_x squares_of_x)
  show x1024: "Rep_gf (gf_x ^ 1024) = 2680" using sq [of 512] by (simp add: x512 Rep_gf_x squares_of_x)
  show x2048: "Rep_gf (gf_x ^ 2048) = 6016" using sq [of 1024] by (simp add: x1024 Rep_gf_x squares_of_x)
  show x4096: "Rep_gf (gf_x ^ 4096) = 6951" using sq [of 2048] by (simp add: x2048 Rep_gf_x squares_of_x)
  show x8192: "Rep_gf (gf_x ^ 8192) = 3429" using sq [of 4096] by (simp add: x4096 Rep_gf_x squares_of_x)
  show x16384: "Rep_gf (gf_x ^ 16384) = 22093" using sq [of 8192] by (simp add: x8192 Rep_gf_x squares_of_x)
qed

lemma gf_x_power_values:
  "Rep_gf (gf_x ^ 21845) = 350"
  "Rep_gf (gf_x ^ 13107) = 7400"
  "Rep_gf (gf_x ^ 3855) = 19832"
  "Rep_gf (gf_x ^ 255) = 36242"
proof -
  have "gf_x ^ 21845 = gf_x ^ 1 * (gf_x ^ 4 * (gf_x ^ 16 * (gf_x ^ 64 * (gf_x ^ 256 * (gf_x ^
      1024 * (gf_x ^ 4096 * (gf_x ^ 16384)))))))"
    by (simp only: power_add [symmetric]) simp
  then show "Rep_gf (gf_x ^ 21845) = 350"
    by (simp only: Rep_gf_mult Rep_gf_x_squares) (simp add: gf_eval)
  have "gf_x ^ 13107 = gf_x ^ 1 * (gf_x ^ 2 * (gf_x ^ 16 * (gf_x ^ 32 * (gf_x ^ 256 * (gf_x ^
      512 * (gf_x ^ 4096 * (gf_x ^ 8192)))))))"
    by (simp only: power_add [symmetric]) simp
  then show "Rep_gf (gf_x ^ 13107) = 7400"
    by (simp only: Rep_gf_mult Rep_gf_x_squares) (simp add: gf_eval)
  have "gf_x ^ 3855 = gf_x ^ 1 * (gf_x ^ 2 * (gf_x ^ 4 * (gf_x ^ 8 * (gf_x ^ 256 * (gf_x ^ 512 *
      (gf_x ^ 1024 * (gf_x ^ 2048)))))))"
    by (simp only: power_add [symmetric]) simp
  then show "Rep_gf (gf_x ^ 3855) = 19832"
    by (simp only: Rep_gf_mult Rep_gf_x_squares) (simp add: gf_eval)
  have "gf_x ^ 255 = gf_x ^ 1 * (gf_x ^ 2 * (gf_x ^ 4 * (gf_x ^ 8 * (gf_x ^ 16 * (gf_x ^ 32 *
      (gf_x ^ 64 * (gf_x ^ 128)))))))"
    by (simp only: power_add [symmetric]) simp
  then show "Rep_gf (gf_x ^ 255) = 36242"
    by (simp only: Rep_gf_mult Rep_gf_x_squares) (simp add: gf_eval)
qed

lemma gf_x_proper_powers:
  assumes "p \<in> {3, 5, 17, 257}" shows "gf_x ^ (65535 div p) \<noteq> 1"
proof -
  have "Rep_gf (gf_x ^ (65535 div p)) \<noteq> 1" using assms by (auto simp: gf_x_power_values)
  then show ?thesis by (auto simp: one_gf.rep_eq)
qed

lemma find_generator_2: "find_generator 2 = Inr 2"
proof -
  have pow: "gf_pow 2 n = Inr (Rep_gf (gf_x ^ n))" for n using gf_pow_eq [of gf_x n] by (simp add: Rep_gf_x)
  show ?thesis
    by (subst find_generator.simps) (simp add: is_generator_def gf_order_def pow gf_x_power_values)
qed

lemma coprime_prime:
  fixes p q :: nat
  assumes "list_all (\<lambda>k. \<not> k dvd p) [2..<p]" "0 < p" "\<not> p dvd q"
  shows "coprime p q"
proof -
  let ?k = "gcd p q"
  have "?k dvd p" "?k \<le> p" "0 < ?k" using assms(2) by (auto intro: dvd_imp_le gcd_pos_nat)
  moreover have "?k \<noteq> p" using assms(3) by (metis gcd_dvd2)
  ultimately have "2 \<le> ?k \<Longrightarrow> ?k \<in> set [2..<p]" by simp
  then have "\<not> 2 \<le> ?k" using assms(1) \<open>?k dvd p\<close> unfolding list_all_iff by blast
  then have "?k = 1" using \<open>0 < ?k\<close> by linarith
  then show ?thesis by (simp add: coprime_iff_gcd_eq_1)
qed

lemma small_primes:
  "list_all (\<lambda>k. \<not> k dvd 3) [2..<3::nat]" "list_all (\<lambda>k. \<not> k dvd 5) [2..<5::nat]"
  "list_all (\<lambda>k. \<not> k dvd 17) [2..<17::nat]" "list_all (\<lambda>k. \<not> k dvd 257) [2..<257::nat]"
  by (simp_all add: upt_rec)

lemma gf_x_order:
  assumes "0 < d" "d < 65535" shows "gf_x ^ d \<noteq> 1"
proof
  assume d: "gf_x ^ d = 1"
  let ?c = "gcd d 65535"
  obtain u v where uv: "d * u = 65535 * v + ?c" using bezout_nat [of d 65535] assms(1) by auto
  have "gf_x \<noteq> 0" by (metis Rep_gf_x zero_gf.rep_eq zero_neq_numeral)
  then have unit: "gf_x ^ 65535 = 1" by (rule gf_unit_power)
  have "gf_x ^ (d * u) = gf_x ^ (65535 * v) * gf_x ^ ?c" by (simp only: uv power_add)
  then have c: "gf_x ^ ?c = 1" by (simp only: power_mult d unit power_one mult_1_left)
  obtain q where q: "65535 = ?c * q" by (metis dvdE gcd_dvd2)
  have "?c \<le> d" using assms(1) by (intro dvd_imp_le) simp_all
  then have "q \<noteq> 1" using q assms(2) by auto
  have "\<exists>p \<in> {3, 5, 17, 257}. p dvd q"
  proof (rule ccontr)
    assume none: "\<not> ?thesis"
    then have "coprime 3 q" "coprime 5 q" "coprime 17 q" "coprime 257 q"
      by (auto intro!: coprime_prime small_primes)
    then have "coprime (3 * (5 * (17 * 257))) q" by (simp only: coprime_mult_left_iff)
    then have "coprime 65535 q" by simp
    moreover have "q dvd 65535" using q by (metis dvd_triv_right)
    ultimately have "q = 1" using coprime_common_divisor_nat [of 65535 q q] by simp
    with \<open>q \<noteq> 1\<close> show False ..
  qed
  then obtain p r where p: "p \<in> {3, 5, 17, 257}" and r: "q = p * r" by (auto elim!: dvdE)
  have "65535 div p = ?c * r" using q r p by (metis empty_iff insertE mult.left_commute nonzero_mult_div_cancel_left zero_neq_numeral)
  then have "gf_x ^ (65535 div p) = 1" by (simp only: power_mult c power_one)
  with gf_x_proper_powers [OF p] show False ..
qed

lemma gf_x_powers_inj: "inj_on (\<lambda>i. gf_x ^ i) {..<65535}"
proof -
  have nz: "gf_x \<noteq> 0" by (metis Rep_gf_x zero_gf.rep_eq zero_neq_numeral)
  have less: "gf_x ^ i \<noteq> gf_x ^ j" if "i < j" "j < 65535" for i j
  proof
    assume "gf_x ^ i = gf_x ^ j"
    moreover have "gf_x ^ j = gf_x ^ i * gf_x ^ (j - i)" using that by (simp flip: power_add)
    ultimately have "gf_x ^ (j - i) = 1" using nz by simp
    then show False using gf_x_order [of "j - i"] that by simp
  qed
  then show ?thesis by (intro linorder_inj_onI) auto
qed

lemma card_gf: "card (UNIV :: gf set) = 65536" "finite (UNIV :: gf set)"
proof -
  have "Rep_gf ` UNIV = {0..<65536}"
    using type_definition.Rep_range [OF type_definition_gf] by (auto simp: in_gf_def)
  moreover have "inj Rep_gf" by (simp add: inj_def Rep_gf_inject)
  ultimately have bij: "bij_betw Rep_gf UNIV {0..<65536}" by (simp add: bij_betw_def)
  show "card (UNIV :: gf set) = 65536" using bij_betw_same_card [OF bij] by simp
  show "finite (UNIV :: gf set)" using bij_betw_finite [OF bij] by simp
qed

lemma gf_log_exists:
  assumes "a \<noteq> (0::gf)" shows "\<exists>i < 65535. a = gf_x ^ i"
proof -
  have nz: "gf_x \<noteq> 0" by (metis Rep_gf_x zero_gf.rep_eq zero_neq_numeral)
  let ?P = "(\<lambda>i. gf_x ^ i) ` {..<65535}"
  have "card ?P = 65535" by (simp add: card_image [OF gf_x_powers_inj])
  moreover have "card (UNIV - {0 :: gf}) = 65535" using card_gf by simp
  moreover have "?P \<subseteq> UNIV - {0}" using nz by auto
  ultimately have "?P = UNIV - {0}" using card_gf(2) by (intro card_subset_eq) simp_all
  then have "a \<in> ?P" using assms by blast
  then show ?thesis by blast
qed

lemma foldR_append: "foldR f (xs @ ys) s = bindR (foldR f xs s) (foldR f ys)"
proof (induction xs arbitrary: s)
  case (Cons x xs)
  then show ?case by (cases "f x s") simp_all
qed simp

text \<open>After \<open>n\<close> rounds both tables hold the first \<open>n\<close> powers.\<close>

definition tables_hold :: "nat \<Rightarrow> int list \<Rightarrow> int list \<Rightarrow> bool" where
  "tables_hold n exp log \<longleftrightarrow> length exp = 2 * gf_order \<and> length log = 0x10000
     \<and> (\<forall>i < n. exp ! i = Rep_gf (gf_x ^ i)) \<and> (\<forall>i < n. log ! nat (Rep_gf (gf_x ^ i)) = int i)"

lemma Rep_gf_less: "0 \<le> Rep_gf a" "nat (Rep_gf a) < 65536"
  using in_gf_Rep [of a] by (auto simp: in_gf_def)

lemma table_step_hold:
  assumes "tables_hold n exp log" "n < 65535"
  shows "tables_hold (Suc n) (exp[n := Rep_gf (gf_x ^ n)]) (log[nat (Rep_gf (gf_x ^ n)) := int n])"
proof -
  have neq: "nat (Rep_gf (gf_x ^ n)) \<noteq> nat (Rep_gf (gf_x ^ i))" if "i < n" for i
  proof
    assume "nat (Rep_gf (gf_x ^ n)) = nat (Rep_gf (gf_x ^ i))"
    then have "gf_x ^ i = gf_x ^ n" using Rep_gf_less(1) by (metis Rep_gf_inject int_nat_eq)
    then show False using that assms(2) gf_x_powers_inj by (auto simp: inj_on_def)
  qed
  have len: "length exp = 131070" "length log = 65536"
    using assms(1) by (simp_all add: tables_hold_def gf_order_def)
  have "exp[n := Rep_gf (gf_x ^ n)] ! i = Rep_gf (gf_x ^ i)" if "i < Suc n" for i
    using that assms len by (cases "i = n") (simp_all add: tables_hold_def)
  moreover have "log[nat (Rep_gf (gf_x ^ n)) := int n] ! nat (Rep_gf (gf_x ^ i)) = int i" if "i < Suc n" for i
  proof (cases "i = n")
    case True
    then show ?thesis using len Rep_gf_less by simp
  next
    case False
    then have "i < n" using that by simp
    then show ?thesis using assms(1) neq by (simp add: nth_list_update_neq tables_hold_def)
  qed
  ultimately show ?thesis using len by (simp add: tables_hold_def gf_order_def)
qed

lemma tables_fold:
  "n \<le> 65535 \<Longrightarrow> \<exists>exp log. tables_hold n exp log \<and>
     foldR (table_step 2) [0..<n] (replicate (2 * gf_order) 0, replicate 0x10000 0, 1) =
       Inr (exp, log, Rep_gf (gf_x ^ n))"
proof (induction n)
  case 0
  then show ?case by (simp add: tables_hold_def one_gf.rep_eq)
next
  case (Suc n)
  then obtain exp log where hold: "tables_hold n exp log"
    and run: "foldR (table_step 2) [0..<n] (replicate (2 * gf_order) 0, replicate 0x10000 0, 1) =
      Inr (exp, log, Rep_gf (gf_x ^ n))" by auto
  have "gf_mul (Rep_gf (gf_x ^ n)) 2 = Inr (Rep_gf (gf_x ^ Suc n))"
    using gf_mul_eq [of "gf_x ^ n" gf_x] by (simp add: Rep_gf_x mult.commute)
  moreover have "[0..<Suc n] = [0..<n] @ [n]" by simp
  ultimately have "foldR (table_step 2) [0..<Suc n] (replicate (2 * gf_order) 0, replicate 0x10000 0, 1) =
      Inr (exp[n := Rep_gf (gf_x ^ n)], log[nat (Rep_gf (gf_x ^ n)) := int n], Rep_gf (gf_x ^ Suc n))"
    by (simp only: foldR_append run bindR_simps foldR.simps table_step_def case_prod_conv)
  then show ?case using table_step_hold [OF hold] Suc.prems by (intro exI conjI) simp_all
qed

lemma gf_x_not_0: "gf_x \<noteq> 0"
  by (metis Rep_gf_x zero_gf.rep_eq zero_neq_numeral)

lemma gf_tables_eq: "\<exists>exp log. gf_tables = Inr (exp, log) \<and> length exp = 131070 \<and> length log = 65536
    \<and> (\<forall>i < 131070. exp ! i = Rep_gf (gf_x ^ i)) \<and> (\<forall>i < 65535. log ! nat (Rep_gf (gf_x ^ i)) = int i)"
proof -
  obtain exp log where hold: "tables_hold 65535 exp log"
    and run: "foldR (table_step 2) [0..<65535] (replicate (2 * gf_order) 0, replicate 0x10000 0, 1) =
      Inr (exp, log, Rep_gf (gf_x ^ 65535))" using tables_fold [of 65535] by auto
  have one: "gf_x ^ 65535 = 1" by (rule gf_unit_power [OF gf_x_not_0])
  let ?exp = "take gf_order exp @ take gf_order exp"
  have "gf_tables = Inr (?exp, log)"
    using run by (simp add: gf_tables_def find_generator_2 gf_order_def one one_gf.rep_eq del: upt_rec_numeral)
  moreover have "?exp ! i = Rep_gf (gf_x ^ i)" if "i < 131070" for i
  proof (cases "i < 65535")
    case True
    then show ?thesis using hold by (simp add: tables_hold_def gf_order_def nth_append)
  next
    case False
    then have "gf_x ^ i = gf_x ^ (i - 65535)" using power_add [of gf_x 65535 "i - 65535"] one by simp
    then show ?thesis using hold False that by (simp add: tables_hold_def gf_order_def nth_append)
  qed
  ultimately show ?thesis
    using hold by (intro exI [of _ ?exp] exI [of _ log]) (simp add: tables_hold_def gf_order_def)
qed

lemma py_nth_in_range: "0 \<le> i \<Longrightarrow> i < int (length xs) \<Longrightarrow> py_nth xs i = Inr (xs ! nat i)"
  by (simp add: py_nth_def)

lemma Rep_gf_0_iff: "Rep_gf a = 0 \<longleftrightarrow> a = 0"
  by (metis Rep_gf_inject zero_gf.rep_eq)

text \<open>The log of an element, and the two fast operations.\<close>

lemma gf_mul_fast_eq: "gf_mul_fast (Rep_gf a) (Rep_gf b) = Inr (Rep_gf (a * b))"
proof (cases "a = 0 \<or> b = 0")
  case False
  then obtain i j where ij: "i < 65535" "a = gf_x ^ i" "j < 65535" "b = gf_x ^ j" using gf_log_exists by metis
  obtain exp log where t: "gf_tables = Inr (exp, log)" "length exp = 131070" "length log = 65536"
    "\<And>i. i < 131070 \<Longrightarrow> exp ! i = Rep_gf (gf_x ^ i)"
    "\<And>i. i < 65535 \<Longrightarrow> log ! nat (Rep_gf (gf_x ^ i)) = int i" using gf_tables_eq by blast
  have "py_nth log (Rep_gf a) = Inr (int i)" "py_nth log (Rep_gf b) = Inr (int j)"
    using Rep_gf_less [of a] Rep_gf_less [of b] t(3,5) ij by (simp_all add: py_nth_in_range)
  moreover have "py_nth exp (int i + int j) = Inr (Rep_gf (gf_x ^ (i + j)))"
    using ij t(2,4) by (simp add: py_nth_in_range nat_add_distrib)
  ultimately show ?thesis using False ij(2,4) unfolding gf_mul_fast_def t(1) by (simp add: Rep_gf_0_iff power_add)
qed (auto simp: gf_mul_fast_def zero_gf.rep_eq)

lemma gf_inv_fast_eq: "a \<noteq> 0 \<Longrightarrow> gf_inv_fast (Rep_gf a) = Inr (Rep_gf (inverse a))"
proof -
  assume a: "a \<noteq> 0"
  then obtain i where i: "i < 65535" "a = gf_x ^ i" using gf_log_exists by metis
  obtain exp log where t: "gf_tables = Inr (exp, log)" "length exp = 131070" "length log = 65536"
    "\<And>i. i < 131070 \<Longrightarrow> exp ! i = Rep_gf (gf_x ^ i)"
    "\<And>i. i < 65535 \<Longrightarrow> log ! nat (Rep_gf (gf_x ^ i)) = int i" using gf_tables_eq by blast
  have "py_nth log (Rep_gf a) = Inr (int i)"
    using Rep_gf_less [of a] t(3,5) i by (simp add: py_nth_in_range)
  moreover have "py_nth exp (65535 - int i) = Inr (Rep_gf (gf_x ^ (65535 - i)))"
    using i t(2) t(4) [of "65535 - i"] by (simp add: py_nth_in_range nat_diff_distrib)
  moreover have "gf_x ^ (65535 - i) = inverse a"
  proof (rule inverse_unique [symmetric])
    show "a * gf_x ^ (65535 - i) = 1"
      using i gf_unit_power [OF gf_x_not_0] by (simp flip: power_add)
  qed
  ultimately show ?thesis using a unfolding gf_inv_fast_def t(1) by (simp add: Rep_gf_0_iff)
qed

section \<open>Interpolation is Lagrange's formula\<close>

lemma prod_list_enumerate_except:
  "prod_list (map (\<lambda>(j, b). if j \<noteq> m then f b else 1) (enumerate 0 ns)) =
     (\<Prod>l \<in> {..<length ns} - {m}. f (ns ! l) :: gf)"
proof -
  have "prod_list (map (\<lambda>(j, b). if j \<noteq> m then f b else 1) (enumerate 0 ns)) =
      (\<Prod>l \<in> {0..<length ns}. if l \<noteq> m then f (ns ! l) else 1)"
    by (simp add: prod.list_conv_set_nth nth_enumerate_eq)
  also have "\<dots> = (\<Prod>l \<in> {..<length ns} - {m}. f (ns ! l))"
    by (intro prod.mono_neutral_cong_right) auto
  finally show ?thesis .
qed

lemma enumerate_map: "enumerate n (map f xs) = map (\<lambda>(j, b). (j, f b)) (enumerate n xs)"
  by (induction xs arbitrary: n) simp_all

lemma sum_list_enumerate:
  "sum_list (map (\<lambda>(i, b). g i b) (enumerate 0 ns)) = (\<Sum>l < length ns. g l (ns ! l) :: gf)"
  by (simp add: sum.list_conv_set_nth nth_enumerate_eq atLeast0LessThan)

lemma gf_interpolate_eq:
  assumes "length ns = length ys" "ns \<noteq> []" "distinct ns"
  shows "gf_interpolate (map Rep_gf ns) (map Rep_gf ys) (Rep_gf x) = Inr (Rep_gf (lagrange ns ys x))"
proof -
  let ?inner = "\<lambda>i xi (j, xj) (num, den).
     if j \<noteq> (i :: nat)
     then bindR (gf_add (Rep_gf x) xj) (\<lambda>d. bindR (gf_mul num d) (\<lambda>num.
          bindR (gf_add xi xj) (\<lambda>e. bindR (gf_mul den e) (\<lambda>den. Inr (num, den)))))
     else Inr (num, den)"
  have step: "foldR (?inner i (Rep_gf xi)) (map (\<lambda>(j, b). (j, Rep_gf b)) ps) (Rep_gf n, Rep_gf d) =
      Inr (Rep_gf (n * prod_list (map (\<lambda>(j, b). if j \<noteq> i then x + b else 1) ps)),
           Rep_gf (d * prod_list (map (\<lambda>(j, b). if j \<noteq> i then xi + b else 1) ps)))" for i xi ps n d
  proof (induction ps arbitrary: n d)
    case (Cons p ps)
    obtain j b where p: "p = (j, b)" by (cases p)
    show ?case
      using Cons.IH [of "n * (x + b)" "d * (xi + b)"] Cons.IH [of n d]
      by (cases "j = i") (simp_all add: p gf_add_eq gf_mul_eq mult.assoc)
  qed simp
  have inner: "foldR (?inner i (Rep_gf (ns ! i))) (enumerate 0 (map Rep_gf ns)) (1, 1) =
      Inr (Rep_gf (\<Prod>l \<in> {..<length ns} - {i}. x + ns ! l), Rep_gf (\<Prod>l \<in> {..<length ns} - {i}. ns ! i + ns ! l))" for i
    using step [of i "ns ! i" "enumerate 0 ns" 1 1]
    by (simp add: enumerate_map one_gf.rep_eq prod_list_enumerate_except)
  let ?outer = "\<lambda>(i, (xi, yi)) acc.
     bindR (foldR (?inner i xi) (enumerate 0 (map Rep_gf ns)) (1, 1)) (\<lambda>(num, den).
     bindR (gf_check yi) (\<lambda>yi. bindR (gf_inv den) (\<lambda>iv. bindR (gf_mul num iv) (\<lambda>b.
     bindR (gf_mul yi b) (\<lambda>term. Inr (acc XOR term))))))"
  have den: "(\<Prod>l \<in> {..<length ns} - {i}. ns ! i + ns ! l) \<noteq> 0" if "i < length ns" for i
    using that assms(3) by (auto simp: gf_minus(1) [symmetric] nth_eq_iff_index_eq)
  have basis: "(\<Prod>l \<in> {..<length ns} - {i}. x + ns ! l) * inverse (\<Prod>l \<in> {..<length ns} - {i}. ns ! i + ns ! l)
      = lagrange_basis ns i x" for i
    by (simp only: lagrange_basis_def gf_minus(1) prod_dividef) (simp only: divide_inverse)
  have outer: "foldR ?outer (map (\<lambda>(i, b). (i, Rep_gf (ns ! i), Rep_gf b)) ps) (Rep_gf acc) =
      Inr (Rep_gf (acc + sum_list (map (\<lambda>(i, b). b * lagrange_basis ns i x) ps)))"
    if "\<And>i b. (i, b) \<in> set ps \<Longrightarrow> i < length ns" for ps acc
    using that
  proof (induction ps arbitrary: acc)
    case (Cons p ps)
    obtain i b where p: "p = (i, b)" by (cases p)
    have i: "i < length ns" using Cons.prems [of i b] p by simp
    have "?outer (i, Rep_gf (ns ! i), Rep_gf b) (Rep_gf acc) = Inr (Rep_gf (acc + b * lagrange_basis ns i x))"
      by (simp add: inner gf_inv_eq den [OF i] gf_mul_eq basis plus_gf.rep_eq times_gf.rep_eq)
    moreover have "foldR ?outer (map (\<lambda>(i, b). (i, Rep_gf (ns ! i), Rep_gf b)) ps) (Rep_gf acc') =
        Inr (Rep_gf (acc' + sum_list (map (\<lambda>(i, b). b * lagrange_basis ns i x) ps)))" for acc'
      using Cons.prems by (intro Cons.IH) auto
    ultimately show ?case by (simp only: p list.map case_prod_conv foldR.simps bindR_simps) (simp add: add.assoc)
  qed simp
  have zip: "enumerate 0 (zip (map Rep_gf ns) (map Rep_gf ys)) =
      map (\<lambda>(i, b). (i, Rep_gf (ns ! i), Rep_gf b)) (enumerate 0 ys)"
    using assms(1) by (intro nth_equalityI) (simp_all add: nth_enumerate_eq)
  have "foldR ?outer (enumerate 0 (zip (map Rep_gf ns) (map Rep_gf ys))) 0 =
      Inr (Rep_gf (\<Sum>l < length ys. ys ! l * lagrange_basis ns l x))"
    using outer [of "enumerate 0 ys" 0] assms(1)
    by (simp add: zip zero_gf.rep_eq sum_list_enumerate in_set_enumerate_eq)
  moreover have "distinct (map Rep_gf ns)" using assms(3) by (simp add: distinct_map inj_on_def Rep_gf_inject)
  ultimately show ?thesis using assms by (simp add: gf_interpolate_def lagrange_def)
qed

text \<open>Elements given as ints, for statements about the module's own inputs.\<close>

lemma in_gf_iff_Rep: "in_gf a \<longleftrightarrow> (\<exists>g. a = Rep_gf g)"
  by (metis Abs_gf_inverse in_gf_Rep mem_Collect_eq)

lemma list_all_in_gf_iff: "list_all in_gf as \<longleftrightarrow> (\<exists>gs. as = map Rep_gf gs)"
proof (induction as)
  case (Cons a as)
  then show ?case by (auto simp: in_gf_iff_Rep Cons_eq_map_conv)
qed simp

end
