(* ===== verification/Erasure.thy ===== *)
theory Erasure
  imports Gf65536
begin

text \<open>
  The Braid's erasure code (\<open>tacenta_reader/erasure.py\<close>): a value is cut into 32-byte chunks of sixteen
  GF(2^16) elements, codeword \<open>i\<close> evaluates at \<open>i\<close> the polynomials through the chunks, and a decoder
  rebuilds the value from any \<open>k\<close> codewords.  The caches the classes keep (\<open>_els\<close>, \<open>_inv_den\<close>,
  \<open>_seen\<close>) hold values recomputed here and are not state.
\<close>

unbundle bit_operations_syntax

section \<open>Chunks and elements\<close>

definition chunk_count :: "int \<Rightarrow> int" where
  "chunk_count n = - ((- n) div CHUNK_BYTES)"

definition to_chunks :: "bytes \<Rightarrow> bytes list" where
  "to_chunks v =
     (let k = nat (chunk_count (int (length v)));
          padded = v @ zeros (k * 32 - length v)
      in map (\<lambda>t. take 32 (drop (32 * t) padded)) [0..<k])"

definition chunk_elements :: "bytes \<Rightarrow> int list res" where
  "chunk_elements chunk =
     (if int (length chunk) \<noteq> CHUNK_BYTES then Inl (PyE ValueError)
      else Inr (map (\<lambda>j. be_int (take 2 (drop (2 * j) chunk))) [0..<16]))"

definition from_elements :: "int list \<Rightarrow> bytes res" where
  "from_elements els = bindR (mapR (to_bytes_be 2) els) (\<lambda>bs. Inr (concat bs))"

section \<open>Interpolation over the held indices\<close>

definition inv_denominators :: "int list \<Rightarrow> int list res" where
  "inv_denominators nodes =
     mapR (\<lambda>(m, xm).
       bindR (foldR (\<lambda>(l, xl) d. if l \<noteq> m then gf_mul_fast d (xm XOR xl) else Inr d) (enumerate 0 nodes) 1)
         gf_inv_fast)
       (enumerate 0 nodes)"

text \<open>The running products of \<open>x + x_l\<close> from the left and from the right, filled in place.\<close>

definition prefix_products :: "int list \<Rightarrow> int list res" where
  "prefix_products diffs =
     foldR (\<lambda>i p. bindR (gf_mul_fast (p ! i) (diffs ! i)) (\<lambda>v. Inr (p[i + 1 := v])))
       [0..<length diffs] (replicate (length diffs + 1) 1)"

definition suffix_products :: "int list \<Rightarrow> int list res" where
  "suffix_products diffs =
     foldR (\<lambda>i p. bindR (gf_mul_fast (p ! (i + 1)) (diffs ! i)) (\<lambda>v. Inr (p[i := v])))
       (rev [0..<length diffs]) (replicate (length diffs + 1) 1)"

definition basis_at :: "int list \<Rightarrow> int list \<Rightarrow> int \<Rightarrow> int list res" where
  "basis_at nodes inv_den x =
     (let diffs = map (\<lambda>xl. x XOR xl) nodes
      in bindR (prefix_products diffs) (\<lambda>prefix.
         bindR (suffix_products diffs) (\<lambda>suffix.
         mapR (\<lambda>m. bindR (gf_mul_fast (prefix ! m) (suffix ! (m + 1))) (\<lambda>p. gf_mul_fast p (inv_den ! m)))
           [0..<length nodes])))"

definition combine_els :: "int list list \<Rightarrow> int list \<Rightarrow> bytes res" where
  "combine_els els basis =
     bindR (mapR (\<lambda>j.
       foldR (\<lambda>(m, b) acc. if b \<noteq> 0 then bindR (gf_mul_fast (els ! m ! j) b) (\<lambda>v. Inr (acc XOR v)) else Inr acc)
         (enumerate 0 basis) 0) [0..<16])
       from_elements"

section \<open>Encoder\<close>

record encoder =
  enc_chunks :: "bytes list"
  enc_next :: int
  enc_exhausted :: bool

definition new_encoder :: "bytes list \<Rightarrow> int \<Rightarrow> bool \<Rightarrow> encoder res" where
  "new_encoder chunks next_index exhausted =
     (if \<not> list_all (\<lambda>c. int (length c) = CHUNK_BYTES) chunks then Inl (PyE ValueError)
      else if int (length chunks) > MAX_CODEWORDS then Inl (PyE ValueError)
      else Inr \<lparr> enc_chunks = chunks, enc_next = next_index, enc_exhausted = exhausted \<rparr>)"

definition encoder_for_value :: "bytes \<Rightarrow> encoder res" where
  "encoder_for_value v = new_encoder (take (nat MAX_CODEWORDS) (to_chunks v)) 0 False"

definition codeword :: "encoder \<Rightarrow> int \<Rightarrow> bytes res" where
  "codeword e i =
     (if \<not> (0 \<le> i \<and> i \<le> U16_MAX) then Inl (PyE ValueError)
      else
        (let k = length (enc_chunks e)
         in if i < int k then Inr (enc_chunks e ! nat i)
            else if k = 0 then Inr (zeros 32)
            else
              bindR (mapR chunk_elements (enc_chunks e)) (\<lambda>els.
              bindR (inv_denominators (map int [0..<k])) (\<lambda>inv_den.
              bindR (basis_at (map int [0..<k]) inv_den i) (combine_els els)))))"

definition issue :: "encoder \<Rightarrow> (encoder \<times> (int \<times> bytes) option) res" where
  "issue e =
     (if enc_exhausted e then Inr (e, None)
      else
        (let i = enc_next e
         in bindR (codeword e i) (\<lambda>cw.
              Inr (if i = U16_MAX then e\<lparr> enc_exhausted := True \<rparr> else e\<lparr> enc_next := i + 1 \<rparr>, Some (i, cw)))))"

section \<open>Decoder\<close>

record decoder =
  dec_size :: int
  dec_needed :: int
  dec_held :: "(int \<times> bytes) list"

definition new_decoder :: "int \<Rightarrow> (int \<times> bytes) list \<Rightarrow> decoder res" where
  "new_decoder sz held =
     (if sz < 0 then Inl (PyE ValueError)
      else Inr \<lparr> dec_size = sz, dec_needed = chunk_count sz, dec_held = held \<rparr>)"

definition dec_receive :: "decoder \<Rightarrow> int \<Rightarrow> bytes \<Rightarrow> (decoder \<times> bool) res" where
  "dec_receive d index data =
     (if \<not> (0 \<le> index \<and> index \<le> U16_MAX) \<or> int (length data) \<noteq> CHUNK_BYTES then Inl (PyE ValueError)
      else if int (length (dec_held d)) \<ge> dec_needed d then Inr (d, False)
      else if index \<in> set (map fst (dec_held d)) then Inr (d, False)
      else Inr (d\<lparr> dec_held := dec_held d @ [(index, data)] \<rparr>, True))"

definition dec_complete :: "decoder \<Rightarrow> bool" where
  "dec_complete d \<longleftrightarrow> int (length (dec_held d)) \<ge> dec_needed d"

definition dec_value :: "decoder \<Rightarrow> bytes option res" where
  "dec_value d =
     (if dec_needed d = 0 then Inr (Some [])
      else if \<not> dec_complete d then Inr None
      else
        (let by_index = dict_of (dec_held d); nodes = map fst (dec_held d)
         in bindR (mapR (\<lambda>t.
              case dict_get by_index (int t) of
                Some c \<Rightarrow> Inr c
              | None \<Rightarrow>
                  bindR (mapR (\<lambda>(_, c). chunk_elements c) (dec_held d)) (\<lambda>els.
                  bindR (inv_denominators nodes) (\<lambda>inv_den.
                  bindR (basis_at nodes inv_den (int t)) (combine_els els))))
              [0..<nat (dec_needed d)]) (\<lambda>chunks.
            Inr (Some (take (nat (dec_size d)) (concat chunks))))))"

section \<open>The interpolation routine computes Lagrange's basis\<close>

lemma XOR_Rep: "Rep_gf a XOR Rep_gf b = Rep_gf (a + b)"
  by (simp add: plus_gf.rep_eq)

lemma mul_fast_one: "gf_mul_fast 1 (Rep_gf b) = Inr (Rep_gf b)"
  using gf_mul_fast_eq [of 1 b] by (simp add: one_gf.rep_eq)

lemma inv_denominators_eq:
  assumes "distinct ns"
  shows "inv_denominators (map Rep_gf ns) =
     Inr (map (\<lambda>m. Rep_gf (inverse (\<Prod>l \<in> {..<length ns} - {m}. ns ! m + ns ! l))) [0..<length ns])"
proof -
  let ?step = "\<lambda>m xm (l, xl) d. if l \<noteq> (m :: nat) then gf_mul_fast d (xm XOR xl) else Inr d"
  have inner: "foldR (?step m (Rep_gf x)) (map (\<lambda>(l, b). (l, Rep_gf b)) ps) (Rep_gf d) =
      Inr (Rep_gf (d * prod_list (map (\<lambda>(l, b). if l \<noteq> m then x + b else 1) ps)))" for m x ps d
  proof (induction ps arbitrary: d)
    case (Cons p ps)
    obtain l b where p: "p = (l, b)" by (cases p)
    show ?case
      using Cons.IH [of "d * (x + b)"] Cons.IH [of d]
      by (cases "l = m") (simp_all add: p XOR_Rep gf_mul_fast_eq mult.assoc)
  qed simp
  have one: "bindR (foldR (?step m (Rep_gf (ns ! m))) (enumerate 0 (map Rep_gf ns)) 1) gf_inv_fast =
      Inr (Rep_gf (inverse (\<Prod>l \<in> {..<length ns} - {m}. ns ! m + ns ! l)))" if "m < length ns" for m
  proof -
    have "(\<Prod>l \<in> {..<length ns} - {m}. ns ! m + ns ! l) \<noteq> 0"
      using that assms by (auto simp: gf_minus(1) [symmetric] nth_eq_iff_index_eq)
    then show ?thesis
      using inner [of m "ns ! m" "enumerate 0 ns" 1]
      by (simp add: enumerate_map one_gf.rep_eq prod_list_enumerate_except gf_inv_fast_eq)
  qed
  have en: "enumerate 0 (map Rep_gf ns) = map (\<lambda>m. (m, Rep_gf (ns ! m))) [0..<length ns]"
    by (intro nth_equalityI) (simp_all add: nth_enumerate_eq)
  have map_mapR: "mapR f (map g xs) = mapR (\<lambda>x. f (g x)) xs" for f :: "nat \<times> int \<Rightarrow> int res" and g and xs :: "nat list"
    by (induction xs) simp_all
  show ?thesis
    unfolding inv_denominators_def
    by (subst (2) en, subst map_mapR) (intro mapR_total, simp add: one)
qed

lemma prefix_products_eq:
  "prefix_products (map Rep_gf ds) = Inr (map (\<lambda>m. Rep_gf (\<Prod>l < m. ds ! l)) [0..<length ds + 1])"
proof -
  let ?f = "\<lambda>i p. bindR (gf_mul_fast (p ! i) (map Rep_gf ds ! i)) (\<lambda>v. Inr (p[i + 1 := v]))"
  let ?at = "\<lambda>n. map (\<lambda>m. if m \<le> n then Rep_gf (\<Prod>l < m. ds ! l) else 1) [0..<length ds + 1]"
  have "foldR ?f [0..<n] (replicate (length ds + 1) 1) = Inr (?at n)" if "n \<le> length ds" for n
    using that
  proof (induction n)
    case 0
    show ?case
      by (simp add: one_gf.rep_eq list_eq_iff_nth_eq del: upt_Suc replicate_Suc)
  next
    case (Suc n)
    have "?f n (?at n) = Inr ((?at n)[n + 1 := Rep_gf (\<Prod>l < Suc n. ds ! l)])"
      using Suc.prems by (simp add: gf_mul_fast_eq del: upt_Suc)
    also have "(?at n)[n + 1 := Rep_gf (\<Prod>l < Suc n. ds ! l)] = ?at (Suc n)"
      using Suc.prems by (auto simp: list_eq_iff_nth_eq nth_list_update le_Suc_eq simp del: upt_Suc prod.lessThan_Suc)
    finally have step: "?f n (?at n) = Inr (?at (Suc n))" .
    have "[0..<Suc n] = [0..<n] @ [n]" by simp
    moreover have "foldR ?f [0..<n] (replicate (length ds + 1) 1) = Inr (?at n)"
      using Suc by simp
    ultimately show ?case by (simp only: foldR_append bindR_simps) (simp only: step foldR.simps bindR_simps)
  qed
  from this [of "length ds"] show ?thesis
    unfolding prefix_products_def by (simp del: upt_Suc cong: map_cong)
qed

lemma suffix_products_eq:
  "suffix_products (map Rep_gf ds) =
     Inr (map (\<lambda>m. Rep_gf (\<Prod>l \<in> {m..<length ds}. ds ! l)) [0..<length ds + 1])"
proof -
  let ?k = "length ds"
  let ?f = "\<lambda>i p. bindR (gf_mul_fast (p ! (i + 1)) (map Rep_gf ds ! i)) (\<lambda>v. Inr (p[i := v]))"
  let ?at = "\<lambda>n. map (\<lambda>m. if n \<le> m then Rep_gf (\<Prod>l \<in> {m..<?k}. ds ! l) else 1) [0..<?k + 1]"
  have "foldR ?f (rev [n..<?k]) (replicate (?k + 1) 1) = Inr (?at n)" if "n \<le> ?k" for n
    using that
  proof (induction "?k - n" arbitrary: n)
    case 0
    then show ?case
      by (simp add: one_gf.rep_eq list_eq_iff_nth_eq del: upt_Suc replicate_Suc)
  next
    case (Suc i)
    then have n: "n < ?k" by simp
    have "?f n (?at (Suc n)) = Inr ((?at (Suc n))[n := Rep_gf (\<Prod>l \<in> {n..<?k}. ds ! l)])"
      using n by (simp add: gf_mul_fast_eq prod.atLeast_Suc_lessThan [of n ?k] mult.commute del: upt_Suc)
    also have "(?at (Suc n))[n := Rep_gf (\<Prod>l \<in> {n..<?k}. ds ! l)] = ?at n"
      using n by (auto simp: list_eq_iff_nth_eq nth_list_update Suc_le_eq le_less simp del: upt_Suc)
    finally have step: "?f n (?at (Suc n)) = Inr (?at n)" .
    have "rev [n..<?k] = rev [Suc n..<?k] @ [n]" using n by (simp add: upt_conv_Cons)
    moreover have "foldR ?f (rev [Suc n..<?k]) (replicate (?k + 1) 1) = Inr (?at (Suc n))"
      using Suc n by (intro Suc.hyps(1)) simp_all
    ultimately show ?case by (simp only: foldR_append bindR_simps) (simp only: step foldR.simps bindR_simps)
  qed
  from this [of 0] show ?thesis
    unfolding suffix_products_def by (simp del: upt_Suc)
qed

lemma basis_at_eq:
  assumes "distinct ns"
  shows "bindR (inv_denominators (map Rep_gf ns)) (\<lambda>d. basis_at (map Rep_gf ns) d (Rep_gf x)) =
     Inr (map (\<lambda>m. Rep_gf (lagrange_basis ns m x)) [0..<length ns])"
proof -
  let ?k = "length ns"
  let ?iv = "map (\<lambda>m. Rep_gf (inverse (\<Prod>l \<in> {..<?k} - {m}. ns ! m + ns ! l))) [0..<?k]"
  have diffs: "map (\<lambda>xl. Rep_gf x XOR xl) (map Rep_gf ns) = map Rep_gf (map (\<lambda>b. x + b) ns)"
    by (simp add: XOR_Rep)
  have split: "(\<Prod>l < m. x + ns ! l) * (\<Prod>l \<in> {Suc m..<?k}. x + ns ! l) = (\<Prod>l \<in> {..<?k} - {m}. x + ns ! l)"
    if "m < ?k" for m
  proof -
    have sets: "{..<?k} - {m} = {..<m} \<union> {Suc m..<?k}" using that by auto
    show ?thesis unfolding sets by (rule prod.union_disjoint [symmetric]) auto
  qed
  have basis: "(\<Prod>l \<in> {..<?k} - {m}. x + ns ! l) * inverse (\<Prod>l \<in> {..<?k} - {m}. ns ! m + ns ! l)
      = lagrange_basis ns m x" for m
    by (simp only: lagrange_basis_def gf_minus(1) prod_dividef) (simp only: divide_inverse)
  let ?p = "map (\<lambda>m. Rep_gf (\<Prod>l < m. x + ns ! l)) [0..<?k + 1]"
  let ?s = "map (\<lambda>m. Rep_gf (\<Prod>l \<in> {m..<?k}. x + ns ! l)) [0..<?k + 1]"
  have p: "prefix_products (map Rep_gf (map (\<lambda>b. x + b) ns)) = Inr ?p"
    unfolding prefix_products_eq by (auto simp: intro!: arg_cong [where f = Rep_gf] prod.cong simp del: upt_Suc)
  have sf: "suffix_products (map Rep_gf (map (\<lambda>b. x + b) ns)) = Inr ?s"
    unfolding suffix_products_eq by (auto simp: intro!: arg_cong [where f = Rep_gf] prod.cong simp del: upt_Suc)
  have "mapR (\<lambda>m. bindR (gf_mul_fast (?p ! m) (?s ! (m + 1))) (\<lambda>p. gf_mul_fast p (?iv ! m))) [0..<?k] =
      Inr (map (\<lambda>m. Rep_gf (lagrange_basis ns m x)) [0..<?k])"
    by (rule mapR_total) (simp add: gf_mul_fast_eq split basis del: upt_Suc prod.lessThan_Suc)
  then show ?thesis
    by (simp only: inv_denominators_eq [OF assms] basis_at_def Let_def diffs p sf bindR_simps length_map)
qed

section \<open>Chunks as vectors of field elements\<close>

definition gf_of_int :: "int \<Rightarrow> gf" where
  "gf_of_int = Abs_gf"

lemma Rep_gf_of_int: "in_gf i \<Longrightarrow> Rep_gf (gf_of_int i) = i"
  by (simp add: gf_of_int_def Abs_gf_inverse)

definition elem :: "bytes \<Rightarrow> nat \<Rightarrow> gf" where
  "elem c j = gf_of_int (be_int (take 2 (drop (2 * j) c)))"

definition chunk_of :: "(nat \<Rightarrow> gf) \<Rightarrow> bytes" where
  "chunk_of f = concat (map (\<lambda>j. be_digits 2 (Rep_gf (f j))) [0..<16])"

lemma in_gf_two_bytes: "length b \<le> 2 \<Longrightarrow> in_gf (be_int b)"
proof -
  assume len: "length b \<le> 2"
  have "be_int b < 256 ^ length b" by (rule be_int_less)
  also have "(256::int) ^ length b \<le> 256 ^ 2" using len by (intro power_increasing) simp_all
  finally show ?thesis by (simp add: in_gf_def)
qed

lemma Rep_elem: "Rep_gf (elem c j) = be_int (take 2 (drop (2 * j) c))"
  by (simp add: elem_def Rep_gf_of_int in_gf_two_bytes)

lemma chunk_elements_eq: "length c = 32 \<Longrightarrow> chunk_elements c = Inr (map (\<lambda>j. Rep_gf (elem c j)) [0..<16])"
  by (simp add: chunk_elements_def Rep_elem)

lemma from_elements_eq: "from_elements (map (\<lambda>j. Rep_gf (f j)) [0..<16]) = Inr (chunk_of f)"
proof -
  have "mapR (to_bytes_be 2) (map (\<lambda>j. Rep_gf (f j)) xs) = Inr (map (\<lambda>j. be_digits 2 (Rep_gf (f j))) xs)" for xs
  proof (induction xs)
    case (Cons j xs)
    have "Rep_gf (f j) < 256 ^ 2" using Rep_gf_less [of "f j"] by simp
    then show ?case using Cons Rep_gf_less(1) [of "f j"] by (simp add: to_bytes_be_def)
  qed simp
  then show ?thesis by (simp add: from_elements_def chunk_of_def)
qed

lemma length_chunk_of [simp]: "length (chunk_of f) = 32"
  by (simp add: chunk_of_def length_concat comp_def sum_list_triv)

lemma concat_pairs: "length c = 2 * n \<Longrightarrow> concat (map (\<lambda>j. take 2 (drop (2 * j) c)) [0..<n]) = c"
proof (induction n arbitrary: c)
  case (Suc n)
  have "[0..<Suc n] = 0 # map Suc [0..<n]" by (simp add: upt_conv_Cons map_Suc_upt del: upt_Suc)
  then have "concat (map (\<lambda>j. take 2 (drop (2 * j) c)) [0..<Suc n]) =
      take 2 c @ concat (map (\<lambda>j. take 2 (drop (2 * j) (drop 2 c))) [0..<n])"
    by (simp add: comp_def del: upt_Suc)
  also have "\<dots> = c" using Suc.IH [of "drop 2 c"] Suc.prems by simp
  finally show ?case .
qed simp

lemma chunk_of_elem: "length c = 32 \<Longrightarrow> chunk_of (elem c) = c"
proof -
  assume len: "length c = 32"
  have "be_digits 2 (be_int (take 2 (drop (2 * j) c))) = take 2 (drop (2 * j) c)" if "j < 16" for j
    using that len by (intro be_digits_be_int) simp
  then have "chunk_of (elem c) = concat (map (\<lambda>j. take 2 (drop (2 * j) c)) [0..<16])"
    unfolding chunk_of_def Rep_elem by (intro arg_cong [where f = concat] map_cong) auto
  also have "\<dots> = c" using len by (intro concat_pairs) simp
  finally show ?thesis .
qed

lemma elem_chunk_of:
  assumes "j < 16" shows "elem (chunk_of f) j = f j"
proof -
  let ?b = "\<lambda>j. be_digits 2 (Rep_gf (f j))"
  have "take 2 (drop (2 * i) (concat (map ?b xs))) = ?b (xs ! i)" if "i < length xs" for xs i
    using that
  proof (induction xs arbitrary: i)
    case (Cons x xs)
    then show ?case by (cases i) simp_all
  qed simp
  from this [of j "[0..<16]"] have "take 2 (drop (2 * j) (chunk_of f)) = ?b j"
    using assms by (simp add: chunk_of_def)
  moreover have "be_int (?b j) = Rep_gf (f j)"
    using Rep_gf_less [of "f j"] by (intro be_int_digits_id) simp_all
  ultimately have "Rep_gf (elem (chunk_of f) j) = Rep_gf (f j)" by (simp add: Rep_elem)
  then show ?thesis by (simp add: Rep_gf_inject)
qed

lemma chunk_of_cong: "(\<And>j. j < 16 \<Longrightarrow> f j = g j) \<Longrightarrow> chunk_of f = chunk_of g"
  unfolding chunk_of_def by (intro arg_cong [where f = concat] map_cong) auto

section \<open>Codewords\<close>

text \<open>The chunk whose element \<open>j\<close> is the polynomial through the \<open>j\<close>-th elements, evaluated at \<open>x\<close>.\<close>

definition row_at :: "gf list \<Rightarrow> bytes list \<Rightarrow> gf \<Rightarrow> bytes" where
  "row_at ns cs x = chunk_of (\<lambda>j. lagrange ns (map (\<lambda>c. elem c j) cs) x)"

lemma length_row_at [simp]: "length (row_at ns cs x) = 32"
  by (simp add: row_at_def)

lemma elem_row_at: "j < 16 \<Longrightarrow> elem (row_at ns cs x) j = lagrange ns (map (\<lambda>c. elem c j) cs) x"
  by (simp add: row_at_def elem_chunk_of)

lemma combine_els_eq:
  assumes "length cs = length bs"
  shows "combine_els (map (\<lambda>c. map (\<lambda>j. Rep_gf (elem c j)) [0..<16]) cs) (map Rep_gf bs) =
     Inr (chunk_of (\<lambda>j. \<Sum>m < length bs. elem (cs ! m) j * bs ! m))"
proof -
  let ?els = "map (\<lambda>c. map (\<lambda>j. Rep_gf (elem c j)) [0..<16]) cs"
  let ?step = "\<lambda>j (m, b) acc. if b \<noteq> 0 then bindR (gf_mul_fast (?els ! m ! j) b) (\<lambda>v. Inr (acc XOR v)) else Inr acc"
  have fold: "foldR (?step j) (map (\<lambda>(m, b). (m, Rep_gf b)) ps) (Rep_gf a) =
      Inr (Rep_gf (a + sum_list (map (\<lambda>(m, b). elem (cs ! m) j * b) ps)))"
    if "list_all (\<lambda>(m, b). m < length cs) ps" "j < 16" for j ps a
    using that(1)
  proof (induction ps arbitrary: a)
    case (Cons p ps)
    obtain m b where p: "p = (m, b)" by (cases p)
    have m: "m < length cs" using Cons.prems p by simp
    show ?case
      using Cons.IH [of "a + elem (cs ! m) j * b"] Cons.IH [of a] Cons.prems m that(2)
      by (cases "b = 0") (simp_all add: p Rep_gf_0_iff gf_mul_fast_eq XOR_Rep add.assoc)
  qed simp
  have "foldR (?step j) (enumerate 0 (map Rep_gf bs)) 0 = Inr (Rep_gf (\<Sum>m < length bs. elem (cs ! m) j * bs ! m))"
    if "j < 16" for j
    using fold [of "enumerate 0 bs" j 0] that assms
    by (simp add: enumerate_map zero_gf.rep_eq sum_list_enumerate list_all_iff in_set_enumerate_eq split_beta)
  then have "mapR (\<lambda>j. foldR (?step j) (enumerate 0 (map Rep_gf bs)) 0) [0..<16] =
      Inr (map (\<lambda>j. Rep_gf (\<Sum>m < length bs. elem (cs ! m) j * bs ! m)) [0..<16])"
    by (intro mapR_total) simp
  then show ?thesis by (simp only: combine_els_def bindR_simps from_elements_eq)
qed

lemma mapR_chunk_elements:
  "list_all (\<lambda>c. length c = 32) cs \<Longrightarrow>
     mapR chunk_elements cs = Inr (map (\<lambda>c. map (\<lambda>j. Rep_gf (elem c j)) [0..<16]) cs)"
  by (intro mapR_total) (simp add: list_all_iff chunk_elements_eq)

lemma interpolate_row:
  assumes "distinct ns" "length cs = length ns" "list_all (\<lambda>c. length c = 32) cs"
  shows "bindR (mapR chunk_elements cs) (\<lambda>els. bindR (inv_denominators (map Rep_gf ns)) (\<lambda>d.
       bindR (basis_at (map Rep_gf ns) d (Rep_gf x)) (combine_els els))) = Inr (row_at ns cs x)"
proof -
  let ?els = "map (\<lambda>c. map (\<lambda>j. Rep_gf (elem c j)) [0..<16]) cs"
  have assoc: "bindR (inv_denominators (map Rep_gf ns)) (\<lambda>d. bindR (basis_at (map Rep_gf ns) d (Rep_gf x)) f) =
      bindR (bindR (inv_denominators (map Rep_gf ns)) (\<lambda>d. basis_at (map Rep_gf ns) d (Rep_gf x))) f" for f
    by (cases "inv_denominators (map Rep_gf ns)") simp_all
  have "combine_els ?els (map (\<lambda>m. Rep_gf (lagrange_basis ns m x)) [0..<length ns]) =
      Inr (chunk_of (\<lambda>j. \<Sum>m < length ns. elem (cs ! m) j * lagrange_basis ns m x))"
    using combine_els_eq [of cs "map (\<lambda>m. lagrange_basis ns m x) [0..<length ns]"] assms(2)
    by (simp add: comp_def)
  then show ?thesis
    using assms(2) by (simp add: mapR_chunk_elements [OF assms(3)] assoc basis_at_eq [OF assms(1)] row_at_def lagrange_def)
qed

definition encoder_ok :: "encoder \<Rightarrow> bool" where
  "encoder_ok e \<longleftrightarrow> list_all (\<lambda>c. length c = 32) (enc_chunks e) \<and> length (enc_chunks e) \<le> 65536"

definition nodes_upto :: "nat \<Rightarrow> gf list" where
  "nodes_upto k = map (\<lambda>t. gf_of_int (int t)) [0..<k]"

lemma in_gf_index: "0 \<le> i \<Longrightarrow> i \<le> U16_MAX \<Longrightarrow> in_gf i"
  by (simp add: in_gf_def const_defs)

lemma gf_of_int_inj: "in_gf i \<Longrightarrow> in_gf j \<Longrightarrow> gf_of_int i = gf_of_int j \<longleftrightarrow> i = j"
  by (metis Rep_gf_of_int)

lemma nodes_upto:
  assumes "k \<le> 65536"
  shows "map Rep_gf (nodes_upto k) = map int [0..<k]" "distinct (nodes_upto k)" "length (nodes_upto k) = k"
    "t < k \<Longrightarrow> nodes_upto k ! t = gf_of_int (int t)"
proof -
  have ok: "in_gf (int t)" if "t < k" for t using that assms by (simp add: in_gf_def)
  then show "map Rep_gf (nodes_upto k) = map int [0..<k]" by (simp add: nodes_upto_def Rep_gf_of_int)
  show "distinct (nodes_upto k)"
    using ok by (auto simp: nodes_upto_def distinct_map inj_on_def gf_of_int_inj)
qed (simp_all add: nodes_upto_def)

lemma row_at_node:
  assumes "length cs = k" "k \<le> 65536" "t < k" "length (cs ! t) = 32"
  shows "row_at (nodes_upto k) cs (gf_of_int (int t)) = cs ! t"
proof -
  have "row_at (nodes_upto k) cs (gf_of_int (int t)) = chunk_of (elem (cs ! t))"
    unfolding row_at_def
    using assms lagrange_node [OF nodes_upto(2) [OF assms(2)], of t] nodes_upto [OF assms(2)]
    by (intro chunk_of_cong) simp
  then show ?thesis using assms(4) by (simp add: chunk_of_elem)
qed

text \<open>Every codeword is the chunk polynomials' value at its index, the first \<open>k\<close> being the chunks.\<close>

lemma codeword_eq:
  assumes ok: "encoder_ok e" and i: "0 \<le> i" "i \<le> U16_MAX"
  shows "codeword e i = Inr (row_at (nodes_upto (length (enc_chunks e))) (enc_chunks e) (gf_of_int i))"
proof -
  let ?cs = "enc_chunks e" and ?k = "length (enc_chunks e)"
  have len: "list_all (\<lambda>c. length c = 32) ?cs" and k: "?k \<le> 65536" using ok by (simp_all add: encoder_ok_def)
  consider "i < int ?k" | "int ?k \<le> i" "?k = 0" | "int ?k \<le> i" "?k \<noteq> 0" by linarith
  then show ?thesis
  proof cases
    case 1
    then have "length (?cs ! nat i) = 32" using len i by (simp add: list_all_length)
    then show ?thesis using 1 i row_at_node [of ?cs ?k "nat i"] k by (simp add: codeword_def)
  next
    case 2
    have "chunk_of (\<lambda>j. 0) = zeros 32"
      by (simp add: chunk_of_def zero_gf.rep_eq zeros_def upt_rec flip: replicate_add)
    then show ?thesis using 2 i by (simp add: codeword_def row_at_def lagrange_def nodes_upto_def)
  next
    case 3
    have "Rep_gf (gf_of_int i) = i" using i by (simp add: Rep_gf_of_int in_gf_index)
    then show ?thesis
      using 3 i interpolate_row [OF nodes_upto(2) [OF k] _ len, of "gf_of_int i"] nodes_upto [OF k]
      by (simp add: codeword_def)
  qed
qed

section \<open>Cutting a value up and putting it back\<close>

lemma chunk_count_bounds:
  assumes "0 \<le> n"
  shows "0 \<le> chunk_count n" "n \<le> 32 * chunk_count n" "32 * chunk_count n < n + 32"
  using assms by (simp_all add: chunk_count_def)

lemma to_chunks_props:
  defines "k \<equiv> \<lambda>v. nat (chunk_count (int (length v)))"
  shows "length (to_chunks v) = k v" "list_all (\<lambda>c. length c = 32) (to_chunks v)"
    "take (length v) (concat (to_chunks v)) = v"
proof -
  let ?p = "v @ zeros (k v * 32 - length v)"
  have len: "length ?p = 32 * k v"
    using chunk_count_bounds [of "int (length v)"] by (simp add: k_def)
  have chunks: "to_chunks v = map (\<lambda>t. take 32 (drop (32 * t) ?p)) [0..<k v]"
    by (simp add: to_chunks_def k_def Let_def)
  show "length (to_chunks v) = k v" by (simp add: chunks)
  show "list_all (\<lambda>c. length c = 32) (to_chunks v)" using len by (auto simp: chunks list_all_iff)
  have "concat (map (\<lambda>t. take 32 (drop (32 * t) c)) [0..<n]) = c" if "length c = 32 * n" for n and c :: bytes
    using that
  proof (induction n arbitrary: c)
    case (Suc n)
    have "[0..<Suc n] = 0 # map Suc [0..<n]" by (simp add: upt_conv_Cons map_Suc_upt del: upt_Suc)
    then have "concat (map (\<lambda>t. take 32 (drop (32 * t) c)) [0..<Suc n]) =
        take 32 c @ concat (map (\<lambda>t. take 32 (drop (32 * t) (drop 32 c))) [0..<n])"
      by (simp add: comp_def add.commute del: upt_Suc)
    also have "\<dots> = c" using Suc.IH [of "drop 32 c"] Suc.prems by simp
    finally show ?case .
  qed simp
  from this [OF len] have "concat (to_chunks v) = ?p" by (simp only: chunks)
  then show "take (length v) (concat (to_chunks v)) = v" by simp
qed

section \<open>Any k codewords rebuild the value\<close>

text \<open>The codeword at index \<open>i\<close> of a value's chunks.\<close>

definition word_at :: "bytes list \<Rightarrow> int \<Rightarrow> bytes" where
  "word_at cs i = row_at (nodes_upto (length cs)) cs (gf_of_int i)"

lemma length_word_at [simp]: "length (word_at cs i) = 32"
  by (simp add: word_at_def)

definition indices_ok :: "int list \<Rightarrow> bool" where
  "indices_ok is \<longleftrightarrow> list_all (\<lambda>i. 0 \<le> i \<and> i \<le> U16_MAX) is"

lemma rebuild_chunk:
  assumes cs: "list_all (\<lambda>c. length c = 32) cs" "length cs = k" "k \<le> 65536" "t < k"
    and hs: "distinct hs" "length hs = k" "indices_ok hs"
  shows "row_at (map gf_of_int hs) (map (word_at cs) hs) (gf_of_int (int t)) = cs ! t"
proof -
  let ?ps = "map gf_of_int hs" and ?ns = "nodes_upto k"
  have "inj_on gf_of_int (set hs)"
    using hs(3) by (auto simp: inj_on_def indices_ok_def list_all_iff gf_of_int_inj in_gf_index)
  then have ps: "distinct ?ps" using hs(1) by (simp add: distinct_map)
  have "lagrange ?ps (map (\<lambda>c. elem c j) (map (word_at cs) hs)) x = lagrange ?ns (map (\<lambda>c. elem c j) cs) x"
    if "j < 16" for j x
  proof -
    have row: "map (\<lambda>c. elem c j) (map (word_at cs) hs) = map (lagrange ?ns (map (\<lambda>c. elem c j) cs)) ?ps"
      using that cs(2) by (simp add: word_at_def elem_row_at)
    show ?thesis
      unfolding row using hs(2) nodes_upto(3) [OF cs(3)]
      by (intro lagrange_exchange [OF nodes_upto(2) [OF cs(3)] ps]) simp
  qed
  then have "row_at ?ps (map (word_at cs) hs) (gf_of_int (int t)) = row_at ?ns cs (gf_of_int (int t))"
    unfolding row_at_def by (intro chunk_of_cong) simp
  moreover have "length (cs ! t) = 32" using cs by (simp add: list_all_length)
  ultimately show ?thesis using row_at_node [of cs k t] cs by simp
qed

lemma dec_value_eq:
  assumes cs: "list_all (\<lambda>c. length c = 32) cs" "length cs = k" "k \<le> 65536" "0 < k"
    and hs: "distinct hs" "length hs = k" "indices_ok hs"
    and d: "dec_needed d = int k" "dec_held d = map (\<lambda>i. (i, word_at cs i)) hs"
  shows "dec_value d = Inr (Some (take (nat (dec_size d)) (concat cs)))"
proof -
  have fst: "map fst (dec_held d) = hs" by (simp add: d(2) comp_def)
  have dict: "dict_of (dec_held d) = dec_held d" using hs(1) by (intro dict_of_distinct) (simp add: fst)
  have get: "dict_get (dec_held d) i = (if i \<in> set hs then Some (word_at cs i) else None)" for i
    by (simp add: d(2) dict_get_def map_of_map_restrict restrict_map_def)
  have rep: "map Rep_gf (map gf_of_int hs) = hs"
    using hs(3) by (auto simp: indices_ok_def list_all_iff Rep_gf_of_int in_gf_index intro!: map_idI)
  have dist: "distinct (map gf_of_int hs)"
    using hs(1) rep by (metis distinct_map)
  have mapR_snd: "mapR (\<lambda>(_, c). chunk_elements c) (map (\<lambda>i. (i, word_at cs i)) is) =
      mapR chunk_elements (map (word_at cs) is)" for "is"
    by (induction "is") simp_all
  have row: "bindR (mapR (\<lambda>(_, c). chunk_elements c) (dec_held d)) (\<lambda>els.
      bindR (inv_denominators hs) (\<lambda>inv_den. bindR (basis_at hs inv_den (int t)) (combine_els els))) =
      Inr (cs ! t)" if "t < k" for t
  proof -
    have t: "Rep_gf (gf_of_int (int t)) = int t" using that cs(3) by (simp add: Rep_gf_of_int in_gf_def)
    have "list_all (\<lambda>c. length c = 32) (map (word_at cs) hs)" by (simp add: list_all_iff)
    from interpolate_row [OF dist _ this, of "gf_of_int (int t)"] show ?thesis
      unfolding d(2) mapR_snd rep t rebuild_chunk [OF cs(1-3) that hs] by simp
  qed
  have word: "word_at cs (int t) = cs ! t" if "t < k" for t
  proof -
    have "length (cs ! t) = 32" using that cs by (simp add: list_all_length)
    then show ?thesis using row_at_node [of cs k t] that cs by (simp add: word_at_def)
  qed
  let ?f = "\<lambda>t. case dict_get (dec_held d) (int t) of
      Some c \<Rightarrow> Inr c
    | None \<Rightarrow> bindR (mapR (\<lambda>(_, c). chunk_elements c) (dec_held d)) (\<lambda>els.
        bindR (inv_denominators hs) (\<lambda>inv_den. bindR (basis_at hs inv_den (int t)) (combine_els els)))"
  have "mapR ?f [0..<k] = Inr (map ((!) cs) [0..<k])"
    by (rule mapR_total) (simp add: get row word)
  also have "map ((!) cs) [0..<k] = cs" using cs(2) map_nth [of cs] by simp
  finally show ?thesis
    using cs(4) hs(2) by (simp add: dec_value_def dec_complete_def d(1) fst dict) (simp add: d(2))
qed

text \<open>Feeding a decoder a list of codewords.\<close>

definition dec_feed :: "(int \<times> bytes) list \<Rightarrow> decoder \<Rightarrow> decoder res" where
  "dec_feed cws d = foldR (\<lambda>(i, c) d. bindR (dec_receive d i c) (\<lambda>(d, _). Inr d)) cws d"

text \<open>The indices a decoder that needs \<open>k\<close> keeps: first copies, and at most \<open>k\<close> of them.\<close>

definition kept_indices :: "nat \<Rightarrow> int list \<Rightarrow> int list" where
  "kept_indices k is = fold (\<lambda>i hs. if k \<le> length hs \<or> i \<in> set hs then hs else hs @ [i]) is []"

lemma kept_indices_snoc:
  "kept_indices k (is @ [i]) =
     (let hs = kept_indices k is in if k \<le> length hs \<or> i \<in> set hs then hs else hs @ [i])"
  by (simp add: kept_indices_def Let_def)

lemma kept_indices:
  "distinct (kept_indices k is)" "set (kept_indices k is) \<subseteq> set is"
  "length (kept_indices k is) = min k (card (set is))"
  "length (kept_indices k is) < k \<Longrightarrow> set (kept_indices k is) = set is"
proof (induction "is" rule: rev_induct)
  case Nil
  {
    case 1
    show ?case by (simp add: kept_indices_def)
  next
    case 2
    show ?case by (simp add: kept_indices_def)
  next
    case 3
    show ?case by (simp add: kept_indices_def)
  next
    case 4
    show ?case by (simp add: kept_indices_def)
  }
next
  case (snoc i "is")
  let ?hs = "kept_indices k is"
  have card: "card (set (is @ [i])) = (if i \<in> set is then card (set is) else Suc (card (set is)))"
    by (simp add: insert_absorb)
  {
    case 1
    show ?case using snoc.IH(1) by (simp add: kept_indices_snoc Let_def)
  next
    case 2
    show ?case using snoc.IH(2) by (auto simp: kept_indices_snoc Let_def)
  next
    case 3
    show ?case
    proof (cases "k \<le> length ?hs")
      case True
      then show ?thesis using snoc.IH(3) card by (simp add: kept_indices_snoc)
    next
      case False
      then have "set ?hs = set is" using snoc.IH(4) by simp
      then show ?thesis using snoc.IH(3) card False by (simp add: kept_indices_snoc)
    qed
  next
    case 4
    then show ?case using snoc.IH(4) by (auto simp: kept_indices_snoc Let_def split: if_splits)
  }
qed

lemma dec_feed_eq:
  assumes d: "dec_held d = []" "dec_needed d = int k" and ok: "indices_ok is"
  shows "dec_feed (map (\<lambda>i. (i, word_at cs i)) is) d =
     Inr (d\<lparr> dec_held := map (\<lambda>i. (i, word_at cs i)) (kept_indices k is) \<rparr>)"
  using ok
proof (induction "is" rule: rev_induct)
  case Nil
  then show ?case using d(1) by (cases d) (simp add: dec_feed_def kept_indices_def)
next
  case (snoc i "is")
  let ?hs = "kept_indices k is"
  let ?d = "d\<lparr> dec_held := map (\<lambda>i. (i, word_at cs i)) ?hs \<rparr>"
  have "indices_ok is" "0 \<le> i" "i \<le> U16_MAX" using snoc.prems by (simp_all add: indices_ok_def)
  moreover have "map fst (dec_held ?d) = ?hs" by (simp add: comp_def)
  ultimately show ?case
    using snoc.IH d(2)
    by (auto simp: dec_feed_def foldR_append dec_receive_def kept_indices_snoc Let_def)
qed

text \<open>Sending a value: cut it up, issue the codewords at the given indices, feed them to a decoder.\<close>

definition transmit :: "bytes \<Rightarrow> int list \<Rightarrow> bytes option res" where
  "transmit v is =
     bindR (encoder_for_value v) (\<lambda>e.
     bindR (mapR (\<lambda>i. bindR (codeword e i) (\<lambda>c. Inr (i, c))) is) (\<lambda>cws.
     bindR (new_decoder (int (length v)) []) (\<lambda>d.
     bindR (dec_feed cws d) dec_value)))"

lemma transmit_eq:
  assumes small: "int (length v) \<le> ERASURE_MAX_SIZE" and ok: "indices_ok is"
  shows "transmit v is =
     Inr (if chunk_count (int (length v)) \<le> int (card (set is)) then Some v else None)"
proof -
  let ?n = "int (length v)" and ?k = "nat (chunk_count (int (length v)))" and ?cs = "to_chunks v"
  note bounds = chunk_count_bounds [of ?n]
  note cs = to_chunks_props [of v]
  have k: "?k \<le> 65536" using bounds small by simp
  have enc: "encoder_for_value v = Inr \<lparr> enc_chunks = ?cs, enc_next = 0, enc_exhausted = False \<rparr>"
    using cs(1,2) k bounds(1) by (auto simp: encoder_for_value_def new_encoder_def const_defs list_all_iff)
  have "encoder_ok \<lparr> enc_chunks = ?cs, enc_next = 0, enc_exhausted = False \<rparr>"
    using cs(1,2) k by (simp add: encoder_ok_def)
  then have cws: "mapR (\<lambda>i. bindR (codeword \<lparr> enc_chunks = ?cs, enc_next = 0, enc_exhausted = False \<rparr> i)
      (\<lambda>c. Inr (i, c))) is = Inr (map (\<lambda>i. (i, word_at ?cs i)) is)"
    using ok by (intro mapR_total) (simp add: codeword_eq word_at_def indices_ok_def list_all_iff)
  let ?d = "\<lparr> dec_size = ?n, dec_needed = chunk_count ?n, dec_held = [] \<rparr>"
  let ?hs = "kept_indices ?k is"
  let ?d' = "?d\<lparr> dec_held := map (\<lambda>i. (i, word_at ?cs i)) ?hs \<rparr>"
  have feed: "dec_feed (map (\<lambda>i. (i, word_at ?cs i)) is) ?d = Inr ?d'"
    using bounds ok by (intro dec_feed_eq) simp_all
  have "new_decoder ?n [] = Inr ?d" by (simp add: new_decoder_def)
  then have "transmit v is = dec_value ?d'"
    by (simp only: transmit_def enc cws feed bindR_simps)
  also have "dec_value ?d' = Inr (if chunk_count ?n \<le> int (card (set is)) then Some v else None)"
  proof (cases "chunk_count ?n \<le> int (card (set is))")
    case True
    then have len: "length ?hs = ?k" by (simp add: kept_indices(3))
    show ?thesis
    proof (cases "?k = 0")
      case True
      then have "chunk_count ?n = 0" "v = []" using bounds by simp_all
      then show ?thesis by (simp add: dec_value_def)
    next
      case False
      have "indices_ok ?hs" using ok kept_indices(2) [of ?k "is"] by (auto simp: indices_ok_def list_all_iff)
      then have "dec_value ?d' = Inr (Some (take (nat (dec_size ?d')) (concat ?cs)))"
        using cs(1,2) k False len kept_indices(1) bounds by (intro dec_value_eq [where k = ?k and hs = ?hs]) simp_all
      then show ?thesis using True cs(3) by simp
    qed
  next
    case False
    then show ?thesis using bounds by (simp add: dec_value_def dec_complete_def kept_indices(3))
  qed
  finally show ?thesis .
qed

section \<open>Encoder and decoder lifetimes\<close>

text \<open>What the decoder's state always satisfies, and that every offer keeps it.\<close>

definition decoder_ok :: "decoder \<Rightarrow> bool" where
  "decoder_ok d \<longleftrightarrow> 0 \<le> dec_size d \<and> dec_needed d = chunk_count (dec_size d)
     \<and> int (length (dec_held d)) \<le> dec_needed d \<and> distinct (map fst (dec_held d))
     \<and> list_all (\<lambda>(i, c). 0 \<le> i \<and> i \<le> U16_MAX \<and> length c = 32) (dec_held d)"

lemma new_decoder_ok: "new_decoder n [] = Inr d \<Longrightarrow> decoder_ok d"
  using chunk_count_bounds(1) [of n] by (auto simp: new_decoder_def decoder_ok_def split: if_splits)

lemma dec_receive_ok: "decoder_ok d \<Longrightarrow> dec_receive d i c = Inr (d', b) \<Longrightarrow> decoder_ok d'"
  by (auto simp: decoder_ok_def dec_receive_def list_all_iff split: if_splits)

text \<open>A complete decoder ignores everything, and a held index keeps its first codeword.\<close>

lemma dec_receive_keeps:
  assumes "dec_receive d i c = Inr (d', kept)" "(j, w) \<in> set (dec_held d)"
  shows "(j, w) \<in> set (dec_held d') \<and> (i = j \<longrightarrow> \<not> kept \<and> d' = d) \<and> (dec_complete d \<longrightarrow> \<not> kept \<and> d' = d)"
  using assms by (force simp: dec_receive_def dec_complete_def split: if_splits)

text \<open>An encoder issues 0, 1, 2, ... up to 65,535 and then nothing more.\<close>

fun issue_many :: "nat \<Rightarrow> encoder \<Rightarrow> (int \<times> bytes) list res" where
  "issue_many 0 e = Inr []"
| "issue_many (Suc n) e =
     bindR (issue e) (\<lambda>(e, r).
       case r of None \<Rightarrow> Inr [] | Some cw \<Rightarrow> bindR (issue_many n e) (\<lambda>cws. Inr (cw # cws)))"

lemma issue_many_eq:
  assumes "encoder_ok e" "\<not> enc_exhausted e" "0 \<le> enc_next e" "enc_next e \<le> U16_MAX"
  shows "issue_many n e =
     Inr (map (\<lambda>i. (i, word_at (enc_chunks e) i)) [enc_next e..min (enc_next e + int n - 1) U16_MAX])"
  using assms
proof (induction n arbitrary: e)
  case (Suc n)
  let ?i = "enc_next e" and ?w = "\<lambda>i. (i, word_at (enc_chunks e) i)"
  have cw: "codeword e ?i = Inr (word_at (enc_chunks e) ?i)"
    using Suc.prems by (simp add: codeword_eq word_at_def)
  have cons: "[?i..min (?i + int (Suc n) - 1) U16_MAX] = ?i # [?i + 1..min (?i + int (Suc n) - 1) U16_MAX]"
    using Suc.prems by (intro upto_rec1) simp
  show ?case
  proof (cases "?i = U16_MAX")
    case True
    have "issue_many n (e\<lparr> enc_exhausted := True \<rparr>) = Inr []"
      by (cases n) (simp_all add: issue_def)
    then show ?thesis using True Suc.prems cw cons by (simp add: issue_def)
  next
    case False
    have "issue_many n (e\<lparr> enc_next := ?i + 1 \<rparr>) =
        Inr (map ?w [?i + 1..min (?i + 1 + int n - 1) U16_MAX])"
      using Suc.IH [of "e\<lparr> enc_next := ?i + 1 \<rparr>"] Suc.prems False by (simp add: encoder_ok_def)
    then show ?thesis using False Suc.prems cw cons by (simp add: issue_def Let_def)
  qed
qed simp

lemma encoder_for_value_ok:
  "\<exists>e. encoder_for_value v = Inr e \<and> encoder_ok e \<and> \<not> enc_exhausted e \<and> enc_next e = 0"
  using to_chunks_props(2) [of v]
  by (auto simp: encoder_for_value_def new_encoder_def encoder_ok_def const_defs list_all_iff dest: in_set_takeD)

end
