(* ===== verification/Aes.thy ===== *)
theory Aes
  imports Constants XorLinear
begin

text \<open>
  AES-256 and CBC mode (\<open>tacenta_reader/aes.py\<close>).  Table entries are Python ints below 256; a cipher
  state is a list of such ints, modelled as bytes.  The lemmas show that the substitution tables invert
  each other, that the inverse cipher inverts the cipher, and that CBC decryption and CBC encryption are
  inverse to each other.
\<close>

unbundle bit_operations_syntax

section \<open>The field GF(2^8)\<close>

definition NK :: nat where [simp]: "NK = 8"
definition NR :: nat where [simp]: "NR = 14"

definition xtime :: "int \<Rightarrow> int" where
  "xtime a = (let a = push_bit 1 a in if bit a 8 then a XOR 0x11B else a)"

function aes_gmul_loop :: "int \<Rightarrow> nat \<Rightarrow> int \<Rightarrow> int" where
  "aes_gmul_loop a b r =
     (if b = 0 then r
      else aes_gmul_loop (xtime a) (drop_bit 1 b) (if bit b 0 then r XOR a else r))"
  by pat_completeness auto
termination
  by (relation "measure (\<lambda>(a, b, r). b)") (auto simp: drop_bit_Suc)

declare aes_gmul_loop.simps [simp del]

definition aes_gmul :: "int \<Rightarrow> nat \<Rightarrow> int" where
  "aes_gmul a b = aes_gmul_loop a b 0"

definition rotl8 :: "int \<Rightarrow> nat \<Rightarrow> int" where
  "rotl8 x s = (push_bit s x OR drop_bit (8 - s) x) AND 0xFF"

section \<open>The substitution tables\<close>

definition exp_log_step :: "nat \<Rightarrow> int list \<times> int list \<times> int \<Rightarrow> int list \<times> int list \<times> int" where
  "exp_log_step i = (\<lambda>(exp, log, x). (exp[i := x], log[nat x := int i], aes_gmul x 3))"

definition sbox_affine :: "int \<Rightarrow> int" where
  "sbox_affine b = b XOR rotl8 b 1 XOR rotl8 b 2 XOR rotl8 b 3 XOR rotl8 b 4 XOR 0x63"

definition sbox_entry :: "int list \<Rightarrow> int list \<Rightarrow> nat \<Rightarrow> int" where
  "sbox_entry exp log a =
     (let b = (if a = 0 then 0 else exp ! nat ((255 - log ! a) mod 255)) in sbox_affine b)"

definition make_sbox :: "int list \<times> int list" where
  "make_sbox =
     (let (exp, log, _) = fold exp_log_step [0..<255] (replicate 255 0, replicate 256 0, 1);
          sbox = map (sbox_entry exp log) [0..<256];
          inv = fold (\<lambda>(a, s) inv. inv[nat s := int a]) (enumerate 0 sbox) (replicate 256 0)
      in (sbox, inv))"

definition SBOX :: "int list" where "SBOX = fst make_sbox"
definition INV_SBOX :: "int list" where "INV_SBOX = snd make_sbox"

definition sub_byte :: "byte \<Rightarrow> byte" where
  "sub_byte b = word_of_int (SBOX ! unat b)"

definition inv_sub_byte :: "byte \<Rightarrow> byte" where
  "inv_sub_byte b = word_of_int (INV_SBOX ! unat b)"

text \<open>The six multiplication tables \<open>_M2\<close> .. \<open>_M14\<close>, as byte functions.\<close>

definition M_table :: "nat \<Rightarrow> int list" where
  "M_table c = map (\<lambda>a. aes_gmul (int a) c) [0..<256]"

definition M_byte :: "nat \<Rightarrow> byte \<Rightarrow> byte" where
  "M_byte c b = word_of_int (M_table c ! unat b)"

section \<open>The cipher\<close>

definition xor_bytes :: "bytes \<Rightarrow> bytes \<Rightarrow> bytes" where
  "xor_bytes a b = map (\<lambda>(x, y). x XOR y) (zip a b)"

text \<open>One round of \<open>KeyExpansion\<close>: the words so far, and the round constant.\<close>

definition expand_step :: "nat \<Rightarrow> bytes list \<times> int \<Rightarrow> bytes list \<times> int" where
  "expand_step i = (\<lambda>(w, rcon).
     let t = w ! (i - 1);
         (t, rcon) =
           (if i mod NK = 0
            then (let t = map sub_byte (tl t @ take 1 t)
                  in (t[0 := t ! 0 XOR word_of_int rcon], xtime rcon))
            else if i mod NK = 4 then (map sub_byte t, rcon)
            else (t, rcon))
     in (w @ [map (\<lambda>j. w ! (i - NK) ! j XOR t ! j) [0..<4]], rcon))"

definition expand_key :: "bytes \<Rightarrow> bytes list res" where
  "expand_key key =
     (if length key \<noteq> 32 then Inl (PyE ValueError)
      else
        (let w0 = map (\<lambda>i. take 4 (drop (4 * i) key)) [0..<NK];
             (w, _) = fold expand_step [NK..<4 * (NR + 1)] (w0, 1)
         in Inr (map (\<lambda>r. concat (take 4 (drop (4 * r) w))) [0..<NR + 1])))"

text \<open>The state is flat in input order: index \<open>r + 4c\<close> is row \<open>r\<close>, column \<open>c\<close>.\<close>

definition SHIFT :: "nat list" where
  "SHIFT = map (\<lambda>i. i mod 4 + 4 * ((i div 4 + i mod 4) mod 4)) [0..<16]"

definition INV_SHIFT :: "nat list" where
  "INV_SHIFT = map (\<lambda>i. i mod 4 + 4 * nat ((int (i div 4) - int (i mod 4)) mod 4)) [0..<16]"

definition mix_column :: "byte \<Rightarrow> byte \<Rightarrow> byte \<Rightarrow> byte \<Rightarrow> bytes" where
  "mix_column a0 a1 a2 a3 =
     [M_byte 2 a0 XOR M_byte 3 a1 XOR a2 XOR a3,
      a0 XOR M_byte 2 a1 XOR M_byte 3 a2 XOR a3,
      a0 XOR a1 XOR M_byte 2 a2 XOR M_byte 3 a3,
      M_byte 3 a0 XOR a1 XOR a2 XOR M_byte 2 a3]"

definition inv_mix_column :: "byte \<Rightarrow> byte \<Rightarrow> byte \<Rightarrow> byte \<Rightarrow> bytes" where
  "inv_mix_column a0 a1 a2 a3 =
     [M_byte 14 a0 XOR M_byte 11 a1 XOR M_byte 13 a2 XOR M_byte 9 a3,
      M_byte 9 a0 XOR M_byte 14 a1 XOR M_byte 11 a2 XOR M_byte 13 a3,
      M_byte 13 a0 XOR M_byte 9 a1 XOR M_byte 14 a2 XOR M_byte 11 a3,
      M_byte 11 a0 XOR M_byte 13 a1 XOR M_byte 9 a2 XOR M_byte 14 a3]"

definition mix :: "bytes \<Rightarrow> bytes" where
  "mix s = concat (map (\<lambda>c. mix_column (s ! (4 * c)) (s ! (4 * c + 1)) (s ! (4 * c + 2)) (s ! (4 * c + 3))) [0..<4])"

definition inv_mix :: "bytes \<Rightarrow> bytes" where
  "inv_mix s =
     concat (map (\<lambda>c. inv_mix_column (s ! (4 * c)) (s ! (4 * c + 1)) (s ! (4 * c + 2)) (s ! (4 * c + 3))) [0..<4])"

definition enc_round :: "bytes list \<Rightarrow> nat \<Rightarrow> bytes \<Rightarrow> bytes" where
  "enc_round rks r s =
     (let s = map sub_byte s;
          s = map (\<lambda>i. s ! (SHIFT ! i)) [0..<16];
          s = (if r \<noteq> NR then mix s else s)
      in xor_bytes s (rks ! r))"

definition encrypt_block :: "bytes list \<Rightarrow> bytes \<Rightarrow> bytes" where
  "encrypt_block rks block = fold (enc_round rks) [1..<NR + 1] (xor_bytes block (rks ! 0))"

definition dec_round :: "bytes list \<Rightarrow> nat \<Rightarrow> bytes \<Rightarrow> bytes" where
  "dec_round rks r s =
     (let s = map (\<lambda>i. s ! (INV_SHIFT ! i)) [0..<16];
          s = map inv_sub_byte s;
          s = xor_bytes s (rks ! r)
      in if r \<noteq> 0 then inv_mix s else s)"

definition decrypt_block :: "bytes list \<Rightarrow> bytes \<Rightarrow> bytes" where
  "decrypt_block rks block = fold (dec_round rks) (rev [0..<NR]) (xor_bytes block (rks ! NR))"

section \<open>CBC\<close>

text \<open>The two chaining loops, over any block function.\<close>

fun cbc_enc_loop :: "(bytes \<Rightarrow> bytes) \<Rightarrow> bytes \<Rightarrow> bytes list \<Rightarrow> bytes" where
  "cbc_enc_loop E prev [] = []"
| "cbc_enc_loop E prev (b # bs) = (let c = E (xor_bytes b prev) in c @ cbc_enc_loop E c bs)"

fun cbc_dec_loop :: "(bytes \<Rightarrow> bytes) \<Rightarrow> bytes \<Rightarrow> bytes list \<Rightarrow> bytes" where
  "cbc_dec_loop D prev [] = []"
| "cbc_dec_loop D prev (b # bs) = xor_bytes (D b) prev @ cbc_dec_loop D b bs"

definition cbc_encrypt :: "bytes \<Rightarrow> bytes \<Rightarrow> bytes \<Rightarrow> bytes res" where
  "cbc_encrypt key iv data =
     (if int (length iv) \<noteq> AES_BLOCK \<or> int (length data) mod AES_BLOCK \<noteq> 0 then Inl (PyE ValueError)
      else bindR (expand_key key) (\<lambda>rks. Inr (cbc_enc_loop (encrypt_block rks) iv (blocks_of 16 data))))"

definition cbc_decrypt :: "bytes \<Rightarrow> bytes \<Rightarrow> bytes \<Rightarrow> bytes res" where
  "cbc_decrypt key iv data =
     (if int (length iv) \<noteq> AES_BLOCK \<or> int (length data) mod AES_BLOCK \<noteq> 0 then Inl (PyE ValueError)
      else bindR (expand_key key) (\<lambda>rks. Inr (cbc_dec_loop (decrypt_block rks) iv (blocks_of 16 data))))"

section \<open>The substitution tables are inverse\<close>

lemma aes_gmul_small:
  "aes_gmul a 2 = xtime a"
  "aes_gmul a 3 = a XOR xtime a"
  "aes_gmul a 9 = a XOR xtime (xtime (xtime a))"
  "aes_gmul a 11 = (a XOR xtime a) XOR xtime (xtime (xtime a))"
  "aes_gmul a 13 = (a XOR xtime (xtime a)) XOR xtime (xtime (xtime a))"
  "aes_gmul a 14 = (xtime a XOR xtime (xtime a)) XOR xtime (xtime (xtime a))"
  by (simp_all add: aes_gmul_def aes_gmul_loop.simps drop_bit_Suc bit_0)

text \<open>The powers of the generator 3, and the affine map on every byte, evaluated.\<close>

definition powers_3 :: "int list" where
  "powers_3 =
     [1, 3, 5, 15, 17, 51, 85, 255, 26, 46, 114, 150, 161, 248, 19, 53, 95, 225, 56, 72, 216,
     115, 149, 164, 247, 2, 6, 10, 30, 34, 102, 170, 229, 52, 92, 228, 55, 89, 235, 38, 106, 190,
     217, 112, 144, 171, 230, 49, 83, 245, 4, 12, 20, 60, 68, 204, 79, 209, 104, 184, 211, 110,
     178, 205, 76, 212, 103, 169, 224, 59, 77, 215, 98, 166, 241, 8, 24, 40, 120, 136, 131, 158,
     185, 208, 107, 189, 220, 127, 129, 152, 179, 206, 73, 219, 118, 154, 181, 196, 87, 249, 16,
     48, 80, 240, 11, 29, 39, 105, 187, 214, 97, 163, 254, 25, 43, 125, 135, 146, 173, 236, 47,
     113, 147, 174, 233, 32, 96, 160, 251, 22, 58, 78, 210, 109, 183, 194, 93, 231, 50, 86, 250,
     21, 63, 65, 195, 94, 226, 61, 71, 201, 64, 192, 91, 237, 44, 116, 156, 191, 218, 117, 159,
     186, 213, 100, 172, 239, 42, 126, 130, 157, 188, 223, 122, 142, 137, 128, 155, 182, 193, 88,
     232, 35, 101, 175, 234, 37, 111, 177, 200, 67, 197, 84, 252, 31, 33, 99, 165, 244, 7, 9, 27,
     45, 119, 153, 176, 203, 70, 202, 69, 207, 74, 222, 121, 139, 134, 145, 168, 227, 62, 66,
     198, 81, 243, 14, 18, 54, 90, 238, 41, 123, 141, 140, 143, 138, 133, 148, 167, 242, 13, 23,
     57, 75, 221, 124, 132, 151, 162, 253, 28, 36, 108, 180, 199, 82, 246]"

definition affine_values :: "int list" where
  "affine_values =
     [99, 124, 93, 66, 31, 0, 33, 62, 155, 132, 165, 186, 231, 248, 217, 198, 146, 141, 172, 179,
     238, 241, 208, 207, 106, 117, 84, 75, 22, 9, 40, 55, 128, 159, 190, 161, 252, 227, 194, 221,
     120, 103, 70, 89, 4, 27, 58, 37, 113, 110, 79, 80, 13, 18, 51, 44, 137, 150, 183, 168, 245,
     234, 203, 212, 164, 187, 154, 133, 216, 199, 230, 249, 92, 67, 98, 125, 32, 63, 30, 1, 85,
     74, 107, 116, 41, 54, 23, 8, 173, 178, 147, 140, 209, 206, 239, 240, 71, 88, 121, 102, 59,
     36, 5, 26, 191, 160, 129, 158, 195, 220, 253, 226, 182, 169, 136, 151, 202, 213, 244, 235,
     78, 81, 112, 111, 50, 45, 12, 19, 236, 243, 210, 205, 144, 143, 174, 177, 20, 11, 42, 53,
     104, 119, 86, 73, 29, 2, 35, 60, 97, 126, 95, 64, 229, 250, 219, 196, 153, 134, 167, 184,
     15, 16, 49, 46, 115, 108, 77, 82, 247, 232, 201, 214, 139, 148, 181, 170, 254, 225, 192,
     223, 130, 157, 188, 163, 6, 25, 56, 39, 122, 101, 68, 91, 43, 52, 21, 10, 87, 72, 105, 118,
     211, 204, 237, 242, 175, 176, 145, 142, 218, 197, 228, 251, 166, 185, 152, 135, 34, 61, 28,
     3, 94, 65, 96, 127, 200, 215, 246, 233, 180, 171, 138, 149, 48, 47, 14, 17, 76, 83, 114,
     109, 57, 38, 7, 24, 69, 90, 123, 100, 193, 222, 255, 224, 189, 162, 131, 156]"

lemma powers_3_step: "map (\<lambda>x. aes_gmul x 3) (butlast powers_3) = tl powers_3"
  by (simp add: powers_3_def) (simp add: aes_gmul_small xtime_def)

lemma affine_values: "map sbox_affine [0..255] = affine_values"
  by (simp add: affine_values_def upto_rec1) (simp add: sbox_affine_def rotl8_def)

lemma powers_3_distinct: "distinct powers_3"
  by (simp add: powers_3_def)

lemma affine_values_distinct: "distinct affine_values"
  by (simp add: affine_values_def)

lemma powers_3_range: "list_all (\<lambda>x. 0 < x \<and> x < 256) powers_3"
  by (simp add: powers_3_def)

lemma affine_values_range: "list_all (\<lambda>x. 0 \<le> x \<and> x < 256) affine_values"
  by (simp add: affine_values_def)

lemma length_powers_3 [simp]: "length powers_3 = 255"
  by (simp add: powers_3_def)

lemma powers_3_nth:
  "powers_3 ! 0 = 1" "Suc i < 255 \<Longrightarrow> powers_3 ! Suc i = aes_gmul (powers_3 ! i) 3"
proof -
  show "powers_3 ! 0 = 1" by (simp add: powers_3_def)
  assume i: "Suc i < 255"
  then have "map (\<lambda>x. aes_gmul x 3) (butlast powers_3) ! i = aes_gmul (powers_3 ! i) 3"
    by (simp add: nth_butlast)
  moreover have "tl powers_3 ! i = powers_3 ! Suc i" using i by (simp add: nth_tl)
  ultimately show "powers_3 ! Suc i = aes_gmul (powers_3 ! i) 3" by (simp only: powers_3_step)
qed

lemma powers_3_bounds: "i < 255 \<Longrightarrow> 0 < powers_3 ! i \<and> powers_3 ! i < 256"
  using powers_3_range by (simp add: list_all_length)

lemma powers_3_nat: "i < 255 \<Longrightarrow> nat (powers_3 ! i) < 256"
  using powers_3_bounds [of i] by (simp add: nat_less_iff)

lemma powers_3_inj: "i < 255 \<Longrightarrow> j < 255 \<Longrightarrow> powers_3 ! i = powers_3 ! j \<longleftrightarrow> i = j"
  using powers_3_distinct by (simp add: nth_eq_iff_index_eq)

lemma powers_3_eq_nat:
  "i < 255 \<Longrightarrow> j < 255 \<Longrightarrow> nat (powers_3 ! i) = nat (powers_3 ! j) \<longleftrightarrow> i = j"
  using powers_3_inj [of i j] powers_3_bounds [of i] powers_3_bounds [of j] by (simp add: eq_nat_nat_iff)

text \<open>After \<open>n\<close> rounds the two tables hold the first \<open>n\<close> powers.\<close>

lemma exp_log_fold:
  "n \<le> 255 \<Longrightarrow> \<exists>exp log x. fold exp_log_step [0..<n] (replicate 255 0, replicate 256 0, 1) = (exp, log, x)
     \<and> length exp = 255 \<and> length log = 256 \<and> (n < 255 \<longrightarrow> x = powers_3 ! n)
     \<and> (\<forall>i < n. exp ! i = powers_3 ! i \<and> log ! nat (powers_3 ! i) = int i)"
proof (induction n)
  case 0
  then show ?case by (simp add: powers_3_nth)
next
  case (Suc n)
  then obtain exp log x where IH: "fold exp_log_step [0..<n] (replicate 255 0, replicate 256 0, 1) = (exp, log, x)"
    "length exp = 255" "length log = 256" "x = powers_3 ! n"
    and hold: "\<And>i. i < n \<Longrightarrow> exp ! i = powers_3 ! i \<and> log ! nat (powers_3 ! i) = int i"
    by auto
  let ?exp = "exp[n := powers_3 ! n]" and ?log = "log[nat (powers_3 ! n) := int n]"
  have "fold exp_log_step [0..<Suc n] (replicate 255 0, replicate 256 0, 1) = (?exp, ?log, aes_gmul (powers_3 ! n) 3)"
    using IH(1,4) by (simp add: exp_log_step_def)
  moreover have "?exp ! i = powers_3 ! i \<and> ?log ! nat (powers_3 ! i) = int i" if "i < Suc n" for i
  proof (cases "i = n")
    case True
    then show ?thesis using IH Suc.prems powers_3_nat [of n] by simp
  next
    case False
    then have i: "i < n" "i < 255" "n < 255" using that Suc.prems by simp_all
    then have "nat (powers_3 ! n) \<noteq> nat (powers_3 ! i)" by (simp add: powers_3_eq_nat)
    then show ?thesis using hold [OF i(1)] i by (simp add: nth_list_update_neq)
  qed
  moreover have "Suc n < 255 \<Longrightarrow> aes_gmul (powers_3 ! n) 3 = powers_3 ! Suc n" by (simp add: powers_3_nth)
  ultimately show ?case using IH(2,3) by auto
qed

lemma powers_3_onto:
  assumes "0 < a" "a < 256" shows "\<exists>i < 255. a = powers_3 ! i"
proof -
  have "set powers_3 = {1..255}"
  proof (rule card_subset_eq)
    show "set powers_3 \<subseteq> {1..255}" using powers_3_range by (auto simp: list_all_iff)
    show "card (set powers_3) = card {1..255 :: int}" using distinct_card [OF powers_3_distinct] by simp
  qed simp
  then have "a \<in> set powers_3" using assms by auto
  then show ?thesis by (auto simp: in_set_conv_nth)
qed

lemma powers_3_onto_nat: "a \<noteq> 0 \<Longrightarrow> a < 256 \<Longrightarrow> \<exists>i < 255. a = nat (powers_3 ! i)"
proof -
  assume "a \<noteq> 0" "a < 256"
  then have "0 < int a" "int a < 256" by simp_all
  then obtain i where "i < 255" "int a = powers_3 ! i" using powers_3_onto by blast
  then show ?thesis by (intro exI [of _ i]) (simp add: nat_eq_iff)
qed

definition binv :: "nat \<Rightarrow> int" where
  "binv a = (if a = 0 then 0 else powers_3 ! nat ((255 - int (SOME i. i < 255 \<and> int a = powers_3 ! i)) mod 255))"

lemma binv_power: "i < 255 \<Longrightarrow> binv (nat (powers_3 ! i)) = powers_3 ! nat ((255 - int i) mod 255)"
proof -
  assume i: "i < 255"
  have "(SOME j. j < 255 \<and> int (nat (powers_3 ! i)) = powers_3 ! j) = i"
    using i powers_3_bounds [OF i] powers_3_inj by (intro some_equality) auto
  then show ?thesis using powers_3_bounds [OF i] by (simp add: binv_def)
qed

lemma SBOX_eq: "SBOX = map (\<lambda>a. sbox_affine (binv a)) [0..<256]"
  and INV_SBOX_fold: "INV_SBOX = fold (\<lambda>(a, s) inv. inv[nat s := int a]) (enumerate 0 SBOX) (replicate 256 0)"
proof -
  obtain exp log x where t: "fold exp_log_step [0..<255] (replicate 255 0, replicate 256 0, 1) = (exp, log, x)"
    and hold: "\<And>i. i < 255 \<Longrightarrow> exp ! i = powers_3 ! i \<and> log ! nat (powers_3 ! i) = int i"
    using exp_log_fold [of 255] by auto
  have "sbox_entry exp log a = sbox_affine (binv a)" if lt: "a < 256" for a
  proof (cases "a = 0")
    case False
    then obtain i where i: "i < 255" and a: "a = nat (powers_3 ! i)"
      using powers_3_onto_nat [OF False lt] by blast
    have "nat ((255 - int i) mod 255) < 255" by simp
    then show ?thesis
      using False hold [OF i] hold [of "nat ((255 - int i) mod 255)"] binv_power [OF i]
      by (simp add: sbox_entry_def flip: a)
  qed (simp add: sbox_entry_def binv_def)
  then have box: "map (sbox_entry exp log) [0..<256] = map (\<lambda>a. sbox_affine (binv a)) [0..<256]"
    by (intro map_cong) auto
  show sb: "SBOX = map (\<lambda>a. sbox_affine (binv a)) [0..<256]"
    unfolding SBOX_def make_sbox_def t Let_def by (simp only: case_prod_conv fst_conv box)
  show "INV_SBOX = fold (\<lambda>(a, s) inv. inv[nat s := int a]) (enumerate 0 SBOX) (replicate 256 0)"
    unfolding INV_SBOX_def sb unfolding make_sbox_def t Let_def by (simp only: case_prod_conv snd_conv box)
qed

lemma binv_bounds: "a < 256 \<Longrightarrow> 0 \<le> binv a \<and> binv a < 256"
proof (cases "a = 0")
  case False
  assume "a < 256"
  then obtain i where i: "i < 255" and a: "a = nat (powers_3 ! i)"
    using powers_3_onto_nat [OF False] by blast
  have "nat ((255 - int i) mod 255) < 255" by simp
  from powers_3_bounds [OF this] show ?thesis unfolding a binv_power [OF i] by simp
qed (simp add: binv_def)

lemma nat_binv: "a < 256 \<Longrightarrow> nat (binv a) < 256"
  using binv_bounds [of a] by (simp add: nat_less_iff)

lemma binv_inj:
  assumes "a < 256" "b < 256" "binv a = binv b" shows "a = b"
proof -
  have zero: "binv c \<noteq> 0" if c0: "c \<noteq> 0" "c < 256" for c
  proof -
    obtain i where i: "i < 255" and c: "c = nat (powers_3 ! i)"
      using powers_3_onto_nat [OF c0] by blast
    have "nat ((255 - int i) mod 255) < 255" by simp
    from powers_3_bounds [OF this] show ?thesis unfolding c binv_power [OF i] by simp
  qed
  show ?thesis
  proof (cases "a = 0 \<or> b = 0")
    case True
    then show ?thesis using zero assms by (metis binv_def)
  next
    case False
    then obtain i j where ij: "i < 255" "j < 255" and ab: "a = nat (powers_3 ! i)" "b = nat (powers_3 ! j)"
      using powers_3_onto_nat assms by meson
    have "powers_3 ! nat ((255 - int i) mod 255) = powers_3 ! nat ((255 - int j) mod 255)"
      using assms(3) unfolding ab binv_power [OF ij(1)] binv_power [OF ij(2)] .
    then have "nat ((255 - int i) mod 255) = nat ((255 - int j) mod 255)" by (simp add: powers_3_inj)
    then have "(255 - int i) mod 255 = (255 - int j) mod 255" by (simp add: eq_nat_nat_iff)
    moreover have "(255 - int k) mod 255 = (if k = 0 then 0 else 255 - int k)" if "k < 255" for k
    proof (cases "k = 0")
      case False
      then have "0 \<le> 255 - int k" "255 - int k < 255" using that by simp_all
      then have "(255 - int k) mod 255 = 255 - int k" by (rule mod_pos_pos_trivial)
      then show ?thesis using False by simp
    qed simp
    ultimately have "i = j" using ij by (simp split: if_splits)
    then show ?thesis using ab by simp
  qed
qed

lemma sbox_affine_nth: "0 \<le> b \<Longrightarrow> b < 256 \<Longrightarrow> sbox_affine b = affine_values ! nat b"
proof -
  assume b: "0 \<le> b" "b < 256"
  then have "map sbox_affine [0..255] ! nat b = sbox_affine ([0..255] ! nat b)" by (intro nth_map) simp
  also have "[0..255] ! nat b = b" using b by (simp add: nth_upto)
  finally show ?thesis by (simp only: affine_values)
qed

lemma SBOX_nth_bounds: "a < 256 \<Longrightarrow> 0 \<le> SBOX ! a \<and> SBOX ! a < 256"
proof -
  assume a: "a < 256"
  have "length affine_values = 256" by (simp add: affine_values_def)
  then show ?thesis
    using a binv_bounds [OF a] nat_binv [OF a] affine_values_range
    by (simp add: SBOX_eq sbox_affine_nth list_all_length)
qed

lemma SBOX_inj: "a < 256 \<Longrightarrow> b < 256 \<Longrightarrow> SBOX ! a = SBOX ! b \<Longrightarrow> a = b"
proof -
  assume ab: "a < 256" "b < 256" and eq: "SBOX ! a = SBOX ! b"
  have "length affine_values = 256" by (simp add: affine_values_def)
  then have "nat (binv a) = nat (binv b)"
    using eq ab binv_bounds [OF ab(1)] binv_bounds [OF ab(2)] nat_binv [OF ab(1)] nat_binv [OF ab(2)]
      affine_values_distinct
    by (simp add: SBOX_eq sbox_affine_nth nth_eq_iff_index_eq)
  then have "binv a = binv b" using binv_bounds [OF ab(1)] binv_bounds [OF ab(2)] by (simp add: eq_nat_nat_iff)
  then show ?thesis using binv_inj ab by blast
qed

lemma length_SBOX [simp]: "length SBOX = 256"
  by (simp add: SBOX_eq)

lemma INV_SBOX_SBOX:
  assumes "a < 256" shows "INV_SBOX ! nat (SBOX ! a) = int a"
proof -
  let ?f = "\<lambda>(a, s) inv. (inv :: int list)[nat s := int a]"
  have "length (fold ?f (take n (enumerate 0 SBOX)) (replicate 256 0)) = 256 \<and>
      (\<forall>i < n. fold ?f (take n (enumerate 0 SBOX)) (replicate 256 0) ! nat (SBOX ! i) = int i)"
    if "n \<le> 256" for n
    using that
  proof (induction n)
    case (Suc n)
    have "take (Suc n) (enumerate 0 SBOX) = take n (enumerate 0 SBOX) @ [(n, SBOX ! n)]"
      using Suc.prems by (simp add: take_Suc_conv_app_nth nth_enumerate_eq)
    moreover have "nat (SBOX ! n) \<noteq> nat (SBOX ! i)" if "i < n" for i
      using SBOX_nth_bounds [of i] SBOX_nth_bounds [of n] SBOX_inj [of n i] that Suc.prems
      by (auto simp: eq_nat_nat_iff)
    ultimately show ?case
      using Suc SBOX_nth_bounds [of n] by (auto simp: less_Suc_eq nth_list_update nat_less_iff)
  qed simp
  from this [of 256] show ?thesis using assms by (simp add: INV_SBOX_fold)
qed

lemma inv_sub_byte_sub: "inv_sub_byte (sub_byte b) = b"
proof -
  have b: "unat b < 256" using unsigned_less [of b] by simp
  have "uint (word_of_int (SBOX ! unat b) :: byte) = SBOX ! unat b"
    using SBOX_nth_bounds [OF b] by (simp add: uint_word_of_int)
  then have "unat (word_of_int (SBOX ! unat b) :: byte) = nat (SBOX ! unat b)"
    by (simp only: unat_eq_nat_uint)
  then show ?thesis using INV_SBOX_SBOX [OF b] by (simp add: inv_sub_byte_def sub_byte_def)
qed

section \<open>The inverse cipher inverts the cipher\<close>

lemma xtime_linear: "xor_linear xtime"
proof -
  have "xor_linear (\<lambda>a. if bit a 8 then a XOR 0x11B else a)" by (rule xor_linear_reduce_step)
  from xor_linear_comp [OF this xor_linear_push_bit [of 1]] show ?thesis
    unfolding xtime_def [abs_def] Let_def .
qed

lemma aes_gmul_linear:
  "c \<in> {2, 3, 9, 11, 13, 14} \<Longrightarrow> xor_linear (\<lambda>a. aes_gmul a c)"
  by (elim insertE; simp add: aes_gmul_small)
    (intro xor_linear_xor xor_linear_id xtime_linear
       xor_linear_comp [OF xtime_linear xtime_linear]
       xor_linear_comp [OF xtime_linear xor_linear_comp [OF xtime_linear xtime_linear]])+

text \<open>One row of the inverse matrix against one column of the matrix.\<close>

definition row_col :: "nat \<Rightarrow> nat \<Rightarrow> nat \<Rightarrow> nat \<Rightarrow> int \<Rightarrow> int" where
  "row_col c0 c1 c2 c3 a =
     ((aes_gmul (aes_gmul a 2) c0 XOR aes_gmul a c1) XOR aes_gmul a c2) XOR aes_gmul (aes_gmul a 3) c3"

lemma row_col_linear:
  assumes "set [c0, c1, c2, c3] \<subseteq> {9, 11, 13, 14}" shows "xor_linear (row_col c0 c1 c2 c3)"
proof -
  have c: "xor_linear (\<lambda>a. aes_gmul a c0)" "xor_linear (\<lambda>a. aes_gmul a c1)"
    "xor_linear (\<lambda>a. aes_gmul a c2)" "xor_linear (\<lambda>a. aes_gmul a c3)"
    using assms by (auto intro!: aes_gmul_linear)
  have two: "xor_linear (\<lambda>a. aes_gmul a 2)" "xor_linear (\<lambda>a. aes_gmul a 3)"
    by (auto intro!: aes_gmul_linear)
  show ?thesis
    unfolding row_col_def [abs_def]
    by (intro xor_linear_xor c xor_linear_comp [OF c(1) two(1)] xor_linear_comp [OF c(4) two(2)])
qed

lemma row_col_basis:
  "list_all (\<lambda>i. row_col 14 11 13 9 (2 ^ i) = 2 ^ i) [0..<8]"
  "list_all (\<lambda>i. row_col 9 14 11 13 (2 ^ i) = 0) [0..<8]"
  "list_all (\<lambda>i. row_col 13 9 14 11 (2 ^ i) = 0) [0..<8]"
  "list_all (\<lambda>i. row_col 11 13 9 14 (2 ^ i) = 0) [0..<8]"
  by (simp_all add: upt_rec) (simp_all add: row_col_def aes_gmul_small xtime_def)

lemma row_col_eq:
  assumes "0 \<le> a" "a < 256"
  shows "row_col 14 11 13 9 a = a" "row_col 9 14 11 13 a = 0"
    "row_col 13 9 14 11 a = 0" "row_col 11 13 9 14 a = 0"
proof -
  have zero: "xor_linear (\<lambda>_. 0)" by (simp add: xor_linear_def)
  have a: "a < 2 ^ 8" using assms by simp
  show "row_col 14 11 13 9 a = a"
    by (rule linear_eq_on_basis [OF row_col_linear xor_linear_id all_less_list [OF row_col_basis(1)] assms(1) a]) simp_all
  show "row_col 9 14 11 13 a = 0"
    by (rule linear_eq_on_basis [OF row_col_linear zero all_less_list [OF row_col_basis(2)] assms(1) a]) simp_all
  show "row_col 13 9 14 11 a = 0"
    by (rule linear_eq_on_basis [OF row_col_linear zero all_less_list [OF row_col_basis(3)] assms(1) a]) simp_all
  show "row_col 11 13 9 14 a = 0"
    by (rule linear_eq_on_basis [OF row_col_linear zero all_less_list [OF row_col_basis(4)] assms(1) a]) simp_all
qed

lemma M_byte_eq: "M_byte c b = word_of_int (aes_gmul (uint b) c)"
proof -
  have b: "unat b < 256" using unsigned_less [of b] by simp
  then show ?thesis by (simp add: M_byte_def M_table_def)
qed

lemma xtime_range: "0 \<le> a \<Longrightarrow> a < 256 \<Longrightarrow> 0 \<le> xtime a \<and> xtime a < 2 ^ 8"
proof -
  assume a: "0 \<le> a" "a < 256"
  have basis: "list_all (\<lambda>i. 0 \<le> xtime (2 ^ i) \<and> xtime (2 ^ i) < 2 ^ 8) [0..<8]"
    by (simp add: upt_rec) (simp add: xtime_def)
  have bits: "a < 2 ^ 8" using a by simp
  show ?thesis
    by (rule linear_range [OF xtime_linear _ a(1) bits], drule all_less_list [OF basis])
qed

lemma aes_gmul_range:
  assumes "0 \<le> a" "a < 256" "c \<in> {2, 3, 9, 11, 13, 14}"
  shows "0 \<le> aes_gmul a c" "aes_gmul a c < 256"
proof -
  have x: "0 \<le> xtime b \<and> xtime b < 2 ^ 8" if "0 \<le> b \<and> b < 2 ^ 8" for b :: int using that xtime_range [of b] by simp
  have y: "0 \<le> b XOR d \<and> b XOR d < 2 ^ 8" if "0 \<le> b \<and> b < 2 ^ 8" "0 \<le> d \<and> d < 2 ^ 8" for b d :: int
    using that xor_range [of b 8 d] by simp
  have a: "0 \<le> a \<and> a < 2 ^ 8" using assms by simp
  have "0 \<le> aes_gmul a c \<and> aes_gmul a c < 2 ^ 8"
    using assms(3) by (elim insertE) (simp_all only: aes_gmul_small x y a simp_thms empty_iff)
  then show "0 \<le> aes_gmul a c" "aes_gmul a c < 256" by simp_all
qed

lemma uint_M_byte: "c \<in> {2, 3, 9, 11, 13, 14} \<Longrightarrow> uint (M_byte c b) = aes_gmul (uint b) c"
  using aes_gmul_range [of "uint b" c] uint_byte_bounds [of b] by (simp add: M_byte_eq uint_word_of_int)

lemma uint_xor_byte: "uint (a XOR b) = uint a XOR uint (b :: byte)"
  by (rule unsigned_xor_eq)

text \<open>The byte identities behind \<open>inv_mix (mix s) = s\<close>.\<close>

lemma M_byte_xor: "c \<in> {2, 3, 9, 11, 13, 14} \<Longrightarrow> M_byte c (a XOR b) = M_byte c a XOR M_byte c b"
  by (rule word_uint_eqI) (simp only: uint_M_byte uint_xor_byte xor_linearD [OF aes_gmul_linear])

lemma M_byte_row_col:
  "((M_byte 14 (M_byte 2 a) XOR M_byte 11 a) XOR M_byte 13 a) XOR M_byte 9 (M_byte 3 a) = a"
  "((M_byte 9 (M_byte 2 a) XOR M_byte 14 a) XOR M_byte 11 a) XOR M_byte 13 (M_byte 3 a) = 0"
  "((M_byte 13 (M_byte 2 a) XOR M_byte 9 a) XOR M_byte 14 a) XOR M_byte 11 (M_byte 3 a) = 0"
  "((M_byte 11 (M_byte 2 a) XOR M_byte 13 a) XOR M_byte 9 a) XOR M_byte 14 (M_byte 3 a) = 0"
  using row_col_eq [OF uint_byte_bounds [of a]]
  by (simp_all add: word_uint_eq_iff uint_M_byte uint_xor_byte row_col_def)

lemma xor_byte_zero_iff: "a XOR b = 0 \<longleftrightarrow> a = (b :: byte)"
  by (metis xor.left_neutral xor.assoc xor_self_eq)

lemma inv_mix_column_mix:
  "mix_column a0 a1 a2 a3 = [b0, b1, b2, b3] \<Longrightarrow> inv_mix_column b0 b1 b2 b3 = [a0, a1, a2, a3]"
proof -
  assume "mix_column a0 a1 a2 a3 = [b0, b1, b2, b3]"
  then have b: "b0 = M_byte 2 a0 XOR M_byte 3 a1 XOR a2 XOR a3" "b1 = a0 XOR M_byte 2 a1 XOR M_byte 3 a2 XOR a3"
    "b2 = a0 XOR a1 XOR M_byte 2 a2 XOR M_byte 3 a3" "b3 = M_byte 3 a0 XOR a1 XOR a2 XOR M_byte 2 a3"
    by (auto simp: mix_column_def)
  have sel: "M_byte c (w XOR x XOR y XOR z) = M_byte c w XOR M_byte c x XOR M_byte c y XOR M_byte c z"
    if "c \<in> {2, 3, 9, 11, 13, 14}" for c w x y z using that by (simp only: M_byte_xor)
  have regroup: "(w0 XOR x0 XOR y0 XOR z0) XOR (w1 XOR x1 XOR y1 XOR z1) XOR (w2 XOR x2 XOR y2 XOR z2)
      XOR (w3 XOR x3 XOR y3 XOR z3) =
      (((w0 XOR w1) XOR w2) XOR w3) XOR (((x1 XOR x2) XOR x3) XOR x0) XOR
      (((y2 XOR y3) XOR y0) XOR y1) XOR (((z3 XOR z0) XOR z1) XOR z2)"
    for w0 x0 y0 z0 w1 x1 y1 z1 w2 x2 y2 z2 w3 x3 y3 z3 :: byte
    by (simp only: ac_simps)
  have r: "M_byte 14 b0 XOR M_byte 11 b1 XOR M_byte 13 b2 XOR M_byte 9 b3 = a0"
    "M_byte 9 b0 XOR M_byte 14 b1 XOR M_byte 11 b2 XOR M_byte 13 b3 = a1"
    "M_byte 13 b0 XOR M_byte 9 b1 XOR M_byte 14 b2 XOR M_byte 11 b3 = a2"
    "M_byte 11 b0 XOR M_byte 13 b1 XOR M_byte 9 b2 XOR M_byte 14 b3 = a3"
    by (simp_all add: b sel regroup M_byte_row_col)
  then show ?thesis by (simp add: inv_mix_column_def)
qed

lemma length_mix_column [simp]: "length (mix_column a b c d) = 4"
  by (simp add: mix_column_def)

lemma inv_mix_column_mix_nth:
  "inv_mix_column (mix_column a b c d ! 0) (mix_column a b c d ! 1) (mix_column a b c d ! 2)
     (mix_column a b c d ! 3) = [a, b, c, d]"
  by (rule inv_mix_column_mix) (simp add: mix_column_def)

lemma blocks_16: "length s = 16 \<Longrightarrow>
  concat (map (\<lambda>c. [s ! (4 * c), s ! (4 * c + 1), s ! (4 * c + 2), s ! (4 * c + 3)]) [0..<4]) = s"
  for s :: bytes
  by (rule nth_equalityI) (auto simp: upt_rec nth_Cons less_Suc_eq numeral_eq_Suc)

lemma length_mix [simp]: "length (mix s) = 16" "length (inv_mix s) = 16"
  by (simp_all add: mix_def inv_mix_def inv_mix_column_def upt_rec)

lemma inv_mix_mix: "length s = 16 \<Longrightarrow> inv_mix (mix s) = s"
proof -
  assume len: "length s = 16"
  let ?m = "\<lambda>c. mix_column (s ! (4 * c)) (s ! (4 * c + 1)) (s ! (4 * c + 2)) (s ! (4 * c + 3))"
  have m: "mix s = ?m 0 @ ?m 1 @ ?m 2 @ ?m 3" by (simp add: mix_def upt_rec)
  have nth: "(a @ b @ c @ d) ! 0 = a ! 0" "(a @ b @ c @ d) ! Suc 0 = a ! Suc 0"
    "(a @ b @ c @ d) ! Suc (Suc 0) = a ! Suc (Suc 0)"
    "(a @ b @ c @ d) ! 3 = a ! 3" "(a @ b @ c @ d) ! 4 = b ! 0" "(a @ b @ c @ d) ! 5 = b ! 1"
    "(a @ b @ c @ d) ! 6 = b ! 2" "(a @ b @ c @ d) ! 7 = b ! 3" "(a @ b @ c @ d) ! 8 = c ! 0"
    "(a @ b @ c @ d) ! 9 = c ! 1" "(a @ b @ c @ d) ! 10 = c ! 2" "(a @ b @ c @ d) ! 11 = c ! 3"
    "(a @ b @ c @ d) ! 12 = d ! 0" "(a @ b @ c @ d) ! 13 = d ! 1" "(a @ b @ c @ d) ! 14 = d ! 2"
    "(a @ b @ c @ d) ! 15 = d ! 3"
    if "length a = 4" "length b = 4" "length c = 4" "length d = 4" for a b c d :: bytes
    using that by (simp_all add: nth_append)
  have "inv_mix (mix s) =
      concat (map (\<lambda>c. [s ! (4 * c), s ! (4 * c + 1), s ! (4 * c + 2), s ! (4 * c + 3)]) [0..<4])"
    by (simp add: inv_mix_def upt_rec m nth inv_mix_column_mix_nth [unfolded One_nat_def] inv_mix_column_mix_nth [unfolded One_nat_def numeral_2_eq_2])
  then show ?thesis by (simp only: blocks_16 [OF len])
qed

section \<open>Decryption undoes encryption\<close>

text \<open>The substitution and shift of a round, and their inverse.\<close>

definition sub_shift :: "bytes \<Rightarrow> bytes" where
  "sub_shift s = map (\<lambda>i. map sub_byte s ! (SHIFT ! i)) [0..<16]"

lemma shift_inverse: "i < 16 \<Longrightarrow> SHIFT ! (INV_SHIFT ! i) = i \<and> INV_SHIFT ! i < 16"
proof -
  assume i: "i < 16"
  have "list_all (\<lambda>i. SHIFT ! (INV_SHIFT ! i) = i \<and> INV_SHIFT ! i < 16) [0..<16]"
    by (simp add: upt_rec) (simp add: SHIFT_def INV_SHIFT_def upt_rec)
  then show ?thesis using i by (simp add: list_all_iff)
qed

lemma shift_range: "i < 16 \<Longrightarrow> SHIFT ! i < 16"
  by (simp add: SHIFT_def)

lemma unshift_unsub:
  "length s = 16 \<Longrightarrow> map inv_sub_byte (map (\<lambda>i. sub_shift s ! (INV_SHIFT ! i)) [0..<16]) = s"
  by (rule nth_equalityI) (simp_all add: sub_shift_def shift_inverse inv_sub_byte_sub)

lemma length_sub_shift [simp]: "length (sub_shift s) = 16"
  by (simp add: sub_shift_def)

lemma length_xor_bytes [simp]: "length (xor_bytes a b) = min (length a) (length b)"
  by (simp add: xor_bytes_def)

lemma xor_bytes_cancel: "length a \<le> length b \<Longrightarrow> xor_bytes (xor_bytes a b) b = a"
  by (rule nth_equalityI) (simp_all add: xor_bytes_def xor.assoc)

lemma xor_bytes_cancel_left: "length b \<le> length a \<Longrightarrow> xor_bytes a (xor_bytes a b) = b"
  by (rule nth_equalityI) (simp_all add: xor_bytes_def flip: xor.assoc)

definition keys_ok :: "bytes list \<Rightarrow> bool" where
  "keys_ok rks \<longleftrightarrow> length rks = 15 \<and> list_all (\<lambda>k. length k = 16) rks"

lemma keys_ok_nth: "keys_ok rks \<Longrightarrow> r < 15 \<Longrightarrow> length (rks ! r) = 16"
  by (simp add: keys_ok_def list_all_length)

lemma enc_round_eq: "enc_round rks r s = xor_bytes (if r \<noteq> NR then mix (sub_shift s) else sub_shift s) (rks ! r)"
  by (simp add: enc_round_def sub_shift_def)

lemma dec_round_sub_shift:
  "length s = 16 \<Longrightarrow> dec_round rks r (sub_shift s) =
     (let t = xor_bytes s (rks ! r) in if r \<noteq> 0 then inv_mix t else t)"
  by (simp only: dec_round_def Let_def unshift_unsub)

text \<open>The encryption state after \<open>r\<close> rounds; decryption walks the same states backwards.\<close>

definition enc_state :: "bytes list \<Rightarrow> bytes \<Rightarrow> nat \<Rightarrow> bytes" where
  "enc_state rks b r = fold (enc_round rks) [1..<r + 1] (xor_bytes b (rks ! 0))"

lemma enc_state_Suc: "enc_state rks b (Suc r) = enc_round rks (Suc r) (enc_state rks b r)"
  by (simp add: enc_state_def)

lemma length_enc_state: "keys_ok rks \<Longrightarrow> length b = 16 \<Longrightarrow> r \<le> 14 \<Longrightarrow> length (enc_state rks b r) = 16"
proof (induction r)
  case 0
  then show ?case by (simp add: enc_state_def keys_ok_nth)
next
  case (Suc r)
  then show ?case by (simp add: enc_state_Suc enc_round_eq keys_ok_nth)
qed

lemma dec_round_back:
  assumes "keys_ok rks" "length b = 16" "r < 14"
  shows "dec_round rks r (sub_shift (enc_state rks b r)) =
           (if r = 0 then b else sub_shift (enc_state rks b (r - 1)))"
proof (cases r)
  case 0
  then show ?thesis
    using assms length_enc_state [OF assms(1,2), of 0]
    by (simp add: dec_round_sub_shift enc_state_def xor_bytes_cancel keys_ok_nth)
next
  case (Suc k)
  have "length (enc_state rks b r) = 16" using assms by (simp add: length_enc_state)
  moreover have "xor_bytes (enc_state rks b r) (rks ! r) = mix (sub_shift (enc_state rks b k))"
    using assms Suc by (simp add: enc_state_Suc enc_round_eq NR_def xor_bytes_cancel keys_ok_nth)
  ultimately show ?thesis using Suc by (simp add: dec_round_sub_shift inv_mix_mix)
qed

lemma dec_rounds_back:
  assumes "keys_ok rks" "length b = 16" "n \<le> 14"
  shows "fold (dec_round rks) (rev [0..<n]) (if n = 0 then b else sub_shift (enc_state rks b (n - 1))) = b"
  using assms(3)
proof (induction n)
  case (Suc n)
  then show ?case using dec_round_back [OF assms(1,2), of n] by simp
qed simp

lemma decrypt_encrypt_block:
  assumes "keys_ok rks" "length b = 16"
  shows "decrypt_block rks (encrypt_block rks b) = b"
proof -
  have "encrypt_block rks b = enc_round rks 14 (enc_state rks b 13)"
    using enc_state_Suc [of rks b 13] by (simp add: encrypt_block_def enc_state_def NR_def)
  then have "xor_bytes (encrypt_block rks b) (rks ! NR) = sub_shift (enc_state rks b 13)"
    using assms by (simp add: enc_round_eq NR_def xor_bytes_cancel keys_ok_nth)
  then show ?thesis using dec_rounds_back [OF assms, of 14] by (simp add: decrypt_block_def NR_def)
qed

lemma length_encrypt_block:
  "keys_ok rks \<Longrightarrow> length b = 16 \<Longrightarrow> length (encrypt_block rks b) = 16"
  using length_enc_state [of rks b 14] by (simp add: encrypt_block_def enc_state_def NR_def)

lemma length_dec_round: "keys_ok rks \<Longrightarrow> r < 15 \<Longrightarrow> length (dec_round rks r s) = 16"
  by (simp add: dec_round_def keys_ok_nth Let_def)

lemma length_decrypt_block:
  assumes "keys_ok rks"
  shows "length (decrypt_block rks b) = 16"
  using length_dec_round [OF assms, of 0] by (simp add: decrypt_block_def NR_def upt_rec)

lemma length_expand_step:
  "fst (expand_step i (w, rcon)) = w @ [map (\<lambda>j. w ! (i - NK) ! j XOR
     (let t = w ! (i - 1) in
      if i mod NK = 0 then (map sub_byte (tl t @ take 1 t))[0 := map sub_byte (tl t @ take 1 t) ! 0 XOR word_of_int rcon]
      else if i mod NK = 4 then map sub_byte t else t) ! j) [0..<4]]"
  by (simp add: expand_step_def Let_def)

lemma expand_words:
  "length (fst (fold expand_step is s)) = length (fst s) + length is
   \<and> (list_all (\<lambda>x. length x = 4) (fst s) \<longrightarrow> list_all (\<lambda>x. length x = 4) (fst (fold expand_step is s)))"
proof (induction "is" arbitrary: s)
  case (Cons i "is")
  obtain w rcon where s: "s = (w, rcon)" by (cases s)
  show ?case using Cons.IH [of "expand_step i s"] by (simp add: s length_expand_step)
qed simp

lemma concat_four_words:
  fixes ws :: "bytes list"
  assumes "list_all (\<lambda>x. length x = 4) ws" "4 * r + 4 \<le> length ws"
  shows "length (concat (take 4 (drop (4 * r) ws))) = 16"
proof -
  have "set (take 4 (drop (4 * r) ws)) \<subseteq> set ws" by (meson in_set_dropD in_set_takeD subsetI)
  then have all: "list_all (\<lambda>x. length x = 4) (take 4 (drop (4 * r) ws))"
    using assms(1) by (auto simp: list_all_iff)
  have len: "length (concat xs) = 4 * length xs" if "list_all (\<lambda>x. length x = 4) xs" for xs :: "bytes list"
    using that by (induction xs) auto
  have "length (concat (take 4 (drop (4 * r) ws))) = 4 * length (take 4 (drop (4 * r) ws))" by (rule len [OF all])
  then show ?thesis using assms(2) by simp
qed

text \<open>A 32-byte key expands to fifteen round keys of sixteen bytes, and no other key expands.\<close>

lemma expand_key_ok: "length key = 32 \<Longrightarrow> \<exists>rks. expand_key key = Inr rks \<and> keys_ok rks"
proof -
  assume len: "length key = 32"
  let ?w0 = "map (\<lambda>i. take 4 (drop (4 * i) key)) [0..<NK]"
  let ?f = "fold expand_step [NK..<4 * (NR + 1)] (?w0, 1)"
  have "list_all (\<lambda>x. length x = 4) ?w0" using len by (auto simp: list_all_iff)
  then have ws: "length (fst ?f) = 60" "list_all (\<lambda>x. length x = 4) (fst ?f)"
    using expand_words [of "[NK..<4 * (NR + 1)]" "(?w0, 1)"] by simp_all
  obtain w rcon where f: "?f = (w, rcon)" by (cases ?f)
  have "length (concat (take 4 (drop (4 * r) w))) = 16" if "r < 15" for r
    using ws that unfolding f by (intro concat_four_words) simp_all
  then have "keys_ok (map (\<lambda>r. concat (take 4 (drop (4 * r) w))) [0..<NR + 1])"
    by (simp add: keys_ok_def list_all_iff del: length_concat)
  then show ?thesis unfolding expand_key_def Let_def f by (simp only: len simp_thms if_False prod.case) blast
qed

section \<open>Cipher block chaining over any block cipher\<close>

locale block_cipher =
  fixes E D :: "bytes \<Rightarrow> bytes"
  assumes E_len: "length b = 16 \<Longrightarrow> length (E b) = 16"
    and D_E: "length b = 16 \<Longrightarrow> D (E b) = b"
begin

text \<open>A block function that can be undone on the finitely many blocks is a permutation of them.\<close>

lemma finite_blocks: "finite {b :: bytes. length b = 16}"
  using finite_lists_length_eq [of "UNIV :: byte set" 16] by simp

lemma E_surj: "length c = 16 \<Longrightarrow> \<exists>b. length b = 16 \<and> E b = c"
proof -
  assume c: "length c = 16"
  let ?B = "{b :: bytes. length b = 16}"
  have "inj_on E ?B" by (rule inj_on_inverseI [of _ D]) (simp add: D_E)
  moreover have "E ` ?B \<subseteq> ?B" by (auto simp: E_len)
  ultimately have "E ` ?B = ?B" using endo_inj_surj [OF finite_blocks] by blast
  with c show ?thesis by (metis (mono_tags, lifting) imageE mem_Collect_eq)
qed

lemma D_len: "length c = 16 \<Longrightarrow> length (D c) = 16"
  using E_surj [of c] D_E by auto

lemma E_D: "length c = 16 \<Longrightarrow> E (D c) = c"
  using E_surj [of c] D_E by auto

text \<open>The blocks the encryption loop puts out.\<close>

fun cbc_blocks :: "bytes \<Rightarrow> bytes list \<Rightarrow> bytes list" where
  "cbc_blocks prev [] = []"
| "cbc_blocks prev (b # bs) = E (xor_bytes b prev) # cbc_blocks (E (xor_bytes b prev)) bs"

lemma cbc_enc_loop_blocks: "cbc_enc_loop E prev bs = concat (cbc_blocks prev bs)"
  by (induction bs arbitrary: prev) (simp_all add: Let_def)

lemma cbc_blocks_len:
  "length prev = 16 \<Longrightarrow> \<forall>b \<in> set bs. length b = 16 \<Longrightarrow> \<forall>c \<in> set (cbc_blocks prev bs). length c = 16"
proof (induction bs arbitrary: prev)
  case (Cons b bs)
  then have "length (E (xor_bytes b prev)) = 16" by (simp add: E_len)
  with Cons show ?case by simp
qed simp

lemma cbc_dec_blocks:
  "length prev = 16 \<Longrightarrow> \<forall>b \<in> set bs. length b = 16 \<Longrightarrow> cbc_dec_loop D prev (cbc_blocks prev bs) = concat bs"
  by (induction bs arbitrary: prev) (simp_all add: E_len D_E xor_bytes_cancel)

lemma dec_enc:
  assumes iv: "length iv = 16" and data: "16 dvd length data"
  shows "cbc_dec_loop D iv (blocks_of 16 (cbc_enc_loop E iv (blocks_of 16 data))) = data"
proof -
  have len: "\<forall>b \<in> set (blocks_of 16 data). length b = 16" using length_blocks_of_dvd [OF _ data] by simp
  have "blocks_of 16 (cbc_enc_loop E iv (blocks_of 16 data)) = cbc_blocks iv (blocks_of 16 data)"
    using cbc_blocks_len [OF iv len] by (simp add: cbc_enc_loop_blocks blocks_of_concat)
  then show ?thesis by (simp add: cbc_dec_blocks [OF iv len] concat_blocks_of)
qed

lemma cbc_dec_loop_len:
  "length prev = 16 \<Longrightarrow> \<forall>b \<in> set bs. length b = 16 \<Longrightarrow> length (cbc_dec_loop D prev bs) = 16 * length bs"
  by (induction bs arbitrary: prev) (simp_all add: D_len)

lemma cbc_dec_len:
  "length iv = 16 \<Longrightarrow> 16 dvd length data \<Longrightarrow> 16 dvd length (cbc_dec_loop D iv (blocks_of 16 data))"
  by (subst cbc_dec_loop_len) (simp_all add: length_blocks_of_dvd)

lemma cbc_enc_len:
  "length iv = 16 \<Longrightarrow> 16 dvd length data \<Longrightarrow> 16 dvd length (cbc_enc_loop E iv (blocks_of 16 data))"
proof -
  assume iv: "length iv = 16" and data: "16 dvd length data"
  have "\<forall>c \<in> set (cbc_blocks iv (blocks_of 16 data)). length c = 16"
    using length_blocks_of_dvd [OF _ data] by (intro cbc_blocks_len [OF iv]) simp
  moreover have "16 dvd length (concat cs)" if "\<forall>c \<in> set cs. length c = 16" for cs :: "bytes list"
    using that by (induction cs) auto
  ultimately show ?thesis by (simp only: cbc_enc_loop_blocks)
qed

lemma cbc_blocks_dec:
  "length prev = 16 \<Longrightarrow> \<forall>c \<in> set cs. length c = 16 \<Longrightarrow>
     cbc_blocks prev (blocks_of 16 (cbc_dec_loop D prev cs)) = cs"
  by (induction cs arbitrary: prev) (simp_all add: blocks_of_append D_len E_D xor_bytes_cancel)

lemma enc_dec:
  assumes iv: "length iv = 16" and data: "16 dvd length data"
  shows "cbc_enc_loop E iv (blocks_of 16 (cbc_dec_loop D iv (blocks_of 16 data))) = data"
proof -
  have len: "\<forall>b \<in> set (blocks_of 16 data). length b = 16" using length_blocks_of_dvd [OF _ data] by simp
  then show ?thesis by (simp add: cbc_enc_loop_blocks cbc_blocks_dec [OF iv] concat_blocks_of)
qed

end

text \<open>AES under a fixed key schedule; a malformed schedule is replaced by the identity.\<close>

interpretation aes: block_cipher
  "\<lambda>b. if keys_ok rks then encrypt_block rks b else b"
  "\<lambda>b. if keys_ok rks then decrypt_block rks b else b"
  for rks
  by unfold_locales (simp_all add: length_encrypt_block decrypt_encrypt_block)

lemma cbc_exact:
  assumes "length key = 32" "length iv = 16"
  shows "cbc_decrypt key iv c = Inr p \<longleftrightarrow> cbc_encrypt key iv p = Inr c"
proof -
  obtain rks where rks: "expand_key key = Inr rks" and ok: "keys_ok rks" using expand_key_ok [OF assms(1)] by blast
  have mod: "int (length x) mod 16 \<noteq> 0 \<longleftrightarrow> \<not> 16 dvd length x" for x :: bytes by presburger
  have loops: "cbc_enc_loop (\<lambda>b. if keys_ok rks then encrypt_block rks b else b) = cbc_enc_loop (encrypt_block rks)"
    "cbc_dec_loop (\<lambda>b. if keys_ok rks then decrypt_block rks b else b) = cbc_dec_loop (decrypt_block rks)"
    by (simp_all only: ok if_True)
  have ED: "16 dvd length x \<Longrightarrow>
      cbc_dec_loop (decrypt_block rks) iv (blocks_of 16 (cbc_enc_loop (encrypt_block rks) iv (blocks_of 16 x))) = x"
    "16 dvd length x \<Longrightarrow>
      cbc_enc_loop (encrypt_block rks) iv (blocks_of 16 (cbc_dec_loop (decrypt_block rks) iv (blocks_of 16 x))) = x" for x
    using aes.dec_enc [OF assms(2), of x rks] aes.enc_dec [OF assms(2), of x rks] unfolding loops by simp_all
  have len: "16 dvd length x \<Longrightarrow> 16 dvd length (cbc_enc_loop (encrypt_block rks) iv (blocks_of 16 x))"
    "16 dvd length x \<Longrightarrow> 16 dvd length (cbc_dec_loop (decrypt_block rks) iv (blocks_of 16 x))" for x
    using aes.cbc_enc_len [OF assms(2), of x rks] aes.cbc_dec_len [OF assms(2), of x rks] unfolding loops by simp_all
  have "cbc_decrypt key iv c = Inr p \<longleftrightarrow>
      16 dvd length c \<and> cbc_dec_loop (decrypt_block rks) iv (blocks_of 16 c) = p"
    "cbc_encrypt key iv p = Inr c \<longleftrightarrow>
      16 dvd length p \<and> cbc_enc_loop (encrypt_block rks) iv (blocks_of 16 p) = c"
    using assms(2) by (simp_all add: cbc_decrypt_def cbc_encrypt_def rks mod)
  then show ?thesis using ED len by blast
qed

end
