(* ===== verification/Aead.thy ===== *)
theory Aead
  imports Aes Ratchet
begin

text \<open>
  The authenticated encryption of messages (\<open>tacenta_reader/aead.py\<close>): AES-256-CBC with PKCS#7
  padding, then HMAC-SHA256 over the associated data and the ciphertext.  Every refusal of an input
  is the one error \<open>AuthenticationFailure\<close>; keys of a wrong width are the caller's \<open>ValueError\<close>.
\<close>

definition check_keys :: "bytes \<Rightarrow> bytes \<Rightarrow> bytes \<Rightarrow> unit res" where
  "check_keys enc_key mac_key iv =
     (if length enc_key \<noteq> 32 \<or> length mac_key \<noteq> 32 \<or> int (length iv) \<noteq> AES_BLOCK
      then Inl (PyE ValueError) else Inr ())"

definition aead_pad :: "bytes \<Rightarrow> bytes" where
  "aead_pad plaintext =
     (let p = nat (AES_BLOCK - int (length plaintext) mod AES_BLOCK)
      in plaintext @ replicate p (word_of_nat p))"

definition aead_encrypt :: "bytes \<Rightarrow> bytes \<Rightarrow> bytes \<Rightarrow> bytes \<Rightarrow> bytes \<Rightarrow> bytes res" where
  "aead_encrypt enc_key mac_key iv ad plaintext =
     bindR (check_keys enc_key mac_key iv) (\<lambda>_.
     bindR (cbc_encrypt enc_key iv (aead_pad plaintext)) (\<lambda>ciphertext.
     Inr (ciphertext @ hmac_sha256 mac_key (ad @ ciphertext))))"

text \<open>The last steps of \<open>decrypt\<close>: the padding is checked and taken off.\<close>

definition aead_unpad :: "bytes \<Rightarrow> bytes res" where
  "aead_unpad padded =
     (let p = unat (last padded)
      in if \<not> (1 \<le> p \<and> int p \<le> AES_BLOCK) \<or> drop (length padded - p) padded \<noteq> replicate p (last padded)
         then Inl (CryptoE AuthenticationFailure)
         else Inr (take (length padded - p) padded))"

definition aead_decrypt :: "bytes \<Rightarrow> bytes \<Rightarrow> bytes \<Rightarrow> bytes \<Rightarrow> bytes \<Rightarrow> bytes res" where
  "aead_decrypt enc_key mac_key iv ad data =
     bindR (check_keys enc_key mac_key iv) (\<lambda>_.
     if int (length data) < AEAD_TAG_LEN then Inl (CryptoE AuthenticationFailure)
     else
       (let n = length data - nat AEAD_TAG_LEN; ciphertext = take n data; tag = drop n data
        in if hmac_sha256 mac_key (ad @ ciphertext) \<noteq> tag then Inl (CryptoE AuthenticationFailure)
           else if length ciphertext = 0 \<or> int (length ciphertext) mod AES_BLOCK \<noteq> 0
           then Inl (CryptoE AuthenticationFailure)
           else bindR (cbc_decrypt enc_key iv ciphertext) aead_unpad))"

definition seal :: "bytes \<Rightarrow> bytes \<Rightarrow> bytes \<Rightarrow> bytes res" where
  "seal mk ad plaintext =
     (let (enc, mac, iv) = expand_message_key mk in aead_encrypt enc mac iv ad plaintext)"

definition aead_open :: "bytes \<Rightarrow> bytes \<Rightarrow> bytes \<Rightarrow> bytes res" where
  "aead_open mk ad data =
     (let (enc, mac, iv) = expand_message_key mk in aead_decrypt enc mac iv ad data)"

section \<open>Padding\<close>

lemma pad_nat: "nat (16 - int n mod 16) = 16 - n mod 16"
  by (simp add: nat_diff_distrib nat_mod_distrib)

lemma pad_amount:
  fixes n :: nat
  obtains p where "nat (16 - int n mod 16) = p" "1 \<le> p" "p \<le> 16" "16 dvd n + p"
proof
  have "n mod 16 < 16" by simp
  then show "1 \<le> 16 - n mod 16" "16 - n mod 16 \<le> 16" by simp_all
  show "16 dvd n + (16 - n mod 16)" by presburger
qed (rule pad_nat)

lemma dvd_16_int: "16 dvd n \<longleftrightarrow> int n mod 16 = 0" for n :: nat
  by presburger

lemma pad_back:
  fixes n p :: nat
  assumes "16 dvd n" "1 \<le> p" "p \<le> 16" "p \<le> n"
  shows "16 - (n - p) mod 16 = p"
proof -
  obtain k where n: "n = 16 * k" using assms(1) by (rule dvdE)
  then obtain j where "k = Suc j" using assms by (cases k) auto
  then have "n - p = 16 - p + 16 * j" using n assms by simp
  then have "(n - p) mod 16 = (16 - p) mod 16" by (simp only: mod_mult_self2)
  then show ?thesis using assms by (cases "p = 16") simp_all
qed

lemma aead_pad_props: "16 dvd length (aead_pad pt) \<and> aead_pad pt \<noteq> []"
  using pad_amount [of "length pt"] by (auto simp: aead_pad_def Let_def)

lemma aead_unpad_iff:
  assumes "16 dvd length padded" "padded \<noteq> []"
  shows "aead_unpad padded = Inr pt \<longleftrightarrow> padded = aead_pad pt"
proof
  assume run: "aead_unpad padded = Inr pt"
  define p where "p = unat (last padded)"
  have p: "1 \<le> p" "p \<le> 16" and tail: "drop (length padded - p) padded = replicate p (last padded)"
    and pt: "pt = take (length padded - p) padded"
    using run by (auto simp: aead_unpad_def Let_def p_def split: if_splits)
  have le: "p \<le> length padded" using p assms by (auto dest!: dvd_imp_le)
  have "nat (16 - int (length pt) mod 16) = p"
    using pad_back [OF assms(1) p le] le by (simp only: pt pad_nat length_take) simp
  then show "padded = aead_pad pt"
    using tail append_take_drop_id [of "length padded - p" padded]
    by (simp add: aead_pad_def Let_def pt p_def)
next
  assume padded: "padded = aead_pad pt"
  obtain p where p: "nat (16 - int (length pt) mod 16) = p" "1 \<le> p" "p \<le> 16"
    using pad_amount [of "length pt"] by blast
  have "unat (word_of_nat p :: byte) = p" using p by (simp add: unat_of_nat)
  then show "aead_unpad padded = Inr pt"
    using p by (simp add: padded aead_pad_def aead_unpad_def Let_def last_replicate)
qed

section \<open>Decryption accepts exactly what encryption produces\<close>

lemma aead_exact:
  assumes keys: "length ek = 32" "length mk = 32" "length iv = 16"
  shows "aead_decrypt ek mk iv ad data = Inr pt \<longleftrightarrow> aead_encrypt ek mk iv ad pt = Inr data"
proof
  assume "aead_decrypt ek mk iv ad data = Inr pt"
  then obtain ct padded where data: "data = ct @ hmac_sha256 mk (ad @ ct)"
    and ct: "ct \<noteq> []" "int (length ct) mod 16 = 0"
    and dec: "cbc_decrypt ek iv ct = Inr padded" and un: "aead_unpad padded = Inr pt"
    using keys append_take_drop_id [of "length data - 32" data]
    by (fastforce simp: aead_decrypt_def check_keys_def Let_def res_iff intro: that [of "take (length data - 32) data"]
        split: if_splits)
  have enc: "cbc_encrypt ek iv padded = Inr ct" using dec by (simp add: cbc_exact keys)
  have "16 dvd length padded" "padded \<noteq> []"
    using enc ct by (auto simp: cbc_encrypt_def res_iff keys dvd_16_int split: if_splits)
  with un have "padded = aead_pad pt" by (simp add: aead_unpad_iff)
  then show "aead_encrypt ek mk iv ad pt = Inr data"
    using enc keys by (simp add: aead_encrypt_def check_keys_def data)
next
  assume "aead_encrypt ek mk iv ad pt = Inr data"
  then obtain ct where enc: "cbc_encrypt ek iv (aead_pad pt) = Inr ct"
    and data: "data = ct @ hmac_sha256 mk (ad @ ct)"
    using keys by (auto simp: aead_encrypt_def check_keys_def res_iff)
  have dec: "cbc_decrypt ek iv ct = Inr (aead_pad pt)" using enc by (simp add: cbc_exact keys)
  have "int (length ct) mod 16 = 0" "ct \<noteq> []"
    using dec aead_pad_props [of pt] by (auto simp: cbc_decrypt_def res_iff keys split: if_splits)
  then show "aead_decrypt ek mk iv ad data = Inr pt"
    using dec aead_pad_props [of pt] keys
    by (simp add: aead_decrypt_def check_keys_def Let_def data aead_unpad_iff)
qed

lemma length_expand_message_key:
  "expand_message_key mk = (e, m, iv) \<Longrightarrow> length e = 32 \<and> length m = 32 \<and> length iv = 16"
  by (auto simp: expand_message_key_def Let_def)

lemma open_seal_iff: "aead_open k ad data = Inr pt \<longleftrightarrow> seal k ad pt = Inr data"
proof -
  obtain e m iv where k: "expand_message_key k = (e, m, iv)" by (cases "expand_message_key k")
  then show ?thesis
    using aead_exact length_expand_message_key [OF k] by (simp add: aead_open_def seal_def)
qed

text \<open>Under keys of the right widths the only refusal is the one error, and encryption never fails.\<close>

lemma open_error: "aead_open k ad data = Inl e \<Longrightarrow> e = CryptoE AuthenticationFailure"
proof -
  assume run: "aead_open k ad data = Inl e"
  obtain ek m iv where k: "expand_message_key k = (ek, m, iv)" by (cases "expand_message_key k")
  note len = length_expand_message_key [OF k]
  obtain rks where "expand_key ek = Inr rks" using expand_key_ok [of ek] len by blast
  then show ?thesis
    using run len by (auto simp: aead_open_def k aead_decrypt_def check_keys_def Let_def cbc_decrypt_def
        aead_unpad_def bindR_Inl_iff split: if_splits)
qed

lemma seal_total: "\<exists>data. seal k ad pt = Inr data"
proof -
  obtain ek m iv where k: "expand_message_key k = (ek, m, iv)" by (cases "expand_message_key k")
  note len = length_expand_message_key [OF k]
  obtain rks where rks: "expand_key ek = Inr rks" using expand_key_ok [of ek] len by blast
  have "int (length (aead_pad pt)) mod 16 = 0" using aead_pad_props [of pt] by (simp only: dvd_16_int)
  then show ?thesis using len rks by (simp add: seal_def k aead_encrypt_def check_keys_def cbc_encrypt_def)
qed

end
