(* ===== verification/Curve25519.thy ===== *)
theory Curve25519
  imports Hashes
begin

text \<open>
  The curve arithmetic of \<open>tacenta_reader/curve25519.py\<close>: X25519 (RFC 7748), Ed25519 (RFC 8032) and
  the XEdDSA variant the reader verifies prekeys and signatures with.  Integers are unbounded and
  reduced modulo the field prime where the code reduces them; \<open>pow(b, e, m)\<close> is written as
  square-and-multiply so that the definitions compute, and shown to be the power.
\<close>

unbundle bit_operations_syntax

section \<open>Arithmetic modulo the prime\<close>

function pow_mod_loop :: "int \<Rightarrow> int \<Rightarrow> int \<Rightarrow> int \<Rightarrow> int" where
  "pow_mod_loop acc b e m =
     (if e \<le> 0 then acc
      else pow_mod_loop (if odd e then acc * b mod m else acc) (b * b mod m) (e div 2) m)"
  by pat_completeness auto
termination
  by (relation "measure (\<lambda>(acc, b, e, m). nat e)") auto

declare pow_mod_loop.simps [simp del]

definition pow_mod :: "int \<Rightarrow> int \<Rightarrow> int \<Rightarrow> int" where
  "pow_mod b e m = pow_mod_loop (1 mod m) (b mod m) e m"

lemma pow_mod_loop_eq: "acc mod m = acc \<Longrightarrow> pow_mod_loop acc b e m = acc * b ^ nat e mod m"
proof (induction acc b e m rule: pow_mod_loop.induct)
  case (1 acc b e m)
  show ?case
  proof (cases "e \<le> 0")
    case True
    then show ?thesis using "1.prems" by (subst pow_mod_loop.simps) simp
  next
    case False
    let ?acc = "if odd e then acc * b mod m else acc"
    have acc: "?acc mod m = ?acc" using "1.prems" by simp
    have e: "nat e = (if odd e then 1 else 0) + 2 * nat (e div 2)"
      using False by (cases "odd e") (auto elim!: oddE evenE simp: nat_add_distrib nat_mult_distrib)
    have "pow_mod_loop acc b e m = ?acc * (b * b mod m) ^ nat (e div 2) mod m"
      using "1.IH" [OF False acc] False by (subst pow_mod_loop.simps) simp
    also have "\<dots> = ?acc * (b * b) ^ nat (e div 2) mod m"
      by (metis mod_mult_right_eq power_mod)
    also have "\<dots> = (if odd e then acc * b else acc) * (b * b) ^ nat (e div 2) mod m"
      by (simp add: mod_mult_left_eq)
    also have "(if odd e then acc * b else acc) * (b * b) ^ nat (e div 2) = acc * b ^ nat e"
      by (subst e) (simp add: power_add power_mult power2_eq_square mult.assoc)
    finally show ?thesis .
  qed
qed

lemma pow_mod_eq: "pow_mod b e m = b ^ nat e mod m"
proof -
  have "pow_mod b e m = 1 mod m * (b mod m) ^ nat e mod m"
    unfolding pow_mod_def by (rule pow_mod_loop_eq) simp
  then show ?thesis by (metis mod_mult_left_eq mult_1 power_mod)
qed

definition curve_p :: int where "curve_p = 2 ^ 255 - 19"
definition curve_q :: int where "curve_q = 2 ^ 252 + 27742317777372353535851937790883648493"
definition curve_d :: int where
  "curve_d = (- 121665 * pow_mod 121666 (curve_p - 2) curve_p) mod curve_p"
definition sqrt_m1 :: int where "sqrt_m1 = pow_mod 2 ((curve_p - 1) div 4) curve_p"

definition p_inv :: "int \<Rightarrow> int" where
  "p_inv x = pow_mod x (curve_p - 2) curve_p"

text \<open>\<open>to_bytes(32, "little")\<close> of a value below \<open>2 ^ 256\<close>, which every caller's value is.\<close>

definition le32 :: "int \<Rightarrow> bytes" where
  "le32 v = rev (be_digits 32 v)"

section \<open>X25519\<close>

definition decode_scalar25519 :: "bytes \<Rightarrow> int res" where
  "decode_scalar25519 k =
     (if length k \<noteq> 32 then Inl (PyE ValueError)
      else (let b = k[0 := k ! 0 AND 248];
                b = b[31 := b ! 31 AND 127];
                b = b[31 := b ! 31 OR 64]
            in Inr (le_int b)))"

text \<open>One iteration of the ladder for the bit \<open>kt\<close>, after the conditional swap.\<close>

definition ladder_step :: "int \<Rightarrow> int \<times> int \<times> int \<times> int \<Rightarrow> int \<times> int \<times> int \<times> int" where
  "ladder_step x1 = (\<lambda>(x2, z2, x3, z3).
     let A = (x2 + z2) mod curve_p;
         AA = A * A mod curve_p;
         B = (x2 - z2) mod curve_p;
         BB = B * B mod curve_p;
         E = (AA - BB) mod curve_p;
         C = (x3 + z3) mod curve_p;
         Dd = (x3 - z3) mod curve_p;
         DA = Dd * A mod curve_p;
         CB = C * B mod curve_p
     in (AA * BB mod curve_p, E * (AA + 121665 * E) mod curve_p,
         (DA + CB) ^ 2 mod curve_p, x1 * ((DA - CB) ^ 2 mod curve_p) mod curve_p))"

definition cswap :: "int \<Rightarrow> int \<times> int \<times> int \<times> int \<Rightarrow> int \<times> int \<times> int \<times> int" where
  "cswap swap = (\<lambda>(x2, z2, x3, z3). if swap \<noteq> 0 then (x3, z3, x2, z2) else (x2, z2, x3, z3))"

definition ladder_loop :: "int \<Rightarrow> int \<Rightarrow> nat list \<Rightarrow> (int \<times> int \<times> int \<times> int) \<times> int \<Rightarrow>
    (int \<times> int \<times> int \<times> int) \<times> int" where
  "ladder_loop scalar x1 = fold (\<lambda>t (s, swap).
     let kt = drop_bit t scalar AND 1 in (ladder_step x1 (cswap (swap XOR kt) s), kt))"

definition x25519 :: "bytes \<Rightarrow> bytes \<Rightarrow> bytes res" where
  "x25519 k u =
     (if length u \<noteq> 32 then Inl (PyE ValueError)
      else bindR (decode_scalar25519 k) (\<lambda>scalar.
        let x1 = le_int u AND (2 ^ 255 - 1);
            (s, swap) = ladder_loop scalar x1 (rev [0..<255]) ((1, 0, x1, 1), 0);
            (x2, z2, x3, z3) = cswap swap s
        in Inr (le32 (x2 * pow_mod z2 (curve_p - 2) curve_p mod curve_p))))"

definition x25519_public :: "bytes \<Rightarrow> bytes res" where
  "x25519_public k = x25519 k (le32 9)"

definition x25519_contributory :: "bytes \<Rightarrow> bytes \<Rightarrow> bytes res" where
  "x25519_contributory k u =
     bindR (x25519 k u) (\<lambda>out. if out = zeros 32 then Inl (CryptoE NonContributory) else Inr out)"

section \<open>The Edwards curve\<close>

type_synonym point = "int \<times> int \<times> int \<times> int"

definition pt_identity :: point where "pt_identity = (0, 1, 1, 0)"

definition pt_add :: "point \<Rightarrow> point \<Rightarrow> point" where
  "pt_add = (\<lambda>(x1, y1, z1, t1) (x2, y2, z2, t2).
     let A = (y1 - x1) * (y2 - x2) mod curve_p;
         B = (y1 + x1) * (y2 + x2) mod curve_p;
         C = 2 * t1 * t2 * curve_d mod curve_p;
         Dd = 2 * z1 * z2 mod curve_p;
         E = B - A; F = Dd - C; G = Dd + C; H = B + A
     in (E * F mod curve_p, G * H mod curve_p, F * G mod curve_p, E * H mod curve_p))"

function pt_mul_loop :: "int \<Rightarrow> point \<Rightarrow> point \<Rightarrow> point" where
  "pt_mul_loop s pt q =
     (if 0 < s then pt_mul_loop (s div 2) (pt_add pt pt) (if s AND 1 \<noteq> 0 then pt_add q pt else q) else q)"
  by pat_completeness auto
termination
  by (relation "measure (\<lambda>(s, pt, q). nat s)") auto

declare pt_mul_loop.simps [simp del]

definition pt_mul :: "int \<Rightarrow> point \<Rightarrow> point" where
  "pt_mul s pt = pt_mul_loop s pt pt_identity"

definition pt_neg :: "point \<Rightarrow> point" where
  "pt_neg = (\<lambda>(x, y, z, t). ((- x) mod curve_p, y, z, (- t) mod curve_p))"

definition is_pt_identity :: "point \<Rightarrow> bool" where
  "is_pt_identity = (\<lambda>(x, y, z, t). x mod curve_p = 0 \<and> (y - z) mod curve_p = 0)"

definition recover_x :: "int \<Rightarrow> int \<Rightarrow> int option" where
  "recover_x y sign =
     (if y \<ge> curve_p then None
      else
        (let x2 = (y * y - 1) * p_inv (curve_d * y * y + 1) mod curve_p
         in if x2 = 0 then (if sign \<noteq> 0 then None else Some 0)
            else
              (let x = pow_mod x2 ((curve_p + 3) div 8) curve_p;
                   x = (if (x * x - x2) mod curve_p \<noteq> 0 then x * sqrt_m1 mod curve_p else x)
               in if (x * x - x2) mod curve_p \<noteq> 0 then None
                  else if x AND 1 \<noteq> sign then Some (curve_p - x) else Some x)))"

definition base_y :: int where "base_y = 4 * p_inv 5 mod curve_p"
definition base_x :: "int option" where "base_x = recover_x base_y 0"

definition BASE :: point where
  "BASE = (let x = the base_x in (x, base_y, 1, x * base_y mod curve_p))"

definition compress :: "point \<Rightarrow> bytes" where
  "compress = (\<lambda>(x, y, z, t).
     let zi = p_inv z; x = x * zi mod curve_p; y = y * zi mod curve_p
     in le32 (y OR push_bit 255 (x AND 1)))"

definition decompress :: "bytes \<Rightarrow> point option" where
  "decompress b =
     (if length b \<noteq> 32 then None
      else
        (let v = le_int b; sign = drop_bit 255 v; y = v AND (2 ^ 255 - 1)
         in case recover_x y sign of None \<Rightarrow> None | Some x \<Rightarrow> Some (x, y, 1, x * y mod curve_p)))"

definition sha512_int :: "bytes \<Rightarrow> int" where
  "sha512_int data = le_int (sha512 data)"

section \<open>Torsion translates\<close>

definition montgomery_lift :: "bytes \<Rightarrow> point option" where
  "montgomery_lift u =
     (let n = le_int u
      in if length u \<noteq> 32 \<or> n \<ge> curve_p \<or> (n + 1) mod curve_p = 0 then None
         else decompress (le32 ((n - 1) * p_inv (n + 1) mod curve_p)))"

fun order_eight_from :: "nat list \<Rightarrow> point res" where
  "order_eight_from [] = Inl (PyE AssertionError)"
| "order_eight_from (y # ys) =
     (case decompress (le32 (int y)) of
        None \<Rightarrow> order_eight_from ys
      | Some r \<Rightarrow>
          (let t = pt_mul curve_q r
           in if \<not> is_pt_identity (pt_mul 4 t) then Inr t else order_eight_from ys))"

definition order_eight_point :: "point res" where
  "order_eight_point = order_eight_from [3..<200]"

definition translate_step :: "point \<Rightarrow> point \<Rightarrow> bytes list \<times> point \<Rightarrow> bytes list \<times> point" where
  "translate_step p t8 = (\<lambda>(out, multiple).
     case pt_add p multiple of (qx, qy, qz, qt) \<Rightarrow>
       (let y = qy * p_inv qz mod curve_p
        in (out @ [le32 ((1 + y) * p_inv (1 - y) mod curve_p)], pt_add multiple t8)))"

text \<open>All translates have 32 bytes, so their byte order is the order of their big-endian values.\<close>

definition torsion_translates :: "bytes \<Rightarrow> bytes list res" where
  "torsion_translates u =
     (case montgomery_lift u of
        None \<Rightarrow> Inr []
      | Some p \<Rightarrow>
          bindR order_eight_point (\<lambda>t8.
            let (out, _) = (translate_step p t8 ^^ 7) ([], t8)
            in Inr (sort_key be_int (filter (\<lambda>x. x \<noteq> u) (remdups out)))))"

definition torsion_related :: "bytes \<Rightarrow> bytes \<Rightarrow> bool" where
  "torsion_related u1 u2 =
     (if u1 = u2 then False
      else
        (case (montgomery_lift u1, montgomery_lift u2) of
           (Some p1, Some p2) \<Rightarrow>
             is_pt_identity (pt_mul 8 (pt_add p1 (pt_neg p2))) \<or> is_pt_identity (pt_mul 8 (pt_add p1 p2))
         | _ \<Rightarrow> False))"

section \<open>Ed25519\<close>

definition ed_expand :: "bytes \<Rightarrow> (int \<times> bytes) res" where
  "ed_expand secret =
     (if length secret \<noteq> 32 then Inl (PyE ValueError)
      else
        (let h = sha512 secret;
             a = le_int (take 32 h);
             a = a AND (2 ^ 254 - 8);
             a = a OR 2 ^ 254
         in Inr (a, drop 32 h)))"

definition ed25519_public :: "bytes \<Rightarrow> bytes res" where
  "ed25519_public secret = bindR (ed_expand secret) (\<lambda>(a, _). Inr (compress (pt_mul a BASE)))"

definition ed25519_sign :: "bytes \<Rightarrow> bytes \<Rightarrow> bytes res" where
  "ed25519_sign secret msg =
     bindR (ed_expand secret) (\<lambda>(a, prefix).
       let A = compress (pt_mul a BASE);
           r = sha512_int (prefix @ msg) mod curve_q;
           R = compress (pt_mul r BASE);
           h = sha512_int (R @ A @ msg) mod curve_q;
           s = (r + h * a) mod curve_q
       in Inr (R @ le32 s))"

definition ed25519_verify :: "bytes \<Rightarrow> bytes \<Rightarrow> bytes \<Rightarrow> bool" where
  "ed25519_verify public msg sig =
     (if length public \<noteq> 32 \<or> length sig \<noteq> 64 then False
      else
        (case decompress public of
           None \<Rightarrow> False
         | Some A \<Rightarrow>
             (let R_bytes = take 32 sig
              in if decompress R_bytes = None then False
                 else
                   (let s = le_int (drop 32 sig)
                    in if s \<ge> curve_q then False
                       else
                         (let h = sha512_int (R_bytes @ public @ msg) mod curve_q
                          in compress (pt_add (pt_mul s BASE) (pt_neg (pt_mul h A))) = R_bytes)))))"

section \<open>XEdDSA\<close>

definition HASH1_PREFIX :: bytes where "HASH1_PREFIX = 0xfe # replicate 31 0xff"

definition xeddsa_sign :: "bytes \<Rightarrow> bytes \<Rightarrow> bytes \<Rightarrow> bytes res" where
  "xeddsa_sign k msg z =
     (if length z \<noteq> 64 then Inl (PyE ValueError)
      else bindR (decode_scalar25519 k) (\<lambda>scalar.
        let e_enc = compress (pt_mul scalar BASE);
            sign = drop_bit 7 (e_enc ! 31);
            a_enc = take 31 e_enc @ [(e_enc ! 31) AND 0x7F];
            a = (if sign \<noteq> 0 then (- scalar) mod curve_q else scalar mod curve_q);
            r = sha512_int (HASH1_PREFIX @ le32 a @ msg @ z) mod curve_q;
            R = compress (pt_mul r BASE);
            h = sha512_int (R @ a_enc @ msg) mod curve_q;
            s = (r + h * a) mod curve_q
        in Inr (R @ le32 s)))"

definition is_small_order :: "point \<Rightarrow> bool" where
  "is_small_order pt = is_pt_identity (pt_mul 8 pt)"

definition in_prime_order_subgroup :: "point \<Rightarrow> bool" where
  "in_prime_order_subgroup pt = is_pt_identity (pt_mul curve_q pt)"

definition edwards_from_u :: "bytes \<Rightarrow> int \<Rightarrow> point option" where
  "edwards_from_u u_bytes sign =
     (if length u_bytes \<noteq> 32 then None
      else
        (let u = le_int u_bytes
         in if u \<ge> curve_p then None
            else if (u + 1) mod curve_p = 0 then None
            else decompress (le32 (((u - 1) * p_inv (u + 1) mod curve_p) OR push_bit 255 sign))))"

definition is_identity_key :: "bytes \<Rightarrow> bool" where
  "is_identity_key u_bytes =
     (if length u_bytes \<noteq> 32 then False
      else (case edwards_from_u u_bytes 0 of None \<Rightarrow> False | Some A \<Rightarrow> in_prime_order_subgroup A))"

definition xeddsa_verify :: "bytes \<Rightarrow> bytes \<Rightarrow> bytes \<Rightarrow> bytes option" where
  "xeddsa_verify u_bytes msg sig =
     (if length u_bytes \<noteq> 32 \<or> length sig \<noteq> 64 then None
      else
        (let sign = uint (drop_bit 7 (sig ! 63));
             s = le_int (take 31 (drop 32 sig) @ [(sig ! 63) AND 0x7F])
         in if s \<ge> curve_q then None
            else
              (case edwards_from_u u_bytes sign of
                 None \<Rightarrow> None
               | Some A \<Rightarrow>
                   if \<not> in_prime_order_subgroup A then None
                   else
                     (let a_enc = compress A; R_bytes = take 32 sig
                      in case decompress R_bytes of
                           None \<Rightarrow> None
                         | Some R \<Rightarrow>
                             if is_small_order R then None
                             else
                               (let h = sha512_int (R_bytes @ a_enc @ msg) mod curve_q
                                in if compress (pt_add (pt_mul s BASE) (pt_neg (pt_mul h A))) \<noteq> R_bytes
                                   then None else Some a_enc)))))"

section \<open>X25519: totality, range and the zero key\<close>

lemma curve_p_pos [simp]: "0 < curve_p" "1 < curve_p" "odd curve_p"
  by (simp_all add: curve_p_def)

lemma curve_p_bits: "curve_p < 2 ^ 255" "curve_p < 256 ^ 32"
  by (simp_all add: curve_p_def)

lemma length_le32 [simp]: "length (le32 v) = 32"
  by (simp add: le32_def)

lemma le_int_le32: "0 \<le> v \<Longrightarrow> v < 256 ^ 32 \<Longrightarrow> le_int (le32 v) = v"
  by (simp only: le32_def le_int_digits_id)

lemma le32_0 [simp]: "le32 0 = zeros 32"
  by (simp add: le32_def zeros_def)

lemma decode_scalar_iff: "decode_scalar25519 k = Inl e \<longleftrightarrow> length k \<noteq> 32 \<and> e = PyE ValueError"
  by (auto simp: decode_scalar25519_def)

lemma decode_scalar_total: "length k = 32 \<Longrightarrow> \<exists>s. decode_scalar25519 k = Inr s"
  by (simp add: decode_scalar25519_def)

lemma x25519_cases:
  "case x25519 k u of Inl e \<Rightarrow> (length k \<noteq> 32 \<or> length u \<noteq> 32) \<and> e = PyE ValueError
   | Inr out \<Rightarrow> length k = 32 \<and> length u = 32 \<and> length out = 32 \<and> le_int out < curve_p"
proof (cases "length u = 32 \<and> length k = 32")
  case True
  then obtain s where s: "decode_scalar25519 k = Inr s" using decode_scalar_total [of k] by blast
  have "le_int (le32 (v mod curve_p)) < curve_p" for v
    using curve_p_bits pos_mod_bound [of curve_p v] pos_mod_sign [of curve_p v]
    by (subst le_int_le32) (simp_all del: pos_mod_bound pos_mod_sign)
  then show ?thesis using True s by (simp add: x25519_def Let_def split: prod.splits)
next
  case False
  then show ?thesis using decode_scalar_iff [of k] by (auto simp: x25519_def decode_scalar25519_def)
qed

text \<open>With \<open>x1 = 0\<close> the ladder keeps one coordinate of each pair zero, so its result is zero.\<close>

definition degenerate :: "int \<times> int \<times> int \<times> int \<Rightarrow> bool" where
  "degenerate = (\<lambda>(x2, z2, x3, z3). (x2 = 0 \<or> z2 = 0) \<and> (x3 = 0 \<or> z3 = 0))"

lemma ladder_step_degenerate:
  "degenerate s \<Longrightarrow> (case ladder_step 0 s of (x2, z2, x3, z3) \<Rightarrow> z2 = 0 \<and> z3 = 0)"
proof -
  assume d: "degenerate s"
  obtain x2 z2 x3 z3 where s: "s = (x2, z2, x3, z3)" by (cases s)
  have sq: "(0 - z) mod m * ((0 - z) mod m) mod m = z mod m * (z mod m) mod m" for z m :: int
    by (simp add: mod_mult_eq)
  show ?thesis using d sq [of z2 curve_p] by (auto simp: s degenerate_def ladder_step_def Let_def)
qed

lemma degenerate_cswap: "degenerate s \<Longrightarrow> degenerate (cswap b s)"
  by (auto simp: degenerate_def cswap_def split: prod.splits)

lemma ladder_loop_degenerate:
  "degenerate s \<Longrightarrow> ts \<noteq> [] \<Longrightarrow>
     case fst (ladder_loop scalar 0 ts (s, b)) of (x2, z2, x3, z3) \<Rightarrow> z2 = 0 \<and> z3 = 0"
proof (induction ts arbitrary: s b)
  case (Cons t ts)
  let ?kt = "drop_bit t scalar AND 1"
  let ?s = "ladder_step 0 (cswap (b XOR ?kt) s)"
  have z: "case ?s of (x2, z2, x3, z3) \<Rightarrow> z2 = 0 \<and> z3 = 0"
    by (rule ladder_step_degenerate [OF degenerate_cswap [OF Cons.prems(1)]])
  then have "degenerate ?s" by (auto simp: degenerate_def split: prod.splits)
  then show ?case
    using z Cons.IH [of ?s ?kt] by (cases "ts = []") (simp_all add: ladder_loop_def Let_def)
qed simp

lemma x25519_zero_key:
  assumes "length k = 32"
  shows "x25519 k (zeros 32) = Inr (zeros 32)"
proof -
  obtain s where s: "decode_scalar25519 k = Inr s" using decode_scalar_total [OF assms] by blast
  have "rev (zeros 32) = zeros 32" by (simp add: zeros_def)
  then have x1: "le_int (zeros 32) AND (2 ^ 255 - 1) = 0" by (simp add: le_int_def)
  obtain st b where run: "ladder_loop s 0 (rev [0..<255]) ((1, 0, 0, 1), 0) = (st, b)"
    by (cases "ladder_loop s 0 (rev [0..<255]) ((1, 0, 0, 1), 0)")
  obtain x2 z2 x3 z3 where c: "cswap b st = (x2, z2, x3, z3)" by (cases "cswap b st")
  have "case st of (x2, z2, x3, z3) \<Rightarrow> z2 = 0 \<and> z3 = 0"
    using ladder_loop_degenerate [of "(1, 0, 0, 1)" "rev [0..<255]" s 0] run
    by (simp add: degenerate_def)
  then have "z2 = 0" using c by (auto simp: cswap_def split: prod.splits if_splits)
  moreover have "pow_mod 0 (curve_p - 2) curve_p = 0" by (simp add: pow_mod_eq curve_p_def power_0_left)
  ultimately show ?thesis by (simp only: x25519_def s x1 run c length_zeros bindR_simps Let_def prod.case) simp
qed

section \<open>The identity-key rule does not depend on the sign\<close>

lemma pt_neg_identity [simp]: "pt_neg pt_identity = pt_identity"
  by (simp add: pt_neg_def pt_identity_def)

lemma mod_neg_mult: "(- a) mod m * b mod m = (- (a * b)) mod m" for a b m :: int
  by (simp add: mod_mult_left_eq)

lemma pt_add_neg: "pt_add (pt_neg p) (pt_neg q) = pt_neg (pt_add p q)"
proof -
  obtain x1 y1 z1 t1 x2 y2 z2 t2 where p: "p = (x1, y1, z1, t1)" and q: "q = (x2, y2, z2, t2)"
    by (cases p; cases q) auto
  let ?n = "\<lambda>x. (- x) mod curve_p"
  have A: "(y1 - ?n x1) * (y2 - ?n x2) mod curve_p = (y1 + x1) * (y2 + x2) mod curve_p"
    by (rule mod_mult_cong) (simp_all add: mod_simps)
  have B: "(y1 + ?n x1) * (y2 + ?n x2) mod curve_p = (y1 - x1) * (y2 - x2) mod curve_p"
    by (rule mod_mult_cong) (simp_all add: mod_simps)
  have "2 * ?n t1 * ?n t2 * curve_d mod curve_p = 2 * (- t1) * (- t2) * curve_d mod curve_p"
    by (intro mod_mult_cong refl) simp_all
  then have C: "2 * ?n t1 * ?n t2 * curve_d mod curve_p = 2 * t1 * t2 * curve_d mod curve_p"
    by simp
  have neg: "(a - b) * c mod curve_p = (- ((b - a) * c mod curve_p)) mod curve_p" for a b c
  proof -
    have "(a - b) * c = - ((b - a) * c)" by (simp add: algebra_simps)
    then show ?thesis by (simp only: mod_minus_eq)
  qed
  have swap: "((a - b) * f mod curve_p, g * (a + b) mod curve_p, f * g mod curve_p, (a - b) * (a + b) mod curve_p) =
      (?n ((b - a) * f mod curve_p), g * (b + a) mod curve_p, f * g mod curve_p, ?n ((b - a) * (b + a) mod curve_p))"
    for a b f g
    by (simp only: add.commute [of a b] neg [of a b])
  show ?thesis
    by (simp only: p q pt_neg_def pt_add_def Let_def prod.case A B C) (rule swap)
qed

lemma pt_mul_loop_neg: "pt_mul_loop s (pt_neg p) (pt_neg q) = pt_neg (pt_mul_loop s p q)"
proof (induction s p q rule: pt_mul_loop.induct)
  case (1 s p q)
  show ?case
    using 1 by (cases "s AND 1 = 0"; cases "0 < s")
      (simp_all add: pt_add_neg pt_mul_loop.simps [of s "pt_neg p" "pt_neg q"] pt_mul_loop.simps [of s p q])
qed

lemma pt_mul_neg: "pt_mul s (pt_neg p) = pt_neg (pt_mul s p)"
  using pt_mul_loop_neg [of s p pt_identity] by (simp add: pt_mul_def)

lemma neg_mod_zero: "((- x) mod m) mod m = 0 \<longleftrightarrow> x mod m = 0" for x m :: int
  by (simp only: mod_mod_trivial dvd_eq_mod_eq_0 [symmetric] dvd_minus_iff)

lemma is_pt_identity_neg: "is_pt_identity (pt_neg p) \<longleftrightarrow> is_pt_identity p"
  by (cases p) (simp only: is_pt_identity_def pt_neg_def prod.case neg_mod_zero)

lemma prime_order_neg: "in_prime_order_subgroup (pt_neg p) \<longleftrightarrow> in_prime_order_subgroup p"
  by (simp add: in_prime_order_subgroup_def pt_mul_neg is_pt_identity_neg)

text \<open>The two square roots: the point of sign 1 is the negative of the point of sign 0.\<close>

lemma and_1_mod_2: "x AND 1 = x mod 2" for x :: int
  by (simp add: and_one_eq)

definition root_of :: "int \<Rightarrow> int" where
  "root_of x2 =
     (let x = pow_mod x2 ((curve_p + 3) div 8) curve_p
      in if (x * x - x2) mod curve_p \<noteq> 0 then x * sqrt_m1 mod curve_p else x)"

lemma root_of_range: "0 \<le> root_of x2" "root_of x2 < curve_p"
  by (simp_all add: root_of_def Let_def pow_mod_eq)

lemma recover_x_root:
  "recover_x y sign =
     (if y \<ge> curve_p then None
      else
        (let x2 = (y * y - 1) * p_inv (curve_d * y * y + 1) mod curve_p
         in if x2 = 0 then (if sign \<noteq> 0 then None else Some 0)
            else if (root_of x2 * root_of x2 - x2) mod curve_p \<noteq> 0 then None
            else if root_of x2 AND 1 \<noteq> sign then Some (curve_p - root_of x2) else Some (root_of x2)))"
  by (simp only: recover_x_def root_of_def Let_def)

lemma neg_mod_range:
  assumes "0 < r" "r < curve_p"
  shows "(- r) mod curve_p = curve_p - r" "(- (curve_p - r)) mod curve_p = r"
proof -
  show "(- r) mod curve_p = curve_p - r" using assms by (simp add: zmod_zminus1_eq_if)
  have "(- (curve_p - r)) mod curve_p = (r - curve_p) mod curve_p" by (simp only: minus_diff_eq)
  then show "(- (curve_p - r)) mod curve_p = r" using assms by simp
qed

lemma recover_x_sign:
  assumes "recover_x y 1 = Some x"
  shows "\<exists>x0. recover_x y 0 = Some x0 \<and> x = (- x0) mod curve_p"
proof -
  define x2 where "x2 = (y * y - 1) * p_inv (curve_d * y * y + 1) mod curve_p"
  define r where "r = root_of x2"
  note rx = recover_x_root [of y, folded x2_def, unfolded Let_def, folded r_def]
  have range: "0 \<le> r" "r < curve_p" using root_of_range [of x2] by (simp_all only: r_def)
  have x2: "0 \<le> x2" "x2 < curve_p" by (simp_all add: x2_def)
  have y: "\<not> y \<ge> curve_p" and x2: "x2 \<noteq> 0" "0 \<le> x2" "x2 < curve_p" and root: "(r * r - x2) mod curve_p = 0"
    and x: "x = (if r AND 1 \<noteq> 1 then curve_p - r else r)"
    using assms x2 by (simp_all add: rx split: if_splits)
  have "r \<noteq> 0"
  proof
    assume "r = 0"
    then have "(- x2) mod curve_p = 0" using root by simp
    then show False using x2 neg_mod_range(1) [of x2] by simp
  qed
  with range have pos: "0 < r" by simp
  have zero: "recover_x y 0 = Some (if r AND 1 \<noteq> 0 then curve_p - r else r)"
    using y x2 root by (simp add: rx)
  have bit: "r AND 1 = 0 \<or> r AND 1 = 1" by (simp add: and_1_mod_2) presburger
  show ?thesis using bit zero neg_mod_range [OF pos range(2)] unfolding x by auto
qed

lemma mod_mult_neg: "(- a) mod m * y mod m = (- (a * y mod m)) mod m" for a m y :: int
  by (simp add: mod_mult_left_eq mod_minus_eq)

lemma and_mask: "v AND (2 ^ n - 1) = v mod 2 ^ n" for v :: int
  by (simp only: mask_eq_exp_minus_1 [symmetric] take_bit_eq_mask [symmetric] take_bit_eq_mod)

definition signed_y :: "int \<Rightarrow> int \<Rightarrow> bytes" where
  "signed_y y sign = le32 (y OR push_bit 255 sign)"

lemma decompress_signed_y:
  assumes "0 \<le> y" "y < curve_p" "sign = 0 \<or> sign = 1"
  shows "decompress (signed_y y sign) =
    (case recover_x y sign of None \<Rightarrow> None | Some x \<Rightarrow> Some (x, y, 1, x * y mod curve_p))"
proof -
  have y: "y < 2 ^ 255" using assms curve_p_bits by simp
  have v: "y OR push_bit 255 sign = y + sign * 2 ^ 255"
    using assms y by (intro or_push_bit) simp_all
  have "le_int (signed_y y sign) = y + sign * 2 ^ 255"
    using assms(1,3) y unfolding signed_y_def v by (intro le_int_le32) auto
  moreover have "drop_bit 255 (y + sign * 2 ^ 255) = sign" "(y + sign * 2 ^ 255) AND (2 ^ 255 - 1) = y"
    using assms(1) y by (simp_all only: and_mask drop_bit_eq_div) simp_all
  ultimately show ?thesis by (simp only: decompress_def signed_y_def length_le32 Let_def) simp
qed

text \<open>A signature verifies only under an identity key, although it reads the other sign of the point.\<close>

lemma xeddsa_verify_identity:
  assumes "xeddsa_verify u msg sig = Some a"
  shows "is_identity_key u"
proof -
  let ?y = "(le_int u - 1) * p_inv (le_int u + 1) mod curve_p" and ?sign = "uint (drop_bit 7 (sig ! 63))"
  obtain A where len: "length u = 32" and ed: "edwards_from_u u ?sign = Some A"
    and prime: "in_prime_order_subgroup A"
    using assms by (auto simp: xeddsa_verify_def Let_def split: if_splits option.splits)
  have y: "0 \<le> ?y" "?y < curve_p" by simp_all
  have "?sign = uint (sig ! 63) div 128"
    using uint_byte_bounds [of "sig ! 63"]
    by (simp only: unsigned_drop_bit_eq take_bit_int_eq_self) (simp add: drop_bit_eq_div take_bit_int_eq_self)
  then have "?sign < 2" using uint_byte_bounds [of "sig ! 63"] by (simp add: div_less_iff_less_mult)
  then have sign: "?sign = 0 \<or> ?sign = 1" using uint_byte_bounds [of "drop_bit 7 (sig ! 63)"] by linarith
  have form: "edwards_from_u u s = decompress (signed_y ?y s)" for s
    using ed len by (auto simp: edwards_from_u_def signed_y_def Let_def split: if_splits)
  have "\<exists>B. edwards_from_u u 0 = Some B \<and> in_prime_order_subgroup B"
  proof (cases "?sign = 0")
    case True
    then show ?thesis using ed prime by auto
  next
    case False
    then have one: "?sign = 1" using sign by simp
    then obtain x where x: "recover_x ?y 1 = Some x" and A: "A = (x, ?y, 1, x * ?y mod curve_p)"
      using ed form [of 1] decompress_signed_y [OF y, of 1] by (auto split: option.splits)
    obtain x0 where x0: "recover_x ?y 0 = Some x0" "x = (- x0) mod curve_p" using recover_x_sign [OF x] by blast
    have "A = pt_neg (x0, ?y, 1, x0 * ?y mod curve_p)"
      by (simp only: A x0(2) pt_neg_def prod.case mod_mult_neg)
    then show ?thesis using prime x0(1) form [of 0] decompress_signed_y [OF y, of 0] by (simp add: prime_order_neg)
  qed
  then show ?thesis using len by (auto simp: is_identity_key_def)
qed

lemma identity_key_canonical: "is_identity_key u \<Longrightarrow> length u = 32 \<and> le_int u < curve_p"
  by (auto simp: is_identity_key_def edwards_from_u_def Let_def split: if_splits option.splits)

end
