(* ===== verification/Bytes_Order.thy ===== *)
theory Bytes_Order
  imports Prelude
begin

text \<open>
  Python's order on \<open>bytes\<close>: unsigned, from the first byte, a proper prefix before its extensions.
\<close>

fun bytes_lt :: "bytes \<Rightarrow> bytes \<Rightarrow> bool" where
  "bytes_lt [] ys = (ys \<noteq> [])"
| "bytes_lt (x # xs) [] = False"
| "bytes_lt (x # xs) (y # ys) = (x < y \<or> x = y \<and> bytes_lt xs ys)"

definition bytes_le :: "bytes \<Rightarrow> bytes \<Rightarrow> bool" where
  "bytes_le a b \<longleftrightarrow> \<not> bytes_lt b a"

lemma bytes_lt_irrefl [simp]: "\<not> bytes_lt a a"
  by (induction a) auto

lemma bytes_lt_trans: "bytes_lt a b \<Longrightarrow> bytes_lt b c \<Longrightarrow> bytes_lt a c"
proof (induction a b arbitrary: c rule: bytes_lt.induct)
  case (1 ys)
  then show ?case by (cases ys; cases c) auto
next
  case (3 x xs y ys)
  then show ?case by (cases c) (auto dest: less_trans)
qed simp

lemma bytes_lt_asym: "bytes_lt a b \<Longrightarrow> \<not> bytes_lt b a"
  using bytes_lt_trans [of a b a] by auto

lemma bytes_lt_total: "a \<noteq> b \<Longrightarrow> bytes_lt a b \<or> bytes_lt b a"
proof (induction a b rule: bytes_lt.induct)
  case (1 ys)
  then show ?case by (cases ys) auto
qed auto

lemma bytes_le_antisym: "bytes_le a b \<Longrightarrow> bytes_le b a \<Longrightarrow> a = b"
  using bytes_lt_total [of a b] by (auto simp: bytes_le_def)

text \<open>Strictly ascending lists, as \<open>all(a < b for a, b in zip(xs, xs[1:]))\<close> says it.\<close>

fun ascending :: "('a \<Rightarrow> 'a \<Rightarrow> bool) \<Rightarrow> 'a list \<Rightarrow> bool" where
  "ascending lt [] = True"
| "ascending lt [x] = True"
| "ascending lt (x # y # xs) = (lt x y \<and> ascending lt (y # xs))"

lemma ascending_sorted_wrt: "transp lt \<Longrightarrow> ascending lt xs \<longleftrightarrow> sorted_wrt lt xs"
proof (induction lt xs rule: ascending.induct)
  case (3 lt x y xs)
  then show ?case using transpD [OF "3.prems"] by fastforce
qed simp_all

lemma transp_bytes_lt: "transp bytes_lt"
  by (rule transpI) (rule bytes_lt_trans)

lemmas ascending_bytes = ascending_sorted_wrt [OF transp_bytes_lt]

lemma ascending_distinct: "ascending bytes_lt xs \<Longrightarrow> distinct xs"
  unfolding ascending_bytes by (induction xs) auto

lemma ascending_zip: "ascending lt xs \<longleftrightarrow> list_all (\<lambda>(a, b). lt a b) (zip xs (tl xs))"
  by (induction lt xs rule: ascending.induct) auto

text \<open>A set has one strictly ascending list.\<close>

lemma ascending_unique:
  assumes "ascending bytes_lt xs" "ascending bytes_lt ys" "set xs = set ys"
  shows "xs = ys"
proof -
  have s: "sorted_wrt bytes_lt xs" "sorted_wrt bytes_lt ys"
    using assms by (simp_all add: ascending_bytes)
  show ?thesis using s assms(3)
  proof (induction xs arbitrary: ys)
    case (Cons x xs)
    then obtain y ys' where ys: "ys = y # ys'" by (cases ys) auto
    have "x = y"
    proof (rule ccontr)
      assume ne: "x \<noteq> y"
      then have "y \<in> set xs" "x \<in> set ys'" using Cons.prems(3) by (auto simp: ys)
      then have "bytes_lt x y" "bytes_lt y x" using Cons.prems(1,2) by (auto simp: ys)
      then show False using bytes_lt_asym by blast
    qed
    moreover have "x \<notin> set xs" "y \<notin> set ys'" using Cons.prems(1,2) by (auto simp: ys)
    ultimately have "set xs = set ys'" using Cons.prems(3) by (auto simp: ys)
    then show ?case using Cons \<open>x = y\<close> by (simp add: ys)
  qed auto
qed

end
