(* ===== verification/Identity.thy ===== *)
theory Identity
  imports Wire Curve25519
begin

text \<open>
  Identities and application signatures (\<open>tacenta_reader/identity.py\<close>): the identity-key rule at the
  boundaries that admit a long-lived key, and signatures under the application label.
\<close>

definition public_key :: "bytes \<Rightarrow> bytes res" where
  "public_key identity_secret =
     (if length identity_secret \<noteq> 32 then Inl (PyE ValueError) else x25519_public identity_secret)"

definition application_input :: "bytes \<Rightarrow> bytes" where
  "application_input message = APP_SIGNATURE_PREFIX @ message"

definition sign_application :: "bytes \<Rightarrow> bytes \<Rightarrow> bytes \<Rightarrow> bytes res" where
  "sign_application identity_secret message z =
     (if length identity_secret \<noteq> 32 then Inl (PyE ValueError)
      else xeddsa_sign identity_secret (application_input message) z)"

definition verify_application :: "bytes \<Rightarrow> bytes \<Rightarrow> bytes \<Rightarrow> bool" where
  "verify_application identity_public message signature =
     (if \<not> is_identity_key identity_public then False
      else xeddsa_verify identity_public (application_input message) signature \<noteq> None)"

definition admit_identity_key :: "bytes \<Rightarrow> bool \<Rightarrow> bytes res" where
  "admit_identity_key key read_from_bytes =
     (if read_from_bytes \<and> \<not> is_canonical_curve_key key then Inl (WireE DecodeError)
      else if \<not> is_identity_key key then Inl (WireE InvalidIdentityKey)
      else Inr key)"

lemma curve_p_eq: "CURVE25519_P = curve_p"
  by (simp add: const_defs curve_p_def)

text \<open>An identity key is canonical, so the canonical rule only decides which refusal is given.\<close>

lemma identity_key_is_canonical: "is_identity_key k \<Longrightarrow> is_canonical_curve_key k"
  using identity_key_canonical [of k] by (simp add: is_canonical_curve_key_def curve_p_eq)

lemma admit_identity_key_iff: "admit_identity_key k rd = Inr k' \<longleftrightarrow> is_identity_key k \<and> k' = k"
  using identity_key_is_canonical [of k] by (auto simp: admit_identity_key_def)

lemma verify_application_iff:
  "verify_application k m sig \<longleftrightarrow> xeddsa_verify k (application_input m) sig \<noteq> None"
  using xeddsa_verify_identity [of k "application_input m" sig]
  by (cases "xeddsa_verify k (application_input m) sig") (simp_all add: verify_application_def)

text \<open>The label ends in a byte no message of another domain starts with, so inputs are never shared.\<close>

lemma application_input_inj: "application_input m = application_input m' \<longleftrightarrow> m = m'"
  by (simp add: application_input_def)

end
