(* ===== verification/Records.thy ===== *)
theory Records
  imports Identity Bytes_Order
begin

text \<open>
  Contact records, expectations and attribution (\<open>tacenta_reader/records.py\<close>), and the checks the
  initiator makes of a bundle before anything is drawn (\<open>wire.initiator_check_bundle\<close>).
\<close>

section \<open>The presented key and the pair digest\<close>

definition admit_presented_key :: "bytes \<Rightarrow> bytes res" where
  "admit_presented_key k =
     (if \<not> is_canonical_curve_key k then Inl (WireE DecodeError)
      else if \<not> is_identity_key k then Inl (WireE InvalidIdentityKey)
      else Inr k)"

definition identity_pair_digest :: "bytes \<Rightarrow> bytes \<Rightarrow> bytes res" where
  "identity_pair_digest k1 k2 =
     bindR (admit_presented_key k1) (\<lambda>k1.
     bindR (admit_presented_key k2) (\<lambda>k2.
       let (lo, hi) = (if bytes_le k1 k2 then (k1, k2) else (k2, k1))
       in Inr (sha256 (PAIR_DIGEST_LABEL @ lo @ hi))))"

text \<open>Python's \<open>str\<close> of a nonnegative integer, and \<open>rjust\<close>.\<close>

definition digit_char :: "int \<Rightarrow> char" where
  "digit_char d = ''0123456789'' ! nat d"

fun dec_str :: "int \<Rightarrow> string" where
  "dec_str n = (if n < 10 then [digit_char n] else dec_str (n div 10) @ [digit_char (n mod 10)])"

declare dec_str.simps [simp del]

definition rjust :: "nat \<Rightarrow> char \<Rightarrow> string \<Rightarrow> string" where
  "rjust w c s = replicate (w - length s) c @ s"

definition verification_number :: "bytes \<Rightarrow> string res" where
  "verification_number digest =
     (if length digest \<noteq> 32 then Inl (PyE ValueError)
      else Inr (rjust VERIFICATION_NUMBER_DIGITS CHR ''0''
             (dec_str (be_int digest mod 10 ^ VERIFICATION_NUMBER_DIGITS))))"

definition verification_number_groups :: "string \<Rightarrow> string list res" where
  "verification_number_groups number =
     (if length number \<noteq> VERIFICATION_NUMBER_DIGITS then Inl (PyE AssertionError)
      else Inr (blocks_of 5 number))"

section \<open>Records\<close>

record contact_record =
  rec_current :: "bytes set"
  rec_retired :: "bytes set"

definition record_of :: "bytes list \<Rightarrow> bytes list \<Rightarrow> contact_record" where
  "record_of current retired = \<lparr> rec_current = set current, rec_retired = set retired \<rparr>"

definition holds_record :: "contact_record \<Rightarrow> bool" where
  "holds_record r \<longleftrightarrow> rec_current r \<noteq> {} \<or> rec_retired r \<noteq> {}"

definition is_wellformed :: "contact_record \<Rightarrow> bool" where
  "is_wellformed r \<longleftrightarrow> (\<forall>m \<in> rec_current r \<union> rec_retired r. is_canonical_curve_key m)"

datatype key_class = SAME | NEW | RETIRED

definition classify :: "bytes \<Rightarrow> contact_record \<Rightarrow> key_class res" where
  "classify k r =
     bindR (admit_presented_key k) (\<lambda>k.
     if \<not> is_wellformed r then Inl (RecordE MalformedRecord)
     else if k \<in> rec_retired r then Inr RETIRED
     else if k \<in> rec_current r then Inr SAME
     else Inr NEW)"

datatype attribution = UNATTRIBUTED | CONTACT | AMBIGUOUS | RETIRED_KEY

record lookup_result =
  lr_attribution :: attribution
  lr_contact :: "nat option"
  lr_retired_for :: "nat list"
  lr_malformed :: "nat list"
  lr_same_for :: "nat list"

text \<open>The loop over the records: the three lists, in record order.\<close>

fun lookup_loop ::
  "bytes \<Rightarrow> (nat \<times> contact_record) list \<Rightarrow> nat list \<times> nat list \<times> nat list \<Rightarrow>
     (nat list \<times> nat list \<times> nat list) res" where
  "lookup_loop k [] acc = Inr acc"
| "lookup_loop k ((n, r) # rs) (same, retired, malformed) =
     (case classify k r of
        Inl e \<Rightarrow>
          if e = RecordE MalformedRecord then lookup_loop k rs (same, retired, malformed @ [n]) else Inl e
      | Inr SAME \<Rightarrow> lookup_loop k rs (same @ [n], retired, malformed)
      | Inr RETIRED \<Rightarrow> lookup_loop k rs (same, retired @ [n], malformed)
      | Inr NEW \<Rightarrow> lookup_loop k rs (same, retired, malformed))"

definition lookup :: "bytes \<Rightarrow> contact_record list \<Rightarrow> lookup_result res" where
  "lookup k records =
     bindR (admit_presented_key k) (\<lambda>k.
     bindR (lookup_loop k (enumerate 0 records) ([], [], [])) (\<lambda>(same, retired, malformed).
       let (at, contact) =
         (if length same = 1 then (CONTACT, Some (same ! 0))
          else if length same > 1 then (AMBIGUOUS, None)
          else if retired \<noteq> [] then (RETIRED_KEY, None)
          else (UNATTRIBUTED, None))
       in Inr \<lparr> lr_attribution = at, lr_contact = contact, lr_retired_for = retired,
                lr_malformed = malformed, lr_same_for = same \<rparr>))"

definition attributed_contact :: "bytes \<Rightarrow> contact_record list \<Rightarrow> nat option res" where
  "attributed_contact peer_identity records =
     bindR (lookup peer_identity records) (\<lambda>result.
       Inr (if lr_attribution result = CONTACT then lr_contact result else None))"

section \<open>Expectations\<close>

datatype expectation = Known contact_record | FirstContact "contact_record list"

definition check_expectation_wellformed :: "expectation \<Rightarrow> unit res" where
  "check_expectation_wellformed ex =
     (case ex of
        Known r \<Rightarrow>
          if \<not> holds_record r then Inl (RecordE MalformedRecord)
          else if \<not> is_wellformed r then Inl (RecordE MalformedRecord)
          else Inr ()
      | FirstContact rs \<Rightarrow>
          if list_ex (\<lambda>r. \<not> is_wellformed r) rs then Inl (RecordE MalformedRecord) else Inr ())"

definition check_bundle_identity :: "expectation \<Rightarrow> bytes \<Rightarrow> unit res" where
  "check_bundle_identity ex ikb =
     (case ex of
        Known r \<Rightarrow>
          bindR (classify ikb r) (\<lambda>cls.
          if cls = RETIRED then Inl (RecordE RetiredIdentity)
          else if cls = NEW then Inl (RecordE UnexpectedIdentity)
          else Inr ())
      | FirstContact rs \<Rightarrow>
          bindR (lookup ikb rs) (\<lambda>result.
          if lr_attribution result = CONTACT \<or> lr_attribution result = AMBIGUOUS
          then Inl (RecordE UnexpectedIdentity)
          else if lr_attribution result = RETIRED_KEY then Inl (RecordE RetiredIdentity)
          else Inr ()))"

section \<open>The initiator's checks of a bundle\<close>

text \<open>\<open>verify\<close> is \<open>xeddsa_verify\<close> unless the caller hands in another; \<open>None\<close> takes the key's own length.\<close>

definition initiator_check_bundle ::
  "prekey_bundle \<Rightarrow> expectation \<Rightarrow> (bytes \<Rightarrow> bytes \<Rightarrow> bytes \<Rightarrow> bytes option) \<Rightarrow> int option \<Rightarrow> unit res" where
  "initiator_check_bundle b ex verify kem_prekey_len =
     bindR (check_expectation_wellformed ex) (\<lambda>_.
     if \<not> is_canonical_curve_key (pb_identity_key b) \<or> \<not> is_canonical_curve_key (pb_signed_prekey b)
        \<or> (case pb_one_time_prekey b of None \<Rightarrow> False | Some k \<Rightarrow> \<not> is_canonical_curve_key k)
     then Inl (WireE NonCanonicalBundleKey)
     else if (pb_one_time_prekey b \<noteq> None) \<noteq> (pb_one_time_prekey_id b \<noteq> ABSENT_ID)
     then Inl (WireE InconsistentBundle)
     else
       bindR (check_bundle_identity ex (pb_identity_key b)) (\<lambda>_.
       if \<not> is_identity_key (pb_identity_key b) then Inl (WireE InvalidIdentityKey)
       else
         bindR (encode_ec (pb_signed_prekey b)) (\<lambda>spk.
         if verify (pb_identity_key b) spk (pb_signed_prekey_signature b) = None
         then Inl (WireE BundleSignatureFails)
         else
           (let width = (case kem_prekey_len of None \<Rightarrow> int (length (pb_kem_prekey b)) | Some w \<Rightarrow> w)
            in bindR (encode_kem (pb_kem_prekey b) width) (\<lambda>kem.
               if verify (pb_identity_key b) kem (pb_kem_prekey_signature b) = None
               then Inl (WireE BundleSignatureFails)
               else Inr ())))))"

section \<open>The pair digest and its number\<close>

lemma admit_presented_key_iff [res_iff]: "admit_presented_key k = Inr k' \<longleftrightarrow> is_identity_key k \<and> k' = k"
  using identity_key_is_canonical [of k] by (auto simp: admit_presented_key_def)

lemma pair_digest_iff:
  "identity_pair_digest k1 k2 = Inr d \<longleftrightarrow> is_identity_key k1 \<and> is_identity_key k2 \<and>
     d = sha256 (PAIR_DIGEST_LABEL @ (if bytes_le k1 k2 then k1 @ k2 else k2 @ k1))"
  by (auto simp: identity_pair_digest_def res_iff)

lemma pair_digest_refused:
  "identity_pair_digest k1 k2 = Inl err \<Longrightarrow>
     \<exists>k \<in> {k1, k2}. \<not> is_identity_key k \<and> err = WireE (if is_canonical_curve_key k then InvalidIdentityKey else DecodeError)"
  using identity_key_is_canonical [of k1] identity_key_is_canonical [of k2]
  by (auto simp: identity_pair_digest_def bindR_Inl_iff admit_presented_key_def Let_def split: if_splits)

lemma pair_digest_commutes: "identity_pair_digest k1 k2 = Inr d \<longleftrightarrow> identity_pair_digest k2 k1 = Inr d"
  using bytes_le_antisym [of k1 k2] bytes_lt_asym [of k1 k2]
  by (cases "k1 = k2") (auto simp: pair_digest_iff bytes_le_def)

definition digit_value :: "char \<Rightarrow> int" where
  "digit_value c = int (length (takeWhile (\<lambda>d. d \<noteq> c) ''0123456789''))"

definition read_decimal :: "string \<Rightarrow> int" where
  "read_decimal s = foldl (\<lambda>a c. 10 * a + digit_value c) 0 s"

lemma digit_char_value:
  assumes "0 \<le> d" "d < 10"
  shows "digit_value (digit_char d) = d" "digit_char d \<in> set ''0123456789''"
proof -
  have "d \<in> {0, 1, 2, 3, 4, 5, 6, 7, 8, 9}" using assms by (simp only: insert_iff empty_iff) arith
  then show "digit_value (digit_char d) = d" "digit_char d \<in> set ''0123456789''"
    by (elim insertE emptyE; simp add: digit_value_def digit_char_def)+
qed

lemma dec_str_props:
  "0 \<le> n \<Longrightarrow> read_decimal (dec_str n) = n \<and> set (dec_str n) \<subseteq> set ''0123456789''
     \<and> (n < 10 ^ w \<longrightarrow> 0 < w \<longrightarrow> length (dec_str n) \<le> w)"
proof (induction n arbitrary: w rule: dec_str.induct)
  case (1 n)
  show ?case
  proof (cases "n < 10")
    case True
    then show ?thesis
      using digit_char_value [of n] "1.prems" by (subst (1 2 3) dec_str.simps) (simp add: read_decimal_def)
  next
    case False
    have IH: "read_decimal (dec_str (n div 10)) = n div 10 \<and> set (dec_str (n div 10)) \<subseteq> set ''0123456789''
        \<and> (n div 10 < 10 ^ v \<longrightarrow> 0 < v \<longrightarrow> length (dec_str (n div 10)) \<le> v)" for v
      using "1.IH" [OF False, of v] "1.prems" by simp
    note d = digit_char_value [of "n mod 10", simplified]
    have len: "length (dec_str n) \<le> w" if w: "n < 10 ^ w" "0 < w"
    proof (cases w)
      case (Suc v)
      then have "n div 10 < 10 ^ v" using w by (simp add: div_less_iff_less_mult)
      moreover have "0 < v" using w False Suc by (cases v) auto
      ultimately show ?thesis using IH [of v] Suc False by (subst dec_str.simps) simp
    qed (use w in simp)
    have "read_decimal (dec_str n) = n" "set (dec_str n) \<subseteq> set ''0123456789''"
      using IH [of 0] d False by (subst dec_str.simps; simp add: read_decimal_def)+
    with len show ?thesis by blast
  qed
qed

lemma read_decimal_zeros: "read_decimal (replicate k CHR ''0'' @ s) = read_decimal s"
  by (induction k) (simp_all add: read_decimal_def digit_value_def)

text \<open>Sixty digits, whose value is the digest's number modulo \<open>10 ^ 60\<close>, in twelve groups of five.\<close>

lemma verification_number_spec:
  assumes "length digest = 32"
  shows "\<exists>s. verification_number digest = Inr s \<and> length s = 60 \<and> set s \<subseteq> set ''0123456789''
     \<and> read_decimal s = be_int digest mod 10 ^ 60
     \<and> (\<exists>gs. verification_number_groups s = Inr gs \<and> length gs = 12 \<and> concat gs = s
          \<and> list_all (\<lambda>g. length g = 5) gs)"
proof -
  let ?n = "be_int digest mod 10 ^ 60"
  let ?d = "dec_str ?n"
  let ?s = "rjust VERIFICATION_NUMBER_DIGITS CHR ''0'' ?d"
  have n: "0 \<le> ?n" "?n < 10 ^ 60" by simp_all
  have d: "read_decimal ?d = ?n" "set ?d \<subseteq> set ''0123456789''" "length ?d \<le> 60"
    using dec_str_props [OF n(1), of 60] dec_str_props [OF n(1), THEN conjunct2, THEN conjunct2, rule_format, OF n(2)]
    by simp_all
  have s: "verification_number digest = Inr ?s" using assms by (simp add: verification_number_def)
  have len: "length ?s = 60" using d(3) by (simp add: rjust_def)
  have "set ?s \<subseteq> set ''0123456789''" using d(2) by (auto simp: rjust_def)
  moreover have "read_decimal ?s = ?n" by (simp only: rjust_def read_decimal_zeros d(1))
  moreover have "verification_number_groups ?s = Inr (blocks_of 5 ?s)"
    using len by (simp add: verification_number_groups_def)
  moreover have "length (blocks_of 5 ?s) = 12" using len by (subst length_blocks_of) simp_all
  moreover have "concat (blocks_of 5 ?s) = ?s" by (rule concat_blocks_of) simp
  moreover have "list_all (\<lambda>g. length g = 5) (blocks_of 5 ?s)"
    using len length_blocks_of_dvd [of 5 ?s] by (simp add: list_all_iff)
  ultimately show ?thesis using s len by blast
qed

section \<open>What classification, lookup and the expectation decide\<close>

definition same_in :: "bytes \<Rightarrow> contact_record \<Rightarrow> bool" where
  "same_in k r \<longleftrightarrow> is_wellformed r \<and> k \<in> rec_current r \<and> k \<notin> rec_retired r"

definition retired_in :: "bytes \<Rightarrow> contact_record \<Rightarrow> bool" where
  "retired_in k r \<longleftrightarrow> is_wellformed r \<and> k \<in> rec_retired r"

lemma classify_iff:
  "classify k r = Inr SAME \<longleftrightarrow> is_identity_key k \<and> same_in k r"
  "classify k r = Inr RETIRED \<longleftrightarrow> is_identity_key k \<and> retired_in k r"
  by (auto simp: classify_def res_iff same_in_def retired_in_def)

definition hits :: "('a \<Rightarrow> bool) \<Rightarrow> (nat \<times> 'a) list \<Rightarrow> nat list" where
  "hits Q xs = map fst (filter (\<lambda>(n, r). Q r) xs)"

lemma lookup_loop_eq:
  "is_identity_key k \<Longrightarrow> lookup_loop k rs (a, b, c) =
     Inr (a @ hits (same_in k) rs, b @ hits (retired_in k) rs, c @ hits (\<lambda>r. \<not> is_wellformed r) rs)"
proof (induction rs arbitrary: a b c)
  case (Cons nr rs)
  obtain n r where nr: "nr = (n, r)" by (cases nr)
  have k: "admit_presented_key k = Inr k" using Cons.prems by (simp add: admit_presented_key_iff)
  show ?case
    using Cons by (auto simp: nr classify_def k hits_def same_in_def retired_in_def)
qed (simp add: hits_def)

lemma lookup_eq:
  assumes "is_identity_key k"
  shows "lookup k rs =
    (let same = hits (same_in k) (enumerate 0 rs); retired = hits (retired_in k) (enumerate 0 rs);
         (at, contact) = (if length same = 1 then (CONTACT, Some (same ! 0))
           else if length same > 1 then (AMBIGUOUS, None)
           else if retired \<noteq> [] then (RETIRED_KEY, None) else (UNATTRIBUTED, None))
     in Inr \<lparr> lr_attribution = at, lr_contact = contact, lr_retired_for = retired,
              lr_malformed = hits (\<lambda>r. \<not> is_wellformed r) (enumerate 0 rs), lr_same_for = same \<rparr>)"
proof -
  have "admit_presented_key k = Inr k" using assms by (simp add: admit_presented_key_iff)
  then show ?thesis by (simp add: lookup_def lookup_loop_eq [OF assms] Let_def)
qed

lemma set_hits: "set (hits Q (enumerate 0 xs)) = {n. n < length xs \<and> Q (xs ! n)}"
  by (auto simp: hits_def in_set_enumerate_eq image_iff)

lemma distinct_hits: "distinct (hits Q (enumerate 0 xs))"
  by (simp add: hits_def distinct_map_filter)

lemma hits_single: "hits Q (enumerate 0 xs) = [n] \<longleftrightarrow> (\<forall>m. m < length xs \<and> Q (xs ! m) \<longleftrightarrow> m = n)"
proof -
  have "hits Q (enumerate 0 xs) = [n] \<longleftrightarrow> set (hits Q (enumerate 0 xs)) = {n}"
    using distinct_hits [of Q xs] by (cases "hits Q (enumerate 0 xs)") (auto simp: subset_singleton_iff)
  then show ?thesis by (auto simp: set_hits)
qed

text \<open>A session is a contact's exactly when that contact alone holds the key as current.\<close>

lemma attributed_contact_iff:
  "attributed_contact k rs = Inr (Some n) \<longleftrightarrow>
     is_identity_key k \<and> (\<forall>m. m < length rs \<and> same_in k (rs ! m) \<longleftrightarrow> m = n)"
proof (cases "is_identity_key k")
  case True
  let ?h = "hits (same_in k) (enumerate 0 rs)"
  have "attributed_contact k rs = Inr (Some n) \<longleftrightarrow> ?h = [n]"
    by (cases ?h rule: remdups_adj.cases)
      (auto simp: attributed_contact_def lookup_eq [OF True] Let_def split: if_splits)
  then show ?thesis using True hits_single by simp
next
  case False
  then show ?thesis by (auto simp: attributed_contact_def lookup_def res_iff)
qed

lemma check_bundle_identity_iff:
  "check_bundle_identity ex k = Inr () \<longleftrightarrow> is_identity_key k \<and>
     (case ex of Known r \<Rightarrow> same_in k r
      | FirstContact rs \<Rightarrow> (\<forall>r \<in> set rs. \<not> same_in k r \<and> \<not> retired_in k r))"
proof (cases ex)
  case (Known r)
  have "check_bundle_identity ex k = Inr () \<longleftrightarrow> classify k r = Inr SAME"
  proof (cases "classify k r")
    case (Inr c)
    then show ?thesis by (cases c) (simp_all add: check_bundle_identity_def Known)
  qed (simp add: check_bundle_identity_def Known)
  then show ?thesis by (simp add: Known classify_iff)
next
  case (FirstContact rs)
  show ?thesis
  proof (cases "is_identity_key k")
    case True
    let ?s = "hits (same_in k) (enumerate 0 rs)" and ?r = "hits (retired_in k) (enumerate 0 rs)"
    have "check_bundle_identity ex k = Inr () \<longleftrightarrow> ?s = [] \<and> ?r = []"
      by (cases ?s; cases "tl ?s") (auto simp: check_bundle_identity_def FirstContact lookup_eq [OF True] Let_def)
    also have "\<dots> \<longleftrightarrow> set ?s = {} \<and> set ?r = {}" by simp
    also have "\<dots> \<longleftrightarrow> (\<forall>r \<in> set rs. \<not> same_in k r \<and> \<not> retired_in k r)"
      by (simp add: set_hits all_set_conv_all_nth) blast
    finally show ?thesis using True FirstContact by simp
  next
    case False
    then show ?thesis by (auto simp: check_bundle_identity_def FirstContact lookup_def res_iff)
  qed
qed

lemma expectation_wellformed_iff:
  "check_expectation_wellformed ex = Inr () \<longleftrightarrow>
     (case ex of Known r \<Rightarrow> holds_record r \<and> is_wellformed r | FirstContact rs \<Rightarrow> (\<forall>r \<in> set rs. is_wellformed r))"
  by (auto simp: check_expectation_wellformed_def list_ex_iff split: expectation.splits)

text \<open>What a bundle that passes the initiator's checks satisfies, and nothing more is asked of it.\<close>

lemma initiator_check_bundle_iff:
  "initiator_check_bundle b ex verify n = Inr () \<longleftrightarrow>
     check_expectation_wellformed ex = Inr () \<and> is_canonical_curve_key (pb_signed_prekey b)
     \<and> opt_all is_canonical_curve_key (pb_one_time_prekey b)
     \<and> (pb_one_time_prekey b = None \<longleftrightarrow> pb_one_time_prekey_id b = 0)
     \<and> check_bundle_identity ex (pb_identity_key b) = Inr ()
     \<and> verify (pb_identity_key b) (0x05 # pb_signed_prekey b) (pb_signed_prekey_signature b) \<noteq> None
     \<and> (case n of None \<Rightarrow> True | Some w \<Rightarrow> int (length (pb_kem_prekey b)) = w)
     \<and> verify (pb_identity_key b) (0x08 # pb_kem_prekey b) (pb_kem_prekey_signature b) \<noteq> None"
proof -
  have ic: "check_bundle_identity ex (pb_identity_key b) = Inr () \<Longrightarrow>
      is_canonical_curve_key (pb_identity_key b) \<and> is_identity_key (pb_identity_key b)"
    using identity_key_is_canonical by (simp add: check_bundle_identity_iff)
  show ?thesis
    using ic canonical_length [of "pb_signed_prekey b"]
    by (cases "pb_one_time_prekey b"; cases n)
      (auto simp: initiator_check_bundle_def res_iff Let_def)
qed

end
