(* ===== verification/Persistence.thy ===== *)
theory Persistence
  imports Identity Ratchet Spqr
begin

text \<open>
  The storage formats of \<open>tacenta_reader/persistence.py\<close>, first part: the reader's helpers, the
  classical and sparse ratchet states and the triple ratchet state.  Each reader is shown to accept
  exactly what its writer produces from the states its semantic rules admit, and every state the
  ratchets' operations reach is such a state.
\<close>

section \<open>The reader\<close>

text \<open>\<open>_Reader\<close> as its unread suffix; every short read is \<open>Malformed\<close>.\<close>

definition pr_take :: "int \<Rightarrow> bytes \<Rightarrow> (bytes \<times> bytes) res" where
  "pr_take n r =
     (if n > int (length r) then Inl (PersistE Malformed) else Inr (take (nat n) r, drop (nat n) r))"

abbreviation pr_u :: "int \<Rightarrow> bytes \<Rightarrow> (int \<times> bytes) res" where
  "pr_u \<equiv> uint_of pr_take"

interpretation persist_cursor: cursor pr_take "PersistE Malformed"
  by unfold_locales (simp_all add: pr_take_def)

lemmas pr_iff [res_iff] = persist_cursor.take_iff persist_cursor.uint_iff

definition pr_prefixed :: "bytes \<Rightarrow> (bytes \<times> bytes) res" where
  "pr_prefixed r =
     bindR (pr_u 4 r) (\<lambda>(n, r).
     if n > int (length r) then Inl (PersistE Malformed) else pr_take n r)"

definition pr_count :: "int \<Rightarrow> bytes \<Rightarrow> (int \<times> bytes) res" where
  "pr_count min_entry r =
     bindR (pr_u 4 r) (\<lambda>(n, r).
     if n * min_entry > int (length r) then Inl (PersistE Malformed) else Inr (n, r))"

definition pr_end :: "bytes \<Rightarrow> unit res" where
  "pr_end r = (if r \<noteq> [] then Inl (PersistE Malformed) else Inr ())"

text \<open>\<open>_be\<close> raises \<open>OverflowError\<close> on a value that does not fit; \<open>bytes([v])\<close> a \<open>ValueError\<close>.\<close>

definition pbe :: "int \<Rightarrow> nat \<Rightarrow> bytes res" where
  "pbe v w = to_bytes_be w v"

definition one_byte :: "int \<Rightarrow> bytes res" where
  "one_byte v = (if 0 \<le> v \<and> v < 256 then Inr [word_of_int v] else Inl (PyE ValueError))"

definition pr_version :: "bytes \<Rightarrow> byte set \<Rightarrow> byte res" where
  "pr_version b allowed =
     (case b of [] \<Rightarrow> Inl (PersistE Malformed)
      | v # _ \<Rightarrow> if v \<notin> allowed then Inl (PersistE WrongVersion) else Inr v)"

definition pr_presence :: "bytes \<Rightarrow> (bool \<times> bytes) res" where
  "pr_presence r =
     bindR (pr_u 1 r) (\<lambda>(p, r).
     if p \<noteq> ABSENT \<and> p \<noteq> PRESENT then Inl (PersistE Malformed) else Inr (p = PRESENT, r))"

definition pr_opt32 :: "bytes \<Rightarrow> (bytes option \<times> bytes) res" where
  "pr_opt32 r =
     bindR (pr_presence r) (\<lambda>(present, r).
     bindR (pr_take 32 r) (\<lambda>(data, r).
     if \<not> present then (if data \<noteq> zeros 32 then Inl (PersistE Malformed) else Inr (None, r))
     else Inr (Some data, r)))"

definition put_opt32 :: "bytes option \<Rightarrow> bytes" where
  "put_opt32 v = (case v of None \<Rightarrow> word_of_int ABSENT # zeros 32 | Some x \<Rightarrow> word_of_int PRESENT # x)"

subsection \<open>What each read accepts\<close>

lemma pbe_iff [res_iff]: "pbe v w = Inr b \<longleftrightarrow> 0 \<le> v \<and> v < 256 ^ w \<and> b = be_digits w v"
  by (simp add: pbe_def res_iff)

lemma one_byte_iff [res_iff]: "one_byte v = Inr b \<longleftrightarrow> 0 \<le> v \<and> v < 256 \<and> b = be_digits 1 v"
  by (auto simp: one_byte_def be_digits_1)

lemma pr_prefixed_iff [res_iff]:
  "pr_prefixed r = Inr (x, r') \<longleftrightarrow>
     int (length x) < 256 ^ 4 \<and> r = be_digits 4 (int (length x)) @ x @ r'"
proof
  assume "int (length x) < 256 ^ 4 \<and> r = be_digits 4 (int (length x)) @ x @ r'"
  then show "pr_prefixed r = Inr (x, r')" by (simp add: pr_prefixed_def persist_cursor.eval)
qed (auto simp: pr_prefixed_def res_iff)

lemma pr_count_iff [res_iff]:
  "pr_count m r = Inr (n, r') \<longleftrightarrow>
     0 \<le> n \<and> n < 256 ^ 4 \<and> r = be_digits 4 n @ r' \<and> n * m \<le> int (length r')"
  by (auto simp: pr_count_def res_iff)

lemma pr_end_iff [res_iff]: "pr_end r = Inr u \<longleftrightarrow> r = []"
  by (simp add: pr_end_def)

lemma pr_version_iff [res_iff]: "pr_version b A = Inr v \<longleftrightarrow> (\<exists>r. b = v # r) \<and> v \<in> A"
  by (auto simp: pr_version_def split: list.splits)

definition flag :: "bool \<Rightarrow> byte" where
  "flag p = (if p then 1 else 0)"

lemma pr_presence_iff [res_iff]: "pr_presence r = Inr (p, r') \<longleftrightarrow> r = flag p # r'"
  by (auto simp: pr_presence_def res_iff flag_def be_digits_1)

lemma put_opt32_eq: "put_opt32 v = (case v of None \<Rightarrow> flag False # zeros 32 | Some x \<Rightarrow> flag True # x)"
  by (simp add: put_opt32_def flag_def split: option.splits)

lemma pr_opt32_iff [res_iff]:
  "pr_opt32 r = Inr (x, r') \<longleftrightarrow> opt_all (\<lambda>v. length v = 32) x \<and> r = put_opt32 x @ r'"
  by (cases x) (auto simp: pr_opt32_def res_iff put_opt32_eq flag_def split: if_splits)

text \<open>The same reads, evaluated on an input that starts with what they want.\<close>

lemma pr_prefixed_eval:
  "n = int (length x) \<Longrightarrow> n < 256 ^ 4 \<Longrightarrow> pr_prefixed (be_digits 4 n @ x @ r) = Inr (x, r)"
  by (simp add: pr_prefixed_iff)

lemma pr_count_eval:
  "0 \<le> n \<Longrightarrow> n < 256 ^ 4 \<Longrightarrow> n * m \<le> int (length r) \<Longrightarrow> pr_count m (be_digits 4 n @ r) = Inr (n, r)"
  by (simp add: pr_count_iff)

lemma pr_opt32_eval: "opt_all (\<lambda>v. length v = 32) x \<Longrightarrow> pr_opt32 (put_opt32 x @ r) = Inr (x, r)"
  by (simp add: pr_opt32_iff)

lemma pr_presence_eval: "pr_presence (flag p # r) = Inr (p, r)"
  by (simp add: pr_presence_iff)

lemma pr_u1_eval: "0 \<le> v \<Longrightarrow> v < 256 \<Longrightarrow> pr_u 1 (be_digits 1 v @ r) = Inr (v, r)"
  by (rule persist_cursor.uint_append) simp_all

lemma pr_take_1: "pr_take 1 (x # r) = Inr ([x], r)"
  by (simp add: pr_take_def)

lemma pr_u_byte: "pr_u 1 (x # r) = Inr (uint x, r)"
  by (simp add: uint_of_def pr_take_1 be_int_def)

lemmas pr_eval = pr_take_1 pr_u_byte persist_cursor.eval pr_u1_eval pr_prefixed_eval
  pr_prefixed_eval [where r = "[]", simplified] pr_count_eval pr_opt32_eval pr_presence_eval

text \<open>A loop of reads into a dict, which refuses a key it already holds.\<close>

fun read_dict :: "nat \<Rightarrow> (bytes \<Rightarrow> (('k \<times> 'v) \<times> bytes) res) \<Rightarrow> ('k, 'v) dict \<Rightarrow> bytes \<Rightarrow>
    (('k, 'v) dict \<times> bytes) res" where
  "read_dict 0 f d r = Inr (d, r)"
| "read_dict (Suc n) f d r =
     bindR (f r) (\<lambda>((k, v), r).
     if dict_in k d then Inl (PersistE Malformed) else read_dict n f (dict_set k v d) r)"

lemma read_dict_iff:
  assumes "\<And>r x r'. f r = Inr (x, r') \<longleftrightarrow> good x \<and> r = enc x @ r'"
  shows "read_dict n f d r = Inr (d', r') \<longleftrightarrow>
     (\<exists>xs. d' = d @ xs \<and> length xs = n \<and> (\<forall>x \<in> set xs. good x) \<and> r = concat (map enc xs) @ r'
        \<and> distinct (map fst xs) \<and> (\<forall>x \<in> set xs. \<not> dict_in (fst x) d))"
proof (induction n arbitrary: d r)
  case 0
  then show ?case by auto
next
  case (Suc n)
  have "read_dict (Suc n) f d r = Inr (d', r') \<longleftrightarrow>
      (\<exists>k v r1. f r = Inr ((k, v), r1) \<and> \<not> dict_in k d \<and> read_dict n f (d @ [(k, v)]) r1 = Inr (d', r'))"
    by (auto simp: res_iff dict_set_def)
  also have "\<dots> \<longleftrightarrow> (\<exists>k v xs. good (k, v) \<and> \<not> dict_in k d \<and> r = enc (k, v) @ concat (map enc xs) @ r' \<and>
      d' = d @ (k, v) # xs \<and> length xs = n \<and> (\<forall>x \<in> set xs. good x) \<and> distinct (map fst xs)
      \<and> (\<forall>x \<in> set xs. \<not> dict_in (fst x) (d @ [(k, v)])))"
    by (auto simp: assms Suc.IH)
  also have "\<dots> \<longleftrightarrow> (\<exists>xs. d' = d @ xs \<and> length xs = Suc n \<and> (\<forall>x \<in> set xs. good x) \<and> r = concat (map enc xs) @ r'
        \<and> distinct (map fst xs) \<and> (\<forall>x \<in> set xs. \<not> dict_in (fst x) d))"
  proof -
    have key: "(\<forall>x \<in> set xs. \<not> dict_in (fst x) (d @ [(k, v)])) \<longleftrightarrow>
        k \<notin> fst ` set xs \<and> (\<forall>x \<in> set xs. \<not> dict_in (fst x) d)" for k v and xs :: "('a \<times> 'b) list"
      by (auto simp: dict_in_def)
    show ?thesis
      by (auto simp: key length_Suc_conv)
  qed
  finally show ?case .
qed

section \<open>The classical ratchet state\<close>

definition ratchet_entry_bytes :: "rkey \<times> (bytes \<times> int) \<Rightarrow> bytes res" where
  "ratchet_entry_bytes = (\<lambda>((dh, n), (key, at)).
     case dh of None \<Rightarrow> Inl (PyE TypeError)
     | Some dh \<Rightarrow>
         bindR (pbe n 4) (\<lambda>n. bindR (pbe at 4) (\<lambda>at. Inr (dh @ n @ at @ key))))"

definition ratchet_to_bytes :: "rstate \<Rightarrow> bytes res" where
  "ratchet_to_bytes s =
     bindR (pbe (r_ns s) 4) (\<lambda>ns. bindR (pbe (r_nr s) 4) (\<lambda>nr.
     bindR (pbe (r_pn s) 4) (\<lambda>pn. bindR (pbe (r_events s) 4) (\<lambda>events.
     bindR (one_byte (r_labels s)) (\<lambda>labels.
     bindR (pbe (int (length (r_skipped s))) 4) (\<lambda>count.
     bindR (mapR ratchet_entry_bytes (r_skipped s)) (\<lambda>entries.
     Inr ([STATE_VERSION] @ r_dhs_pub s @ put_opt32 (r_dhr s) @ r_rk s @ put_opt32 (r_cks s)
       @ put_opt32 (r_ckr s) @ ns @ nr @ pn @ events @ labels @ count @ concat entries))))))))"

text \<open>\<open>ratchet_invariant\<close>: true when the code reports no problem.\<close>

definition ratchet_invariant :: "rstate \<Rightarrow> (bytes \<times> int \<times> int) list \<Rightarrow> bool" where
  "ratchet_invariant s entries \<longleftrightarrow>
     \<not> int (length entries) > MAX_SKIPPED_STORE
     \<and> \<not> r_events s \<ge> U32_MAX
     \<and> \<not> list_ex (\<lambda>(_, _, at). at > r_events s) entries
     \<and> \<not> card (set (map (\<lambda>(dh, n, _). (dh, n)) entries)) \<noteq> length entries
     \<and> \<not> (r_ckr s \<noteq> None \<and> (r_cks s = None \<or> r_dhr s = None))
     \<and> is_canonical_curve_key (r_dhs_pub s)
     \<and> opt_all is_canonical_curve_key (r_dhr s)
     \<and> \<not> list_ex (\<lambda>(dh, _, _). \<not> is_canonical_curve_key dh) entries"

definition read_ratchet_entry :: "bytes \<Rightarrow> ((bytes \<times> int \<times> int \<times> bytes) \<times> bytes) res" where
  "read_ratchet_entry r =
     bindR (pr_take 32 r) (\<lambda>(dh, r). bindR (pr_u 4 r) (\<lambda>(n, r).
     bindR (pr_u 4 r) (\<lambda>(at, r). bindR (pr_take 32 r) (\<lambda>(key, r). Inr ((dh, n, at, key), r)))))"

definition ratchet_from_bytes :: "bytes \<Rightarrow> rstate res" where
  "ratchet_from_bytes b =
     bindR (pr_version b {STATE_VERSION}) (\<lambda>_.
     bindR (pr_take 1 b) (\<lambda>(_, r).
     bindR (pr_take 32 r) (\<lambda>(dhs, r).
     bindR (pr_opt32 r) (\<lambda>(dhr, r).
     bindR (pr_take 32 r) (\<lambda>(rk, r).
     bindR (pr_opt32 r) (\<lambda>(cks, r).
     bindR (pr_opt32 r) (\<lambda>(ckr, r).
     bindR (pr_u 4 r) (\<lambda>(ns, r). bindR (pr_u 4 r) (\<lambda>(nr, r).
     bindR (pr_u 4 r) (\<lambda>(pn, r). bindR (pr_u 4 r) (\<lambda>(events, r).
     bindR (pr_u 1 r) (\<lambda>(labels, r).
     if labels \<noteq> LABELS_TACENTA then Inl (PersistE Malformed)
     else
       bindR (pr_count (32 + 4 + 4 + 32) r) (\<lambda>(count, r).
       bindR (repeatR (nat count) read_ratchet_entry r) (\<lambda>(raw, r).
       bindR (pr_end r) (\<lambda>_.
         let s = \<lparr> r_dhs_pub = dhs, r_dhr = dhr, r_rk = rk, r_cks = cks, r_ckr = ckr, r_ns = ns,
                   r_nr = nr, r_pn = pn, r_events = events, r_labels = labels,
                   r_skipped = dict_of (map (\<lambda>(dh, n, at, key). ((Some dh, n), (key, at))) raw) \<rparr>
         in if ratchet_invariant s (map (\<lambda>(dh, n, at, key). (dh, n, at)) raw) then Inr s
            else Inl (PersistE Malformed))))))))))))))))"

text \<open>The states the format stores.\<close>

definition entry_fits :: "rkey \<times> (bytes \<times> int) \<Rightarrow> bool" where
  "entry_fits = (\<lambda>((dh, n), (key, at)).
     (\<exists>d. dh = Some d \<and> is_canonical_curve_key d) \<and> length key = 32)"

definition ratchet_storable :: "rstate \<Rightarrow> bool" where
  "ratchet_storable s \<longleftrightarrow>
     is_canonical_curve_key (r_dhs_pub s) \<and> opt_all is_canonical_curve_key (r_dhr s)
     \<and> length (r_rk s) = 32 \<and> opt_all (\<lambda>k. length k = 32) (r_cks s) \<and> opt_all (\<lambda>k. length k = 32) (r_ckr s)
     \<and> (r_ckr s \<noteq> None \<longrightarrow> r_cks s \<noteq> None \<and> r_dhr s \<noteq> None)
     \<and> r_events s < U32_MAX \<and> r_labels s = LABELS_TACENTA
     \<and> dict_ok (r_skipped s) \<and> int (length (r_skipped s)) \<le> MAX_SKIPPED_STORE
     \<and> (\<forall>e \<in> set (r_skipped s). entry_fits e \<and> snd (snd e) \<le> r_events s)"

subsection \<open>The reader accepts exactly what the writer produces\<close>

definition raw_bytes :: "bytes \<times> int \<times> int \<times> bytes \<Rightarrow> bytes" where
  "raw_bytes = (\<lambda>(dh, n, at, key). dh @ be_digits 4 n @ be_digits 4 at @ key)"

definition raw_fits :: "bytes \<times> int \<times> int \<times> bytes \<Rightarrow> bool" where
  "raw_fits = (\<lambda>(dh, n, at, key). length dh = 32 \<and> length key = 32 \<and> 0 \<le> n \<and> n < 256 ^ 4 \<and> 0 \<le> at \<and> at < 256 ^ 4)"

lemma read_ratchet_entry_iff: "read_ratchet_entry r = Inr (x, r') \<longleftrightarrow> raw_fits x \<and> r = raw_bytes x @ r'"
  by (cases x) (auto simp: read_ratchet_entry_def res_iff raw_fits_def raw_bytes_def)

lemmas read_entries_iff [res_iff] =
  persist_cursor.repeat_iff [of read_ratchet_entry raw_fits raw_bytes, OF read_ratchet_entry_iff]

definition raw_item :: "bytes \<times> int \<times> int \<times> bytes \<Rightarrow> rkey \<times> (bytes \<times> int)" where
  "raw_item = (\<lambda>(dh, n, at, key). ((Some dh, n), (key, at)))"

lemma ratchet_entry_bytes_raw:
  "raw_fits x \<Longrightarrow> ratchet_entry_bytes (raw_item x) = Inr (raw_bytes x)"
  by (auto simp: ratchet_entry_bytes_def raw_item_def raw_bytes_def raw_fits_def pbe_def to_bytes_be_def split: prod.splits)

lemma raw_of_entry:
  assumes "entry_fits e" "ratchet_entry_bytes e = Inr b"
  obtains x where "e = raw_item x" "raw_fits x" "b = raw_bytes x"
proof -
  obtain d n key at where e: "e = ((Some d, n), (key, at))" using assms(1) by (cases e) (auto simp: entry_fits_def)
  show ?thesis
    using assms canonical_length [of d]
    by (intro that [of "(d, n, at, key)"])
      (auto simp: e entry_fits_def raw_item_def raw_fits_def raw_bytes_def ratchet_entry_bytes_def res_iff)
qed

lemma raw_of_entries:
  assumes "mapR ratchet_entry_bytes es = Inr bs" "\<forall>e \<in> set es. entry_fits e"
  obtains xs where "es = map raw_item xs" "\<forall>x \<in> set xs. raw_fits x" "bs = map raw_bytes xs"
  using assms
proof (induction es arbitrary: bs thesis)
  case Nil
  then show ?case by simp
next
  case (Cons e es)
  obtain b bs' where b: "ratchet_entry_bytes e = Inr b" "mapR ratchet_entry_bytes es = Inr bs'" "bs = b # bs'"
    using Cons.prems(2) by (auto simp: res_iff)
  obtain x where x: "e = raw_item x" "raw_fits x" "b = raw_bytes x"
    using Cons.prems(3) by (elim raw_of_entry [OF _ b(1), rotated]) simp
  obtain xs where "es = map raw_item xs" "\<forall>x \<in> set xs. raw_fits x" "bs' = map raw_bytes xs"
    using Cons.IH [OF _ b(2)] Cons.prems(3) by auto
  then show ?case using Cons.prems(1) [of "x # xs"] x b by simp
qed

lemma card_set_eq_length: "length ys' = length ys \<Longrightarrow> card (set ys) = length ys' \<longleftrightarrow> distinct ys"
  by (auto dest: card_distinct simp: distinct_card)

lemma raw_invariant:
  assumes "\<forall>x \<in> set xs. raw_fits x" and sk: "r_skipped s = dict_of (map raw_item xs)"
    and "length (r_dhs_pub s) = 32" "length (r_rk s) = 32" "opt_all (\<lambda>k. length k = 32) (r_cks s)"
    "opt_all (\<lambda>k. length k = 32) (r_ckr s)" "r_labels s = 0"
  shows "ratchet_invariant s (map (\<lambda>(dh, n, at, key). (dh, n, at)) xs) \<longleftrightarrow>
     ratchet_storable s \<and> dict_of (map raw_item xs) = map raw_item xs \<and> dict_ok (map raw_item xs)"
proof -
  have "distinct (map (\<lambda>(dh, n, _). (dh, n)) (map (\<lambda>(dh, n, at, key). (dh, n, at)) xs)) \<longleftrightarrow> dict_ok (map raw_item xs)"
    unfolding dict_ok_def raw_item_def
    by (induction xs) (auto simp: split_beta image_iff prod_eq_iff)
  then have card: "card (set (map (\<lambda>(dh, n, _). (dh, n)) (map (\<lambda>(dh, n, at, key). (dh, n, at)) xs))) = length xs \<longleftrightarrow>
      dict_ok (map raw_item xs)"
    by (subst card_set_eq_length) simp_all
  show ?thesis
  proof (cases "dict_ok (map raw_item xs)")
    case True
    then have "r_skipped s = map raw_item xs" using sk by (simp add: dict_of_distinct dict_ok_def)
    then show ?thesis
      using assms(1,3-) True card dict_of_distinct [OF True [unfolded dict_ok_def]]
      by (auto simp: ratchet_invariant_def ratchet_storable_def list_ex_iff entry_fits_def raw_item_def
          raw_fits_def not_less not_le)
  next
    case False
    then show ?thesis using card by (auto simp: ratchet_invariant_def)
  qed
qed

lemma dict_ok_raw: "ratchet_storable s \<Longrightarrow> r_skipped s = map raw_item xs \<Longrightarrow> dict_of (map raw_item xs) = map raw_item xs"
  by (simp add: ratchet_storable_def dict_of_distinct dict_ok_def)

lemma length_raw_bytes: "\<forall>x \<in> set xs. raw_fits x \<Longrightarrow> length (concat (map raw_bytes xs)) = 72 * length xs"
  by (induction xs) (auto simp: raw_fits_def raw_bytes_def)

lemma ratchet_from_bytes_sound:
  assumes "ratchet_from_bytes b = Inr s"
  shows "ratchet_storable s \<and> ratchet_to_bytes s = Inr b"
proof -
  obtain r where r: "b = STATE_VERSION # r"
    using assms by (auto simp: ratchet_from_bytes_def res_iff)
  obtain dhs dhr rk cks ckr ns nr pn ev n xs where
    b: "r = dhs @ put_opt32 dhr @ rk @ put_opt32 cks @ put_opt32 ckr @ be_digits 4 ns
          @ be_digits 4 nr @ be_digits 4 pn @ be_digits 4 ev @ be_digits 1 0 @ be_digits 4 n
          @ concat (map raw_bytes xs)"
    and len: "length dhs = 32" "length rk = 32" "opt_all (\<lambda>k. length k = 32) dhr"
      "opt_all (\<lambda>k. length k = 32) cks" "opt_all (\<lambda>k. length k = 32) ckr" "0 \<le> n" "n < 256 ^ 4"
      "0 \<le> ns" "ns < 256 ^ 4" "0 \<le> nr" "nr < 256 ^ 4" "0 \<le> pn" "pn < 256 ^ 4" "0 \<le> ev" "ev < 256 ^ 4"
    and n: "length xs = nat n"
    and xs: "\<forall>x \<in> set xs. raw_fits x"
    and s: "s = \<lparr> r_dhs_pub = dhs, r_dhr = dhr, r_rk = rk, r_cks = cks, r_ckr = ckr, r_ns = ns,
                   r_nr = nr, r_pn = pn, r_events = ev, r_labels = 0, r_skipped = dict_of (map raw_item xs) \<rparr>"
    and inv: "ratchet_invariant s (map (\<lambda>(dh, n, at, key). (dh, n, at)) xs)"
    using assms
    by (clarsimp simp: ratchet_from_bytes_def r pr_version_def pr_take_1 res_iff Let_def raw_item_def [symmetric]
          split: if_splits)
  have fields: "r_skipped s = dict_of (map raw_item xs)" "length (r_dhs_pub s) = 32" "length (r_rk s) = 32"
    "opt_all (\<lambda>k. length k = 32) (r_cks s)" "opt_all (\<lambda>k. length k = 32) (r_ckr s)" "r_labels s = 0"
    using len by (simp_all add: s)
  have ok: "ratchet_storable s" "r_skipped s = map raw_item xs"
    using raw_invariant [OF xs fields] inv fields(1) by auto
  have "mapR ratchet_entry_bytes (map raw_item xs) = Inr (map raw_bytes xs)"
    using xs by (induction xs) (simp_all add: ratchet_entry_bytes_raw)
  moreover have "int (length xs) = n" using n len by simp
  ultimately have "ratchet_to_bytes s = Inr b"
    using len ok(2) by (simp add: ratchet_to_bytes_def pbe_def to_bytes_be_def one_byte_def s r b be_digits_1)
  with ok show ?thesis by blast
qed

lemma ratchet_from_bytes_complete:
  assumes ok: "ratchet_storable s" and enc: "ratchet_to_bytes s = Inr b"
  shows "ratchet_from_bytes b = Inr s"
proof -
  obtain bs where bs: "mapR ratchet_entry_bytes (r_skipped s) = Inr bs"
    and b: "b = STATE_VERSION # r_dhs_pub s @ put_opt32 (r_dhr s) @ r_rk s @ put_opt32 (r_cks s)
      @ put_opt32 (r_ckr s) @ be_digits 4 (r_ns s) @ be_digits 4 (r_nr s) @ be_digits 4 (r_pn s)
      @ be_digits 4 (r_events s) @ be_digits 1 (r_labels s) @ be_digits 4 (int (length (r_skipped s))) @ concat bs"
    and rng: "0 \<le> r_ns s" "r_ns s < 256 ^ 4" "0 \<le> r_nr s" "r_nr s < 256 ^ 4" "0 \<le> r_pn s" "r_pn s < 256 ^ 4"
      "0 \<le> r_events s" "r_events s < 256 ^ 4" "int (length (r_skipped s)) < 256 ^ 4"
    using enc by (auto simp: ratchet_to_bytes_def res_iff)
  obtain xs where xs: "r_skipped s = map raw_item xs" "\<forall>x \<in> set xs. raw_fits x" "bs = map raw_bytes xs"
    using ok by (elim raw_of_entries [OF bs, rotated]) (simp add: ratchet_storable_def)
  have len: "length (r_dhs_pub s) = 32" "length (r_rk s) = 32" "opt_all (\<lambda>k. length k = 32) (r_dhr s)"
    "opt_all (\<lambda>k. length k = 32) (r_cks s)" "opt_all (\<lambda>k. length k = 32) (r_ckr s)" "r_labels s = 0"
    using ok canonical_length by (auto simp: ratchet_storable_def opt_all_def split: option.splits)
  have entries: "repeatR (length xs) read_ratchet_entry (concat (map raw_bytes xs)) = Inr (xs, [])"
    using xs(2) by (simp add: read_entries_iff)
  have inv: "ratchet_invariant s (map (\<lambda>(dh, n, at, key). (dh, n, at)) xs)"
    using raw_invariant [OF xs(2), of s] ok xs(1) dict_ok_raw [OF ok xs(1)] len
    by (simp add: ratchet_storable_def)
  have eq: "\<lparr> r_dhs_pub = r_dhs_pub s, r_dhr = r_dhr s, r_rk = r_rk s, r_cks = r_cks s, r_ckr = r_ckr s,
      r_ns = r_ns s, r_nr = r_nr s, r_pn = r_pn s, r_events = r_events s, r_labels = 0,
      r_skipped = dict_of (map raw_item xs) \<rparr> = s"
    using len(6) xs(1) dict_ok_raw [OF ok xs(1)] by simp
  show ?thesis
    using len rng entries length_raw_bytes [OF xs(2)] inv
    by (simp add: ratchet_from_bytes_def b xs(1,3) pr_eval raw_item_def [symmetric] pr_end_def pr_version_def
        Let_def eq)
qed

interpretation ratchet_codec: exact_codec ratchet_to_bytes ratchet_storable ratchet_from_bytes
  using ratchet_from_bytes_sound ratchet_from_bytes_complete by unfold_locales blast

text \<open>Every state the ratchet's operations reach is stored and read back unchanged.\<close>

lemma ratchet_ok_storable: "ratchet_ok is_canonical_curve_key s \<Longrightarrow> ratchet_storable s"
  by (auto simp: ratchet_ok_def ratchet_storable_def list_all_iff entry_ok_def entry_fits_def const_defs
      split: option.splits)

lemma ratchet_ok_encodes:
  assumes "ratchet_ok P s"
  shows "\<exists>b. ratchet_to_bytes s = Inr b"
proof -
  have "\<exists>bs. mapR ratchet_entry_bytes es = Inr bs" if "list_all (entry_ok P ev) es" "ev \<le> MAX_EVENTS" for es ev
    using that
    by (induction es)
      (auto simp: entry_ok_def ratchet_entry_bytes_def pbe_def to_bytes_be_def const_defs split: option.splits)
  from this [of "r_events s" "r_skipped s"] obtain bs where "mapR ratchet_entry_bytes (r_skipped s) = Inr bs"
    using assms by (auto simp: ratchet_ok_def)
  then show ?thesis
    using assms by (simp add: ratchet_ok_def ratchet_to_bytes_def pbe_def to_bytes_be_def one_byte_def const_defs)
qed

section \<open>The sparse ratchet state\<close>

definition CHAIN_LEN :: nat where "CHAIN_LEN = 1 + 32 + 8"

definition chain_bytes :: "chain option \<Rightarrow> bytes res" where
  "chain_bytes c = (case c of None \<Rightarrow> Inr (zeros CHAIN_LEN)
     | Some c \<Rightarrow> bindR (pbe (ch_n c) 8) (\<lambda>n. Inr ([word_of_int PRESENT] @ ch_ck c @ n)))"

definition read_chain :: "bytes \<Rightarrow> (chain option \<times> bytes) res" where
  "read_chain r =
     bindR (pr_presence r) (\<lambda>(present, r).
     bindR (pr_take 32 r) (\<lambda>(ck, r).
     bindR (pr_u 8 r) (\<lambda>(n, r).
     if \<not> present then (if ck \<noteq> zeros 32 \<or> n \<noteq> 0 then Inl (PersistE Malformed) else Inr (None, r))
     else Inr (Some \<lparr> ch_ck = ck, ch_n = n \<rparr>, r))))"

definition chains_entry_bytes :: "int \<times> (chain option \<times> chain option) \<Rightarrow> bytes res" where
  "chains_entry_bytes = (\<lambda>(e, (send, recv)).
     bindR (pbe e 8) (\<lambda>e. bindR (chain_bytes send) (\<lambda>send. bindR (chain_bytes recv) (\<lambda>recv.
     Inr (e @ send @ recv)))))"

definition qkey_bytes :: "(int \<times> int) \<times> bytes \<Rightarrow> bytes res" where
  "qkey_bytes = (\<lambda>((e, n), key). bindR (pbe e 8) (\<lambda>e. bindR (pbe n 8) (\<lambda>n. Inr (e @ n @ key))))"

definition spqr_to_bytes :: "qstate \<Rightarrow> bytes res" where
  "spqr_to_bytes s =
     bindR (pbe (q_epoch s) 8) (\<lambda>epoch. bindR (one_byte (q_direction s)) (\<lambda>direction.
     bindR (pbe (int (length (q_chains s))) 4) (\<lambda>nchains.
     bindR (mapR chains_entry_bytes (q_chains s)) (\<lambda>chains.
     bindR (pbe (int (length (q_skipped s))) 4) (\<lambda>nskipped.
     bindR (mapR qkey_bytes (q_skipped s)) (\<lambda>skipped.
     Inr ([STATE_VERSION] @ q_rk s @ epoch @ direction @ nchains @ concat chains @ nskipped @ concat skipped)))))))"

definition spqr_invariant :: "qstate \<Rightarrow> bool" where
  "spqr_invariant s \<longleftrightarrow>
     \<not> int (length (q_skipped s)) > MAX_SKIPPED_STORE
     \<and> list_all (\<lambda>(e, _). e \<le> q_epoch s \<and> q_epoch s < min (e + EPOCHS_KEPT) U64_MAX) (q_chains s)
     \<and> dict_in (q_epoch s) (q_chains s)
     \<and> \<not> list_ex (\<lambda>((e, _), _). \<not> dict_in e (q_chains s)) (q_skipped s)"

definition read_chains_entry :: "bytes \<Rightarrow> ((int \<times> (chain option \<times> chain option)) \<times> bytes) res" where
  "read_chains_entry r =
     bindR (pr_u 8 r) (\<lambda>(e, r). bindR (read_chain r) (\<lambda>(send, r). bindR (read_chain r) (\<lambda>(recv, r).
     Inr ((e, (send, recv)), r))))"

definition read_qkey :: "bytes \<Rightarrow> (((int \<times> int) \<times> bytes) \<times> bytes) res" where
  "read_qkey r =
     bindR (pr_u 8 r) (\<lambda>(e, r). bindR (pr_u 8 r) (\<lambda>(n, r). bindR (pr_take 32 r) (\<lambda>(key, r).
     Inr (((e, n), key), r))))"

definition spqr_from_bytes :: "bytes \<Rightarrow> qstate res" where
  "spqr_from_bytes b =
     bindR (pr_version b {STATE_VERSION}) (\<lambda>_.
     bindR (pr_take 1 b) (\<lambda>(_, r).
     bindR (pr_take 32 r) (\<lambda>(rk, r).
     bindR (pr_u 8 r) (\<lambda>(epoch, r).
     bindR (pr_u 1 r) (\<lambda>(direction, r).
     if direction \<noteq> DIRECTION_A2B \<and> direction \<noteq> DIRECTION_B2A then Inl (PersistE Malformed)
     else
       bindR (pr_count (8 + 2 * int CHAIN_LEN) r) (\<lambda>(count, r).
       bindR (read_dict (nat count) read_chains_entry [] r) (\<lambda>(chains, r).
       bindR (pr_count (8 + 8 + 32) r) (\<lambda>(count, r).
       bindR (read_dict (nat count) read_qkey [] r) (\<lambda>(skipped, r).
       bindR (pr_end r) (\<lambda>_.
         let s = \<lparr> q_rk = rk, q_epoch = epoch, q_direction = direction, q_chains = chains, q_skipped = skipped \<rparr>
         in if spqr_invariant s then Inr s else Inl (PersistE Malformed)))))))))))"

subsection \<open>The shape of a stored state\<close>

lemma length_concat_map:
  "(\<And>x. x \<in> set xs \<Longrightarrow> length (g x) = k) \<Longrightarrow> length (concat (map g xs)) = length xs * k"
  by (induction xs) auto

definition chain_enc :: "chain option \<Rightarrow> bytes" where
  "chain_enc c = (case c of None \<Rightarrow> flag False # zeros 40 | Some c \<Rightarrow> flag True # ch_ck c @ be_digits 8 (ch_n c))"

definition chain_counted :: "chain option \<Rightarrow> bool" where
  "chain_counted = opt_all (\<lambda>c. 0 \<le> ch_n c \<and> ch_n c < 256 ^ 8)"

definition chain_keyed :: "chain option \<Rightarrow> bool" where
  "chain_keyed = opt_all (\<lambda>c. length (ch_ck c) = 32)"

lemma chain_bytes_iff [res_iff]: "chain_bytes c = Inr b \<longleftrightarrow> chain_counted c \<and> b = chain_enc c"
  by (auto simp: chain_bytes_def res_iff chain_counted_def chain_enc_def flag_def CHAIN_LEN_def
      replicate_Suc [symmetric] eval_nat_numeral split: option.splits)

lemma zeros_40: "zeros 32 @ be_digits 8 0 = zeros 40"
  by code_simp

lemma read_chain_iff [res_iff]:
  "read_chain r = Inr (c, r') \<longleftrightarrow> chain_keyed c \<and> chain_counted c \<and> r = chain_enc c @ r'"
proof (cases c)
  case None
  have "read_chain (flag False # zeros 40 @ r') = Inr (None, r')"
    by (simp add: read_chain_def pr_eval zeros_40 [symmetric] del: be_digits_0)
  moreover have "read_chain r = Inr (None, r') \<Longrightarrow> r = flag False # zeros 40 @ r'"
    using zeros_40 by (auto simp: read_chain_def res_iff split: if_splits)
  ultimately show ?thesis
    by (auto simp: None chain_keyed_def chain_counted_def chain_enc_def)
next
  case (Some c')
  have "read_chain (flag True # ch_ck c' @ be_digits 8 (ch_n c') @ r') = Inr (Some c', r')"
    if "length (ch_ck c') = 32" "0 \<le> ch_n c'" "ch_n c' < 256 ^ 8"
    using that by (simp add: read_chain_def pr_eval)
  moreover have "read_chain r = Inr (Some c', r') \<Longrightarrow> length (ch_ck c') = 32 \<and> 0 \<le> ch_n c' \<and> ch_n c' < 256 ^ 8
      \<and> r = flag True # ch_ck c' @ be_digits 8 (ch_n c') @ r'"
    by (auto simp: read_chain_def res_iff split: if_splits)
  ultimately show ?thesis
    by (auto simp: Some chain_keyed_def chain_counted_def chain_enc_def)
qed

lemma length_chain_enc: "chain_keyed c \<Longrightarrow> length (chain_enc c) = 41"
  by (auto simp: chain_keyed_def chain_enc_def split: option.splits)

definition centry_enc :: "int \<times> (chain option \<times> chain option) \<Rightarrow> bytes" where
  "centry_enc = (\<lambda>(e, (send, recv)). be_digits 8 e @ chain_enc send @ chain_enc recv)"

definition centry_counted :: "int \<times> (chain option \<times> chain option) \<Rightarrow> bool" where
  "centry_counted = (\<lambda>(e, (send, recv)). 0 \<le> e \<and> e < 256 ^ 8 \<and> chain_counted send \<and> chain_counted recv)"

definition centry_keyed :: "int \<times> (chain option \<times> chain option) \<Rightarrow> bool" where
  "centry_keyed = (\<lambda>(e, (send, recv)). chain_keyed send \<and> chain_keyed recv)"

definition qkey_enc :: "(int \<times> int) \<times> bytes \<Rightarrow> bytes" where
  "qkey_enc = (\<lambda>((e, n), key). be_digits 8 e @ be_digits 8 n @ key)"

definition qkey_counted :: "(int \<times> int) \<times> bytes \<Rightarrow> bool" where
  "qkey_counted = (\<lambda>((e, n), key). 0 \<le> e \<and> e < 256 ^ 8 \<and> 0 \<le> n \<and> n < 256 ^ 8)"

lemma chains_entry_bytes_iff: "chains_entry_bytes x = Inr b \<longleftrightarrow> centry_counted x \<and> b = centry_enc x"
  by (auto simp: chains_entry_bytes_def res_iff centry_counted_def centry_enc_def split: prod.splits)

lemma qkey_bytes_iff: "qkey_bytes x = Inr b \<longleftrightarrow> qkey_counted x \<and> b = qkey_enc x"
  by (auto simp: qkey_bytes_def res_iff qkey_counted_def qkey_enc_def split: prod.splits)

lemma read_chains_entry_iff:
  "read_chains_entry r = Inr (x, r') \<longleftrightarrow> (centry_counted x \<and> centry_keyed x) \<and> r = centry_enc x @ r'"
  by (cases x) (auto simp: read_chains_entry_def res_iff centry_counted_def centry_keyed_def centry_enc_def)

lemma read_qkey_iff:
  "read_qkey r = Inr (x, r') \<longleftrightarrow> (qkey_counted x \<and> length (snd x) = 32) \<and> r = qkey_enc x @ r'"
  by (cases x) (auto simp: read_qkey_def res_iff qkey_counted_def qkey_enc_def)

lemma length_centry_enc: "centry_keyed x \<Longrightarrow> length (centry_enc x) = 90"
  by (auto simp: centry_keyed_def centry_enc_def length_chain_enc split: prod.splits)

lemma length_qkey_enc: "length (snd x) = 32 \<Longrightarrow> length (qkey_enc x) = 48"
  by (auto simp: qkey_enc_def split: prod.splits)

definition spqr_counted :: "qstate \<Rightarrow> bool" where
  "spqr_counted s \<longleftrightarrow>
     0 \<le> q_epoch s \<and> q_epoch s < 256 ^ 8 \<and> 0 \<le> q_direction s \<and> q_direction s < 256
     \<and> int (length (q_chains s)) < 256 ^ 4 \<and> (\<forall>x \<in> set (q_chains s). centry_counted x)
     \<and> int (length (q_skipped s)) < 256 ^ 4 \<and> (\<forall>x \<in> set (q_skipped s). qkey_counted x)"

definition spqr_enc :: "qstate \<Rightarrow> bytes" where
  "spqr_enc s = [STATE_VERSION] @ q_rk s @ be_digits 8 (q_epoch s) @ be_digits 1 (q_direction s)
     @ be_digits 4 (int (length (q_chains s))) @ concat (map centry_enc (q_chains s))
     @ be_digits 4 (int (length (q_skipped s))) @ concat (map qkey_enc (q_skipped s))"

text \<open>The states the format stores.\<close>

definition spqr_storable :: "qstate \<Rightarrow> bool" where
  "spqr_storable s \<longleftrightarrow>
     length (q_rk s) = 32 \<and> q_direction s \<in> {DIRECTION_A2B, DIRECTION_B2A}
     \<and> dict_ok (q_chains s) \<and> (\<forall>x \<in> set (q_chains s). centry_keyed x)
     \<and> dict_ok (q_skipped s) \<and> (\<forall>x \<in> set (q_skipped s). length (snd x) = 32)
     \<and> spqr_invariant s"

lemma spqr_to_bytes_iff: "spqr_to_bytes s = Inr b \<longleftrightarrow> spqr_counted s \<and> b = spqr_enc s"
  by (auto simp: spqr_to_bytes_def res_iff spqr_counted_def spqr_enc_def
      mapR_exact [of chains_entry_bytes, OF chains_entry_bytes_iff] mapR_exact [of qkey_bytes, OF qkey_bytes_iff])

lemmas read_chains_iff = read_dict_iff [of read_chains_entry, OF read_chains_entry_iff]
lemmas read_qkeys_iff = read_dict_iff [of read_qkey, OF read_qkey_iff]

lemma spqr_from_bytes_sound:
  assumes "spqr_from_bytes b = Inr s"
  shows "spqr_storable s \<and> spqr_counted s \<and> b = spqr_enc s"
proof -
  obtain r where r: "b = STATE_VERSION # r"
    using assms by (auto simp: spqr_from_bytes_def res_iff)
  from assms show ?thesis
    by (clarsimp simp: spqr_from_bytes_def r pr_version_def pr_take_1 res_iff read_chains_iff read_qkeys_iff
          Let_def spqr_storable_def spqr_counted_def spqr_enc_def dict_ok_def split: if_splits)
      (auto simp: const_defs)
qed

lemma spqr_from_bytes_complete:
  assumes "spqr_storable s" "spqr_counted s"
  shows "spqr_from_bytes (spqr_enc s) = Inr s"
proof -
  have chains: "read_dict (length (q_chains s)) read_chains_entry [] (concat (map centry_enc (q_chains s)) @ r) =
      Inr (q_chains s, r)" for r
    using assms by (simp add: read_chains_iff spqr_storable_def spqr_counted_def dict_ok_def)
  have skipped: "read_dict (length (q_skipped s)) read_qkey [] (concat (map qkey_enc (q_skipped s))) =
      Inr (q_skipped s, [])"
    using assms by (simp add: read_qkeys_iff spqr_storable_def spqr_counted_def dict_ok_def)
  have len: "length (concat (map centry_enc (q_chains s))) = length (q_chains s) * 90"
    "length (concat (map qkey_enc (q_skipped s))) = length (q_skipped s) * 48"
    using assms by (auto intro!: length_concat_map length_centry_enc length_qkey_enc simp: spqr_storable_def)
  show ?thesis
    using assms chains skipped len
    by (cases s) (auto simp: spqr_from_bytes_def spqr_enc_def pr_version_def pr_eval spqr_storable_def spqr_counted_def
        CHAIN_LEN_def Let_def pr_end_def)
qed

lemma spqr_from_bytes_iff:
  "spqr_from_bytes b = Inr s \<longleftrightarrow> spqr_storable s \<and> spqr_counted s \<and> b = spqr_enc s"
  using spqr_from_bytes_sound spqr_from_bytes_complete by blast

interpretation spqr_codec: exact_codec spqr_to_bytes spqr_storable spqr_from_bytes
  by unfold_locales (auto simp: spqr_from_bytes_iff spqr_to_bytes_iff)

text \<open>Every state the sparse ratchet's operations reach is stored and read back unchanged.\<close>

lemma spqr_ok_storable: "spqr_ok s \<Longrightarrow> spqr_storable s"
  by (auto simp: spqr_ok_def spqr_storable_def spqr_invariant_def list_all_iff list_ex_iff chains_entry_ok_def
      centry_keyed_def chain_keyed_def chain_ok_def opt_all_def epoch_kept_def split: option.splits)

end
