(* ===== verification/Persist_Triple.thy ===== *)
theory Persist_Triple
  imports Persistence
begin

text \<open>
  The triple ratchet state of \<open>persistence.py\<close>: the two ratchets side by side, and the rule
  that the direction of the sparse half is the role the classical half shows.
\<close>

section \<open>Every reachable sparse state is stored\<close>

lemma spqr_ok_few_chains: "spqr_ok s \<Longrightarrow> int (length (q_chains s)) \<le> EPOCHS_KEPT"
proof -
  assume ok: "spqr_ok s"
  then have "fst ` set (q_chains s) \<subseteq> {q_epoch s - EPOCHS_KEPT + 1..q_epoch s}"
    by (auto simp: spqr_ok_def list_all_iff chains_entry_ok_def epoch_kept_def split: prod.splits dest!: bspec)
  then have "card (fst ` set (q_chains s)) \<le> card {q_epoch s - EPOCHS_KEPT + 1..q_epoch s}"
    by (intro card_mono) simp_all
  moreover have "card (fst ` set (q_chains s)) = length (q_chains s)"
    using ok distinct_card [of "map fst (q_chains s)"] by (simp add: spqr_ok_def dict_ok_def)
  ultimately show ?thesis by (simp add: const_defs)
qed

lemma chain_ok_counted: "opt_all chain_ok c \<Longrightarrow> chain_counted c"
  by (cases c) (auto simp: chain_counted_def chain_ok_def const_defs)

lemma spqr_ok_counted: "spqr_ok s \<Longrightarrow> spqr_counted s"
proof -
  assume ok: "spqr_ok s"
  have key: "0 \<le> e \<and> e < U64_MAX" if "dict_in e (q_chains s)" for e
  proof -
    from that obtain c where "dict_get (q_chains s) e = Some c" by (auto simp: dict_in_iff_get)
    then show ?thesis using spqr_ok_chain [OF ok, of e "fst c" "snd c"] spqr_ok_epoch [OF ok] by simp
  qed
  have chains: "centry_counted x" if "x \<in> set (q_chains s)" for x
  proof -
    obtain e sc rc where x: "x = (e, (sc, rc))" by (cases x) auto
    have "chains_entry_ok (q_epoch s) (e, (sc, rc))" using ok that by (simp add: spqr_ok_def list_all_iff x)
    then show ?thesis
      using spqr_ok_epoch [OF ok] by (simp add: x chains_entry_ok_def centry_counted_def chain_ok_counted const_defs)
  qed
  have skipped: "qkey_counted x" if "x \<in> set (q_skipped s)" for x
  proof -
    obtain e n mk where x: "x = ((e, n), mk)" by (cases x) auto
    have "dict_in e (q_chains s)" "0 \<le> n" "n \<le> U64_MAX"
      using ok that by (auto simp: spqr_ok_def list_all_iff x)
    then show ?thesis using key [of e] by (simp add: x qkey_counted_def const_defs)
  qed
  have "int (length (q_skipped s)) \<le> MAX_SKIPPED_STORE" "q_direction s \<in> {DIRECTION_A2B, DIRECTION_B2A}"
    using ok by (simp_all add: spqr_ok_def)
  then show ?thesis
    using chains skipped spqr_ok_few_chains [OF ok] spqr_ok_epoch [OF ok]
    by (auto simp: spqr_counted_def const_defs)
qed

lemma spqr_ok_encodes: "spqr_ok s \<Longrightarrow> \<exists>b. spqr_to_bytes s = Inr b"
  by (simp add: spqr_to_bytes_iff spqr_ok_counted)

section \<open>The triple ratchet state\<close>

record triple_state =
  t_classical :: rstate
  t_sparse :: qstate

datatype role = Sender | Receiver

definition triple_to_bytes :: "triple_state \<Rightarrow> bytes res" where
  "triple_to_bytes t =
     bindR (ratchet_to_bytes (t_classical t)) (\<lambda>rb.
     bindR (spqr_to_bytes (t_sparse t)) (\<lambda>sb.
     bindR (pbe (int (length rb)) 4) (\<lambda>rn. bindR (pbe (int (length sb)) 4) (\<lambda>sn.
     Inr ([STATE_VERSION] @ rn @ rb @ sn @ sb)))))"

definition classical_role :: "rstate \<Rightarrow> role option" where
  "classical_role c =
     (if r_cks c \<noteq> None \<and> r_ckr c = None then Some Sender
      else if r_cks c = None \<and> r_ckr c = None then Some Receiver
      else None)"

definition triple_invariant :: "triple_state \<Rightarrow> bool" where
  "triple_invariant t \<longleftrightarrow>
     (case classical_role (t_classical t) of None \<Rightarrow> True
      | Some role \<Rightarrow> \<not> ((q_direction (t_sparse t) = DIRECTION_A2B) \<noteq> (role = Sender)))"

text \<open>A half its own reader refuses, for whatever persistence reason, is malformed.\<close>

definition as_malformed :: "'a res \<Rightarrow> 'a res" where
  "as_malformed m = (case m of Inl (PersistE WrongVersion) \<Rightarrow> Inl (PersistE Malformed) | _ \<Rightarrow> m)"

definition triple_from_bytes :: "bytes \<Rightarrow> triple_state res" where
  "triple_from_bytes b =
     bindR (pr_version b {STATE_VERSION}) (\<lambda>_.
     bindR (pr_take 1 b) (\<lambda>(_, r).
     bindR (pr_prefixed r) (\<lambda>(rb, r).
     bindR (pr_prefixed r) (\<lambda>(sb, r).
     bindR (pr_end r) (\<lambda>_.
     bindR (as_malformed (bindR (ratchet_from_bytes rb) (\<lambda>c.
              bindR (spqr_from_bytes sb) (\<lambda>s. Inr \<lparr> t_classical = c, t_sparse = s \<rparr>)))) (\<lambda>t.
     if triple_invariant t then Inr t else Inl (PersistE Malformed)))))))"

lemma as_malformed_Inr [simp]: "as_malformed m = Inr x \<longleftrightarrow> m = Inr x"
  by (auto simp: as_malformed_def split: sum.splits error.splits persist_exn.splits)

lemma as_malformed_eval [simp]: "as_malformed (Inr x) = Inr x"
  by (simp add: as_malformed_def)

definition triple_storable :: "triple_state \<Rightarrow> bool" where
  "triple_storable t \<longleftrightarrow>
     ratchet_storable (t_classical t) \<and> spqr_storable (t_sparse t) \<and> triple_invariant t"

lemma triple_from_bytes_iff:
  "triple_from_bytes b = Inr t \<longleftrightarrow> triple_storable t \<and> triple_to_bytes t = Inr b"
proof
  assume dec: "triple_from_bytes b = Inr t"
  then obtain r where r: "b = STATE_VERSION # r"
    by (auto simp: triple_from_bytes_def res_iff)
  from dec show "triple_storable t \<and> triple_to_bytes t = Inr b"
    by (auto simp: triple_from_bytes_def r pr_version_def pr_take_1 res_iff triple_storable_def triple_to_bytes_def
        ratchet_codec.dec_iff spqr_codec.dec_iff split: if_splits)
next
  assume enc: "triple_storable t \<and> triple_to_bytes t = Inr b"
  then obtain rb sb where "ratchet_to_bytes (t_classical t) = Inr rb" "spqr_to_bytes (t_sparse t) = Inr sb"
    "int (length rb) < 256 ^ 4" "int (length sb) < 256 ^ 4"
    "b = STATE_VERSION # be_digits 4 (int (length rb)) @ rb @ be_digits 4 (int (length sb)) @ sb"
    by (auto simp: triple_to_bytes_def res_iff)
  moreover from calculation have "ratchet_from_bytes rb = Inr (t_classical t)"
    "spqr_from_bytes sb = Inr (t_sparse t)"
    using enc by (auto simp: triple_storable_def ratchet_codec.dec_iff spqr_codec.dec_iff)
  ultimately show "triple_from_bytes b = Inr t"
    using enc by (cases t) (simp add: triple_from_bytes_def pr_version_def pr_eval pr_end_def triple_storable_def)
qed

interpretation triple_codec: exact_codec triple_to_bytes triple_storable triple_from_bytes
  by unfold_locales (rule triple_from_bytes_iff)

text \<open>Whatever is wrong with the bytes, the reader names one of two reasons.\<close>

lemma triple_first_byte: "triple_from_bytes b = Inl (PersistE WrongVersion) \<longleftrightarrow> (\<exists>v r. b = v # r \<and> v \<noteq> STATE_VERSION)"
proof -
  have "as_malformed m \<noteq> Inl (PersistE WrongVersion)" for m :: "triple_state res"
    by (auto simp: as_malformed_def split: sum.splits error.splits persist_exn.splits)
  moreover have "pr_prefixed r \<noteq> Inl (PersistE WrongVersion)" for r
    by (auto simp: pr_prefixed_def bindR_Inl_iff uint_of_def pr_take_def split: if_splits)
  ultimately show ?thesis
    by (cases b) (auto simp: triple_from_bytes_def pr_version_def pr_take_1 bindR_Inl_iff pr_end_def split: if_splits)
qed

end
