(* ===== verification/Raises.thy ===== *)
theory Raises
  imports Wire
begin

text \<open>
  Which exceptions a function can raise: \<open>raises E m\<close> says every error of \<open>m\<close> is in the class \<open>E\<close>.  The
  rules follow the structure of the code, so the errors of a long handler are found call by call.
\<close>

definition raises :: "(error \<Rightarrow> bool) \<Rightarrow> 'a res \<Rightarrow> bool" where
  "raises E m \<longleftrightarrow> (\<forall>err. m = Inl err \<longrightarrow> E err)"

named_theorems raises_intro \<open>what a function can raise\<close>

lemma raisesD: "raises E m \<Longrightarrow> m = Inl err \<Longrightarrow> E err"
  by (simp add: raises_def)

lemma raises_Inr [raises_intro]: "raises E (Inr x)"
  by (simp add: raises_def)

lemma raises_Inl [raises_intro]: "E err \<Longrightarrow> raises E (Inl err)"
  by (simp add: raises_def)

lemma raises_bindR [raises_intro]:
  "raises E m \<Longrightarrow> (\<And>x. m = Inr x \<Longrightarrow> raises E (f x)) \<Longrightarrow> raises E (bindR m f)"
  by (auto simp: raises_def bindR_Inl_iff)

lemma raises_if [raises_intro]: "(c \<Longrightarrow> raises E a) \<Longrightarrow> (\<not> c \<Longrightarrow> raises E b) \<Longrightarrow> raises E (if c then a else b)"
  by simp

lemma raises_let [raises_intro]: "(\<And>x. x = t \<Longrightarrow> raises E (f x)) \<Longrightarrow> raises E (Let t f)"
  by (simp add: Let_def)

lemma raises_prod [raises_intro]:
  "(\<And>a b. p = (a, b) \<Longrightarrow> raises E (f a b)) \<Longrightarrow> raises E (case p of (a, b) \<Rightarrow> f a b)"
  by (cases p) simp

lemma raises_option [raises_intro]:
  "(x = None \<Longrightarrow> raises E a) \<Longrightarrow> (\<And>v. x = Some v \<Longrightarrow> raises E (f v)) \<Longrightarrow>
     raises E (case x of None \<Rightarrow> a | Some v \<Rightarrow> f v)"
  by (cases x) simp_all

lemma raises_mono: "raises E m \<Longrightarrow> (\<And>err. E err \<Longrightarrow> F err) \<Longrightarrow> raises F m"
  by (auto simp: raises_def)

lemma raises_catchR [raises_intro]:
  "raises (\<lambda>err. C err \<or> E err) m \<Longrightarrow> (\<And>err. C err \<Longrightarrow> raises E (h err)) \<Longrightarrow> raises E (catchR m C h)"
  by (cases m) (auto simp: raises_def)

lemma raises_mapR [raises_intro]: "(\<And>x. x \<in> set xs \<Longrightarrow> raises E (f x)) \<Longrightarrow> raises E (mapR f xs)"
  by (induction xs) (auto simp: raises_def bindR_Inl_iff)

lemma raises_repeatR [raises_intro]: "(\<And>r. raises E (f r)) \<Longrightarrow> raises E (repeatR n f r)"
  by (induction n arbitrary: r) (auto simp: raises_def bindR_Inl_iff split: prod.splits)

lemma raises_uint_of [raises_intro]: "raises E (tk w r) \<Longrightarrow> raises E (uint_of tk w r)"
  by (auto simp: uint_of_def raises_def bindR_Inl_iff)

section \<open>The wire decoders raise \<open>DecodeError\<close> and the encoders \<open>EncodeError\<close>\<close>

lemma raises_rd_take [raises_intro]: "E (WireE DecodeError) \<Longrightarrow> raises E (rd_take n r)"
  by (auto simp: raises_def rd_take_def)

lemma raises_check_framing [raises_intro]: "E (WireE DecodeError) \<Longrightarrow> raises E (check_framing b t)"
  by (auto simp: raises_def check_framing_def)

lemma raises_check_curve_key [raises_intro]: "E (WireE DecodeError) \<Longrightarrow> raises E (check_curve_key k)"
  by (auto simp: raises_def check_curve_key_def)

lemma raises_decode_codeword [raises_intro]: "E (WireE DecodeError) \<Longrightarrow> raises E (decode_codeword p i d)"
  by (auto simp: raises_def decode_codeword_def)

lemma raises_decode_prefix [raises_intro]: "E (WireE DecodeError) \<Longrightarrow> raises E (decode_composite_prefix b)"
  unfolding decode_composite_prefix_def by (intro raises_intro)

lemma raises_decode_composite [raises_intro]: "E (WireE DecodeError) \<Longrightarrow> raises E (decode_composite b)"
  unfolding decode_composite_def by (intro raises_intro)

lemma raises_decode_message [raises_intro]: "E (WireE DecodeError) \<Longrightarrow> raises E (decode_ratchet_message b)"
  unfolding decode_ratchet_message_def by (intro raises_intro)

lemma raises_be_field [raises_intro]: "E (WireE EncodeError) \<Longrightarrow> raises E (be_field v w)"
  by (auto simp: raises_def be_field_def)

lemma raises_concat_ad [raises_intro]: "E (WireE EncodeError) \<Longrightarrow> raises E (concat_ad ad h)"
  unfolding concat_ad_def as_encode_error_def by (intro raises_intro) simp_all

end
