(* ===== verification/Triple.thy ===== *)
theory Triple
  imports Persist_Triple Aead Raises
begin

text \<open>
  The triple ratchet of \<open>tacenta_reader/triple.py\<close>: both ratchets side by side, an agreement that
  feeds the sparse one, and sealed messages under their combined keys.  An agreement object is a record
  of its two methods; a send may also change the object itself (the random draws of the Braid's KEM),
  which is threaded as \<open>'e\<close>.
\<close>

section \<open>Derivations\<close>

definition combine :: "bytes \<Rightarrow> bytes \<Rightarrow> bytes res" where
  "combine mk_ec mk_pq =
     (if length mk_ec \<noteq> 32 \<or> length mk_pq \<noteq> 32 then Inl (PyE ValueError)
      else Inr (hkdf mk_pq mk_ec COMBINE_INFO 32))"

definition split_secret_bytes :: "bytes \<Rightarrow> bytes" where
  "split_secret_bytes sk = hkdf (zeros 32) sk SPLIT_INFO 64"

definition split_secret :: "bytes \<Rightarrow> bytes \<times> bytes" where
  "split_secret sk = (let out = split_secret_bytes sk in (take 32 out, drop 32 out))"

section \<open>The agreement boundary\<close>

record 's agreement_send =
  as_state :: 's
  as_ag_epoch :: int
  as_ag_type :: int
  as_codeword :: "codeword option"
  as_epoch :: int
  as_secret :: "bytes option"
  as_secret_epoch :: "int option"

record 's agreement_receive =
  ar_state :: 's
  ar_secret :: "bytes option"
  ar_secret_epoch :: "int option"

record ('s, 'e) agreement =
  ag_send :: "'s \<Rightarrow> 'e \<Rightarrow> 's agreement_send res \<times> 'e"
  ag_receive :: "'s \<Rightarrow> composite_header \<Rightarrow> 's agreement_receive res"

text \<open>The two test doubles.\<close>

definition null_agreement :: "('s, unit) agreement" where
  "null_agreement =
     \<lparr> ag_send = (\<lambda>st e. (Inr \<lparr> as_state = st, as_ag_epoch = 0, as_ag_type = AG_NONE, as_codeword = None,
                              as_epoch = 0, as_secret = None, as_secret_epoch = None \<rparr>, e)),
       ag_receive = (\<lambda>st h. Inr \<lparr> ar_state = st, ar_secret = None, ar_secret_epoch = None \<rparr>) \<rparr>"

definition scripted_agreement :: "bytes \<Rightarrow> int \<Rightarrow> (int \<times> int, unit) agreement" where
  "scripted_agreement secret trigger =
     \<lparr> ag_send = (\<lambda>(epoch, sends) e.
         let sends = sends + 1
         in (Inr (if epoch = 0 \<and> sends = trigger
               then \<lparr> as_state = (1, sends), as_ag_epoch = 1, as_ag_type = AG_HDR, as_codeword = None,
                      as_epoch = 0, as_secret = Some secret, as_secret_epoch = Some 1 \<rparr>
               else \<lparr> as_state = (epoch, sends), as_ag_epoch = epoch, as_ag_type = AG_NONE, as_codeword = None,
                      as_epoch = epoch, as_secret = None, as_secret_epoch = None \<rparr>), e)),
       ag_receive = (\<lambda>(epoch, sends) h.
         if ch_ag_epoch h = epoch + 1
         then Inr \<lparr> ar_state = (epoch + 1, sends), ar_secret = Some secret, ar_secret_epoch = Some (epoch + 1) \<rparr>
         else Inr \<lparr> ar_state = (epoch, sends), ar_secret = None, ar_secret_epoch = None \<rparr>) \<rparr>"

section \<open>A party\<close>

record 's party =
  p_classical :: rstate
  p_sparse :: qstate
  p_ratchet_private :: bytes
  p_agreement_state :: 's
  p_ad :: bytes

definition triple_init_initiator :: "bytes \<Rightarrow> bytes \<Rightarrow> bytes \<Rightarrow> bytes \<Rightarrow> 's \<Rightarrow> 's party res" where
  "triple_init_initiator sk ad fresh_ratchet_private peer_signed_prekey agreement_state =
     (let (c_half, s_half) = split_secret sk
      in bindR (x25519 fresh_ratchet_private peer_signed_prekey) (\<lambda>dh.
         if dh = zeros 32 then Inl (CryptoE NonContributory)
         else
           bindR (x25519_public fresh_ratchet_private) (\<lambda>pub.
           bindR (spqr_init s_half DIRECTION_A2B) (\<lambda>sparse.
           Inr \<lparr> p_classical = ratchet_init_initiator c_half pub peer_signed_prekey dh,
                 p_sparse = sparse, p_ratchet_private = fresh_ratchet_private,
                 p_agreement_state = agreement_state, p_ad = ad \<rparr>))))"

definition triple_init_responder :: "bytes \<Rightarrow> bytes \<Rightarrow> bytes \<Rightarrow> 's \<Rightarrow> 's party res" where
  "triple_init_responder sk ad signed_prekey_private agreement_state =
     (let (c_half, s_half) = split_secret sk
      in bindR (x25519_public signed_prekey_private) (\<lambda>pub.
         bindR (spqr_init s_half DIRECTION_B2A) (\<lambda>sparse.
         Inr \<lparr> p_classical = ratchet_init_responder c_half pub, p_sparse = sparse,
               p_ratchet_private = signed_prekey_private, p_agreement_state = agreement_state, p_ad = ad \<rparr>)))"

section \<open>The two ratchets alone\<close>

definition init_halves ::
  "int \<Rightarrow> bytes \<Rightarrow> bytes \<Rightarrow> bytes \<Rightarrow> bytes \<Rightarrow> (rstate \<times> qstate) res" where
  "init_halves role sk our_pub peer_pub dh_out =
     (let (c_half, s_half) = split_secret sk
      in if role = 0
         then bindR (spqr_init s_half DIRECTION_A2B) (\<lambda>s.
                Inr (ratchet_init_initiator c_half our_pub peer_pub dh_out, s))
         else if role = 1
         then bindR (spqr_init s_half DIRECTION_B2A) (\<lambda>s. Inr (ratchet_init_responder c_half our_pub, s))
         else Inl (PyE ValueError))"

definition halves_send ::
  "rstate \<Rightarrow> qstate \<Rightarrow> int \<Rightarrow> bytes option \<Rightarrow> int option \<Rightarrow> (rstate \<times> qstate) res" where
  "halves_send classical sparse sending_epoch secret secret_epoch =
     bindR (ratchet_send classical) (\<lambda>(c, _).
     bindR (spqr_send sparse sending_epoch secret secret_epoch) (\<lambda>(s, _). Inr (c, s)))"

definition halves_receive ::
  "rstate \<Rightarrow> qstate \<Rightarrow> rheader \<Rightarrow> bytes \<Rightarrow> bytes \<Rightarrow> bytes \<Rightarrow> int \<Rightarrow> int \<Rightarrow> bytes option \<Rightarrow> int option \<Rightarrow>
    (rstate \<times> qstate) res" where
  "halves_receive classical sparse header dh_recv dh_send new_pub pq_epoch pq_n secret secret_epoch =
     bindR (ratchet_receive classical header (\<lambda>_. Inr (dh_recv, new_pub, dh_send))) (\<lambda>(c, _).
     bindR (spqr_receive sparse pq_epoch pq_n secret secret_epoch) (\<lambda>(s, _). Inr (c, s)))"

section \<open>Messages\<close>

definition triple_encrypt ::
  "('s, 'e) agreement \<Rightarrow> 's party \<Rightarrow> bytes \<Rightarrow> 'e \<Rightarrow> ('s party \<times> bytes) res \<times> 'e" where
  "triple_encrypt agreement party plaintext e =
     (let (ag, e) = ag_send agreement (p_agreement_state party) e
      in (bindR ag (\<lambda>ag.
          bindR (ratchet_send (p_classical party)) (\<lambda>(classical, dr_hdr, mk_ec).
          bindR (spqr_send (p_sparse party) (as_epoch ag) (as_secret ag) (as_secret_epoch ag))
            (\<lambda>(sparse, epoch, pq_n, mk_pq).
          let header = \<lparr> ch_dh = rh_dh dr_hdr, ch_pn = rh_pn dr_hdr, composite_header.ch_n = rh_n dr_hdr, ch_pq_epoch = epoch,
                         ch_pq_n = pq_n, ch_ag_epoch = as_ag_epoch ag, ch_ag_type = as_ag_type ag,
                         ch_codeword = as_codeword ag \<rparr>
          in bindR (encode_composite header) (\<lambda>header_bytes.
             bindR (combine mk_ec mk_pq) (\<lambda>mk.
             bindR (concat_ad (p_ad party) header_bytes) (\<lambda>ad.
             bindR (seal mk ad plaintext) (\<lambda>ct.
             Inr (party\<lparr> p_classical := classical, p_sparse := sparse, p_agreement_state := as_state ag \<rparr>,
                  header_bytes @ ct)))))))), e))"

definition check_contributory :: "bytes \<Rightarrow> bytes \<Rightarrow> bytes \<Rightarrow> (bytes \<times> bytes) res" where
  "check_contributory ratchet_private fresh_private header_dh =
     bindR (x25519 ratchet_private header_dh) (\<lambda>dh_current.
     bindR (x25519 fresh_private header_dh) (\<lambda>dh_fresh.
     if dh_current = zeros 32 \<or> dh_fresh = zeros 32 then Inl (CryptoE NonContributory)
     else Inr (dh_current, dh_fresh)))"

definition triple_decrypt ::
  "('s, 'e) agreement \<Rightarrow> 's party \<Rightarrow> bytes \<Rightarrow> bytes \<Rightarrow> ('s party \<times> bytes) res" where
  "triple_decrypt agreement party message fresh_private =
     bindR (decode_ratchet_message message) (\<lambda>(header, ciphertext).
     bindR (check_contributory (p_ratchet_private party) fresh_private (ch_dh header)) (\<lambda>(dh_current, dh_fresh).
     bindR (x25519_public fresh_private) (\<lambda>fresh_pub.
     bindR (ag_receive agreement (p_agreement_state party) header) (\<lambda>ag.
     bindR (ratchet_receive (p_classical party)
              \<lparr> rh_dh = ch_dh header, rh_pn = ch_pn header, rh_n = composite_header.ch_n header \<rparr>
              (\<lambda>_. Inr (dh_current, fresh_pub, dh_fresh))) (\<lambda>(classical, mk_ec, stepped).
     bindR (spqr_receive (p_sparse party) (ch_pq_epoch header) (ch_pq_n header) (ar_secret ag)
              (ar_secret_epoch ag)) (\<lambda>(sparse, mk_pq).
     let header_bytes = take (nat COMPOSITE_LEN) message
     in bindR (combine mk_ec mk_pq) (\<lambda>mk.
        bindR (concat_ad (p_ad party) header_bytes) (\<lambda>ad.
        bindR (aead_open mk ad ciphertext) (\<lambda>plaintext.
        Inr (\<lparr> p_classical = classical, p_sparse = sparse,
               p_ratchet_private = (if stepped then fresh_private else p_ratchet_private party),
               p_agreement_state = ar_state ag, p_ad = p_ad party \<rparr>, plaintext))))))))))"

text \<open>
  \<open>decrypt_with_eviction\<close>: the loop of its \<open>while True\<close>, with the working copy and the two entries of
  \<open>last\<close>.  Not returning is \<open>None\<close>.
\<close>

partial_function (option) evict_loop ::
  "('s, 'e) agreement \<Rightarrow> bytes \<Rightarrow> bytes \<Rightarrow> 's party \<Rightarrow> int \<Rightarrow> int \<Rightarrow> ('s party \<times> bytes) res option" where
  "evict_loop agreement message fresh_private working last_c last_s =
     (case triple_decrypt agreement working message fresh_private of
        Inr out \<Rightarrow> Some (Inr out)
      | Inl (RatchetE (SkippedStoreFull shortfall)) \<Rightarrow>
          if r_skipped (p_classical working) = [] then Some (Inl (RatchetE (SkippedStoreFull shortfall)))
          else
            (let last_c = max shortfall (2 * last_c)
             in evict_loop agreement message fresh_private
                  (working\<lparr> p_classical := ratchet_evict (p_classical working) last_c \<rparr>) last_c last_s)
      | Inl (SpqrE (SpSkippedStoreFull shortfall)) \<Rightarrow>
          if q_skipped (p_sparse working) = [] then Some (Inl (SpqrE (SpSkippedStoreFull shortfall)))
          else
            (let last_s = max shortfall (2 * last_s)
             in evict_loop agreement message fresh_private
                  (working\<lparr> p_sparse := spqr_evict (p_sparse working) last_s \<rparr>) last_c last_s)
      | Inl err \<Rightarrow> Some (Inl err))"

definition decrypt_with_eviction ::
  "('s, 'e) agreement \<Rightarrow> 's party \<Rightarrow> bytes \<Rightarrow> bytes \<Rightarrow> ('s party \<times> bytes) res option" where
  "decrypt_with_eviction agreement party message fresh_private =
     evict_loop agreement message fresh_private party 0 0"

section \<open>A full store is the only reason to evict, and never the last word\<close>

definition store_full :: "error \<Rightarrow> bool" where
  "store_full err \<longleftrightarrow> (\<exists>k. err = RatchetE (SkippedStoreFull k) \<or> err = SpqrE (SpSkippedStoreFull k))"

lemma fresh_le:
  "int (length (filter Q [a..b - 1])) \<le> max 0 (b - a)"
  using length_filter_le [of Q "[a..b - 1]"] by simp

lemma skip_loop_not_full: "skip_loop s until = Inl err \<Longrightarrow> \<not> store_full err"
proof (induction s until rule: skip_loop.induct)
  case (1 s until)
  have "skip_loop s until = (if r_nr s < until
      then (case r_ckr s of None \<Rightarrow> Inl (PyE TypeError)
            | Some ck \<Rightarrow> (case store_key (s\<lparr> r_ckr := Some (fst (kdf_ck ck)) \<rparr>) (r_dhr s) (r_nr s) (snd (kdf_ck ck)) of
                Inl e \<Rightarrow> Inl e | Inr s' \<Rightarrow> skip_loop (s'\<lparr> r_nr := r_nr s' + 1 \<rparr>) until))
      else Inr s)"
    by (subst skip_loop.simps) (simp add: split_beta Let_def split: option.split)
  with 1 show ?case
    by (auto simp: store_full_def store_key_def Let_def prod_eq_iff split: if_splits option.splits sum.splits)
qed

lemma skip_keys_full:
  assumes "skip_keys s until = Inl err" "store_full err"
  shows "\<exists>k. err = RatchetE (SkippedStoreFull k) \<and> 0 < k
    \<and> k + MAX_SKIPPED_STORE \<le> int (length (r_skipped s)) + MAX_SKIP"
proof -
  let ?fresh = "int (length (filter (\<lambda>n. \<not> dict_in (r_dhr s, n) (r_skipped s)) [r_nr s..until - 1]))"
  have "?fresh \<le> max 0 (until - r_nr s)" by (rule fresh_le)
  moreover have "r_nr s < until" "\<not> until - r_nr s > MAX_SKIP"
    "err = RatchetE (SkippedStoreFull (int (length (r_skipped s)) + ?fresh - MAX_SKIPPED_STORE))"
    "int (length (r_skipped s)) + ?fresh - MAX_SKIPPED_STORE > 0"
    using assms skip_loop_not_full [of s until err]
    by (auto simp: skip_keys_def Let_def store_full_def split: if_splits)
  ultimately show ?thesis by auto
qed

lemma skip_keys_grows:
  assumes ok: "ratchet_ok P s" and ckr: "r_ckr s \<noteq> None" and run: "skip_keys s until = Inr s'"
  shows "int (length (r_skipped s')) \<le> int (length (r_skipped s)) + MAX_SKIP"
proof -
  obtain ck where ck: "r_ckr s = Some ck" using ckr by auto
  show ?thesis
  proof (cases "until \<le> r_nr s")
    case True
    then show ?thesis using run by (simp add: skip_keys_def const_defs)
  next
    case False
    have "s' = skipped_to s ck until" using skip_keys_ok [OF ok ck run] False by simp
    moreover have "dict_ok (r_skipped s)" using ok by (simp add: ratchet_ok_def)
    moreover have "until - r_nr s \<le> MAX_SKIP" using run False by (auto simp: skip_keys_def split: if_splits)
    ultimately show ?thesis
      using length_skipped_to [of s until ck] False
        fresh_le [of "\<lambda>n. \<not> dict_in (r_dhr s, n) (r_skipped s)" "r_nr s" until]
      by (simp add: skip_shortfall_def)
  qed
qed

lemma receive_on_chain_full:
  assumes "receive_on_chain s n = Inl err" "store_full err"
  shows "\<exists>k. err = RatchetE (SkippedStoreFull k) \<and> 0 < k
    \<and> k + MAX_SKIPPED_STORE \<le> int (length (r_skipped s)) + MAX_SKIP"
  using assms skip_keys_full [of s n err]
  by (auto simp: receive_on_chain_def bindR_Inl_iff store_full_def split_beta split: option.splits if_splits)

lemma ratchet_receive_full:
  assumes ok: "ratchet_ok P s" and full: "store_full err"
    and run: "ratchet_receive s h (\<lambda>_. Inr abc) = Inl err"
  shows "\<exists>k. err = RatchetE (SkippedStoreFull k) \<and> 0 < k \<and> r_skipped s \<noteq> []"
proof -
  let ?step = "\<lambda>_. Inr abc"
  have room: "MAX_SKIP < MAX_SKIPPED_STORE" "2 * MAX_SKIP \<le> MAX_SKIPPED_STORE" by (simp_all add: const_defs)
  have cases: "receive_on_chain s (rh_n h) = Inl err
      \<or> dh_ratchet ?step (rh_dh h) (rh_pn h) s = Inl err
      \<or> (\<exists>s1. dh_ratchet ?step (rh_dh h) (rh_pn h) s = Inr s1 \<and> receive_on_chain s1 (rh_n h) = Inl err)"
    using run full
    by (auto simp: ratchet_receive_def Let_def bindR_Inl_iff bindR_Inr_iff store_full_def split: option.splits if_splits)
  have first: "(\<exists>k. err = RatchetE (SkippedStoreFull k) \<and> 0 < k \<and> r_skipped s \<noteq> [])"
    if "skip_keys s n = Inl err \<or> receive_on_chain s n = Inl err" for n
    using that skip_keys_full [of s n err, OF _ full] receive_on_chain_full [of s n err, OF _ full] room by auto
  from cases show ?thesis
  proof (elim disjE exE conjE)
    assume "dh_ratchet ?step (rh_dh h) (rh_pn h) s = Inl err"
    then have "skip_keys s (rh_pn h) = Inl err"
      by (auto simp: dh_ratchet_def bindR_Inl_iff split_beta split: if_splits)
    then show ?thesis using first by blast
  next
    fix s1 assume s1: "dh_ratchet ?step (rh_dh h) (rh_pn h) s = Inr s1" "receive_on_chain s1 (rh_n h) = Inl err"
    have "int (length (r_skipped s1)) \<le> int (length (r_skipped s)) + MAX_SKIP"
      using s1(1) skip_keys_grows [OF ok] room(1)
      by (auto simp: dh_ratchet_def bindR_Inr_iff split_beta const_defs split: if_splits)
    then show ?thesis using receive_on_chain_full [OF s1(2) full] room by auto
  qed (use first in blast)
qed

lemma spqr_offer_not_full: "spqr_offer s secret se = Inl err \<Longrightarrow> \<not> store_full err"
  by (auto simp: spqr_offer_def spqr_advance_def spqr_assign_def store_full_def bindR_Inl_iff split_beta Let_def
      split: option.splits if_splits)

lemma spqr_receive_full:
  assumes ok: "spqr_ok s" and full: "store_full err" and run: "spqr_receive s e n secret se = Inl err"
  shows "\<exists>k. err = SpqrE (SpSkippedStoreFull k) \<and> 0 < k \<and> q_skipped s \<noteq> []"
proof -
  obtain s1 where s1: "spqr_offer s secret se = Inr s1" and on: "spqr_receive s1 e n None None = Inl err"
    using run full spqr_offer_not_full [of s secret se err]
    by (subst (asm) spqr_receive_offer) (auto simp: bindR_Inl_iff)
  have ok1: "spqr_ok s1" by (rule spqr_offer_ok [OF ok s1])
  have shrinks: "length (q_skipped s1) \<le> length (q_skipped s)"
    using s1 by (auto simp: spqr_offer_def spqr_advance_def bindR_Inr_iff split_beta Let_def
        split: option.splits if_splits)
  obtain sc c where get: "dict_get (q_chains s1) e = Some (sc, Some c)"
    using on full by (auto simp: spqr_receive_def spqr_offer_def store_full_def split: option.splits prod.splits)
  have range: "0 \<le> ch_n c" "ch_n c \<le> U64_MAX"
    using spqr_ok_chain [OF ok1 get] by (simp_all add: chain_ok_def)
  have "ch_n c < n" "n - 1 - ch_n c \<le> MAX_SKIP" "err = SpqrE (SpSkippedStoreFull (spqr_shortfall s1 e (ch_n c) n))"
    "spqr_shortfall s1 e (ch_n c) n > 0"
    using on full by (auto simp: spqr_receive_current [OF get range] store_full_def split: if_splits option.splits)
  moreover have "spqr_shortfall s1 e (ch_n c) n
      \<le> int (length (q_skipped s1)) + max 0 (n - 1 - ch_n c) - MAX_SKIPPED_STORE"
    using fresh_le [of "\<lambda>m. \<not> dict_in (e, m) (q_skipped s1)" "ch_n c + 1" n] by (simp add: spqr_shortfall_def)
  ultimately show ?thesis using shrinks by (auto simp: const_defs)
qed

text \<open>What the agreement must not do for eviction to end: raise the two errors the loop answers to.\<close>

definition quiet_agreement :: "('s, 'e) agreement \<Rightarrow> bool" where
  "quiet_agreement ag \<longleftrightarrow> (\<forall>st h err. ag_receive ag st h = Inl err \<longrightarrow> \<not> store_full err)"

lemma null_agreement_quiet: "quiet_agreement null_agreement"
  by (simp add: quiet_agreement_def null_agreement_def)

lemma scripted_agreement_quiet: "quiet_agreement (scripted_agreement secret trigger)"
  by (simp add: quiet_agreement_def scripted_agreement_def split: prod.splits)

lemma raises_x25519 [raises_intro]: "E (PyE ValueError) \<Longrightarrow> raises E (x25519 k u)"
  using x25519_cases [of k u] by (auto simp: raises_def split: sum.splits)

lemma raises_x25519_public [raises_intro]: "E (PyE ValueError) \<Longrightarrow> raises E (x25519_public k)"
  unfolding x25519_public_def by (intro raises_intro)

lemma raises_check_contributory [raises_intro]:
  "E (PyE ValueError) \<Longrightarrow> E (CryptoE NonContributory) \<Longrightarrow> raises E (check_contributory a b c)"
  unfolding check_contributory_def by (intro raises_intro)

lemma raises_combine [raises_intro]: "E (PyE ValueError) \<Longrightarrow> raises E (combine a b)"
  unfolding combine_def by (intro raises_intro)

lemma raises_aead_open [raises_intro]: "E (CryptoE AuthenticationFailure) \<Longrightarrow> raises E (aead_open k ad data)"
  using open_error [of k ad data] by (auto simp: raises_def)

lemma triple_decrypt_full:
  assumes ok: "ratchet_ok P (p_classical p)" "spqr_ok (p_sparse p)" and quiet: "quiet_agreement ag"
    and run: "triple_decrypt ag p msg fresh = Inl err" and full: "store_full err"
  shows "(\<exists>k. err = RatchetE (SkippedStoreFull k) \<and> 0 < k \<and> r_skipped (p_classical p) \<noteq> [])
    \<or> (\<exists>k. err = SpqrE (SpSkippedStoreFull k) \<and> 0 < k \<and> q_skipped (p_sparse p) \<noteq> [])"
proof -
  let ?E = "\<lambda>err. store_full err \<longrightarrow>
      (\<exists>k. err = RatchetE (SkippedStoreFull k) \<and> 0 < k \<and> r_skipped (p_classical p) \<noteq> [])
    \<or> (\<exists>k. err = SpqrE (SpSkippedStoreFull k) \<and> 0 < k \<and> q_skipped (p_sparse p) \<noteq> [])"
  have classical: "raises ?E (ratchet_receive (p_classical p) h (\<lambda>_. Inr abc))" for h abc
    using ratchet_receive_full [OF ok(1), where h = h and abc = abc] by (auto simp: raises_def)
  have sparse: "raises ?E (spqr_receive (p_sparse p) e n sec se)" for e n sec se
    using spqr_receive_full [OF ok(2), where e = e and n = n and secret = sec and se = se] by (auto simp: raises_def)
  have agree: "raises ?E (ag_receive ag st h)" for st h
    using quiet by (auto simp: raises_def quiet_agreement_def)
  have "raises ?E (triple_decrypt ag p msg fresh)"
    unfolding triple_decrypt_def
    by (intro raises_intro classical sparse agree) (simp_all add: store_full_def)
  then show ?thesis using run full by (auto dest: raisesD)
qed

lemma length_ratchet_evict:
  assumes "dict_ok (r_skipped s)" "0 < k" "r_skipped s \<noteq> []"
  shows "length (r_skipped (ratchet_evict s k)) < length (r_skipped s)"
  using ratchet_evict_spec(2) [OF assms(1), of k] assms(2,3) by (cases "r_skipped s") auto

lemma length_spqr_evict:
  assumes "dict_ok (q_skipped s)" "0 < k" "q_skipped s \<noteq> []"
  shows "length (q_skipped (spqr_evict s k)) < length (q_skipped s)"
  using spqr_evict_eq [OF assms(1), of k] assms(2,3) by (cases "q_skipped s") auto

text \<open>What a working copy is: the party with some stored keys evicted and nothing else changed.\<close>

definition without_stores :: "'s party \<Rightarrow> 's party" where
  "without_stores p =
     p\<lparr> p_classical := (p_classical p)\<lparr> r_skipped := [] \<rparr>, p_sparse := (p_sparse p)\<lparr> q_skipped := [] \<rparr> \<rparr>"

definition evicted_from :: "'s party \<Rightarrow> 's party \<Rightarrow> bool" where
  "evicted_from p w \<longleftrightarrow> without_stores w = without_stores p
     \<and> set (r_skipped (p_classical w)) \<subseteq> set (r_skipped (p_classical p))
     \<and> set (q_skipped (p_sparse w)) \<subseteq> set (q_skipped (p_sparse p))"

lemma evicted_refl: "evicted_from p p"
  by (simp add: evicted_from_def)

lemma evicted_classical:
  "dict_ok (r_skipped (p_classical w)) \<Longrightarrow> evicted_from p w \<Longrightarrow>
     evicted_from p (w\<lparr> p_classical := ratchet_evict (p_classical w) k \<rparr>)"
  by (cases w) (auto simp: evicted_from_def without_stores_def ratchet_evict_eq)

lemma evicted_sparse:
  "dict_ok (q_skipped (p_sparse w)) \<Longrightarrow> evicted_from p w \<Longrightarrow>
     evicted_from p (w\<lparr> p_sparse := spqr_evict (p_sparse w) k \<rparr>)"
  by (cases w) (auto simp: evicted_from_def without_stores_def spqr_evict_eq dest: in_set_dropD)

lemma evict_loop_ends:
  assumes quiet: "quiet_agreement ag"
  shows "ratchet_ok P (p_classical w) \<Longrightarrow> spqr_ok (p_sparse w) \<Longrightarrow> evicted_from p w \<Longrightarrow>
    \<exists>r. evict_loop ag msg fresh w lc ls = Some r \<and> (\<exists>w'. evicted_from p w' \<and> ratchet_ok P (p_classical w') \<and> spqr_ok (p_sparse w')
            \<and> triple_decrypt ag w' msg fresh = r)
      \<and> (case r of Inl err \<Rightarrow> \<not> store_full err | Inr _ \<Rightarrow> True)"
proof (induction "length (r_skipped (p_classical w)) + length (q_skipped (p_sparse w))"
    arbitrary: w lc ls rule: less_induct)
  case less
  note ok = less.prems
  have dicts: "dict_ok (r_skipped (p_classical w))" "dict_ok (q_skipped (p_sparse w))"
    using ok by (simp_all add: ratchet_ok_def spqr_ok_def)
  show ?case
  proof (cases "triple_decrypt ag w msg fresh")
    case (Inr out)
    then show ?thesis using ok by (subst evict_loop.simps) auto
  next
    case (Inl err)
    show ?thesis
    proof (cases "store_full err")
      case False
      then show ?thesis
        using Inl ok
        by (subst evict_loop.simps)
          (auto simp: store_full_def split: error.splits ratchet_exn.splits spqr_exn.splits)
    next
      case True
      from triple_decrypt_full [OF ok(1,2) quiet Inl True] show ?thesis
      proof (elim disjE exE conjE)
        fix k assume k: "err = RatchetE (SkippedStoreFull k)" "0 < k" "r_skipped (p_classical w) \<noteq> []"
        let ?w = "w\<lparr> p_classical := ratchet_evict (p_classical w) (max k (2 * lc)) \<rparr>"
        have "evict_loop ag msg fresh w lc ls = evict_loop ag msg fresh ?w (max k (2 * lc)) ls"
          using Inl k by (subst evict_loop.simps) (simp add: Let_def)
        moreover have "length (r_skipped (p_classical ?w)) < length (r_skipped (p_classical w))"
          using length_ratchet_evict [OF dicts(1) _ k(3), of "max k (2 * lc)"] k(2) by simp
        ultimately show ?thesis
          using less.hyps [of ?w] ratchet_evict_ok [OF ok(1)] ok(2) evicted_classical [OF dicts(1) ok(3)] by simp
      next
        fix k assume k: "err = SpqrE (SpSkippedStoreFull k)" "0 < k" "q_skipped (p_sparse w) \<noteq> []"
        let ?w = "w\<lparr> p_sparse := spqr_evict (p_sparse w) (max k (2 * ls)) \<rparr>"
        have "evict_loop ag msg fresh w lc ls = evict_loop ag msg fresh ?w lc (max k (2 * ls))"
          using Inl k by (subst evict_loop.simps) (simp add: Let_def)
        moreover have "length (q_skipped (p_sparse ?w)) < length (q_skipped (p_sparse w))"
          using length_spqr_evict [OF dicts(2) _ k(3), of "max k (2 * ls)"] k(2) by simp
        ultimately show ?thesis
          using less.hyps [of ?w] spqr_evict_ok [OF ok(2)] ok(1) evicted_sparse [OF dicts(2) ok(3)] by simp
      qed
    qed
  qed
qed

end
