(* ===== verification/Triple_Session.thy ===== *)
theory Triple_Session
  imports Triple
begin

text \<open>
  Sessions of the triple ratchet: the state a party keeps, what its operations preserve, that every
  reachable state is stored and restored, and that an accepted message is exactly a sealed one.
\<close>

section \<open>The handlers, as the calls they make\<close>

lemma triple_decrypt_iff:
  "triple_decrypt ag p msg fresh = Inr (p', pt) \<longleftrightarrow>
    (\<exists>h ct. decode_ratchet_message msg = Inr (h, ct) \<and>
    (\<exists>d1 d2. check_contributory (p_ratchet_private p) fresh (ch_dh h) = Inr (d1, d2) \<and>
    (\<exists>pub. x25519_public fresh = Inr pub \<and>
    (\<exists>a. ag_receive ag (p_agreement_state p) h = Inr a \<and>
    (\<exists>c mk st. ratchet_receive (p_classical p) \<lparr> rh_dh = ch_dh h, rh_pn = ch_pn h, rh_n = composite_header.ch_n h \<rparr>
        (\<lambda>_. Inr (d1, pub, d2)) = Inr (c, mk, st) \<and>
    (\<exists>q mk2. spqr_receive (p_sparse p) (ch_pq_epoch h) (ch_pq_n h) (ar_secret a) (ar_secret_epoch a) = Inr (q, mk2) \<and>
    (\<exists>k. combine mk mk2 = Inr k \<and>
    (\<exists>ad. concat_ad (p_ad p) (take (nat COMPOSITE_LEN) msg) = Inr ad \<and> aead_open k ad ct = Inr pt \<and>
      p' = \<lparr> p_classical = c, p_sparse = q, p_ratchet_private = (if st then fresh else p_ratchet_private p),
             p_agreement_state = ar_state a, p_ad = p_ad p \<rparr>))))))))"
  (is "?run \<longleftrightarrow> ?calls")
proof
  assume ?run
  then show ?calls
    unfolding triple_decrypt_def bindR_Inr_iff Let_def split_paired_Ex prod.case sum.inject prod.inject
    by (elim exE conjE, hypsubst) (intro exI conjI; (assumption | rule refl))
next
  assume ?calls
  then show ?run by (elim exE conjE) (simp add: triple_decrypt_def)
qed

lemma triple_encrypt_iff:
  "triple_encrypt ag p pt e = (Inr (p', msg), e') \<longleftrightarrow>
    (\<exists>a. ag_send ag (p_agreement_state p) e = (Inr a, e') \<and>
    (\<exists>c h mk. ratchet_send (p_classical p) = Inr (c, h, mk) \<and>
    (\<exists>q ep n mk2. spqr_send (p_sparse p) (as_epoch a) (as_secret a) (as_secret_epoch a) = Inr (q, ep, n, mk2) \<and>
    (\<exists>hb. encode_composite \<lparr> ch_dh = rh_dh h, ch_pn = rh_pn h, composite_header.ch_n = rh_n h, ch_pq_epoch = ep,
          ch_pq_n = n, ch_ag_epoch = as_ag_epoch a, ch_ag_type = as_ag_type a, ch_codeword = as_codeword a \<rparr> = Inr hb \<and>
    (\<exists>k. combine mk mk2 = Inr k \<and>
    (\<exists>ad. concat_ad (p_ad p) hb = Inr ad \<and>
    (\<exists>ct. seal k ad pt = Inr ct \<and> msg = hb @ ct \<and>
      p' = p\<lparr> p_classical := c, p_sparse := q, p_agreement_state := as_state a \<rparr>)))))))"
  (is "?run \<longleftrightarrow> ?calls")
proof
  assume run: ?run
  obtain r e2 where r: "ag_send ag (p_agreement_state p) e = (r, e2)" by (cases "ag_send ag (p_agreement_state p) e")
  from run show ?calls
    unfolding triple_encrypt_def bindR_Inr_iff Let_def split_paired_Ex prod.case sum.inject prod.inject r
    by (elim exE conjE, hypsubst) (intro exI conjI; (assumption | rule refl))
next
  assume ?calls
  then show ?run by (elim exE conjE) (simp add: triple_encrypt_def)
qed

section \<open>What one operation does to the fields the roles rest on\<close>

lemma skip_keys_fields:
  assumes ok: "ratchet_ok P s" and ckr: "r_ckr s \<noteq> None" and run: "skip_keys s until = Inr s'"
  shows "r_dhs_pub s' = r_dhs_pub s" "r_cks s' = r_cks s" "r_ckr s' \<noteq> None"
proof -
  obtain ck where ck: "r_ckr s = Some ck" using ckr by auto
  have "s' = s \<or> s' = skipped_to s ck until" using skip_keys_ok [OF ok ck run] by (auto split: if_splits)
  then show "r_dhs_pub s' = r_dhs_pub s" "r_cks s' = r_cks s" "r_ckr s' \<noteq> None"
    using ck by (auto simp: skipped_to_def)
qed

lemma receive_on_chain_fields:
  assumes ok: "ratchet_ok P s" and ckr: "r_ckr s \<noteq> None" and run: "receive_on_chain s n = Inr (s', mk)"
  shows "r_dhs_pub s' = r_dhs_pub s \<and> r_cks s' = r_cks s \<and> r_ckr s' \<noteq> None \<and> length mk = 32"
proof -
  obtain s1 where s1: "skip_keys s n = Inr s1"
    and on: "(case r_ckr s1 of None \<Rightarrow> Inl (RatchetE NoReceivingChain)
       | Some ck \<Rightarrow> if r_nr s1 = U32_MAX then Inl (RatchetE ChainExhausted)
           else (let (ck', mk) = kdf_ck ck in Inr (age_keys (s1\<lparr> r_ckr := Some ck', r_nr := r_nr s1 + 1 \<rparr>), mk)))
       = Inr (s', mk)"
    using run by (auto simp: receive_on_chain_def bindR_Inr_iff)
  show ?thesis
    using on skip_keys_fields [OF ok ckr s1]
    by (auto simp: age_keys_def split_beta Let_def split: option.splits if_splits)
qed

lemma ratchet_receive_fields:
  assumes ok: "ratchet_ok P s" and P: "P (rh_dh h)" "P pub"
    and run: "ratchet_receive s h (\<lambda>_. Inr (d1, pub, d2)) = Inr (s', mk, stepped)"
  shows "length mk = 32 \<and> r_dhs_pub s' = (if stepped then pub else r_dhs_pub s)
    \<and> (r_cks s \<noteq> None \<longrightarrow> r_cks s' \<noteq> None) \<and> (r_ckr s \<noteq> None \<longrightarrow> r_ckr s' \<noteq> None)
    \<and> ((r_cks s' = r_cks s \<and> r_ckr s' = r_ckr s) \<or> (r_cks s' \<noteq> None \<and> r_ckr s' \<noteq> None))"
proof (cases "dict_get (r_skipped s) (Some (rh_dh h), rh_n h)")
  case (Some v)
  then obtain at where at: "dict_get (r_skipped s) (Some (rh_dh h), rh_n h) = Some (mk, at)"
    and s': "s' = age_keys (s\<lparr> r_skipped := dict_del (Some (rh_dh h), rh_n h) (r_skipped s) \<rparr>)" "\<not> stepped"
    using run by (cases v) (auto simp: ratchet_receive_def Let_def)
  have "entry_ok P (r_events s) ((Some (rh_dh h), rh_n h), (mk, at))"
    using ok dict_get_Some_in [OF at] by (auto simp: ratchet_ok_def list_all_iff)
  then have "length mk = 32" by (simp add: entry_ok_def)
  with s' show ?thesis by (auto simp: age_keys_def Let_def)
next
  case None
  then have cases: "(dh_ratchet (\<lambda>_. Inr (d1, pub, d2)) (rh_dh h) (rh_pn h) s = Inr s1 \<and> stepped
        \<or> s1 = s \<and> r_ckr s \<noteq> None \<and> \<not> stepped) \<and> receive_on_chain s1 (rh_n h) = Inr (s', mk) \<Longrightarrow> ?thesis" for s1
  proof (elim conjE disjE)
    assume dh: "dh_ratchet (\<lambda>_. Inr (d1, pub, d2)) (rh_dh h) (rh_pn h) s = Inr s1" and st: "stepped"
      and on: "receive_on_chain s1 (rh_n h) = Inr (s', mk)"
    have s1: "ratchet_ok P s1" "r_ckr s1 \<noteq> None" using dh_ratchet_ok [OF ok P(1) _ dh] P(2) by auto
    have "r_dhs_pub s1 = pub" "r_cks s1 \<noteq> None"
      using dh by (auto simp: dh_ratchet_def bindR_Inr_iff split_beta)
    then show ?thesis using receive_on_chain_fields [OF s1 on] st by auto
  next
    assume "s1 = s" "r_ckr s \<noteq> None" "\<not> stepped" and on: "receive_on_chain s1 (rh_n h) = Inr (s', mk)"
    moreover have "r_cks s \<noteq> None" using ok \<open>r_ckr s \<noteq> None\<close> by (simp add: ratchet_ok_def)
    ultimately show ?thesis using receive_on_chain_fields [OF ok] by auto
  qed
  then show ?thesis
    using run None by (auto simp: ratchet_receive_def Let_def bindR_Inr_iff split: if_splits)
qed

lemma spqr_offer_direction: "spqr_offer s sec se = Inr s' \<Longrightarrow> q_direction s' = q_direction s"
  by (auto simp: spqr_offer_def spqr_advance_def bindR_Inr_iff split_beta Let_def split: option.splits if_splits)

lemma spqr_send_fields:
  assumes ok: "spqr_ok s" and run: "spqr_send s e sec se = Inr (s', e', n, mk)"
  shows "q_direction s' = q_direction s \<and> length mk = 32"
proof -
  obtain s1 where s1: "spqr_offer s sec se = Inr s1" and on: "spqr_send s1 e None None = Inr (s', e', n, mk)"
    using run by (subst (asm) spqr_send_offer) (auto simp: bindR_Inr_iff)
  have ok1: "spqr_ok s1" by (rule spqr_offer_ok [OF ok s1])
  obtain c rc where get: "dict_get (q_chains s1) e = Some (Some c, rc)"
    using on by (auto simp: spqr_send_def spqr_offer_def split: option.splits prod.splits)
  have "0 \<le> ch_n c" "ch_n c \<le> U64_MAX" using spqr_ok_chain [OF ok1 get] by (simp_all add: chain_ok_def)
  then show ?thesis
    using on spqr_offer_direction [OF s1] by (auto simp: spqr_send_current [OF get] split: if_splits)
qed

lemma spqr_receive_fields:
  assumes ok: "spqr_ok s" and run: "spqr_receive s e n sec se = Inr (s', mk)"
  shows "q_direction s' = q_direction s \<and> length mk = 32"
proof -
  obtain s1 where s1: "spqr_offer s sec se = Inr s1" and on: "spqr_receive s1 e n None None = Inr (s', mk)"
    using run by (subst (asm) spqr_receive_offer) (auto simp: bindR_Inr_iff)
  have ok1: "spqr_ok s1" by (rule spqr_offer_ok [OF ok s1])
  show ?thesis
  proof (cases "dict_get (q_skipped s1) (e, n)")
    case (Some v)
    then have "s' = s1\<lparr> q_skipped := dict_del (e, n) (q_skipped s1) \<rparr>" "mk = v"
      using on by (auto simp: spqr_receive_def spqr_offer_def)
    moreover have "length v = 32" using ok1 dict_get_Some_in [OF Some] by (auto simp: spqr_ok_def list_all_iff)
    ultimately show ?thesis using spqr_offer_direction [OF s1] by simp
  next
    case None
    then obtain sc c where get: "dict_get (q_chains s1) e = Some (sc, Some c)"
      using on by (auto simp: spqr_receive_def spqr_offer_def split: option.splits prod.splits)
    have "0 \<le> ch_n c" "ch_n c \<le> U64_MAX" using spqr_ok_chain [OF ok1 get] by (simp_all add: chain_ok_def)
    then show ?thesis
      using on None spqr_offer_direction [OF s1]
      by (auto simp: spqr_receive_current [OF get] spqr_accepted_def split: if_splits)
  qed
qed

section \<open>The invariant of a party\<close>

definition roles_ok :: "rstate \<Rightarrow> qstate \<Rightarrow> bool" where
  "roles_ok c s \<longleftrightarrow>
     (q_direction s = DIRECTION_A2B \<and> r_cks c \<noteq> None)
     \<or> (q_direction s = DIRECTION_B2A \<and> (r_cks c = None \<longleftrightarrow> r_ckr c = None))"

definition party_ok :: "'s party \<Rightarrow> bool" where
  "party_ok p \<longleftrightarrow>
     ratchet_ok is_canonical_curve_key (p_classical p) \<and> spqr_ok (p_sparse p)
     \<and> roles_ok (p_classical p) (p_sparse p)
     \<and> x25519_public (p_ratchet_private p) = Inr (r_dhs_pub (p_classical p))"

lemma roles_ok_invariant: "roles_ok c s \<Longrightarrow> triple_invariant \<lparr> t_classical = c, t_sparse = s \<rparr>"
  by (auto simp: roles_ok_def triple_invariant_def classical_role_def const_defs)

lemma canonical_public: "x25519_public k = Inr pub \<Longrightarrow> is_canonical_curve_key pub"
  using x25519_cases [of k "le32 9"] curve_p_eq by (simp add: x25519_public_def is_canonical_curve_key_def)

lemma length_split_secret: "split_secret sk = (c, s) \<Longrightarrow> length c = 32 \<and> length s = 32"
  by (auto simp: split_secret_def split_secret_bytes_def Let_def)

lemma spqr_init_direction: "spqr_init sk d = Inr s \<Longrightarrow> q_direction s = d"
  by (auto simp: spqr_init_def bindR_Inr_iff split_beta)

lemma init_initiator_ok:
  assumes "triple_init_initiator sk ad priv peer st = Inr p" "is_canonical_curve_key peer"
  shows "party_ok p"
proof -
  obtain c s where split: "split_secret sk = (c, s)" by (cases "split_secret sk")
  obtain dh pub q where pub: "x25519_public priv = Inr pub" and q: "spqr_init s DIRECTION_A2B = Inr q"
    and p: "p = \<lparr> p_classical = ratchet_init_initiator c pub peer dh, p_sparse = q, p_ratchet_private = priv,
                   p_agreement_state = st, p_ad = ad \<rparr>"
    using assms(1) by (auto simp: triple_init_initiator_def split bindR_Inr_iff split: if_splits)
  have "ratchet_ok is_canonical_curve_key (ratchet_init_initiator c pub peer dh)"
    by (rule ratchet_init_initiator_ok [OF canonical_public [OF pub] assms(2)])
  moreover have "spqr_ok q" "q_direction q = DIRECTION_A2B"
    using spqr_init_ok [OF q] spqr_init_direction [OF q] by auto
  ultimately show ?thesis
    by (simp add: p party_ok_def pub roles_ok_def ratchet_init_initiator_def split_beta)
qed

lemma init_responder_ok:
  assumes "triple_init_responder sk ad priv st = Inr p"
  shows "party_ok p"
proof -
  obtain c s where split: "split_secret sk = (c, s)" by (cases "split_secret sk")
  obtain pub q where pub: "x25519_public priv = Inr pub" and q: "spqr_init s DIRECTION_B2A = Inr q"
    and p: "p = \<lparr> p_classical = ratchet_init_responder c pub, p_sparse = q, p_ratchet_private = priv,
                   p_agreement_state = st, p_ad = ad \<rparr>"
    using assms(1) by (auto simp: triple_init_responder_def split bindR_Inr_iff)
  have "ratchet_ok is_canonical_curve_key (ratchet_init_responder c pub)"
    using length_split_secret [OF split] by (intro ratchet_init_responder_ok canonical_public [OF pub]) simp
  moreover have "spqr_ok q" "q_direction q = DIRECTION_B2A"
    using spqr_init_ok [OF q] spqr_init_direction [OF q] by auto
  ultimately show ?thesis
    by (simp add: p party_ok_def pub roles_ok_def ratchet_init_responder_def)
qed

lemma triple_responder_starts:
  assumes "length sk = 32" "length priv = 32"
  obtains p where "triple_init_responder sk ad priv st = Inr p"
proof -
  obtain pub where "x25519_public priv = Inr pub"
    using x25519_cases [of priv "le32 9"] assms by (auto simp: x25519_public_def split: sum.splits)
  moreover obtain q where "spqr_init (snd (split_secret sk)) DIRECTION_B2A = Inr q"
    by (fastforce simp: spqr_init_def spqr_assign_def const_defs split: prod.splits)
  ultimately show ?thesis using that by (simp add: triple_init_responder_def split_beta)
qed

lemma ratchet_send_fields:
  assumes "ratchet_send s = Inr (s', h, mk)"
  shows "r_dhs_pub s' = r_dhs_pub s \<and> rh_dh h = r_dhs_pub s \<and> r_cks s' \<noteq> None \<and> r_cks s \<noteq> None
    \<and> r_ckr s' = r_ckr s \<and> length mk = 32"
  using assms by (auto simp: ratchet_send_def split_beta split: option.splits if_splits)

lemma encrypt_ok:
  fixes p :: "'s party"
  assumes ok: "party_ok p" and run: "triple_encrypt ag p pt e = (Inr (p', msg), e')"
  shows "party_ok p'"
proof -
  obtain c h mk q ep n mk2 and a :: "'s agreement_send" where c: "ratchet_send (p_classical p) = Inr (c, h, mk)"
    and q: "spqr_send (p_sparse p) (as_epoch a) (as_secret a) (as_secret_epoch a) = Inr (q, ep, n, mk2)"
    and p': "p' = p\<lparr> p_classical := c, p_sparse := q, p_agreement_state := as_state a \<rparr>"
    using run unfolding triple_encrypt_iff by blast
  have "ratchet_ok is_canonical_curve_key c" "spqr_ok q"
    using ok ratchet_send_ok [OF _ c] spqr_send_ok [OF _ q] by (auto simp: party_ok_def)
  moreover have "q_direction q = q_direction (p_sparse p)"
    using spqr_send_fields [OF _ q] ok by (auto simp: party_ok_def)
  ultimately show ?thesis
    using ok ratchet_send_fields [OF c] by (auto simp: p' party_ok_def roles_ok_def)
qed

lemma decrypt_ok:
  fixes w :: "'s party"
  assumes ok: "ratchet_ok is_canonical_curve_key (p_classical w)" "spqr_ok (p_sparse w)"
      "roles_ok (p_classical w) (p_sparse w)"
      "x25519_public (p_ratchet_private w) = Inr (r_dhs_pub (p_classical w))"
    and run: "triple_decrypt ag w msg fresh = Inr (p', pt)"
  shows "party_ok p'"
proof -
  obtain h ct d1 d2 pub c mk st q mk2 and a :: "'s agreement_receive"
    where h: "decode_ratchet_message msg = Inr (h, ct)" and pub: "x25519_public fresh = Inr pub"
    and c: "ratchet_receive (p_classical w) \<lparr> rh_dh = ch_dh h, rh_pn = ch_pn h, rh_n = composite_header.ch_n h \<rparr>
        (\<lambda>_. Inr (d1, pub, d2)) = Inr (c, mk, st)"
    and q: "spqr_receive (p_sparse w) (ch_pq_epoch h) (ch_pq_n h) (ar_secret a) (ar_secret_epoch a) = Inr (q, mk2)"
    and p': "p' = \<lparr> p_classical = c, p_sparse = q, p_ratchet_private = (if st then fresh else p_ratchet_private w),
               p_agreement_state = ar_state a, p_ad = p_ad w \<rparr>"
    using run unfolding triple_decrypt_iff by blast
  have keys: "is_canonical_curve_key (ch_dh h)" "is_canonical_curve_key pub"
    using h canonical_public [OF pub] by (auto simp: decode_ratchet_message_def decode_composite_prefix_iff)
  then have "ratchet_ok is_canonical_curve_key c"
    using ratchet_receive_ok [OF ok(1) _ _ c] by simp
  moreover have "spqr_ok q" "q_direction q = q_direction (p_sparse w)"
    using spqr_receive_ok [OF ok(2) q] spqr_receive_fields [OF ok(2) q] by auto
  moreover have "r_dhs_pub c = (if st then pub else r_dhs_pub (p_classical w))"
    "r_cks (p_classical w) \<noteq> None \<longrightarrow> r_cks c \<noteq> None"
    "(r_cks c = r_cks (p_classical w) \<and> r_ckr c = r_ckr (p_classical w)) \<or> (r_cks c \<noteq> None \<and> r_ckr c \<noteq> None)"
    using ratchet_receive_fields [OF ok(1) _ keys(2) c] keys(1) by simp_all
  ultimately show ?thesis
    using ok(3,4) pub by (auto simp: p' party_ok_def roles_ok_def)
qed

lemma evicted_fields:
  assumes "evicted_from p w"
  shows "r_cks (p_classical w) = r_cks (p_classical p)" "r_ckr (p_classical w) = r_ckr (p_classical p)"
    "r_dhs_pub (p_classical w) = r_dhs_pub (p_classical p)" "q_direction (p_sparse w) = q_direction (p_sparse p)"
    "p_ratchet_private w = p_ratchet_private p" "p_ad w = p_ad p" "p_agreement_state w = p_agreement_state p"
proof -
  obtain c q k a d c' q' k' a' d' where "p = \<lparr> p_classical = c, p_sparse = q, p_ratchet_private = k,
      p_agreement_state = a, p_ad = d \<rparr>" "w = \<lparr> p_classical = c', p_sparse = q', p_ratchet_private = k',
      p_agreement_state = a', p_ad = d' \<rparr>"
    by (cases p; cases w) auto
  then show "r_cks (p_classical w) = r_cks (p_classical p)" "r_ckr (p_classical w) = r_ckr (p_classical p)"
    "r_dhs_pub (p_classical w) = r_dhs_pub (p_classical p)" "q_direction (p_sparse w) = q_direction (p_sparse p)"
    "p_ratchet_private w = p_ratchet_private p" "p_ad w = p_ad p" "p_agreement_state w = p_agreement_state p"
    using assms by (cases c; cases c'; cases q; cases q'; simp add: evicted_from_def without_stores_def)+
qed

section \<open>Reachable parties\<close>

inductive triple_step :: "('s, 'e) agreement \<Rightarrow> 's party \<Rightarrow> 's party \<Rightarrow> bool" for ag where
  on_encrypt: "triple_encrypt ag p pt e = (Inr (p', msg), e') \<Longrightarrow> triple_step ag p p'"
| on_decrypt: "triple_decrypt ag p msg fresh = Inr (p', pt) \<Longrightarrow> triple_step ag p p'"
| on_decrypt_evicting: "quiet_agreement ag \<Longrightarrow> decrypt_with_eviction ag p msg fresh = Some (Inr (p', pt)) \<Longrightarrow>
    triple_step ag p p'"

lemma eviction_returns:
  assumes ok: "party_ok p" and quiet: "quiet_agreement ag"
  shows "\<exists>r. decrypt_with_eviction ag p msg fresh = Some r
      \<and> (\<exists>w. evicted_from p w \<and> ratchet_ok is_canonical_curve_key (p_classical w) \<and> spqr_ok (p_sparse w)
            \<and> triple_decrypt ag w msg fresh = r)
      \<and> (case r of Inl err \<Rightarrow> \<not> store_full err | Inr _ \<Rightarrow> True)"
  using evict_loop_ends [OF quiet, of is_canonical_curve_key p p msg fresh 0 0] ok evicted_refl [of p]
  by (simp add: decrypt_with_eviction_def party_ok_def)

lemma triple_step_ok: "triple_step ag p p' \<Longrightarrow> party_ok p \<Longrightarrow> party_ok p'"
proof (induction rule: triple_step.induct)
  case (on_encrypt p pt e p' msg e')
  show ?case by (rule encrypt_ok [OF on_encrypt.prems on_encrypt.hyps])
next
  case (on_decrypt p msg fresh p' pt)
  then show ?case using decrypt_ok [OF _ _ _ _ on_decrypt.hyps] by (simp add: party_ok_def)
next
  case (on_decrypt_evicting p msg fresh p' pt)
  obtain w where w: "evicted_from p w" "ratchet_ok is_canonical_curve_key (p_classical w)" "spqr_ok (p_sparse w)"
    and run: "triple_decrypt ag w msg fresh = Inr (p', pt)"
    using eviction_returns [OF on_decrypt_evicting.prems on_decrypt_evicting.hyps(1), of msg fresh]
      on_decrypt_evicting.hyps(2) by auto
  show ?case
    using decrypt_ok [OF w(2,3) _ _ run] evicted_fields [OF w(1)] on_decrypt_evicting.prems
    by (simp add: party_ok_def roles_ok_def)
qed

lemma triple_steps_ok: "(triple_step ag)\<^sup>*\<^sup>* p p' \<Longrightarrow> party_ok p \<Longrightarrow> party_ok p'"
  by (induction rule: rtranclp_induct) (auto intro: triple_step_ok)

lemma reached_party_ok:
  assumes "triple_init_initiator sk ad priv peer st = Inr p0 \<and> is_canonical_curve_key peer
      \<or> triple_init_responder sk ad priv st = Inr p0"
    and "(triple_step ag)\<^sup>*\<^sup>* p0 p"
  shows "party_ok p"
  using assms(1)
proof
  assume "triple_init_initiator sk ad priv peer st = Inr p0 \<and> is_canonical_curve_key peer"
  then have "party_ok p0" using init_initiator_ok [of sk ad priv peer st p0] by simp
  then show ?thesis by (rule triple_steps_ok [OF assms(2)])
next
  assume "triple_init_responder sk ad priv st = Inr p0"
  then have "party_ok p0" by (rule init_responder_ok)
  then show ?thesis by (rule triple_steps_ok [OF assms(2)])
qed

section \<open>Storing a party's ratchets\<close>

lemma length_ratchet_bytes:
  assumes ok: "ratchet_storable s" and enc: "ratchet_to_bytes s = Inr b"
  shows "length b = 185 + 72 * length (r_skipped s)"
proof -
  obtain bs where bs: "mapR ratchet_entry_bytes (r_skipped s) = Inr bs"
    and b: "b = STATE_VERSION # r_dhs_pub s @ put_opt32 (r_dhr s) @ r_rk s @ put_opt32 (r_cks s)
      @ put_opt32 (r_ckr s) @ be_digits 4 (r_ns s) @ be_digits 4 (r_nr s) @ be_digits 4 (r_pn s)
      @ be_digits 4 (r_events s) @ be_digits 1 (r_labels s) @ be_digits 4 (int (length (r_skipped s))) @ concat bs"
    using enc by (auto simp: ratchet_to_bytes_def res_iff)
  obtain xs where xs: "r_skipped s = map raw_item xs" "\<forall>x \<in> set xs. raw_fits x" "bs = map raw_bytes xs"
    using ok by (elim raw_of_entries [OF bs, rotated]) (simp add: ratchet_storable_def)
  have opt: "opt_all (\<lambda>k. length k = 32) k \<Longrightarrow> length (put_opt32 k) = 33" for k
    by (cases k) (simp_all add: put_opt32_def)
  have "opt_all (\<lambda>k. length k = 32) (r_dhr s)"
    using ok canonical_length by (auto simp: ratchet_storable_def opt_all_def split: option.splits)
  then show ?thesis
    using ok opt length_raw_bytes [OF xs(2)] canonical_length [of "r_dhs_pub s"]
    by (simp add: b xs ratchet_storable_def)
qed

lemma length_spqr_enc:
  assumes "spqr_storable s"
  shows "length (spqr_enc s) = 50 + 90 * length (q_chains s) + 48 * length (q_skipped s)"
proof -
  have "length (concat (map centry_enc (q_chains s))) = length (q_chains s) * 90"
    "length (concat (map qkey_enc (q_skipped s))) = length (q_skipped s) * 48"
    using assms by (auto intro!: length_concat_map length_centry_enc length_qkey_enc simp: spqr_storable_def)
  then show ?thesis using assms by (simp add: spqr_enc_def spqr_storable_def)
qed

lemma party_stored:
  assumes ok: "party_ok p"
  shows "\<exists>b. triple_to_bytes \<lparr> t_classical = p_classical p, t_sparse = p_sparse p \<rparr> = Inr b \<and> int (length b) < 256 ^ 4
    \<and> triple_storable \<lparr> t_classical = p_classical p, t_sparse = p_sparse p \<rparr>"
proof -
  let ?t = "\<lparr> t_classical = p_classical p, t_sparse = p_sparse p \<rparr>"
  have c: "ratchet_ok is_canonical_curve_key (p_classical p)" and s: "spqr_ok (p_sparse p)"
    using ok by (simp_all add: party_ok_def)
  obtain rb where rb: "ratchet_to_bytes (p_classical p) = Inr rb" using ratchet_ok_encodes [OF c] by blast
  have sb: "spqr_to_bytes (p_sparse p) = Inr (spqr_enc (p_sparse p))"
    using spqr_ok_counted [OF s] by (simp add: spqr_to_bytes_iff)
  have "int (length rb) < 256 ^ 3" "int (length (spqr_enc (p_sparse p))) < 256 ^ 3"
    using length_ratchet_bytes [OF ratchet_ok_storable [OF c] rb] length_spqr_enc [OF spqr_ok_storable [OF s]]
      spqr_ok_few_chains [OF s] c s
    by (simp_all add: ratchet_ok_def spqr_ok_def const_defs)
  moreover have "triple_storable ?t"
    using ratchet_ok_storable [OF c] spqr_ok_storable [OF s] roles_ok_invariant ok
    by (simp add: triple_storable_def party_ok_def)
  ultimately show ?thesis
    using rb sb by (simp add: triple_to_bytes_def pbe_def to_bytes_be_def)
qed

lemma party_restored:
  "party_ok p \<Longrightarrow> bindR (triple_to_bytes \<lparr> t_classical = p_classical p, t_sparse = p_sparse p \<rparr>) triple_from_bytes
    = Inr \<lparr> t_classical = p_classical p, t_sparse = p_sparse p \<rparr>"
  using party_stored [of p] triple_codec.dec_enc by fastforce

section \<open>Delivery\<close>

text \<open>
  A message \<open>triple_encrypt\<close> produced is opened to its plaintext, and to no other, by every party whose two
  ratchets derive the sender's keys from its header.
\<close>

lemma sent_message_opens:
  assumes ok: "party_ok a" and run: "triple_encrypt ag a pt e = (Inr (a', msg), e')"
  shows "\<exists>h rest mk mk2. decode_ratchet_message msg = Inr (h, rest) \<and> length mk = 32 \<and> length mk2 = 32
    \<and> (\<exists>c rh. ratchet_send (p_classical a) = Inr (c, rh, mk)
          \<and> rh = \<lparr> rh_dh = ch_dh h, rh_pn = ch_pn h, rh_n = composite_header.ch_n h \<rparr>)
    \<and> (\<forall>ag' (b :: 't party) fresh d1 d2 pub (r :: 't agreement_receive) c st q.
         p_ad b = p_ad a \<and> check_contributory (p_ratchet_private b) fresh (ch_dh h) = Inr (d1, d2)
         \<and> x25519_public fresh = Inr pub \<and> ag_receive ag' (p_agreement_state b) h = Inr r
         \<and> ratchet_receive (p_classical b) \<lparr> rh_dh = ch_dh h, rh_pn = ch_pn h, rh_n = composite_header.ch_n h \<rparr>
             (\<lambda>_. Inr (d1, pub, d2)) = Inr (c, mk, st)
         \<and> spqr_receive (p_sparse b) (ch_pq_epoch h) (ch_pq_n h) (ar_secret r) (ar_secret_epoch r) = Inr (q, mk2)
         \<longrightarrow> triple_decrypt ag' b msg fresh =
               Inr (\<lparr> p_classical = c, p_sparse = q, p_ratchet_private = (if st then fresh else p_ratchet_private b),
                     p_agreement_state = ar_state r, p_ad = p_ad b \<rparr>, pt))"
proof -
  obtain x c rh mk q ep n mk2 hb k ad ct where c: "ratchet_send (p_classical a) = Inr (c, rh, mk)"
    and q: "spqr_send (p_sparse a) (as_epoch x) (as_secret x) (as_secret_epoch (x :: 'a agreement_send)) = Inr (q, ep, n, mk2)"
    and hb: "encode_composite \<lparr> ch_dh = rh_dh rh, ch_pn = rh_pn rh, composite_header.ch_n = rh_n rh, ch_pq_epoch = ep,
          ch_pq_n = n, ch_ag_epoch = as_ag_epoch x, ch_ag_type = as_ag_type x, ch_codeword = as_codeword x \<rparr> = Inr hb"
    and k: "combine mk mk2 = Inr k" and ad: "concat_ad (p_ad a) hb = Inr ad" and ct: "seal k ad pt = Inr ct"
    and msg: "msg = hb @ ct"
    using run unfolding triple_encrypt_iff by blast
  let ?h = "\<lparr> ch_dh = rh_dh rh, ch_pn = rh_pn rh, composite_header.ch_n = rh_n rh, ch_pq_epoch = ep,
          ch_pq_n = n, ch_ag_epoch = as_ag_epoch x, ch_ag_type = as_ag_type x, ch_codeword = as_codeword x \<rparr>"
  have "is_canonical_curve_key (rh_dh rh)"
    using ok ratchet_send_fields [OF c] by (simp add: party_ok_def ratchet_ok_def)
  then have dec: "decode_ratchet_message msg = Inr (?h, ct)"
    using hb by (auto simp: decode_ratchet_message_def decode_composite_prefix_iff msg)
  have hdr: "take (nat COMPOSITE_LEN) msg = hb" using length_encode_composite [OF hb] by (simp add: msg)
  have len: "length mk = 32" "length mk2 = 32"
    using ratchet_send_fields [OF c] spqr_send_fields [OF _ q] ok by (auto simp: party_ok_def)
  have "aead_open k ad ct = Inr pt" using ct by (simp add: open_seal_iff)
  then show ?thesis
    using dec hdr len k ad c by (intro exI [of _ ?h] exI [of _ ct] exI [of _ mk] exI [of _ mk2]) (auto simp: triple_decrypt_def)
qed

end
