(* ===== verification/Persist_Braid.thy ===== *)
theory Persist_Braid
  imports Persistence Erasure
begin

text \<open>
  The erasure sub-formats and the Braid's stored form (\<open>persistence.py\<close>).  A Braid state stores, after its
  tag, epoch and authenticator, exactly the fields its tag's row of \<open>BRAID_STATES\<close> names, in that order,
  each with its length.  Where a key pair holds its header and vector is a layout the reader may be given
  (\<open>KEY_PAIR_VIEW\<close>), an argument here.
\<close>

section \<open>The erasure encoder and decoder\<close>

definition encoder_to_bytes :: "encoder \<Rightarrow> bytes res" where
  "encoder_to_bytes e =
     (if \<not> int (length (enc_chunks e)) \<le> MAX_CODEWORDS then Inl (PyE AssertionError)
      else
        bindR (pbe (enc_next e) 2) (\<lambda>nxt.
        bindR (pbe (int (length (enc_chunks e))) 4) (\<lambda>count.
        Inr (nxt @ [if enc_exhausted e then 1 else 0] @ count @ concat (enc_chunks e)))))"

definition encoder_from_bytes :: "bytes \<Rightarrow> encoder res" where
  "encoder_from_bytes b =
     bindR (pr_u 2 b) (\<lambda>(nxt, r).
     bindR (pr_u 1 r) (\<lambda>(exhausted, r).
     if exhausted \<noteq> 0 \<and> exhausted \<noteq> 1 then Inl (PersistE Malformed)
     else
       bindR (pr_u 4 r) (\<lambda>(count, r).
       if count > MAX_CODEWORDS then Inl (PersistE Malformed)
       else if count * CHUNK_BYTES > int (length r) then Inl (PersistE Malformed)
       else
         bindR (repeatR (nat count) (pr_take CHUNK_BYTES) r) (\<lambda>(chunks, r).
         bindR (pr_end r) (\<lambda>_.
         if exhausted \<noteq> 0 \<and> nxt \<noteq> U16_MAX then Inl (PersistE Malformed)
         else new_encoder chunks nxt (exhausted \<noteq> 0))))))"

definition held_bytes :: "int \<times> bytes \<Rightarrow> bytes res" where
  "held_bytes = (\<lambda>(i, c). bindR (pbe i 2) (\<lambda>i. Inr (i @ c)))"

definition decoder_to_bytes :: "decoder \<Rightarrow> bytes res" where
  "decoder_to_bytes d =
     bindR (pbe (dec_size d) 8) (\<lambda>sz.
     bindR (pbe (dec_needed d) 8) (\<lambda>needed.
     bindR (pbe (int (length (dec_held d))) 4) (\<lambda>count.
     bindR (mapR held_bytes (dec_held d)) (\<lambda>held.
     Inr (sz @ needed @ count @ concat held)))))"

definition read_held :: "bytes \<Rightarrow> ((int \<times> bytes) \<times> bytes) res" where
  "read_held r = bindR (pr_u 2 r) (\<lambda>(i, r). bindR (pr_take CHUNK_BYTES r) (\<lambda>(c, r). Inr ((i, c), r)))"

definition decoder_from_bytes :: "bytes \<Rightarrow> decoder res" where
  "decoder_from_bytes b =
     bindR (pr_u 8 b) (\<lambda>(sz, r).
     bindR (pr_u 8 r) (\<lambda>(needed, r).
     if needed > ERASURE_MAX_NEEDED \<or> sz > ERASURE_MAX_SIZE then Inl (PersistE Malformed)
     else
       bindR (pr_count (2 + CHUNK_BYTES) r) (\<lambda>(count, r).
       bindR (repeatR (nat count) read_held r) (\<lambda>(held, r).
       bindR (pr_end r) (\<lambda>_.
       if needed \<noteq> chunk_count sz then Inl (PersistE Malformed)
       else if count > needed then Inl (PersistE Malformed)
       else if int (card (set (map fst held))) \<noteq> count then Inl (PersistE Malformed)
       else new_decoder sz held)))))"

subsection \<open>Both are exact\<close>

definition encoder_storable :: "encoder \<Rightarrow> bool" where
  "encoder_storable e \<longleftrightarrow> (\<forall>c \<in> set (enc_chunks e). length c = 32)
     \<and> int (length (enc_chunks e)) \<le> MAX_CODEWORDS \<and> (enc_exhausted e \<longrightarrow> enc_next e = U16_MAX)"

definition decoder_storable :: "decoder \<Rightarrow> bool" where
  "decoder_storable d \<longleftrightarrow> dec_needed d = chunk_count (dec_size d)
     \<and> dec_needed d \<le> ERASURE_MAX_NEEDED \<and> dec_size d \<le> ERASURE_MAX_SIZE
     \<and> int (length (dec_held d)) \<le> dec_needed d \<and> distinct (map fst (dec_held d))
     \<and> (\<forall>x \<in> set (dec_held d). length (snd x) = 32)"

lemma read_chunk_iff: "pr_take 32 r = Inr (c, r') \<longleftrightarrow> length c = 32 \<and> r = id c @ r'"
  by (auto simp: res_iff)

lemma read_chunks_iff:
  "repeatR n (pr_take 32) r = Inr (cs, r') \<longleftrightarrow>
     length cs = n \<and> (\<forall>c \<in> set cs. length c = 32) \<and> r = concat cs @ r'"
  using persist_cursor.repeat_iff [of "pr_take 32", OF read_chunk_iff] by simp

lemma encoder_from_bytes_iff:
  "encoder_from_bytes b = Inr e \<longleftrightarrow> encoder_storable e \<and> encoder_to_bytes e = Inr b"
proof
  assume "encoder_from_bytes b = Inr e"
  then show "encoder_storable e \<and> encoder_to_bytes e = Inr b"
    by (clarsimp simp: encoder_from_bytes_def res_iff read_chunks_iff new_encoder_def encoder_storable_def
        encoder_to_bytes_def pbe_def to_bytes_be_def not_less)
      (auto simp: const_defs)
next
  assume *: "encoder_storable e \<and> encoder_to_bytes e = Inr b"
  let ?n = "int (length (enc_chunks e))"
  have e: "\<forall>c \<in> set (enc_chunks e). length c = 32" "?n \<le> MAX_CODEWORDS" "?n < 256 ^ 4"
    "0 \<le> enc_next e" "enc_next e < 256 ^ 2" "enc_exhausted e \<longrightarrow> enc_next e = U16_MAX"
    and b: "b = be_digits 2 (enc_next e) @ [if enc_exhausted e then 1 else 0] @ be_digits 4 ?n @ concat (enc_chunks e)"
    using * by (auto simp: encoder_storable_def encoder_to_bytes_def res_iff)
  have chunks: "repeatR (length (enc_chunks e)) (pr_take 32) (concat (enc_chunks e)) = Inr (enc_chunks e, [])"
    using e(1) by (simp add: read_chunks_iff)
  have len: "length (concat (enc_chunks e)) = length (enc_chunks e) * 32"
    using length_concat_map [of "enc_chunks e" id 32] e(1) by simp
  have new: "new_encoder (enc_chunks e) (enc_next e) (enc_exhausted e) = Inr e"
    using e by (simp add: new_encoder_def list_all_iff)
  show "encoder_from_bytes b = Inr e"
    using e chunks len new
    by (cases "enc_exhausted e") (simp_all add: encoder_from_bytes_def b pr_eval pr_end_def)
qed

interpretation encoder_codec: exact_codec encoder_to_bytes encoder_storable encoder_from_bytes
  by unfold_locales (rule encoder_from_bytes_iff)

definition held_counted :: "int \<times> bytes \<Rightarrow> bool" where
  "held_counted = (\<lambda>(i, c). 0 \<le> i \<and> i < 256 ^ 2)"

definition held_enc :: "int \<times> bytes \<Rightarrow> bytes" where
  "held_enc = (\<lambda>(i, c). be_digits 2 i @ c)"

lemma held_bytes_iff: "held_bytes x = Inr b \<longleftrightarrow> held_counted x \<and> b = held_enc x"
  by (auto simp: held_bytes_def res_iff held_counted_def held_enc_def split: prod.splits)

lemma read_held_iff: "read_held r = Inr (x, r') \<longleftrightarrow> (held_counted x \<and> length (snd x) = 32) \<and> r = held_enc x @ r'"
  by (cases x) (auto simp: read_held_def res_iff held_counted_def held_enc_def CHUNK_BYTES_def)

lemmas read_helds_iff = persist_cursor.repeat_iff [of read_held, OF read_held_iff]

lemma card_held: "int (card (set (map fst held))) = int (length held) \<longleftrightarrow> distinct (map fst held)"
  using card_set_eq_length [of "map fst held" "map fst held"] by simp

lemma decoder_from_bytes_iff:
  "decoder_from_bytes b = Inr d \<longleftrightarrow> decoder_storable d \<and> decoder_to_bytes d = Inr b"
proof
  assume "decoder_from_bytes b = Inr d"
  then show "decoder_storable d \<and> decoder_to_bytes d = Inr b"
    by (clarsimp simp: decoder_from_bytes_def res_iff read_helds_iff new_decoder_def decoder_storable_def
        decoder_to_bytes_def pbe_def to_bytes_be_def mapR_exact [of held_bytes, OF held_bytes_iff] not_less)
      (auto intro!: card_distinct)
next
  assume *: "decoder_storable d \<and> decoder_to_bytes d = Inr b"
  let ?n = "int (length (dec_held d))"
  have rng: "0 \<le> dec_size d" "dec_size d < 256 ^ 8" "0 \<le> dec_needed d" "dec_needed d < 256 ^ 8" "?n < 256 ^ 4"
    "\<forall>x \<in> set (dec_held d). held_counted x"
    and b: "b = be_digits 8 (dec_size d) @ be_digits 8 (dec_needed d) @ be_digits 4 ?n @ concat (map held_enc (dec_held d))"
    using * by (auto simp: decoder_to_bytes_def res_iff mapR_exact [of held_bytes, OF held_bytes_iff])
  have held: "repeatR (length (dec_held d)) read_held (concat (map held_enc (dec_held d))) = Inr (dec_held d, [])"
    using * rng by (simp add: read_helds_iff decoder_storable_def)
  have len: "length (concat (map held_enc (dec_held d))) = length (dec_held d) * 34"
    using * by (intro length_concat_map) (auto simp: held_enc_def decoder_storable_def split: prod.splits)
  show "decoder_from_bytes b = Inr d"
    using * rng held len card_held [of "dec_held d"]
    by (cases d)
      (simp add: decoder_from_bytes_def b pr_eval pr_end_def new_decoder_def decoder_storable_def CHUNK_BYTES_def)
qed

interpretation decoder_codec: exact_codec decoder_to_bytes decoder_storable decoder_from_bytes
  by unfold_locales (rule decoder_from_bytes_iff)

section \<open>The Braid's stored form\<close>

text \<open>A field's value; \<open>BNone\<close> is Python's \<open>None\<close>.\<close>

datatype braid_value = BRaw bytes | BEnc encoder | BDec decoder | BNone

definition BRAID_STATES :: "(int, string \<times> string list option) dict" where
  "BRAID_STATES =
     [(0, (''KeysUnsampled'', Some [])),
      (1, (''KeysSampled'', Some [''key_pair'', ''hdr_enc''])),
      (2, (''HeaderSent'', Some [''key_pair'', ''ct1_dec'', ''ek_enc''])),
      (3, (''Ct1Received'', Some [''key_pair'', ''ct1'', ''ek_enc''])),
      (4, (''EkSentCt1Received'', Some [''key_pair'', ''ct1'', ''ct2_dec''])),
      (5, (''NoHeaderReceived'', Some [''hdr_dec''])),
      (6, (''HeaderReceived'', Some [''header'', ''ek_dec''])),
      (7, (''Ct1Sampled'', Some [''header'', ''encaps'', ''ct1'', ''ct1_enc'', ''ek_dec''])),
      (8, (''EkReceivedCt1Sampled'', Some [''encaps'', ''ct1'', ''ek_vector'', ''ct1_enc''])),
      (9, (''Ct1Acknowledged'', Some [''header'', ''encaps'', ''ct1'', ''ek_dec''])),
      (10, (''Ct2Sampled'', Some [''ct2_enc''])),
      (11, (''Failed'', None))]"

definition RAW_FIELD_LEN :: "(string, int) dict" where
  "RAW_FIELD_LEN =
     [(''key_pair'', BRAID_KEY_PAIR_LEN), (''encaps'', BRAID_ENCAPS_LEN), (''header'', BRAID_HEADER_LEN),
      (''ct1'', BRAID_CT1_LEN), (''ek_vector'', BRAID_EK_VECTOR_LEN)]"

definition CODER_VALUE_LEN :: "(string, int) dict" where
  "CODER_VALUE_LEN =
     [(''hdr'', BRAID_HDR_VALUE_LEN), (''ek'', BRAID_EK_VECTOR_LEN), (''ct1'', BRAID_CT1_LEN),
      (''ct2'', BRAID_CT2_VALUE_LEN)]"

record braid_state =
  bs_tag :: int
  bs_epoch :: int
  bs_auth_root :: bytes
  bs_auth_mac :: bytes
  bs_fields :: "(string, braid_value) dict"

definition braid_failed :: "braid_state \<Rightarrow> bool" where
  "braid_failed b \<longleftrightarrow> bs_tag b = BRAID_FAILED_TAG"

definition is_header_sender :: "braid_state \<Rightarrow> bool" where
  "is_header_sender b \<longleftrightarrow> bs_tag b \<le> 4"

definition ends_with :: "string \<Rightarrow> string \<Rightarrow> bool" where
  "ends_with name suf \<longleftrightarrow> drop (length name - length suf) name = suf"

definition braid_value_bytes :: "string \<Rightarrow> braid_value \<Rightarrow> bytes res" where
  "braid_value_bytes name v =
     (if ends_with name ''_enc'' then (case v of BEnc e \<Rightarrow> encoder_to_bytes e | _ \<Rightarrow> Inl (PyE AttributeError))
      else if ends_with name ''_dec'' then (case v of BDec d \<Rightarrow> decoder_to_bytes d | _ \<Rightarrow> Inl (PyE AttributeError))
      else (case v of BRaw b \<Rightarrow> Inr b | _ \<Rightarrow> Inl (PyE TypeError)))"

definition braid_field_bytes :: "(string, braid_value) dict \<Rightarrow> string \<Rightarrow> bytes res" where
  "braid_field_bytes flds name =
     (case dict_get flds name of
        None \<Rightarrow> Inl (PyE KeyError)
      | Some v \<Rightarrow>
          bindR (braid_value_bytes name v) (\<lambda>data.
          bindR (pbe (int (length data)) 4) (\<lambda>n. Inr (n @ data))))"

definition braid_to_bytes :: "braid_state \<Rightarrow> bytes res" where
  "braid_to_bytes b =
     bindR (one_byte (bs_tag b)) (\<lambda>tag.
     if bs_tag b = BRAID_FAILED_TAG then Inr ([STATE_VERSION] @ tag)
     else
       bindR (pbe (bs_epoch b) 8) (\<lambda>epoch.
       case dict_get BRAID_STATES (bs_tag b) of
         Some (_, Some names) \<Rightarrow>
           bindR (mapR (braid_field_bytes (bs_fields b)) names) (\<lambda>flds.
           Inr ([STATE_VERSION] @ tag @ epoch @ bs_auth_root b @ bs_auth_mac b @ concat flds))
       | _ \<Rightarrow> Inl (PyE KeyError)))"

text \<open>\<open>_modulus_ok\<close>: three bytes hold two coefficients, low bits first.\<close>

fun modulus_ok :: "bytes \<Rightarrow> bool res" where
  "modulus_ok [] = Inr True"
| "modulus_ok (b0 # b1 # b2 # r) =
     (if uint b0 OR push_bit 8 (uint b1 AND 0x0F) \<ge> MLKEM_Q \<or> drop_bit 4 (uint b1) OR push_bit 4 (uint b2) \<ge> MLKEM_Q
      then Inr False else modulus_ok r)"
| "modulus_ok _ = Inl (PyE IndexError)"

text \<open>\<open>braid_invariant\<close>: true when it reports no problem; a field of the wrong kind raises as Python does.\<close>

definition braid_field_fits :: "string \<times> braid_value \<Rightarrow> bool res" where
  "braid_field_fits = (\<lambda>(name, v).
     case dict_get RAW_FIELD_LEN name of
       Some n \<Rightarrow> (case v of BRaw b \<Rightarrow> Inr (int (length b) = n) | _ \<Rightarrow> Inl (PyE TypeError))
     | None \<Rightarrow>
         (case dict_get CODER_VALUE_LEN (takeWhile (\<lambda>c. c \<noteq> CHR ''_'') name) of
            None \<Rightarrow> Inl (PyE KeyError)
          | Some n \<Rightarrow>
              if ends_with name ''_enc''
              then (case v of BEnc e \<Rightarrow> Inr (int (length (enc_chunks e)) = chunk_count n) | _ \<Rightarrow> Inl (PyE AttributeError))
              else if ends_with name ''_dec''
              then (case v of BDec d \<Rightarrow> Inr (dec_size d = n) | _ \<Rightarrow> Inl (PyE AttributeError))
              else Inr True))"

fun braid_fields_fit :: "(string \<times> braid_value) list \<Rightarrow> bool res" where
  "braid_fields_fit [] = Inr True"
| "braid_fields_fit (f # fs) = bindR (braid_field_fits f) (\<lambda>ok. if ok then braid_fields_fit fs else Inr False)"

type_synonym key_pair_view = "bytes \<Rightarrow> bytes \<times> bytes"

definition key_pair_fits :: "key_pair_view option \<Rightarrow> braid_state \<Rightarrow> bool res" where
  "key_pair_fits view b =
     (case (view, dict_get (bs_fields b) ''key_pair'') of
        (Some look, Some (BRaw kp)) \<Rightarrow>
          if 1 \<le> bs_tag b \<and> bs_tag b \<le> 4 \<and> int (length kp) = BRAID_KEY_PAIR_LEN
          then (let (header, ek_vector) = look kp; rho = take 32 header; h_ek = take 32 (drop 32 header)
                in if sha3_256 (ek_vector @ rho) \<noteq> h_ek then Inr False else modulus_ok ek_vector)
          else Inr True
      | _ \<Rightarrow> Inr True)"

definition braid_invariant :: "key_pair_view option \<Rightarrow> braid_state \<Rightarrow> bool res" where
  "braid_invariant view b =
     (if braid_failed b then Inr True
      else if bs_epoch b < 1 then Inr False
      else bindR (braid_fields_fit (bs_fields b)) (\<lambda>ok. if ok then key_pair_fits view b else Inr False))"

definition read_braid_value :: "string \<Rightarrow> bytes \<Rightarrow> braid_value res" where
  "read_braid_value name data =
     (if ends_with name ''_enc'' then bindR (encoder_from_bytes data) (\<lambda>e. Inr (BEnc e))
      else if ends_with name ''_dec'' then bindR (decoder_from_bytes data) (\<lambda>d. Inr (BDec d))
      else Inr (BRaw data))"

fun read_braid_fields :: "string list \<Rightarrow> (string, braid_value) dict \<Rightarrow> bytes \<Rightarrow>
    ((string, braid_value) dict \<times> bytes) res" where
  "read_braid_fields [] flds r = Inr (flds, r)"
| "read_braid_fields (name # names) flds r =
     bindR (pr_prefixed r) (\<lambda>(data, r).
     bindR (read_braid_value name data) (\<lambda>v.
     read_braid_fields names (dict_set name v flds) r))"

definition failed_braid :: braid_state where
  "failed_braid = \<lparr> bs_tag = BRAID_FAILED_TAG, bs_epoch = 0, bs_auth_root = [], bs_auth_mac = [], bs_fields = [] \<rparr>"

definition braid_from_bytes :: "key_pair_view option \<Rightarrow> bytes \<Rightarrow> braid_state res" where
  "braid_from_bytes view b =
     bindR (pr_version b {STATE_VERSION}) (\<lambda>_.
     bindR (pr_take 1 b) (\<lambda>(_, r).
     bindR (pr_u 1 r) (\<lambda>(tag, r).
     if tag > BRAID_MAX_TAG then Inl (PersistE Malformed)
     else if tag = BRAID_FAILED_TAG then bindR (pr_end r) (\<lambda>_. Inr failed_braid)
     else
       bindR (pr_u 8 r) (\<lambda>(epoch, r).
       if epoch = U64_MAX then Inl (PersistE Malformed)
       else
         bindR (pr_take 32 r) (\<lambda>(root, r).
         bindR (pr_take 32 r) (\<lambda>(mac, r).
         case dict_get BRAID_STATES tag of
           Some (_, Some names) \<Rightarrow>
             bindR (read_braid_fields names [] r) (\<lambda>(flds, r).
             bindR (pr_end r) (\<lambda>_.
             let s = \<lparr> bs_tag = tag, bs_epoch = epoch, bs_auth_root = root, bs_auth_mac = mac, bs_fields = flds \<rparr>
             in bindR (braid_invariant view s) (\<lambda>ok. if ok then Inr s else Inl (PersistE Malformed))))
         | _ \<Rightarrow> Inl (PyE KeyError)))))))"

subsection \<open>The reader accepts exactly what the writer produces\<close>

definition braid_value_ok :: "string \<Rightarrow> braid_value \<Rightarrow> bool" where
  "braid_value_ok name v \<longleftrightarrow>
     (if ends_with name ''_enc'' then (case v of BEnc e \<Rightarrow> encoder_storable e | _ \<Rightarrow> False)
      else if ends_with name ''_dec'' then (case v of BDec d \<Rightarrow> decoder_storable d | _ \<Rightarrow> False)
      else (case v of BRaw _ \<Rightarrow> True | _ \<Rightarrow> False))"

definition braid_storable :: "key_pair_view option \<Rightarrow> braid_state \<Rightarrow> bool" where
  "braid_storable view s \<longleftrightarrow> s = failed_braid
     \<or> (\<exists>name names. dict_get BRAID_STATES (bs_tag s) = Some (name, Some names) \<and> map fst (bs_fields s) = names)
       \<and> list_all (\<lambda>(n, v). braid_value_ok n v) (bs_fields s)
       \<and> length (bs_auth_root s) = 32 \<and> length (bs_auth_mac s) = 32 \<and> bs_epoch s \<noteq> U64_MAX
       \<and> braid_invariant view s = Inr True"

lemma braid_states_live:
  assumes "0 \<le> tag" "\<not> BRAID_MAX_TAG < tag" "tag \<noteq> BRAID_FAILED_TAG"
  obtains name names where "dict_get BRAID_STATES tag = Some (name, Some names)" "distinct names"
proof -
  have "0 \<le> tag" "tag \<le> 10" using assms by simp_all
  then have "tag \<in> {0, 1, 2, 3, 4, 5, 6, 7, 8, 9, 10}" by simp presburger
  then show ?thesis using that by (auto simp: BRAID_STATES_def dict_get_def)
qed

lemma braid_states_tag:
  "dict_get BRAID_STATES tag = Some (name, Some names) \<Longrightarrow>
     0 \<le> tag \<and> tag < 11 \<and> distinct names"
  by (auto simp: BRAID_STATES_def dict_get_def split: if_splits)

lemma read_braid_value_iff:
  "read_braid_value name data = Inr v \<longleftrightarrow> braid_value_ok name v \<and> braid_value_bytes name v = Inr data"
  by (cases v)
    (auto simp: read_braid_value_def braid_value_ok_def braid_value_bytes_def bindR_Inr_iff
      encoder_codec.dec_iff decoder_codec.dec_iff)

definition named_bytes :: "string \<times> braid_value \<Rightarrow> bytes res" where
  "named_bytes = (\<lambda>(name, v).
     bindR (braid_value_bytes name v) (\<lambda>data. bindR (pbe (int (length data)) 4) (\<lambda>n. Inr (n @ data))))"

lemma field_bytes_named:
  assumes "distinct (map fst fs)"
  shows "mapR (braid_field_bytes fs) (map fst fs) = mapR named_bytes fs"
proof -
  have "braid_field_bytes fs (fst x) = named_bytes x" if "x \<in> set fs" for x
  proof -
    obtain n v where x: "x = (n, v)" by (cases x)
    have "dict_get fs n = Some v" using that assms by (simp add: x dict_get_iff dict_ok_def)
    then show ?thesis by (simp add: x braid_field_bytes_def named_bytes_def)
  qed
  then have "mapR (braid_field_bytes fs) (map fst gs) = mapR named_bytes gs" if "set gs \<subseteq> set fs" for gs
    using that by (induction gs) simp_all
  then show ?thesis by simp
qed

lemma read_braid_fields_iff:
  assumes "distinct names" "\<forall>n \<in> set names. \<not> dict_in n d"
  shows "read_braid_fields names d r = Inr (d', r') \<longleftrightarrow>
    (\<exists>fs bs. d' = d @ fs \<and> map fst fs = names \<and> list_all (\<lambda>(n, v). braid_value_ok n v) fs
       \<and> mapR named_bytes fs = Inr bs \<and> r = concat bs @ r')"
  using assms
proof (induction names arbitrary: d r)
  case Nil
  then show ?case by auto
next
  case (Cons name names)
  have "read_braid_fields (name # names) d r = Inr (d', r') \<longleftrightarrow>
      (\<exists>data r1 v. int (length data) < 256 ^ 4 \<and> r = be_digits 4 (int (length data)) @ data @ r1
        \<and> braid_value_ok name v \<and> braid_value_bytes name v = Inr data
        \<and> read_braid_fields names (d @ [(name, v)]) r1 = Inr (d', r'))"
    using Cons.prems by (auto simp: res_iff read_braid_value_iff dict_set_def)
  also have "\<dots> \<longleftrightarrow> (\<exists>data v fs bs. int (length data) < 256 ^ 4
        \<and> r = be_digits 4 (int (length data)) @ data @ concat bs @ r'
        \<and> braid_value_ok name v \<and> braid_value_bytes name v = Inr data
        \<and> d' = d @ (name, v) # fs \<and> map fst fs = names \<and> list_all (\<lambda>(n, v). braid_value_ok n v) fs
        \<and> mapR named_bytes fs = Inr bs)"
  proof -
    have "\<forall>n \<in> set names. \<not> dict_in n (d @ [(name, v)])" for v
      using Cons.prems by (auto simp: dict_in_def)
    then show ?thesis using Cons.prems by (simp add: Cons.IH) blast
  qed
  also have "\<dots> \<longleftrightarrow> (\<exists>fs bs. d' = d @ fs \<and> map fst fs = name # names \<and> list_all (\<lambda>(n, v). braid_value_ok n v) fs
       \<and> mapR named_bytes fs = Inr bs \<and> r = concat bs @ r')" (is "?lhs \<longleftrightarrow> ?rhs")
  proof
    assume ?lhs
    then obtain data v fs bs where *: "int (length data) < 256 ^ 4"
      "r = be_digits 4 (int (length data)) @ data @ concat bs @ r'"
      "braid_value_ok name v" "braid_value_bytes name v = Inr data" "d' = d @ (name, v) # fs" "map fst fs = names"
      "list_all (\<lambda>(n, v). braid_value_ok n v) fs" "mapR named_bytes fs = Inr bs" by blast
    then show ?rhs
      by (intro exI [of _ "(name, v) # fs"] exI [of _ "(be_digits 4 (int (length data)) @ data) # bs"])
        (simp add: named_bytes_def pbe_def to_bytes_be_def)
  next
    assume ?rhs
    then show ?lhs by (auto simp: named_bytes_def res_iff Cons_eq_map_conv map_eq_Cons_conv)
  qed
  finally show ?case .
qed

lemma braid_from_bytes_sound:
  assumes "braid_from_bytes view b = Inr s"
  shows "braid_storable view s \<and> braid_to_bytes s = Inr b"
proof -
  obtain r where r: "b = STATE_VERSION # r"
    using assms by (auto simp: braid_from_bytes_def res_iff)
  obtain tag r1 where tag: "pr_u 1 r = Inr (tag, r1)" and max: "\<not> BRAID_MAX_TAG < tag"
    using assms by (auto simp: braid_from_bytes_def r pr_version_def pr_take_1 bindR_Inr_iff split: if_splits)
  have rng: "0 \<le> tag" "tag < 256" "r = be_digits 1 tag @ r1" using tag by (simp_all add: res_iff)
  show ?thesis
  proof (cases "tag = BRAID_FAILED_TAG")
    case True
    then have "s = failed_braid" "r1 = []"
      using assms tag by (auto simp: braid_from_bytes_def r pr_version_def pr_take_1 res_iff)
    then show ?thesis using True rng by (simp add: braid_storable_def braid_to_bytes_def failed_braid_def r one_byte_def)
  next
    case False
    obtain name names where names: "dict_get BRAID_STATES tag = Some (name, Some names)" "distinct names"
      by (rule braid_states_live [OF rng(1) max False])
    obtain epoch root mac fs bs where e: "0 \<le> epoch" "epoch < 256 ^ 8" "epoch \<noteq> U64_MAX"
      and len: "length root = 32" "length mac = 32"
      and r1: "r1 = be_digits 8 epoch @ root @ mac @ concat bs"
      and fs: "map fst fs = names" "list_all (\<lambda>(n, v). braid_value_ok n v) fs" "mapR named_bytes fs = Inr bs"
      and s: "s = \<lparr> bs_tag = tag, bs_epoch = epoch, bs_auth_root = root, bs_auth_mac = mac, bs_fields = fs \<rparr>"
      and inv: "braid_invariant view s = Inr True"
      using assms tag max False names
      by (auto simp: braid_from_bytes_def r pr_version_def pr_take_1 res_iff Let_def
          read_braid_fields_iff [OF names(2)] split: if_splits)
    have "mapR (braid_field_bytes fs) names = Inr bs" using fs names(2) field_bytes_named [of fs] by simp
    then show ?thesis
      using e len rng fs names inv False
      by (simp add: s braid_storable_def braid_to_bytes_def one_byte_def pbe_def to_bytes_be_def r r1)
  qed
qed

lemma braid_from_bytes_complete:
  assumes ok: "braid_storable view s" and enc: "braid_to_bytes s = Inr b"
  shows "braid_from_bytes view b = Inr s"
proof (cases "s = failed_braid")
  case True
  then show ?thesis
    using enc by (auto simp: braid_to_bytes_def failed_braid_def one_byte_def braid_from_bytes_def pr_version_def
        pr_eval pr_end_def)
next
  case False
  then obtain name where names: "dict_get BRAID_STATES (bs_tag s) = Some (name, Some (map fst (bs_fields s)))"
    and fs: "list_all (\<lambda>(n, v). braid_value_ok n v) (bs_fields s)"
    and len: "length (bs_auth_root s) = 32" "length (bs_auth_mac s) = 32" "bs_epoch s \<noteq> U64_MAX"
    and inv: "braid_invariant view s = Inr True"
    using ok by (auto simp: braid_storable_def)
  have tag: "0 \<le> bs_tag s" "bs_tag s < 11" "distinct (map fst (bs_fields s))"
    using braid_states_tag [OF names] by auto
  obtain bs where bs: "mapR named_bytes (bs_fields s) = Inr bs" and e: "0 \<le> bs_epoch s" "bs_epoch s < 256 ^ 8"
    and b: "b = STATE_VERSION # be_digits 1 (bs_tag s) @ be_digits 8 (bs_epoch s) @ bs_auth_root s @ bs_auth_mac s
        @ concat bs"
    using enc tag names field_bytes_named [OF tag(3)] by (auto simp: braid_to_bytes_def res_iff)
  have u: "uint (word_of_int (bs_tag s) :: byte) = bs_tag s"
    using tag by (simp add: uint_word_of_int)
  have "read_braid_fields (map fst (bs_fields s)) [] (concat bs) = Inr (bs_fields s, [])"
    using read_braid_fields_iff [OF tag(3), of "[]"] fs bs by simp
  then show ?thesis
    using tag e len names inv u
    by (cases s) (simp add: braid_from_bytes_def b pr_version_def pr_eval pr_end_def)
qed

interpretation braid_codec: exact_codec braid_to_bytes "braid_storable view" "braid_from_bytes view" for view
  using braid_from_bytes_sound braid_from_bytes_complete by unfold_locales blast

end
