(* ===== verification/Braid.thy ===== *)
theory Braid
  imports Triple_Session Persist_Braid
begin

text \<open>
  The ML-KEM Braid of \<open>tacenta_reader/braid.py\<close>: the ratcheted authenticator, the twelve states and the
  fields each holds, every transition of \<open>send\<close> and \<open>receive\<close>, and the Braid behind the triple ratchet's
  agreement boundary.  The KEM is injected in the code and a record of its operations here; the two that
  draw randomness thread the KEM object's own state.
\<close>

section \<open>Derivations and the authenticator\<close>

definition braid_epoch_bytes :: "int \<Rightarrow> bytes res" where
  "braid_epoch_bytes epoch =
     (if \<not> (0 \<le> epoch \<and> epoch \<le> U64_MAX) then Inl (PyE ValueError) else Inr (be_digits 8 epoch))"

definition braid_kdf_ok :: "bytes \<Rightarrow> int \<Rightarrow> bytes res" where
  "braid_kdf_ok k epoch =
     bindR (braid_epoch_bytes epoch) (\<lambda>e. Inr (hkdf (zeros 32) k (BRAID_PROTOCOL_INFO @ BRAID_SCKA_KEY @ e) 32))"

definition braid_kdf_auth :: "bytes \<Rightarrow> bytes \<Rightarrow> int \<Rightarrow> bytes res" where
  "braid_kdf_auth root_key u epoch =
     bindR (braid_epoch_bytes epoch) (\<lambda>e. Inr (hkdf root_key u (BRAID_PROTOCOL_INFO @ BRAID_AUTH_UPDATE @ e) 64))"

record auth =
  au_root_key :: bytes
  au_mac_key :: bytes

definition auth_update :: "auth \<Rightarrow> int \<Rightarrow> bytes \<Rightarrow> auth res" where
  "auth_update a epoch u =
     bindR (braid_kdf_auth (au_root_key a) u epoch) (\<lambda>out.
     Inr \<lparr> au_root_key = take 32 out, au_mac_key = drop 32 out \<rparr>)"

definition auth_init :: "int \<Rightarrow> bytes \<Rightarrow> auth res" where
  "auth_init epoch s = auth_update \<lparr> au_root_key = zeros 32, au_mac_key = [] \<rparr> epoch s"

definition auth_mac :: "auth \<Rightarrow> bytes \<Rightarrow> int \<Rightarrow> bytes \<Rightarrow> bytes res" where
  "auth_mac a sfx epoch data =
     (if length (au_mac_key a) \<noteq> 32 then Inl (PyE ValueError)
      else bindR (braid_epoch_bytes epoch) (\<lambda>e.
        Inr (hmac_sha256 (au_mac_key a) (BRAID_PROTOCOL_INFO @ sfx @ e @ data))))"

definition auth_mac_hdr :: "auth \<Rightarrow> int \<Rightarrow> bytes \<Rightarrow> bytes res" where
  "auth_mac_hdr a epoch hdr = auth_mac a BRAID_EKHEADER epoch hdr"

definition auth_mac_ct :: "auth \<Rightarrow> int \<Rightarrow> bytes \<Rightarrow> bytes res" where
  "auth_mac_ct a epoch ct = auth_mac a BRAID_CIPHERTEXT epoch ct"

definition auth_update_pair :: "bytes \<Rightarrow> bytes \<Rightarrow> int \<Rightarrow> (bytes \<times> bytes) res" where
  "auth_update_pair root_key key epoch =
     bindR (auth_update \<lparr> au_root_key = root_key, au_mac_key = [] \<rparr> epoch key) (\<lambda>a.
     Inr (au_root_key a, au_mac_key a))"

definition mac_matches :: "bytes \<Rightarrow> bytes \<Rightarrow> bool" where
  "mac_matches expected got \<longleftrightarrow> int (length got) = BRAID_MAC_LEN \<and> expected = got"

section \<open>The KEM split\<close>

record 'k kem_ops =
  kem_generate :: "'k \<Rightarrow> (bytes \<times> bytes \<times> bytes) res \<times> 'k"
  kem_ek_vector :: "bytes \<Rightarrow> bytes"
  kem_encaps1 :: "bytes \<Rightarrow> 'k \<Rightarrow> (bytes \<times> bytes \<times> bytes) res \<times> 'k"
  kem_encaps2 :: "bytes \<Rightarrow> bytes \<Rightarrow> bytes res"
  kem_decaps :: "bytes \<Rightarrow> bytes \<Rightarrow> bytes \<Rightarrow> bytes res"

text \<open>\<open>try: ... except KemFailure\<close> around one KEM call.\<close>

definition kem_try :: "'a res \<Rightarrow> 'b \<Rightarrow> ('a \<Rightarrow> 'b res) \<Rightarrow> 'b res" where
  "kem_try m failed f =
     (case m of Inl err \<Rightarrow> if err = CryptoE KemFailure then Inr failed else Inl err | Inr x \<Rightarrow> f x)"

definition validate_ek_vector :: "bytes \<Rightarrow> bytes \<Rightarrow> bool res" where
  "validate_ek_vector header ek_vector =
     (let rho = take 32 header; digest = take 32 (drop 32 header)
      in if int (length ek_vector) = BRAID_EK_VECTOR_LEN \<and> sha3_256 (ek_vector @ rho) = digest
         then modulus_ok ek_vector else Inr False)"

section \<open>Messages and states\<close>

record braid_message =
  bm_epoch :: int
  bm_type :: int
  bm_codeword :: "(int \<times> bytes) option"

definition message_from_header :: "composite_header \<Rightarrow> braid_message" where
  "message_from_header h =
     \<lparr> bm_epoch = ch_ag_epoch h, bm_type = ch_ag_type h,
       bm_codeword = map_option (\<lambda>c. (cw_index c, cw_data c)) (ch_codeword h) \<rparr>"

definition header_fields :: "braid_message \<Rightarrow> int \<times> int \<times> Wire.codeword option" where
  "header_fields m =
     (bm_epoch m, bm_type m, map_option (\<lambda>(i, c). \<lparr> cw_index = i, cw_data = c \<rparr>) (bm_codeword m))"

definition KEYS_UNSAMPLED :: int where [simp]: "KEYS_UNSAMPLED = 0"
definition KEYS_SAMPLED :: int where [simp]: "KEYS_SAMPLED = 1"
definition HEADER_SENT :: int where [simp]: "HEADER_SENT = 2"
definition CT1_RECEIVED :: int where [simp]: "CT1_RECEIVED = 3"
definition EK_SENT_CT1_RECEIVED :: int where [simp]: "EK_SENT_CT1_RECEIVED = 4"
definition NO_HEADER_RECEIVED :: int where [simp]: "NO_HEADER_RECEIVED = 5"
definition HEADER_RECEIVED :: int where [simp]: "HEADER_RECEIVED = 6"
definition CT1_SAMPLED :: int where [simp]: "CT1_SAMPLED = 7"
definition EK_RECEIVED_CT1_SAMPLED :: int where [simp]: "EK_RECEIVED_CT1_SAMPLED = 8"
definition CT1_ACKNOWLEDGED :: int where [simp]: "CT1_ACKNOWLEDGED = 9"
definition CT2_SAMPLED :: int where [simp]: "CT2_SAMPLED = 10"
definition FAILED :: int where [simp]: "FAILED = 11"

definition HOLDS :: "(int, string list option) dict" where
  "HOLDS =
     [(KEYS_UNSAMPLED, Some []),
      (KEYS_SAMPLED, Some [''key_pair'', ''hdr_enc'']),
      (HEADER_SENT, Some [''key_pair'', ''ct1_dec'', ''ek_enc'']),
      (CT1_RECEIVED, Some [''key_pair'', ''ct1'', ''ek_enc'']),
      (EK_SENT_CT1_RECEIVED, Some [''key_pair'', ''ct1'', ''ct2_dec'']),
      (NO_HEADER_RECEIVED, Some [''hdr_dec'']),
      (HEADER_RECEIVED, Some [''header'', ''ek_dec'']),
      (CT1_SAMPLED, Some [''header'', ''encaps'', ''ct1'', ''ct1_enc'', ''ek_dec'']),
      (EK_RECEIVED_CT1_SAMPLED, Some [''encaps'', ''ct1'', ''ek_vector'', ''ct1_enc'']),
      (CT1_ACKNOWLEDGED, Some [''header'', ''encaps'', ''ct1'', ''ek_dec'']),
      (CT2_SAMPLED, Some [''ct2_enc'']),
      (FAILED, None)]"

text \<open>The fields of \<open>State\<close> beside tag, epoch and authenticator, all optional.\<close>

record held =
  h_key_pair :: "bytes option"
  h_header :: "bytes option"
  h_ek_vector :: "bytes option"
  h_ct1 :: "bytes option"
  h_encaps :: "bytes option"
  h_hdr_enc :: "encoder option"
  h_ek_enc :: "encoder option"
  h_ct1_enc :: "encoder option"
  h_ct2_enc :: "encoder option"
  h_hdr_dec :: "decoder option"
  h_ek_dec :: "decoder option"
  h_ct1_dec :: "decoder option"
  h_ct2_dec :: "decoder option"

definition nothing :: held where
  "nothing =
     \<lparr> h_key_pair = None, h_header = None, h_ek_vector = None, h_ct1 = None, h_encaps = None,
       h_hdr_enc = None, h_ek_enc = None, h_ct1_enc = None, h_ct2_enc = None,
       h_hdr_dec = None, h_ek_dec = None, h_ct1_dec = None, h_ct2_dec = None \<rparr>"

record braid =
  b_tag :: int
  b_epoch :: int
  b_auth :: "auth option"
  b_held :: held

text \<open>
  \<open>_make\<close> asserts that it is given the fields its tag holds; \<open>given\<close> are the keywords of the call.
\<close>

definition braid_make :: "int \<Rightarrow> int \<Rightarrow> auth option \<Rightarrow> string list \<Rightarrow> held \<Rightarrow> braid res" where
  "braid_make tag epoch auth given flds =
     (case dict_get HOLDS tag of
        None \<Rightarrow> Inl (PyE KeyError)
      | Some None \<Rightarrow> Inl (PyE TypeError)
      | Some (Some names) \<Rightarrow>
          if set given \<noteq> set names then Inl (PyE AssertionError)
          else Inr \<lparr> b_tag = tag, b_epoch = epoch, b_auth = auth, b_held = flds \<rparr>)"

definition braid_failed_state :: braid where
  "braid_failed_state = \<lparr> b_tag = FAILED, b_epoch = 0, b_auth = None, b_held = nothing \<rparr>"

definition braid_init_initiator :: "bytes \<Rightarrow> braid res" where
  "braid_init_initiator sk = bindR (auth_init 1 sk) (\<lambda>a. braid_make KEYS_UNSAMPLED 1 (Some a) [] nothing)"

definition braid_init_responder :: "bytes \<Rightarrow> braid res" where
  "braid_init_responder sk =
     bindR (auth_init 1 sk) (\<lambda>a.
     bindR (new_decoder BRAID_HDR_VALUE_LEN []) (\<lambda>d.
     braid_make NO_HEADER_RECEIVED 1 (Some a) [''hdr_dec''] (nothing\<lparr> h_hdr_dec := Some d \<rparr>)))"

text \<open>Reading an attribute of, and passing, a field that is \<open>None\<close>.\<close>

definition obj :: "'a option \<Rightarrow> 'a res" where
  "obj x = (case x of None \<Rightarrow> Inl (PyE AttributeError) | Some v \<Rightarrow> Inr v)"

definition val :: "'a option \<Rightarrow> 'a res" where
  "val x = (case x of None \<Rightarrow> Inl (PyE TypeError) | Some v \<Rightarrow> Inr v)"

section \<open>Sending\<close>

record braid_send_result =
  bsr_state :: braid
  bsr_message :: "braid_message option"
  bsr_epoch :: int
  bsr_output :: "(int \<times> bytes) option"

record braid_receive_result =
  brr_state :: braid
  brr_epoch :: int
  brr_output :: "(int \<times> bytes) option"

definition send_failed :: "braid \<Rightarrow> braid_send_result" where
  "send_failed s = \<lparr> bsr_state = s, bsr_message = None, bsr_epoch = 0, bsr_output = None \<rparr>"

definition sent :: "braid \<Rightarrow> int \<Rightarrow> int \<Rightarrow> (int \<times> bytes) option \<Rightarrow> (int \<times> bytes) option \<Rightarrow> braid_send_result" where
  "sent s e typ cw output =
     \<lparr> bsr_state = s, bsr_message = Some \<lparr> bm_epoch = e, bm_type = typ, bm_codeword = cw \<rparr>,
       bsr_epoch = e - 1, bsr_output = output \<rparr>"

text \<open>Transition (1): the header and its MAC.\<close>

definition send_header :: "braid \<Rightarrow> bytes \<times> bytes \<times> bytes \<Rightarrow> braid_send_result res" where
  "send_header s = (\<lambda>(key_pair, header, _).
     bindR (obj (b_auth s)) (\<lambda>auth.
     bindR (auth_mac_hdr auth (b_epoch s) header) (\<lambda>mac.
     bindR (encoder_for_value (header @ mac)) (\<lambda>enc.
     bindR (issue enc) (\<lambda>(enc, cw).
     bindR (braid_make KEYS_SAMPLED (b_epoch s) (b_auth s) [''key_pair'', ''hdr_enc'']
              (nothing\<lparr> h_key_pair := Some key_pair, h_hdr_enc := Some enc \<rparr>)) (\<lambda>new.
     Inr (sent new (b_epoch s) AG_HDR cw None)))))))"

text \<open>Transition (7): the first half of the encapsulation, and the epoch's key.\<close>

definition send_ct1 :: "braid \<Rightarrow> bytes \<times> bytes \<times> bytes \<Rightarrow> braid_send_result res" where
  "send_ct1 s = (\<lambda>(encaps, ct1, k).
     bindR (braid_kdf_ok k (b_epoch s)) (\<lambda>key.
     bindR (obj (b_auth s)) (\<lambda>a.
     bindR (auth_update a (b_epoch s) key) (\<lambda>auth.
     bindR (encoder_for_value ct1) (\<lambda>enc.
     bindR (issue enc) (\<lambda>(enc, cw).
     bindR (braid_make CT1_SAMPLED (b_epoch s) (Some auth) [''header'', ''encaps'', ''ct1'', ''ct1_enc'', ''ek_dec'']
              (nothing\<lparr> h_header := h_header (b_held s), h_encaps := Some encaps, h_ct1 := Some ct1,
                        h_ct1_enc := Some enc, h_ek_dec := h_ek_dec (b_held s) \<rparr>)) (\<lambda>new.
     Inr (sent new (b_epoch s) AG_CT1 cw (Some (b_epoch s, key))))))))))"

text \<open>\<open>_SENDS_FROM\<close>: which encoder a state sends from, how it is replaced, and the type it sends.\<close>

definition sends_from :: "int \<Rightarrow> ((held \<Rightarrow> encoder option) \<times> (encoder \<Rightarrow> held \<Rightarrow> held) \<times> int) option" where
  "sends_from tag =
     (if tag = KEYS_SAMPLED then Some (h_hdr_enc, \<lambda>e. h_hdr_enc_update (\<lambda>_. Some e), AG_HDR)
      else if tag = HEADER_SENT then Some (h_ek_enc, \<lambda>e. h_ek_enc_update (\<lambda>_. Some e), AG_EK)
      else if tag = CT1_RECEIVED then Some (h_ek_enc, \<lambda>e. h_ek_enc_update (\<lambda>_. Some e), AG_EK_CT1_ACK)
      else if tag = CT1_SAMPLED then Some (h_ct1_enc, \<lambda>e. h_ct1_enc_update (\<lambda>_. Some e), AG_CT1)
      else if tag = EK_RECEIVED_CT1_SAMPLED then Some (h_ct1_enc, \<lambda>e. h_ct1_enc_update (\<lambda>_. Some e), AG_CT1)
      else if tag = CT2_SAMPLED then Some (h_ct2_enc, \<lambda>e. h_ct2_enc_update (\<lambda>_. Some e), AG_CT2)
      else None)"

definition send_codeword :: "braid \<Rightarrow> braid_send_result res" where
  "send_codeword s =
     (case sends_from (b_tag s) of
        Some (get, put, typ) \<Rightarrow>
          bindR (obj (get (b_held s))) (\<lambda>enc.
          bindR (issue enc) (\<lambda>(enc, cw).
            let s = s\<lparr> b_held := put enc (b_held s) \<rparr>
            in if cw = None then Inr (sent s (b_epoch s) AG_NONE None None)
               else Inr (sent s (b_epoch s) typ cw None)))
      | None \<Rightarrow> Inr (sent s (b_epoch s) AG_NONE None None))"

definition braid_send :: "'k kem_ops \<Rightarrow> braid \<Rightarrow> 'k \<Rightarrow> braid_send_result res \<times> 'k" where
  "braid_send kem s k =
     (if b_tag s = FAILED then (Inr (send_failed s), k)
      else if b_tag s = KEYS_UNSAMPLED
      then (let (r, k) = kem_generate kem k
            in (kem_try r (send_failed braid_failed_state) (send_header s), k))
      else if b_tag s = HEADER_RECEIVED
      then (case val (h_header (b_held s)) of
              Inl err \<Rightarrow> (Inl err, k)
            | Inr header \<Rightarrow>
                (let (r, k) = kem_encaps1 kem header k
                 in (kem_try r (send_failed braid_failed_state) (send_ct1 s), k)))
      else (send_codeword s, k))"

section \<open>Receiving\<close>

text \<open>Feeding a codeword to a decoder of the state.\<close>

definition complete_encapsulation :: "'k kem_ops \<Rightarrow> braid \<Rightarrow> bytes \<Rightarrow> braid res" where
  "complete_encapsulation kem s ek_vector =
     bindR (val (h_encaps (b_held s))) (\<lambda>encaps.
     kem_try (kem_encaps2 kem encaps ek_vector) braid_failed_state (\<lambda>ct2.
     bindR (obj (b_auth s)) (\<lambda>auth.
     bindR (val (h_ct1 (b_held s))) (\<lambda>ct1.
     bindR (auth_mac_ct auth (b_epoch s) (ct1 @ ct2)) (\<lambda>mac.
     bindR (encoder_for_value (ct2 @ mac)) (\<lambda>enc.
     braid_make CT2_SAMPLED (b_epoch s) (b_auth s) [''ct2_enc''] (nothing\<lparr> h_ct2_enc := Some enc \<rparr>)))))))"

definition recv_ct2_sampled :: "braid \<Rightarrow> braid_message \<Rightarrow> braid res" where
  "recv_ct2_sampled s m =
     (if b_epoch s = U64_MAX - 1 then Inr braid_failed_state
      else if bm_epoch m = b_epoch s + 1 then braid_make KEYS_UNSAMPLED (b_epoch s + 1) (b_auth s) [] nothing
      else Inr s)"

definition recv_keys_sampled :: "'k kem_ops \<Rightarrow> braid \<Rightarrow> braid_message \<Rightarrow> braid res" where
  "recv_keys_sampled kem s m =
     (case bm_codeword m of
        Some (i, c) \<Rightarrow>
          if bm_epoch m = b_epoch s \<and> bm_type m = AG_CT1
          then
            bindR (new_decoder BRAID_CT1_LEN []) (\<lambda>dec.
            bindR (dec_receive dec i c) (\<lambda>(dec, _).
            bindR (val (h_key_pair (b_held s))) (\<lambda>key_pair.
            bindR (encoder_for_value (kem_ek_vector kem key_pair)) (\<lambda>enc.
            braid_make HEADER_SENT (b_epoch s) (b_auth s) [''key_pair'', ''ct1_dec'', ''ek_enc'']
              (nothing\<lparr> h_key_pair := Some key_pair, h_ct1_dec := Some dec, h_ek_enc := Some enc \<rparr>)))))
          else Inr s
      | None \<Rightarrow> Inr s)"

definition recv_header_sent :: "braid \<Rightarrow> braid_message \<Rightarrow> braid res" where
  "recv_header_sent s m =
     (case bm_codeword m of
        Some (i, c) \<Rightarrow>
          if bm_epoch m = b_epoch s \<and> bm_type m = AG_CT1
          then
            bindR (obj (h_ct1_dec (b_held s))) (\<lambda>dec.
            bindR (dec_receive dec i c) (\<lambda>(dec, _).
              if dec_complete dec
              then bindR (dec_value dec) (\<lambda>ct1.
                   braid_make CT1_RECEIVED (b_epoch s) (b_auth s) [''key_pair'', ''ct1'', ''ek_enc'']
                     (nothing\<lparr> h_key_pair := h_key_pair (b_held s), h_ct1 := ct1, h_ek_enc := h_ek_enc (b_held s) \<rparr>))
              else Inr (s\<lparr> b_held := (b_held s)\<lparr> h_ct1_dec := Some dec \<rparr> \<rparr>)))
          else Inr s
      | None \<Rightarrow> Inr s)"

definition recv_ct1_received :: "braid \<Rightarrow> braid_message \<Rightarrow> braid res" where
  "recv_ct1_received s m =
     (case bm_codeword m of
        Some (i, c) \<Rightarrow>
          if bm_epoch m = b_epoch s \<and> bm_type m = AG_CT2
          then
            bindR (new_decoder BRAID_CT2_VALUE_LEN []) (\<lambda>dec.
            bindR (dec_receive dec i c) (\<lambda>(dec, _).
            braid_make EK_SENT_CT1_RECEIVED (b_epoch s) (b_auth s) [''key_pair'', ''ct1'', ''ct2_dec'']
              (nothing\<lparr> h_key_pair := h_key_pair (b_held s), h_ct1 := h_ct1 (b_held s), h_ct2_dec := Some dec \<rparr>)))
          else Inr s
      | None \<Rightarrow> Inr s)"

text \<open>
  The completed second ciphertext: the length first, then the ceiling, then decapsulation, then the MAC
  under the updated authenticator.
\<close>

definition finish_ct2 :: "'k kem_ops \<Rightarrow> braid \<Rightarrow> bytes \<Rightarrow> (braid \<times> (int \<times> bytes) option) res" where
  "finish_ct2 kem s v =
     (if int (length v) \<noteq> BRAID_CT2_VALUE_LEN \<or> b_epoch s = U64_MAX - 1 then Inr (braid_failed_state, None)
      else
        (let ct2 = take (nat BRAID_CT2_LEN) v; mac = drop (nat BRAID_CT2_LEN) v
         in bindR (val (h_key_pair (b_held s))) (\<lambda>key_pair.
            bindR (val (h_ct1 (b_held s))) (\<lambda>ct1.
            kem_try (kem_decaps kem key_pair ct1 ct2) (braid_failed_state, None) (\<lambda>k.
            bindR (braid_kdf_ok k (b_epoch s)) (\<lambda>key.
            bindR (obj (b_auth s)) (\<lambda>a.
            bindR (auth_update a (b_epoch s) key) (\<lambda>auth.
            bindR (auth_mac_ct auth (b_epoch s) (ct1 @ ct2)) (\<lambda>expected.
            if \<not> mac_matches expected mac then Inr (braid_failed_state, None)
            else
              bindR (new_decoder BRAID_HDR_VALUE_LEN []) (\<lambda>dec.
              bindR (braid_make NO_HEADER_RECEIVED (b_epoch s + 1) (Some auth) [''hdr_dec'']
                       (nothing\<lparr> h_hdr_dec := Some dec \<rparr>)) (\<lambda>new.
              Inr (new, Some (b_epoch s, key)))))))))))))"

definition recv_ek_sent :: "'k kem_ops \<Rightarrow> braid \<Rightarrow> braid_message \<Rightarrow> (braid \<times> (int \<times> bytes) option) res" where
  "recv_ek_sent kem s m =
     (case bm_codeword m of
        Some (i, c) \<Rightarrow>
          if bm_epoch m = b_epoch s \<and> bm_type m = AG_CT2
          then
            bindR (obj (h_ct2_dec (b_held s))) (\<lambda>dec.
            bindR (dec_receive dec i c) (\<lambda>(dec, _).
              if dec_complete dec
              then bindR (dec_value dec) (\<lambda>v. bindR (val v) (finish_ct2 kem s))
              else Inr (s\<lparr> b_held := (b_held s)\<lparr> h_ct2_dec := Some dec \<rparr> \<rparr>, None)))
          else Inr (s, None)
      | None \<Rightarrow> Inr (s, None))"

definition finish_header :: "braid \<Rightarrow> bytes \<Rightarrow> braid res" where
  "finish_header s v =
     (if int (length v) \<noteq> BRAID_HDR_VALUE_LEN then Inr braid_failed_state
      else
        (let header = take (nat BRAID_HEADER_LEN) v; mac = drop (nat BRAID_HEADER_LEN) v
         in bindR (obj (b_auth s)) (\<lambda>auth.
            bindR (auth_mac_hdr auth (b_epoch s) header) (\<lambda>expected.
            if \<not> mac_matches expected mac then Inr braid_failed_state
            else
              bindR (new_decoder BRAID_EK_VECTOR_LEN []) (\<lambda>dec.
              braid_make HEADER_RECEIVED (b_epoch s) (b_auth s) [''header'', ''ek_dec'']
                (nothing\<lparr> h_header := Some header, h_ek_dec := Some dec \<rparr>))))))"

definition recv_no_header :: "braid \<Rightarrow> braid_message \<Rightarrow> braid res" where
  "recv_no_header s m =
     (case bm_codeword m of
        Some (i, c) \<Rightarrow>
          if bm_epoch m = b_epoch s \<and> bm_type m = AG_HDR
          then
            bindR (obj (h_hdr_dec (b_held s))) (\<lambda>dec.
            bindR (dec_receive dec i c) (\<lambda>(dec, _).
              if dec_complete dec
              then bindR (dec_value dec) (\<lambda>v. bindR (val v) (finish_header s))
              else Inr (s\<lparr> b_held := (b_held s)\<lparr> h_hdr_dec := Some dec \<rparr> \<rparr>)))
          else Inr s
      | None \<Rightarrow> Inr s)"

definition recv_ct1_sampled :: "'k kem_ops \<Rightarrow> braid \<Rightarrow> braid_message \<Rightarrow> braid res" where
  "recv_ct1_sampled kem s m =
     (case bm_codeword m of
        Some (i, c) \<Rightarrow>
          if bm_epoch m = b_epoch s \<and> (bm_type m = AG_EK \<or> bm_type m = AG_EK_CT1_ACK)
          then
            bindR (obj (h_ek_dec (b_held s))) (\<lambda>dec.
            bindR (dec_receive dec i c) (\<lambda>(dec, _).
              let s = s\<lparr> b_held := (b_held s)\<lparr> h_ek_dec := Some dec \<rparr> \<rparr>; f = b_held s
              in if dec_complete dec
                 then
                   bindR (dec_value dec) (\<lambda>v.
                   bindR (val v) (\<lambda>ek_vector.
                   bindR (val (h_header f)) (\<lambda>header.
                   bindR (validate_ek_vector header ek_vector) (\<lambda>ok.
                   if \<not> ok then Inr braid_failed_state
                   else if bm_type m = AG_EK_CT1_ACK then complete_encapsulation kem s ek_vector
                   else
                     braid_make EK_RECEIVED_CT1_SAMPLED (b_epoch s) (b_auth s)
                       [''encaps'', ''ct1'', ''ek_vector'', ''ct1_enc'']
                       (nothing\<lparr> h_encaps := h_encaps f, h_ct1 := h_ct1 f, h_ek_vector := Some ek_vector,
                                 h_ct1_enc := h_ct1_enc f \<rparr>)))))
                 else if bm_type m = AG_EK_CT1_ACK
                 then
                   braid_make CT1_ACKNOWLEDGED (b_epoch s) (b_auth s) [''header'', ''encaps'', ''ct1'', ''ek_dec'']
                     (nothing\<lparr> h_header := h_header f, h_encaps := h_encaps f, h_ct1 := h_ct1 f,
                               h_ek_dec := h_ek_dec f \<rparr>)
                 else Inr s))
          else Inr s
      | None \<Rightarrow> Inr s)"

definition recv_ct1_acknowledged :: "'k kem_ops \<Rightarrow> braid \<Rightarrow> braid_message \<Rightarrow> braid res" where
  "recv_ct1_acknowledged kem s m =
     (case bm_codeword m of
        Some (i, c) \<Rightarrow>
          if bm_epoch m = b_epoch s \<and> bm_type m = AG_EK_CT1_ACK
          then
            bindR (obj (h_ek_dec (b_held s))) (\<lambda>dec.
            bindR (dec_receive dec i c) (\<lambda>(dec, _).
              let s = s\<lparr> b_held := (b_held s)\<lparr> h_ek_dec := Some dec \<rparr> \<rparr>
              in if dec_complete dec
                 then
                   bindR (dec_value dec) (\<lambda>v.
                   bindR (val v) (\<lambda>ek_vector.
                   bindR (val (h_header (b_held s))) (\<lambda>header.
                   bindR (validate_ek_vector header ek_vector) (\<lambda>ok.
                   if \<not> ok then Inr braid_failed_state else complete_encapsulation kem s ek_vector))))
                 else Inr s))
          else Inr s
      | None \<Rightarrow> Inr s)"

definition recv_ek_received :: "'k kem_ops \<Rightarrow> braid \<Rightarrow> braid_message \<Rightarrow> braid res" where
  "recv_ek_received kem s m =
     (if bm_epoch m = b_epoch s \<and> bm_type m = AG_EK_CT1_ACK
      then bindR (val (h_ek_vector (b_held s))) (complete_encapsulation kem s)
      else Inr s)"

definition recv_step :: "'k kem_ops \<Rightarrow> braid \<Rightarrow> braid_message \<Rightarrow> (braid \<times> (int \<times> bytes) option) res" where
  "recv_step kem s m =
     (let quietly = (\<lambda>r. bindR r (\<lambda>s. Inr (s, None)))
      in if b_tag s = CT2_SAMPLED then quietly (recv_ct2_sampled s m)
         else if b_tag s = KEYS_SAMPLED then quietly (recv_keys_sampled kem s m)
         else if b_tag s = HEADER_SENT then quietly (recv_header_sent s m)
         else if b_tag s = CT1_RECEIVED then quietly (recv_ct1_received s m)
         else if b_tag s = EK_SENT_CT1_RECEIVED then recv_ek_sent kem s m
         else if b_tag s = NO_HEADER_RECEIVED then quietly (recv_no_header s m)
         else if b_tag s = CT1_SAMPLED then quietly (recv_ct1_sampled kem s m)
         else if b_tag s = CT1_ACKNOWLEDGED then quietly (recv_ct1_acknowledged kem s m)
         else if b_tag s = EK_RECEIVED_CT1_SAMPLED then quietly (recv_ek_received kem s m)
         else Inr (s, None))"

definition braid_receive :: "'k kem_ops \<Rightarrow> braid \<Rightarrow> braid_message \<Rightarrow> braid_receive_result res" where
  "braid_receive kem s m =
     (if b_tag s = FAILED then Inr \<lparr> brr_state = s, brr_epoch = 0, brr_output = None \<rparr>
      else
        bindR (recv_step kem s m) (\<lambda>(s, out).
        if b_tag s = FAILED then Inr \<lparr> brr_state = s, brr_epoch = 0, brr_output = None \<rparr>
        else Inr \<lparr> brr_state = s, brr_epoch = b_epoch s - 1, brr_output = out \<rparr>))"

section \<open>The agreement of the triple ratchet\<close>

text \<open>
  \<open>AgreementFailed\<close> carries the Braid state the session keeps; the model's error does not, and
  \<open>braid_send\<close> gives it: the state passed in when it had failed, the failed state otherwise.
\<close>

definition braid_agreement :: "'k kem_ops \<Rightarrow> (braid, 'k) agreement" where
  "braid_agreement kem =
     \<lparr> ag_send = (\<lambda>s k.
         if b_tag s = FAILED then (Inl (CryptoE AgreementFailed), k)
         else
           (let (r, k) = braid_send kem s k
            in (bindR r (\<lambda>r.
                if b_tag (bsr_state r) = FAILED then Inl (CryptoE AgreementFailed)
                else
                  bindR (obj (bsr_message r)) (\<lambda>m.
                  let (ag_epoch, ag_type, cw) = header_fields m
                  in Inr \<lparr> as_state = bsr_state r, as_ag_epoch = ag_epoch, as_ag_type = ag_type, as_codeword = cw,
                           as_epoch = bsr_epoch r, as_secret = map_option snd (bsr_output r),
                           as_secret_epoch = map_option fst (bsr_output r) \<rparr>)), k))),
       ag_receive = (\<lambda>s h.
         if b_tag s = FAILED then Inl (CryptoE AgreementFailed)
         else
           bindR (braid_receive kem s (message_from_header h)) (\<lambda>r.
           Inr \<lparr> ar_state = brr_state r, ar_secret = map_option snd (brr_output r),
                 ar_secret_epoch = map_option fst (brr_output r) \<rparr>)) \<rparr>"

section \<open>The interface of the KEM\<close>

text \<open>What the Braid relies on of its KEM: the lengths of what it returns, and no exception but its own failure.\<close>

locale kem_shapes =
  fixes kem :: "'k kem_ops"
  assumes generate_shape: "kem_generate kem k = (Inr (kp, header, ek), k') \<Longrightarrow>
      length kp = 11872 \<and> length header = 64 \<and> length ek = 1536 \<and> kem_ek_vector kem kp = ek"
    and ek_shape: "length kp = 11872 \<Longrightarrow> length (kem_ek_vector kem kp) = 1536"
    and encaps1_shape: "length header = 64 \<Longrightarrow> kem_encaps1 kem header k = (Inr (st, ct1, key), k') \<Longrightarrow>
      length st = 2592 \<and> length ct1 = 1408 \<and> length key = 32"
    and encaps2_shape: "length st = 2592 \<Longrightarrow> length ek = 1536 \<Longrightarrow>
      kem_encaps2 kem st ek = Inl (CryptoE KemFailure) \<or> (\<exists>ct2. kem_encaps2 kem st ek = Inr ct2 \<and> length ct2 = 160)"
    and decaps_shape: "length kp = 11872 \<Longrightarrow> length ct1 = 1408 \<Longrightarrow> length ct2 = 160 \<Longrightarrow>
      kem_decaps kem kp ct1 ct2 = Inl (CryptoE KemFailure) \<or> (\<exists>key. kem_decaps kem kp ct1 ct2 = Inr key \<and> length key = 32)"

text \<open>
  A KEM whose halves fit together: what was generated passes the Braid's validation, and decapsulating what
  was encapsulated to it gives the encapsulated key.
\<close>

locale kem_correct = kem_shapes kem for kem :: "'k kem_ops" +
  assumes generate_valid: "kem_generate kem k = (Inr (kp, header, ek), k') \<Longrightarrow> validate_ek_vector header ek = Inr True"
    and decaps_encaps: "kem_generate kem k = (Inr (kp, header, ek), k') \<Longrightarrow>
      kem_encaps1 kem header j = (Inr (st, ct1, key), j') \<Longrightarrow> kem_encaps2 kem st ek = Inr ct2 \<Longrightarrow>
      kem_decaps kem kp ct1 ct2 = Inr key"

end
