(* ===== verification/Braid_Store.thy ===== *)
theory Braid_Store
  imports Braid
begin

text \<open>
  Exporting and importing a Braid state (\<open>braid.py\<close>, persistence), the invariant of the Braid's states,
  and that a state satisfying it is exported and imported unchanged.
\<close>

section \<open>Export and import\<close>

definition raw_value :: "bytes option \<Rightarrow> braid_value" where
  "raw_value v = (case v of None \<Rightarrow> BNone | Some b \<Rightarrow> BRaw b)"

definition enc_value :: "encoder option \<Rightarrow> braid_value" where
  "enc_value v = (case v of None \<Rightarrow> BNone | Some e \<Rightarrow> BEnc e)"

definition coder_value :: "decoder option \<Rightarrow> braid_value" where
  "coder_value v = (case v of None \<Rightarrow> BNone | Some d \<Rightarrow> BDec d)"

text \<open>\<open>getattr(s, name)\<close>, and the keyword argument \<open>name\<close> of \<open>_make\<close>.\<close>

definition get_field :: "held \<Rightarrow> string \<Rightarrow> braid_value" where
  "get_field h name =
     (if name = ''key_pair'' then raw_value (h_key_pair h)
      else if name = ''header'' then raw_value (h_header h)
      else if name = ''ek_vector'' then raw_value (h_ek_vector h)
      else if name = ''ct1'' then raw_value (h_ct1 h)
      else if name = ''encaps'' then raw_value (h_encaps h)
      else if name = ''hdr_enc'' then enc_value (h_hdr_enc h)
      else if name = ''ek_enc'' then enc_value (h_ek_enc h)
      else if name = ''ct1_enc'' then enc_value (h_ct1_enc h)
      else if name = ''ct2_enc'' then enc_value (h_ct2_enc h)
      else if name = ''hdr_dec'' then coder_value (h_hdr_dec h)
      else if name = ''ek_dec'' then coder_value (h_ek_dec h)
      else if name = ''ct1_dec'' then coder_value (h_ct1_dec h)
      else if name = ''ct2_dec'' then coder_value (h_ct2_dec h)
      else BNone)"

definition as_raw :: "braid_value \<Rightarrow> bytes option" where
  "as_raw v = (case v of BRaw b \<Rightarrow> Some b | _ \<Rightarrow> None)"

definition as_enc :: "braid_value \<Rightarrow> encoder option" where
  "as_enc v = (case v of BEnc e \<Rightarrow> Some e | _ \<Rightarrow> None)"

definition as_dec :: "braid_value \<Rightarrow> decoder option" where
  "as_dec v = (case v of BDec d \<Rightarrow> Some d | _ \<Rightarrow> None)"

definition set_field :: "string \<times> braid_value \<Rightarrow> held \<Rightarrow> held" where
  "set_field = (\<lambda>(name, v) h.
     if name = ''key_pair'' then h\<lparr> h_key_pair := as_raw v \<rparr>
     else if name = ''header'' then h\<lparr> h_header := as_raw v \<rparr>
     else if name = ''ek_vector'' then h\<lparr> h_ek_vector := as_raw v \<rparr>
     else if name = ''ct1'' then h\<lparr> h_ct1 := as_raw v \<rparr>
     else if name = ''encaps'' then h\<lparr> h_encaps := as_raw v \<rparr>
     else if name = ''hdr_enc'' then h\<lparr> h_hdr_enc := as_enc v \<rparr>
     else if name = ''ek_enc'' then h\<lparr> h_ek_enc := as_enc v \<rparr>
     else if name = ''ct1_enc'' then h\<lparr> h_ct1_enc := as_enc v \<rparr>
     else if name = ''ct2_enc'' then h\<lparr> h_ct2_enc := as_enc v \<rparr>
     else if name = ''hdr_dec'' then h\<lparr> h_hdr_dec := as_dec v \<rparr>
     else if name = ''ek_dec'' then h\<lparr> h_ek_dec := as_dec v \<rparr>
     else if name = ''ct1_dec'' then h\<lparr> h_ct1_dec := as_dec v \<rparr>
     else if name = ''ct2_dec'' then h\<lparr> h_ct2_dec := as_dec v \<rparr>
     else h)"

definition to_persisted :: "braid \<Rightarrow> braid_state res" where
  "to_persisted s =
     (if b_tag s = FAILED then Inr failed_braid
      else
        (case dict_get HOLDS (b_tag s) of
           None \<Rightarrow> Inl (PyE KeyError)
         | Some None \<Rightarrow> Inl (PyE TypeError)
         | Some (Some names) \<Rightarrow>
             bindR (obj (b_auth s)) (\<lambda>a.
             Inr \<lparr> bs_tag = b_tag s, bs_epoch = b_epoch s, bs_auth_root = au_root_key a, bs_auth_mac = au_mac_key a,
                   bs_fields = map (\<lambda>name. (name, get_field (b_held s) name)) names \<rparr>)))"

definition from_persisted :: "braid_state \<Rightarrow> braid res" where
  "from_persisted b =
     (if bs_tag b = FAILED then Inr braid_failed_state
      else
        (case dict_get HOLDS (bs_tag b) of
           None \<Rightarrow> Inl (PyE KeyError)
         | Some None \<Rightarrow> Inl (PyE TypeError)
         | Some (Some names) \<Rightarrow>
             bindR (mapR (\<lambda>name. case dict_get (bs_fields b) name of
                                    None \<Rightarrow> Inl (PyE KeyError) | Some v \<Rightarrow> Inr (name, v)) names) (\<lambda>kwargs.
             braid_make (bs_tag b) (bs_epoch b)
               (Some \<lparr> au_root_key = bs_auth_root b, au_mac_key = bs_auth_mac b \<rparr>) (map fst kwargs)
               (fold set_field kwargs nothing))))"

definition braid_export :: "braid \<Rightarrow> bytes res" where
  "braid_export s = bindR (to_persisted s) braid_to_bytes"

definition braid_import :: "key_pair_view option \<Rightarrow> bytes \<Rightarrow> braid res" where
  "braid_import view b = bindR (braid_from_bytes view b) from_persisted"

section \<open>The invariant of the Braid\<close>

text \<open>A value of the right kind and length for its field's name; a stored decoder is never complete.\<close>

definition fit_field :: "string \<Rightarrow> braid_value \<Rightarrow> bool" where
  "fit_field name v \<longleftrightarrow>
     (case v of
        BRaw b \<Rightarrow> dict_get RAW_FIELD_LEN name = Some (int (length b))
      | BEnc e \<Rightarrow> ends_with name ''_enc'' \<and> encoder_ok e \<and> 0 \<le> enc_next e \<and> enc_next e \<le> U16_MAX
          \<and> (enc_exhausted e \<longrightarrow> enc_next e = U16_MAX)
          \<and> (\<exists>n. dict_get CODER_VALUE_LEN (takeWhile (\<lambda>c. c \<noteq> CHR ''_'') name) = Some n
                \<and> int (length (enc_chunks e)) = chunk_count n)
      | BDec d \<Rightarrow> ends_with name ''_dec'' \<and> decoder_ok d \<and> \<not> dec_complete d
          \<and> dict_get CODER_VALUE_LEN (takeWhile (\<lambda>c. c \<noteq> CHR ''_'') name) = Some (dec_size d)
      | BNone \<Rightarrow> False)"

definition holds_exactly :: "string list \<Rightarrow> held \<Rightarrow> bool" where
  "holds_exactly names h \<longleftrightarrow>
     (\<forall>name \<in> set names. fit_field name (get_field h name))
     \<and> h = fold set_field (map (\<lambda>name. (name, get_field h name)) names) nothing"

definition braid_ok :: "braid \<Rightarrow> bool" where
  "braid_ok s \<longleftrightarrow> s = braid_failed_state
     \<or> (\<exists>names a. dict_get HOLDS (b_tag s) = Some (Some names) \<and> b_auth s = Some a
          \<and> length (au_root_key a) = 32 \<and> length (au_mac_key a) = 32
          \<and> 1 \<le> b_epoch s \<and> b_epoch s < U64_MAX \<and> holds_exactly names (b_held s))"

section \<open>A valid state is exported and imported unchanged\<close>

lemma holds_states:
  "dict_get HOLDS t = Some (Some names) \<Longrightarrow>
     (\<exists>nm. dict_get BRAID_STATES t = Some (nm, Some names)) \<and> distinct names \<and> length names \<le> 5 \<and> 0 \<le> t \<and> t < FAILED"
  by (auto simp: HOLDS_def BRAID_STATES_def dict_get_def split: if_splits)

lemma raw_name: "dict_get RAW_FIELD_LEN name = Some n \<Longrightarrow>
    \<not> ends_with name ''_enc'' \<and> \<not> ends_with name ''_dec'' \<and> 0 \<le> n \<and> n < 12000"
  by (auto simp: RAW_FIELD_LEN_def dict_get_def ends_with_def split: if_splits)

lemma coder_name: "ends_with name ''_enc'' \<Longrightarrow> \<not> ends_with name ''_dec''"
  by (auto simp: ends_with_def)

lemma coder_len: "dict_get CODER_VALUE_LEN k = Some n \<Longrightarrow> 0 < n \<and> n \<le> 1536 \<and> chunk_count n \<le> 48"
  by (auto simp: CODER_VALUE_LEN_def dict_get_def chunk_count_def split: if_splits)

lemma fit_field_storable:
  assumes "fit_field name v"
  shows "braid_value_ok name v \<and> braid_field_fits (name, v) = Inr True \<and> (\<exists>b. named_bytes (name, v) = Inr b \<and> length b \<le> 20000)"
proof (cases v)
  case (BRaw b)
  then have "dict_get RAW_FIELD_LEN name = Some (int (length b))" using assms by (simp add: fit_field_def)
  then show ?thesis
    using raw_name [of name]
    by (simp add: BRaw braid_value_ok_def braid_field_fits_def named_bytes_def braid_value_bytes_def pbe_def
        to_bytes_be_def)
next
  case (BEnc e)
  then obtain n where n: "dict_get CODER_VALUE_LEN (takeWhile (\<lambda>c. c \<noteq> CHR ''_'') name) = Some n"
      "int (length (enc_chunks e)) = chunk_count n"
    and e: "ends_with name ''_enc''" "encoder_ok e" "0 \<le> enc_next e" "enc_next e \<le> U16_MAX"
      "enc_exhausted e \<longrightarrow> enc_next e = U16_MAX"
    using assms by (auto simp: fit_field_def)
  have raw: "dict_get RAW_FIELD_LEN name = None" using e(1) raw_name [of name] by fastforce
  have few: "int (length (enc_chunks e)) \<le> 48" using n coder_len by simp
  have st: "encoder_storable e" using e few by (auto simp: encoder_storable_def encoder_ok_def list_all_iff const_defs)
  have "length (concat (enc_chunks e)) = length (enc_chunks e) * 32"
    using e(2) length_concat_map [of "enc_chunks e" id 32] by (simp add: encoder_ok_def list_all_iff)
  then have "\<exists>b. encoder_to_bytes e = Inr b \<and> length b \<le> 19000"
    using e few by (simp add: encoder_to_bytes_def pbe_def to_bytes_be_def const_defs)
  then show ?thesis
    using st raw n e
    by (auto simp: BEnc braid_value_ok_def braid_field_fits_def named_bytes_def braid_value_bytes_def pbe_def
        to_bytes_be_def)
next
  case (BDec d)
  then have n: "dict_get CODER_VALUE_LEN (takeWhile (\<lambda>c. c \<noteq> CHR ''_'') name) = Some (dec_size d)"
    and d: "ends_with name ''_dec''" "decoder_ok d"
    using assms by (auto simp: fit_field_def)
  have raw: "dict_get RAW_FIELD_LEN name = None" "\<not> ends_with name ''_enc''"
    using d(1) raw_name [of name] coder_name [of name] by fastforce+
  have few: "dec_needed d \<le> 48" "dec_size d \<le> 1536" "0 < dec_size d" "int (length (dec_held d)) \<le> 48"
    using coder_len [OF n] d(2) by (auto simp: decoder_ok_def)
  have st: "decoder_storable d" using d few by (auto simp: decoder_storable_def decoder_ok_def list_all_iff)
  have counted: "\<forall>x \<in> set (dec_held d). held_counted x" "\<forall>x \<in> set (dec_held d). length (snd x) = 32"
    using d(2) by (auto simp: decoder_ok_def list_all_iff held_counted_def const_defs)
  have len: "length (concat (map held_enc (dec_held d))) = length (dec_held d) * 34"
    using counted(2) by (intro length_concat_map) (auto simp: held_enc_def split: prod.splits)
  have "0 \<le> dec_needed d" using few(4) d(2) by (simp add: decoder_ok_def)
  then have "\<exists>b. decoder_to_bytes d = Inr b \<and> length b \<le> 19000"
    using few counted len
    by (simp add: decoder_to_bytes_def pbe_def to_bytes_be_def mapR_exact [of held_bytes, OF held_bytes_iff]
        bindR_Inr_iff)
  then show ?thesis
    using st raw n d
    by (auto simp: BDec braid_value_ok_def braid_field_fits_def named_bytes_def braid_value_bytes_def pbe_def
        to_bytes_be_def)
next
  case BNone
  then show ?thesis using assms by (simp add: fit_field_def)
qed

lemma fields_fit_all: "(\<And>f. f \<in> set fs \<Longrightarrow> braid_field_fits f = Inr True) \<Longrightarrow> braid_fields_fit fs = Inr True"
  by (induction fs) auto

lemma mapR_exists:
  "(\<And>x. x \<in> set xs \<Longrightarrow> \<exists>y. f x = Inr y \<and> length y \<le> n) \<Longrightarrow>
     \<exists>ys. mapR f xs = Inr ys \<and> length (concat ys) \<le> length xs * n"
proof (induction xs)
  case (Cons x xs)
  then obtain y ys where "f x = Inr y" "length y \<le> n" "mapR f xs = Inr ys" "length (concat ys) \<le> length xs * n"
    by (metis list.set_intros)
  then show ?case by simp
qed simp

lemma braid_ok_persisted:
  assumes ok: "braid_ok s"
  shows "\<exists>p b. to_persisted s = Inr p \<and> braid_storable None p \<and> braid_to_bytes p = Inr b \<and> int (length b) < 256 ^ 4
    \<and> from_persisted p = Inr s"
proof (cases "s = braid_failed_state")
  case True
  then show ?thesis
    by (simp add: to_persisted_def braid_failed_state_def braid_storable_def from_persisted_def failed_braid_def
        braid_to_bytes_def one_byte_def)
next
  case False
  then obtain names a where names: "dict_get HOLDS (b_tag s) = Some (Some names)" and a: "b_auth s = Some a"
      "length (au_root_key a) = 32" "length (au_mac_key a) = 32"
    and e: "1 \<le> b_epoch s" "b_epoch s < U64_MAX" and h: "holds_exactly names (b_held s)"
    using ok by (auto simp: braid_ok_def)
  obtain nm where nm: "dict_get BRAID_STATES (b_tag s) = Some (nm, Some names)"
    and dist: "distinct names" "length names \<le> 5" and t: "0 \<le> b_tag s" "b_tag s < FAILED"
    using holds_states [OF names] by blast
  let ?fs = "map (\<lambda>name. (name, get_field (b_held s) name)) names"
  let ?p = "\<lparr> bs_tag = b_tag s, bs_epoch = b_epoch s, bs_auth_root = au_root_key a, bs_auth_mac = au_mac_key a,
      bs_fields = ?fs \<rparr>"
  have fst: "map fst ?fs = names" by (simp add: comp_def)
  have good: "braid_value_ok n v \<and> braid_field_fits (n, v) = Inr True \<and> (\<exists>b. named_bytes (n, v) = Inr b \<and> length b \<le> 20000)"
    if "(n, v) \<in> set ?fs" for n v
    using that h fit_field_storable by (auto simp: holds_exactly_def)
  have "braid_fields_fit ?fs = Inr True" using good by (intro fields_fit_all) auto
  then have inv: "braid_invariant None ?p = Inr True"
    using e t by (simp add: braid_invariant_def key_pair_fits_def braid_failed_def)
  have st: "braid_storable None ?p"
    using nm a e inv good by (auto simp: braid_storable_def comp_def list_all_iff)
  have "\<exists>y. named_bytes x = Inr y \<and> length y \<le> 20000" if "x \<in> set ?fs" for x
    using good that by (cases x) blast
  then obtain bs where bs: "mapR named_bytes ?fs = Inr bs" "length (concat bs) \<le> length names * 20000"
    using mapR_exists [of ?fs named_bytes 20000] by auto
  then have "mapR (braid_field_bytes ?fs) names = Inr bs"
    using field_bytes_named [of ?fs] fst dist by simp
  moreover have "length (concat bs) \<le> 100000" using bs(2) dist(2) by linarith
  ultimately obtain b where b: "braid_to_bytes ?p = Inr b" "int (length b) < 256 ^ 4"
    using nm t e a by (simp add: braid_to_bytes_def one_byte_def pbe_def to_bytes_be_def const_defs)
  have "mapR (\<lambda>name. case dict_get ?fs name of None \<Rightarrow> Inl (PyE KeyError) | Some v \<Rightarrow> Inr (name, v)) names = Inr ?fs"
  proof -
    have "dict_get ?fs name = Some (get_field (b_held s) name)" if "name \<in> set names" for name
      using that dist fst by (simp add: dict_get_iff dict_ok_def)
    then have "mapR (\<lambda>name. case dict_get ?fs name of None \<Rightarrow> Inl (PyE KeyError) | Some v \<Rightarrow> Inr (name, v)) ns
        = Inr (map (\<lambda>name. (name, get_field (b_held s) name)) ns)" if "set ns \<subseteq> set names" for ns
      using that by (induction ns) simp_all
    then show ?thesis by simp
  qed
  then have "from_persisted ?p = Inr s"
    using names t h a fst
    by (cases s) (simp add: from_persisted_def braid_make_def holds_exactly_def image_image)
  then show ?thesis using names a st b t by (intro exI [of _ ?p] exI [of _ b]) (simp add: to_persisted_def obj_def)
qed

lemma braid_ok_restored: "braid_ok s \<Longrightarrow> bindR (braid_export s) (braid_import None) = Inr s"
  using braid_ok_persisted [of s] braid_codec.dec_enc
  by (fastforce simp: braid_export_def braid_import_def)

end
