(* ===== verification/Kem_Double.thy ===== *)
theory Kem_Double
  imports Braid
begin

text \<open>
  The KEM test double of \<open>tacenta_reader/kem_double.py\<close>, which the Braid is driven with: its operations,
  that they have the lengths and the law the Braid relies on, and that the vectors it generates pass the
  Braid's validation.
\<close>

unbundle bit_operations_syntax

section \<open>Encoding\<close>

definition key_pair_view :: "bytes \<Rightarrow> bytes \<times> bytes" where
  "key_pair_view kp =
     (take (nat BRAID_HEADER_LEN) (drop (nat BRAID_EK_VECTOR_LEN) kp), take (nat BRAID_EK_VECTOR_LEN) kp)"

fun byte_encode12 :: "int list \<Rightarrow> bytes res" where
  "byte_encode12 [] = Inr []"
| "byte_encode12 [_] = Inl (PyE IndexError)"
| "byte_encode12 (a # b # r) =
     bindR (byte_encode12 r) (\<lambda>out.
     Inr (map word_of_int [a AND 0xFF, (drop_bit 8 a OR push_bit 4 b) AND 0xFF, drop_bit 4 b AND 0xFF] @ out))"

definition toy_xor :: "bytes \<Rightarrow> bytes \<Rightarrow> bytes" where
  "toy_xor a b = map (\<lambda>(x, y). x XOR y) (zip a b)"

definition ljust :: "nat \<Rightarrow> bytes \<Rightarrow> bytes" where
  "ljust n b = b @ zeros (n - length b)"

definition toy_shake :: "bytes \<Rightarrow> bytes list \<Rightarrow> nat \<Rightarrow> bytes" where
  "toy_shake label parts n = shake_256 n (label @ concat parts)"

section \<open>The double\<close>

datatype kem_call = Call_generate | Call_encaps1 | Call_encaps2 | Call_decaps

definition toy_random :: "bytes \<Rightarrow> nat \<Rightarrow> int \<Rightarrow> bytes res \<times> int" where
  "toy_random seed n draws =
     (let draws = draws + 1 in (bindR (to_bytes_be 8 draws) (\<lambda>d. Inr (shake_256 n (seed @ d))), draws))"

definition toy_coeffs :: "bytes \<Rightarrow> int list" where
  "toy_coeffs stream = map (\<lambda>i. le_int (take 2 (drop (2 * i) stream)) mod MLKEM_Q) [0..<1024]"

definition toy_generate :: "bytes \<Rightarrow> kem_call set \<Rightarrow> int \<Rightarrow> (bytes \<times> bytes \<times> bytes) res \<times> int" where
  "toy_generate seed fail_on draws =
     (if Call_generate \<in> fail_on then (Inl (CryptoE KemFailure), draws)
      else
        (case toy_random seed 2048 draws of
           (Inl err, d) \<Rightarrow> (Inl err, d)
         | (Inr stream, d) \<Rightarrow>
        (case byte_encode12 (toy_coeffs stream) of
           Inl err \<Rightarrow> (Inl err, d)
         | Inr ek_vector \<Rightarrow>
        (case toy_random seed 32 d of
           (Inl err, d) \<Rightarrow> (Inl err, d)
         | (Inr rho, d) \<Rightarrow>
        (case toy_random seed 32 d of
           (Inl err, d) \<Rightarrow> (Inl err, d)
         | (Inr z, d) \<Rightarrow>
             (let header = rho @ sha3_256 (ek_vector @ rho);
                  key_pair = ljust (nat BRAID_KEY_PAIR_LEN) (ek_vector @ header @ z)
              in (Inr (key_pair, header, ek_vector), d)))))))"

definition toy_ek_vector :: "bytes \<Rightarrow> bytes" where
  "toy_ek_vector key_pair = take (nat BRAID_EK_VECTOR_LEN) key_pair"

definition toy_ct1 :: "bytes \<Rightarrow> bytes \<Rightarrow> bytes" where
  "toy_ct1 r rho = toy_shake (ascii ''toy ct1'') [r, rho] (nat BRAID_CT1_LEN)"

definition toy_encaps1 :: "bytes \<Rightarrow> kem_call set \<Rightarrow> bytes \<Rightarrow> int \<Rightarrow> (bytes \<times> bytes \<times> bytes) res \<times> int" where
  "toy_encaps1 seed fail_on header draws =
     (if Call_encaps1 \<in> fail_on then (Inl (CryptoE KemFailure), draws)
      else
        (case toy_random seed 32 draws of
           (Inl err, d) \<Rightarrow> (Inl err, d)
         | (Inr m, d) \<Rightarrow>
             (let g = sha3_512 (m @ drop 32 header); k = take 32 g; r = drop 32 g;
                  ct1 = toy_ct1 r (take 32 header);
                  st = ljust (nat BRAID_ENCAPS_LEN) (m @ header)
              in (Inr (st, ct1, k), d))))"

definition toy_encaps2 :: "kem_call set \<Rightarrow> bytes \<Rightarrow> bytes \<Rightarrow> bytes res" where
  "toy_encaps2 fail_on st ek_vector =
     (if Call_encaps2 \<in> fail_on then Inl (CryptoE KemFailure)
      else
        (let m = take 32 st; header = take 64 (drop 32 st);
             r = drop 32 (sha3_512 (m @ drop 32 header));
             ct1 = toy_ct1 r (take 32 header)
         in Inr (toy_xor m (toy_shake (ascii ''toy pad'') [ek_vector, ct1] 32)
                 @ toy_shake (ascii ''toy tag'') [m, ek_vector] 128)))"

definition toy_decaps :: "kem_call set \<Rightarrow> bytes \<Rightarrow> bytes \<Rightarrow> bytes \<Rightarrow> bytes res" where
  "toy_decaps fail_on key_pair ct1 ct2 =
     (if Call_decaps \<in> fail_on then Inl (CryptoE KemFailure)
      else
        (let (header, ek_vector) = key_pair_view key_pair;
             z = take 32 (drop 1600 key_pair);
             rho = take 32 header; h_ek = take 32 (drop 32 header);
             m = toy_xor (take 32 ct2) (toy_shake (ascii ''toy pad'') [ek_vector, ct1] 32);
             g = sha3_512 (m @ h_ek); k = take 32 g; r = drop 32 g
         in if ct1 = toy_ct1 r rho \<and> drop 32 ct2 = toy_shake (ascii ''toy tag'') [m, ek_vector] 128 then Inr k
            else Inr (toy_shake (ascii ''toy implicit rejection'') [z, ct1, ct2] 32)))"

definition toy_kem :: "bytes \<Rightarrow> kem_call set \<Rightarrow> int kem_ops" where
  "toy_kem seed fail_on =
     \<lparr> kem_generate = toy_generate seed fail_on, kem_ek_vector = toy_ek_vector,
       kem_encaps1 = toy_encaps1 seed fail_on, kem_encaps2 = toy_encaps2 fail_on,
       kem_decaps = toy_decaps fail_on \<rparr>"

section \<open>The double's lengths\<close>

lemma ljust_props: "length b \<le> n \<Longrightarrow> length (ljust n b) = n" "take (length b) (ljust n b) = b"
  by (simp_all add: ljust_def)

lemma byte_encode12_length:
  "even (length cs) \<Longrightarrow> \<exists>out. byte_encode12 cs = Inr out \<and> 2 * length out = 3 * length cs"
  by (induction cs rule: byte_encode12.induct) auto

lemma toy_random_Inr: "toy_random seed n d = (Inr x, d') \<Longrightarrow> length x = n"
  by (auto simp: toy_random_def bindR_Inr_iff Let_def)

lemma toy_generate_Inr:
  assumes "toy_generate seed fail_on k = (Inr (kp, header, ek), k')"
  shows "\<exists>stream rho z. byte_encode12 (toy_coeffs stream) = Inr ek \<and> length rho = 32 \<and> length z = 32
    \<and> length ek = 1536 \<and> header = rho @ sha3_256 (ek @ rho) \<and> kp = ljust 11872 (ek @ header @ z)"
proof -
  from assms obtain stream d where s: "byte_encode12 (toy_coeffs stream) = Inr ek"
    by (auto simp: toy_generate_def Let_def split: if_splits prod.splits sum.splits)
  have "length ek = 1536" using byte_encode12_length [of "toy_coeffs stream"] s by (auto simp: toy_coeffs_def)
  then show ?thesis
    using assms toy_random_Inr
    by (auto simp: toy_generate_def Let_def split: if_splits prod.splits sum.splits) metis
qed

lemma toy_encaps1_Inr:
  assumes "toy_encaps1 seed fail_on header k = (Inr (st, ct1, key), k')"
  shows "\<exists>m. length m = 32 \<and> st = ljust 2592 (m @ header) \<and> key = take 32 (sha3_512 (m @ drop 32 header))
    \<and> ct1 = toy_ct1 (drop 32 (sha3_512 (m @ drop 32 header))) (take 32 header)"
  using assms
  by (auto simp: toy_encaps1_def Let_def dest: toy_random_Inr split: if_splits prod.splits sum.splits)

lemma length_toy [simp]: "length (toy_ct1 r rho) = 1408" "length (toy_shake l ps n) = n"
  by (simp_all add: toy_ct1_def toy_shake_def)

interpretation toy: kem_shapes "toy_kem seed fail_on"
proof
  show "length kp = 11872 \<and> length header = 64 \<and> length ek = 1536 \<and> kem_ek_vector (toy_kem seed fail_on) kp = ek"
    if "kem_generate (toy_kem seed fail_on) k = (Inr (kp, header, ek), k')" for k kp header ek k'
    using toy_generate_Inr [of seed fail_on k kp header ek k'] that
    by (auto simp: toy_kem_def ljust_props toy_ek_vector_def ljust_def)
  show "length st = 2592 \<and> length ct1 = 1408 \<and> length key = 32"
    if "length header = 64" "kem_encaps1 (toy_kem seed fail_on) header k = (Inr (st, ct1, key), k')"
    for header k st ct1 key k'
    using toy_encaps1_Inr [of seed fail_on header k st ct1 key k'] that by (auto simp: toy_kem_def ljust_props)
  show "length (kem_ek_vector (toy_kem seed fail_on) kp) = 1536" if "length kp = 11872" for kp
    using that by (simp add: toy_kem_def toy_ek_vector_def)
  show "kem_encaps2 (toy_kem seed fail_on) st ek = Inl (CryptoE KemFailure)
      \<or> (\<exists>ct2. kem_encaps2 (toy_kem seed fail_on) st ek = Inr ct2 \<and> length ct2 = 160)"
    if "length st = 2592" for st ek
    using that by (simp add: toy_kem_def toy_encaps2_def toy_xor_def Let_def)
  show "kem_decaps (toy_kem seed fail_on) kp ct1 ct2 = Inl (CryptoE KemFailure)
      \<or> (\<exists>key. kem_decaps (toy_kem seed fail_on) kp ct1 ct2 = Inr key \<and> length key = 32)" for kp ct1 ct2
    by (simp add: toy_kem_def toy_decaps_def Let_def key_pair_view_def)
qed

section \<open>The double's law\<close>

text \<open>Packing two coefficients into three bytes and reading them back.\<close>

lemma uint_low_byte: "uint (word_of_int x :: 8 word) = take_bit 8 x"
  by (simp add: uint_word_of_int_eq)

lemma high_bits:
  assumes "0 \<le> (x :: int)" "x < 4096" "bit x n"
  shows "n < 12"
proof -
  have "take_bit 12 x = x" using assms by (simp add: take_bit_int_eq_self_iff)
  then show ?thesis using assms(3) by (metis bit_take_bit_iff)
qed

lemma unpack:
  assumes a: "0 \<le> (a :: int)" "a < 4096" and b: "0 \<le> (b :: int)" "b < 4096"
  shows "uint (word_of_int (a AND 0xFF) :: 8 word)
      OR push_bit 8 (uint (word_of_int ((drop_bit 8 a OR push_bit 4 b) AND 0xFF) :: 8 word) AND 0x0F) = a"
    "drop_bit 4 (uint (word_of_int ((drop_bit 8 a OR push_bit 4 b) AND 0xFF) :: 8 word))
      OR push_bit 4 (uint (word_of_int (drop_bit 4 b AND 0xFF) :: 8 word)) = b"
proof -
  have m: "(0xFF :: int) = mask 8" "(0x0F :: int) = mask 4" by (simp_all add: mask_eq_exp_minus_1)
  show "uint (word_of_int (a AND 0xFF) :: 8 word)
      OR push_bit 8 (uint (word_of_int ((drop_bit 8 a OR push_bit 4 b) AND 0xFF) :: 8 word) AND 0x0F) = a"
    unfolding m uint_low_byte
    by (rule bit_eqI) (auto simp: bit_simps dest: high_bits [OF a])
  show "drop_bit 4 (uint (word_of_int ((drop_bit 8 a OR push_bit 4 b) AND 0xFF) :: 8 word))
      OR push_bit 4 (uint (word_of_int (drop_bit 4 b AND 0xFF) :: 8 word)) = b"
    unfolding m uint_low_byte
    by (rule bit_eqI) (auto simp: bit_simps dest: high_bits [OF a] high_bits [OF b])
qed

lemma encoded_modulus_ok:
  "byte_encode12 cs = Inr out \<Longrightarrow> list_all (\<lambda>c. 0 \<le> c \<and> c < MLKEM_Q) cs \<Longrightarrow> modulus_ok out = Inr True"
proof (induction cs arbitrary: out rule: byte_encode12.induct)
  case (3 a b r)
  then obtain rest where rest: "byte_encode12 r = Inr rest" "modulus_ok rest = Inr True"
    and out: "out = map word_of_int [a AND 0xFF, (drop_bit 8 a OR push_bit 4 b) AND 0xFF, drop_bit 4 b AND 0xFF] @ rest"
    by (auto simp: bindR_Inr_iff)
  have "0 \<le> a" "a < MLKEM_Q" "0 \<le> b" "b < MLKEM_Q" using 3(3) by simp_all
  then show ?case using unpack [of a b] rest(2) unfolding out by (simp del: word_of_int_numeral)
qed auto

lemma toy_xor_back: "length m = length p \<Longrightarrow> toy_xor (toy_xor m p) p = m"
  by (induction m p rule: list_induct2) (simp_all add: toy_xor_def ac_simps)

lemma toy_generate_valid:
  assumes "toy_generate seed fail_on k = (Inr (kp, header, ek), k')"
  shows "validate_ek_vector header ek = Inr True"
proof -
  obtain stream rho where g: "byte_encode12 (toy_coeffs stream) = Inr ek" "length rho = 32" "length ek = 1536"
      "header = rho @ sha3_256 (ek @ rho)"
    using toy_generate_Inr [OF assms] by blast
  have "list_all (\<lambda>c. 0 \<le> c \<and> c < MLKEM_Q) (toy_coeffs stream)" by (simp add: toy_coeffs_def list_all_iff)
  then show ?thesis using encoded_modulus_ok [OF g(1)] g by (simp add: validate_ek_vector_def)
qed

lemma toy_decaps_encaps:
  assumes gen: "toy_generate seed fail_on k = (Inr (kp, header, ek), k')"
    and enc1: "toy_encaps1 seed fail_on header j = (Inr (st, ct1, key), j')"
    and enc2: "toy_encaps2 fail_on st ek = Inr ct2" and quiet: "Call_decaps \<notin> fail_on"
  shows "toy_decaps fail_on kp ct1 ct2 = Inr key"
proof -
  obtain rho z where g: "length rho = 32" "length ek = 1536" "length z = 32"
      "header = rho @ sha3_256 (ek @ rho)" "kp = ljust 11872 (ek @ header @ z)"
    using toy_generate_Inr [OF gen] by blast
  obtain m where m: "length m = 32" "st = ljust 2592 (m @ header)"
      "key = take 32 (sha3_512 (m @ drop 32 header))"
      "ct1 = toy_ct1 (drop 32 (sha3_512 (m @ drop 32 header))) (take 32 header)"
    using toy_encaps1_Inr [OF enc1] by blast
  have view: "key_pair_view kp = (header, ek)" using g by (simp add: key_pair_view_def ljust_def)
  have st: "take 32 st = m" "take 64 (drop 32 st) = header" using m g by (simp_all add: ljust_def)
  let ?pad = "toy_shake (ascii ''toy pad'') [ek, ct1] 32"
  have ct2: "ct2 = toy_xor m ?pad @ toy_shake (ascii ''toy tag'') [m, ek] 128"
    using enc2 st m(4) by (simp add: toy_encaps2_def Let_def split: if_splits)
  have len: "length (toy_xor m ?pad) = 32" using m(1) by (simp add: toy_xor_def)
  have "toy_xor (take 32 ct2) ?pad = m" using len m(1) ct2 by (simp add: toy_xor_back)
  moreover have "drop 32 ct2 = toy_shake (ascii ''toy tag'') [m, ek] 128" using len ct2 by simp
  moreover have "take 32 (drop 32 header) = drop 32 header" using g by simp
  ultimately show ?thesis using m(3,4) quiet by (simp add: toy_decaps_def view Let_def)
qed

lemma toy_generate_draws:
  "fail_on = {} \<Longrightarrow> 0 \<le> k \<Longrightarrow> k < 2 ^ 64 - 3 \<Longrightarrow>
     \<exists>kp header ek. toy_generate seed fail_on k = (Inr (kp, header, ek), k + 3)"
  using byte_encode12_length [of "toy_coeffs (shake_256 2048 (seed @ be_digits 8 (k + 1)))"]
  by (auto simp: toy_generate_def toy_random_def to_bytes_be_def toy_coeffs_def Let_def)

lemma toy_encaps1_draws:
  "fail_on = {} \<Longrightarrow> 0 \<le> k \<Longrightarrow> k < 2 ^ 64 - 1 \<Longrightarrow>
     \<exists>st ct1 key. toy_encaps1 seed fail_on header k = (Inr (st, ct1, key), k + 1)"
  by (auto simp: toy_encaps1_def toy_random_def to_bytes_be_def Let_def)

text \<open>The KEM that never fails is correct; with failures injected its shapes still hold.\<close>

interpretation toy_ok: kem_correct "toy_kem seed {}"
  by unfold_locales (auto simp: toy_kem_def intro: toy_generate_valid toy_decaps_encaps)

end
