(* ===== verification/Braid_Safety.thy ===== *)
theory Braid_Safety
  imports Braid_Store Kem_Double
begin

text \<open>
  The Braid's states stay well formed: no operation on a well-formed state raises anything but what the
  KEM's own draws raise, and every state reached is well formed, so is stored and restored.
\<close>

section \<open>What each state holds\<close>

definition enc_fits :: "int \<Rightarrow> encoder \<Rightarrow> bool" where
  "enc_fits n e \<longleftrightarrow> encoder_ok e \<and> 0 \<le> enc_next e \<and> enc_next e \<le> U16_MAX
     \<and> (enc_exhausted e \<longrightarrow> enc_next e = U16_MAX) \<and> int (length (enc_chunks e)) = chunk_count n"

definition dec_fits :: "int \<Rightarrow> decoder \<Rightarrow> bool" where
  "dec_fits n d \<longleftrightarrow> decoder_ok d \<and> \<not> dec_complete d \<and> dec_size d = n"

lemmas field_names = get_field_def set_field_def fit_field_def RAW_FIELD_LEN_def CODER_VALUE_LEN_def dict_get_def
  ends_with_def

lemma fit_raw:
  "fit_field ''key_pair'' (raw_value v) \<longleftrightarrow> (\<exists>b. v = Some b \<and> length b = 11872)"
  "fit_field ''header'' (raw_value v) \<longleftrightarrow> (\<exists>b. v = Some b \<and> length b = 64)"
  "fit_field ''ek_vector'' (raw_value v) \<longleftrightarrow> (\<exists>b. v = Some b \<and> length b = 1536)"
  "fit_field ''ct1'' (raw_value v) \<longleftrightarrow> (\<exists>b. v = Some b \<and> length b = 1408)"
  "fit_field ''encaps'' (raw_value v) \<longleftrightarrow> (\<exists>b. v = Some b \<and> length b = 2592)"
  by (cases v; auto simp: raw_value_def field_names)+

lemma fit_enc:
  "fit_field ''hdr_enc'' (enc_value v) \<longleftrightarrow> (\<exists>e. v = Some e \<and> enc_fits 96 e)"
  "fit_field ''ek_enc'' (enc_value v) \<longleftrightarrow> (\<exists>e. v = Some e \<and> enc_fits 1536 e)"
  "fit_field ''ct1_enc'' (enc_value v) \<longleftrightarrow> (\<exists>e. v = Some e \<and> enc_fits 1408 e)"
  "fit_field ''ct2_enc'' (enc_value v) \<longleftrightarrow> (\<exists>e. v = Some e \<and> enc_fits 192 e)"
  by (cases v; auto simp: enc_value_def enc_fits_def field_names)+

lemma fit_dec:
  "fit_field ''hdr_dec'' (coder_value v) \<longleftrightarrow> (\<exists>d. v = Some d \<and> dec_fits 96 d)"
  "fit_field ''ek_dec'' (coder_value v) \<longleftrightarrow> (\<exists>d. v = Some d \<and> dec_fits 1536 d)"
  "fit_field ''ct1_dec'' (coder_value v) \<longleftrightarrow> (\<exists>d. v = Some d \<and> dec_fits 1408 d)"
  "fit_field ''ct2_dec'' (coder_value v) \<longleftrightarrow> (\<exists>d. v = Some d \<and> dec_fits 192 d)"
  by (cases v; auto simp: coder_value_def dec_fits_def field_names)+

lemma as_values [simp]:
  "as_raw (raw_value v) = v" "as_enc (enc_value w) = w" "as_dec (coder_value u) = u"
  by (simp_all add: as_raw_def raw_value_def as_enc_def enc_value_def as_dec_def coder_value_def split: option.splits)

lemmas holds_defs = holds_exactly_def get_field_def set_field_def fit_raw fit_enc fit_dec nothing_def

lemma holds_none: "holds_exactly [] h \<longleftrightarrow> h = nothing"
  by (simp add: holds_exactly_def)

lemma holds_keys_sampled:
  "holds_exactly [''key_pair'', ''hdr_enc''] h \<longleftrightarrow>
     (\<exists>kp e. h = nothing\<lparr> h_key_pair := Some kp, h_hdr_enc := Some e \<rparr> \<and> length kp = 11872 \<and> enc_fits 96 e)"
  by (cases h) (auto simp: holds_defs)

lemma holds_header_sent:
  "holds_exactly [''key_pair'', ''ct1_dec'', ''ek_enc''] h \<longleftrightarrow>
     (\<exists>kp d e. h = nothing\<lparr> h_key_pair := Some kp, h_ct1_dec := Some d, h_ek_enc := Some e \<rparr>
        \<and> length kp = 11872 \<and> dec_fits 1408 d \<and> enc_fits 1536 e)"
  by (cases h) (auto simp: holds_defs)

lemma holds_ct1_received:
  "holds_exactly [''key_pair'', ''ct1'', ''ek_enc''] h \<longleftrightarrow>
     (\<exists>kp c e. h = nothing\<lparr> h_key_pair := Some kp, h_ct1 := Some c, h_ek_enc := Some e \<rparr>
        \<and> length kp = 11872 \<and> length c = 1408 \<and> enc_fits 1536 e)"
  by (cases h) (auto simp: holds_defs)

lemma holds_ek_sent:
  "holds_exactly [''key_pair'', ''ct1'', ''ct2_dec''] h \<longleftrightarrow>
     (\<exists>kp c d. h = nothing\<lparr> h_key_pair := Some kp, h_ct1 := Some c, h_ct2_dec := Some d \<rparr>
        \<and> length kp = 11872 \<and> length c = 1408 \<and> dec_fits 192 d)"
  by (cases h) (auto simp: holds_defs)

lemma holds_no_header:
  "holds_exactly [''hdr_dec''] h \<longleftrightarrow> (\<exists>d. h = nothing\<lparr> h_hdr_dec := Some d \<rparr> \<and> dec_fits 96 d)"
  by (cases h) (auto simp: holds_defs)

lemma holds_header_received:
  "holds_exactly [''header'', ''ek_dec''] h \<longleftrightarrow>
     (\<exists>hd d. h = nothing\<lparr> h_header := Some hd, h_ek_dec := Some d \<rparr> \<and> length hd = 64 \<and> dec_fits 1536 d)"
  by (cases h) (auto simp: holds_defs)

lemma holds_ct1_sampled:
  "holds_exactly [''header'', ''encaps'', ''ct1'', ''ct1_enc'', ''ek_dec''] h \<longleftrightarrow>
     (\<exists>hd st c e d. h = nothing\<lparr> h_header := Some hd, h_encaps := Some st, h_ct1 := Some c, h_ct1_enc := Some e,
                               h_ek_dec := Some d \<rparr>
        \<and> length hd = 64 \<and> length st = 2592 \<and> length c = 1408 \<and> enc_fits 1408 e \<and> dec_fits 1536 d)"
  by (cases h) (auto simp: holds_defs)

lemma holds_ek_received:
  "holds_exactly [''encaps'', ''ct1'', ''ek_vector'', ''ct1_enc''] h \<longleftrightarrow>
     (\<exists>st c v e. h = nothing\<lparr> h_encaps := Some st, h_ct1 := Some c, h_ek_vector := Some v, h_ct1_enc := Some e \<rparr>
        \<and> length st = 2592 \<and> length c = 1408 \<and> length v = 1536 \<and> enc_fits 1408 e)"
  by (cases h) (auto simp: holds_defs)

lemma holds_ct1_acknowledged:
  "holds_exactly [''header'', ''encaps'', ''ct1'', ''ek_dec''] h \<longleftrightarrow>
     (\<exists>hd st c d. h = nothing\<lparr> h_header := Some hd, h_encaps := Some st, h_ct1 := Some c, h_ek_dec := Some d \<rparr>
        \<and> length hd = 64 \<and> length st = 2592 \<and> length c = 1408 \<and> dec_fits 1536 d)"
  by (cases h) (auto simp: holds_defs)

lemma holds_ct2_sampled:
  "holds_exactly [''ct2_enc''] h \<longleftrightarrow> (\<exists>e. h = nothing\<lparr> h_ct2_enc := Some e \<rparr> \<and> enc_fits 192 e)"
  by (cases h) (auto simp: holds_defs)

lemmas holds_iff = holds_none holds_keys_sampled holds_header_sent holds_ct1_received holds_ek_sent
  holds_no_header holds_header_received holds_ct1_sampled holds_ek_received holds_ct1_acknowledged holds_ct2_sampled

section \<open>The erasure code's operations on fitting encoders and decoders\<close>

text \<open>A complete decoder returns a value of its size whatever codewords it was fed.\<close>

lemma dec_value_total:
  assumes ok: "decoder_ok d" and full: "dec_complete d" and k: "dec_needed d \<le> 65536" "0 < dec_needed d"
  shows "\<exists>v. dec_value d = Inr (Some v) \<and> length v = nat (dec_size d)"
proof -
  let ?hs = "map fst (dec_held d)" and ?cs = "map snd (dec_held d)"
  have hs: "distinct ?hs" "indices_ok ?hs" "list_all (\<lambda>c. length c = 32) ?cs"
    using ok by (auto simp: decoder_ok_def indices_ok_def list_all_iff)
  have len: "int (length (dec_held d)) = dec_needed d"
    using ok full by (simp add: decoder_ok_def dec_complete_def)
  have rep: "map Rep_gf (map gf_of_int ?hs) = ?hs"
    using hs(2) by (auto simp: indices_ok_def list_all_iff Rep_gf_of_int in_gf_index intro!: map_idI)
  have dist: "distinct (map gf_of_int ?hs)" using hs(1) rep by (metis distinct_map)
  have snd: "mapR (\<lambda>(_, c). chunk_elements c) xs = mapR chunk_elements (map snd xs)" for xs :: "(int \<times> bytes) list"
    by (induction xs) (simp_all add: split_beta)
  let ?f = "\<lambda>t. case dict_get (dict_of (dec_held d)) (int t) of
      Some c \<Rightarrow> Inr c
    | None \<Rightarrow> bindR (mapR (\<lambda>(_, c). chunk_elements c) (dec_held d)) (\<lambda>els.
        bindR (inv_denominators ?hs) (\<lambda>inv_den. bindR (basis_at ?hs inv_den (int t)) (combine_els els)))"
  have chunk: "\<exists>c. ?f t = Inr c \<and> length c = 32" if "t < nat (dec_needed d)" for t
  proof (cases "dict_get (dict_of (dec_held d)) (int t)")
    case (Some c)
    then have "(int t, c) \<in> set (dec_held d)"
      using dict_get_Some_in hs(1) by (fastforce simp: dict_of_distinct)
    then show ?thesis using Some hs(3) by (force simp: list_all_iff)
  next
    case None
    have t: "Rep_gf (gf_of_int (int t)) = int t" using that k by (simp add: Rep_gf_of_int in_gf_def)
    from interpolate_row [OF dist _ hs(3), of "gf_of_int (int t)"] show ?thesis
      unfolding rep t using None by (simp add: snd)
  qed
  then obtain cs where cs: "mapR ?f [0..<nat (dec_needed d)] = Inr cs" "length cs = nat (dec_needed d)"
      "\<forall>c \<in> set cs. length c = 32"
  proof -
    have "\<exists>cs. mapR ?f ts = Inr cs \<and> length cs = length ts \<and> (\<forall>c \<in> set cs. length c = 32)"
      if "\<forall>t \<in> set ts. t < nat (dec_needed d)" for ts
      using that
    proof (induction ts)
      case (Cons t ts)
      then obtain c cs where "?f t = Inr c" "length c = 32" "mapR ?f ts = Inr cs" "length cs = length ts"
        "\<forall>c \<in> set cs. length c = 32"
        using chunk [of t] by auto
      then show ?case by simp
    qed simp
    from this [of "[0..<nat (dec_needed d)]"] show ?thesis using that by auto
  qed
  have "length (concat cs) = nat (dec_needed d) * 32"
    using length_concat_map [of cs id 32] cs by simp
  moreover have "nat (dec_size d) \<le> nat (dec_needed d) * 32"
    using ok chunk_count_bounds(2) [of "dec_size d"] k(2) by (simp add: decoder_ok_def)
  ultimately show ?thesis
    using cs k full by (intro exI [of _ "take (nat (dec_size d)) (concat cs)"]) (simp add: dec_value_def)
qed

definition codeword_ok :: "int \<Rightarrow> bytes \<Rightarrow> bool" where
  "codeword_ok i c \<longleftrightarrow> 0 \<le> i \<and> i \<le> U16_MAX \<and> length c = 32"

lemma encoder_fits:
  assumes "length v \<le> 2000"
  shows "\<exists>e. encoder_for_value v = Inr e \<and> enc_fits (int (length v)) e"
proof -
  obtain e where e: "encoder_for_value v = Inr e" "encoder_ok e" "\<not> enc_exhausted e" "enc_next e = 0"
    using encoder_for_value_ok [of v] by blast
  have k: "0 \<le> chunk_count (int (length v))" "chunk_count (int (length v)) \<le> 63"
    using assms chunk_count_bounds [of "int (length v)"] by simp_all
  have "enc_chunks e = take 65536 (to_chunks v)"
    using e(1) by (auto simp: encoder_for_value_def new_encoder_def const_defs split: if_splits)
  then have "int (length (enc_chunks e)) = chunk_count (int (length v))"
    using to_chunks_props(1) [of v] k by simp
  then show ?thesis using e by (auto simp: enc_fits_def const_defs)
qed

lemma issue_fits:
  assumes "enc_fits n e"
  shows "\<exists>e' cw. issue e = Inr (e', cw) \<and> enc_fits n e' \<and> (case cw of None \<Rightarrow> True | Some (i, c) \<Rightarrow> codeword_ok i c)"
proof -
  have "codeword e (enc_next e) = Inr (word_at (enc_chunks e) (enc_next e))"
    using assms by (simp add: enc_fits_def codeword_eq word_at_def)
  then show ?thesis
    using assms by (auto simp: issue_def enc_fits_def encoder_ok_def codeword_ok_def Let_def)
qed

lemma new_decoder_fits: "0 < n \<Longrightarrow> \<exists>d. new_decoder n [] = Inr d \<and> dec_fits n d"
  using chunk_count_bounds [of n]
  by (auto simp: new_decoder_def dec_fits_def decoder_ok_def dec_complete_def)

text \<open>Feeding one codeword: the decoder still fits, or is complete and returns a value of its size.\<close>

lemma dec_receive_fits:
  assumes fits: "dec_fits n d" and cw: "codeword_ok i c" and n: "0 < n" "n \<le> 2000"
  shows "\<exists>d' b. dec_receive d i c = Inr (d', b) \<and>
    (if dec_complete d' then \<exists>v. dec_value d' = Inr (Some v) \<and> length v = nat n else dec_fits n d')"
proof -
  obtain d' b where d': "dec_receive d i c = Inr (d', b)"
    using cw by (cases "dec_receive d i c") (auto simp: dec_receive_def codeword_ok_def split: if_splits)
  have ok: "decoder_ok d'" using dec_receive_ok [OF _ d'] fits by (simp add: dec_fits_def)
  have sz: "dec_size d' = n" using d' fits by (auto simp: dec_receive_def dec_fits_def split: if_splits)
  have "dec_needed d' \<le> 65536" "0 < dec_needed d'"
    using ok sz n chunk_count_bounds [of n] by (simp_all add: decoder_ok_def)
  then show ?thesis
    using d' ok sz dec_value_total [OF ok] by (auto simp: dec_fits_def)
qed

section \<open>One step of a well-formed state\<close>

definition auth_fits :: "auth \<Rightarrow> bool" where
  "auth_fits a \<longleftrightarrow> length (au_root_key a) = 32 \<and> length (au_mac_key a) = 32"

lemma braid_ok_live:
  assumes "dict_get HOLDS t = Some (Some names)"
  shows "braid_ok \<lparr> b_tag = t, b_epoch = e, b_auth = au, b_held = h \<rparr> \<longleftrightarrow>
    (\<exists>a. au = Some a \<and> auth_fits a) \<and> 1 \<le> e \<and> e < U64_MAX \<and> holds_exactly names h"
  using holds_states [OF assms] assms by (auto simp: braid_ok_def braid_failed_state_def auth_fits_def)

lemma holds_at:
  "dict_get HOLDS KEYS_UNSAMPLED = Some (Some [])"
  "dict_get HOLDS KEYS_SAMPLED = Some (Some [''key_pair'', ''hdr_enc''])"
  "dict_get HOLDS HEADER_SENT = Some (Some [''key_pair'', ''ct1_dec'', ''ek_enc''])"
  "dict_get HOLDS CT1_RECEIVED = Some (Some [''key_pair'', ''ct1'', ''ek_enc''])"
  "dict_get HOLDS EK_SENT_CT1_RECEIVED = Some (Some [''key_pair'', ''ct1'', ''ct2_dec''])"
  "dict_get HOLDS NO_HEADER_RECEIVED = Some (Some [''hdr_dec''])"
  "dict_get HOLDS HEADER_RECEIVED = Some (Some [''header'', ''ek_dec''])"
  "dict_get HOLDS CT1_SAMPLED = Some (Some [''header'', ''encaps'', ''ct1'', ''ct1_enc'', ''ek_dec''])"
  "dict_get HOLDS EK_RECEIVED_CT1_SAMPLED = Some (Some [''encaps'', ''ct1'', ''ek_vector'', ''ct1_enc''])"
  "dict_get HOLDS CT1_ACKNOWLEDGED = Some (Some [''header'', ''encaps'', ''ct1'', ''ek_dec''])"
  "dict_get HOLDS CT2_SAMPLED = Some (Some [''ct2_enc''])"
  by (simp_all add: HOLDS_def dict_get_def)

lemmas live_iff = holds_at [THEN braid_ok_live, simplified]

lemma braid_ok_failed [simp]: "braid_ok braid_failed_state"
  by (simp add: braid_ok_def)

lemma make_at: "dict_get HOLDS t = Some (Some names) \<Longrightarrow> set given = set names \<Longrightarrow>
    braid_make t e au given h = Inr \<lparr> b_tag = t, b_epoch = e, b_auth = au, b_held = h \<rparr>"
  by (simp add: braid_make_def)

lemmas make_iff = holds_at [THEN make_at, simplified]

lemma epoch_bytes_ok: "0 \<le> e \<Longrightarrow> e \<le> U64_MAX \<Longrightarrow> braid_epoch_bytes e = Inr (be_digits 8 e)"
  by (simp add: braid_epoch_bytes_def)

lemma auth_update_ok:
  assumes "0 \<le> e" "e \<le> U64_MAX"
  shows "\<exists>a'. auth_update a e u = Inr a' \<and> auth_fits a'"
  using assms by (simp add: auth_update_def braid_kdf_auth_def epoch_bytes_ok auth_fits_def)

lemma auth_mac_ok:
  assumes "auth_fits a" "0 \<le> e" "e \<le> U64_MAX"
  shows "\<exists>m. auth_mac_hdr a e d = Inr m \<and> length m = 32" "\<exists>m. auth_mac_ct a e d = Inr m \<and> length m = 32"
  using assms by (simp_all add: auth_mac_hdr_def auth_mac_ct_def auth_mac_def epoch_bytes_ok auth_fits_def)

lemma kdf_ok_total: "0 \<le> e \<Longrightarrow> e \<le> U64_MAX \<Longrightarrow> \<exists>key. braid_kdf_ok k e = Inr key \<and> length key = 32"
  by (simp add: braid_kdf_ok_def epoch_bytes_ok)

definition message_ok :: "braid_message \<Rightarrow> bool" where
  "message_ok m \<longleftrightarrow> (case bm_codeword m of None \<Rightarrow> True | Some (i, c) \<Rightarrow> codeword_ok i c)"

text \<open>A step that returns, to a well-formed state.\<close>

definition steps_ok :: "(braid \<times> (int \<times> bytes) option) res \<Rightarrow> bool" where
  "steps_ok r \<longleftrightarrow> (\<exists>s out. r = Inr (s, out) \<and> braid_ok s)"

definition returns_ok :: "braid res \<Rightarrow> bool" where
  "returns_ok r \<longleftrightarrow> (\<exists>s. r = Inr s \<and> braid_ok s)"

text \<open>A send leaves a well-formed state and a well-formed message, or raises what the KEM's draw raised.\<close>

definition sends_ok :: "braid_send_result res \<Rightarrow> bool" where
  "sends_ok r \<longleftrightarrow> (\<exists>x. r = Inr x \<and> braid_ok (bsr_state x)
     \<and> (case bsr_message x of None \<Rightarrow> b_tag (bsr_state x) = FAILED | Some m \<Rightarrow> message_ok m))"

lemma returns_steps: "returns_ok r \<Longrightarrow> steps_ok (bindR r (\<lambda>s. Inr (s, None)))"
  by (auto simp: returns_ok_def steps_ok_def)

lemma returns_Inr: "returns_ok (Inr s) \<longleftrightarrow> braid_ok s"
  by (simp add: returns_ok_def)

lemma recv_ct2_sampled_ok:
  "braid_ok \<lparr> b_tag = 10, b_epoch = e, b_auth = au, b_held = h \<rparr> \<Longrightarrow>
     returns_ok (recv_ct2_sampled \<lparr> b_tag = 10, b_epoch = e, b_auth = au, b_held = h \<rparr> m)"
  by (auto simp: recv_ct2_sampled_def make_iff returns_ok_def live_iff holds_iff)

text \<open>The first codeword of a value of more than one chunk leaves the decoder incomplete.\<close>

lemma first_codeword:
  assumes "n = 1408 \<or> n = 192" "codeword_ok i c"
  shows "\<exists>d d' b. new_decoder n [] = Inr d \<and> dec_receive d i c = Inr (d', b) \<and> dec_fits n d'"
proof -
  obtain d where d: "new_decoder n [] = Inr d" "dec_fits n d" using new_decoder_fits [of n] assms(1) by auto
  obtain d' b where d': "dec_receive d i c = Inr (d', b)"
    "if dec_complete d' then \<exists>v. dec_value d' = Inr (Some v) \<and> length v = nat n else dec_fits n d'"
    using dec_receive_fits [OF d(2) assms(2)] assms(1) by auto
  have "\<not> dec_complete d'"
    using assms(1) d d'(1)
    by (auto simp: new_decoder_def dec_receive_def dec_complete_def chunk_count_def split: if_splits)
  then show ?thesis using d d' by auto
qed

lemma recv_ct1_received_ok:
  assumes ok: "braid_ok \<lparr> b_tag = 3, b_epoch = e, b_auth = au, b_held = h \<rparr>" and m: "message_ok m"
  shows "returns_ok (recv_ct1_received \<lparr> b_tag = 3, b_epoch = e, b_auth = au, b_held = h \<rparr> m)"
proof (cases "bm_codeword m")
  case None
  then show ?thesis using ok by (simp add: recv_ct1_received_def returns_Inr)
next
  case (Some ic)
  obtain i c where ic: "ic = (i, c)" "codeword_ok i c" using Some m by (cases ic) (auto simp: message_ok_def)
  obtain d d' b where "new_decoder 192 [] = Inr d" "dec_receive d i c = Inr (d', b)" "dec_fits 192 d'"
    using first_codeword [of 192 i c] ic(2) by auto
  then show ?thesis
    using ok
    by (auto simp: recv_ct1_received_def Some ic make_iff returns_ok_def live_iff holds_iff nothing_def)
qed

lemma recv_header_sent_ok:
  assumes ok: "braid_ok \<lparr> b_tag = 2, b_epoch = e, b_auth = au, b_held = h \<rparr>" and m: "message_ok m"
  shows "returns_ok (recv_header_sent \<lparr> b_tag = 2, b_epoch = e, b_auth = au, b_held = h \<rparr> m)"
proof (cases "bm_codeword m")
  case None
  then show ?thesis using ok by (simp add: recv_header_sent_def returns_Inr)
next
  case (Some ic)
  obtain i c where ic: "ic = (i, c)" "codeword_ok i c" using Some m by (cases ic) (auto simp: message_ok_def)
  obtain kp d en where h: "h = nothing\<lparr> h_key_pair := Some kp, h_ct1_dec := Some d, h_ek_enc := Some en \<rparr>"
    "length kp = 11872" "dec_fits 1408 d" "enc_fits 1536 en"
    using ok by (auto simp: live_iff holds_iff)
  obtain d' b where d': "dec_receive d i c = Inr (d', b)"
    "if dec_complete d' then \<exists>v. dec_value d' = Inr (Some v) \<and> length v = nat 1408 else dec_fits 1408 d'"
    using dec_receive_fits [OF h(3) ic(2)] by auto
  show ?thesis
    using ok d' h(2-4)
    by (auto simp: h(1) recv_header_sent_def Some ic make_iff returns_ok_def live_iff holds_iff nothing_def obj_def)
qed

lemma finish_header_ok:
  assumes ok: "braid_ok \<lparr> b_tag = 5, b_epoch = e, b_auth = au, b_held = h \<rparr>" and v: "length v = 96"
  shows "returns_ok (finish_header \<lparr> b_tag = 5, b_epoch = e, b_auth = au, b_held = h \<rparr> v)"
proof -
  obtain a where a: "au = Some a" "auth_fits a" "1 \<le> e" "e < U64_MAX" using ok by (auto simp: live_iff)
  obtain mac where "auth_mac_hdr a e (take 64 v) = Inr mac" using auth_mac_ok(1) [of a e "take 64 v"] a by auto
  moreover obtain d where "new_decoder 1536 [] = Inr d" "dec_fits 1536 d" using new_decoder_fits [of 1536] by auto
  ultimately show ?thesis
    using a v
    by (auto simp: finish_header_def make_iff returns_ok_def live_iff holds_iff nothing_def obj_def)
qed

lemma recv_no_header_ok:
  assumes ok: "braid_ok \<lparr> b_tag = 5, b_epoch = e, b_auth = au, b_held = h \<rparr>" and m: "message_ok m"
  shows "returns_ok (recv_no_header \<lparr> b_tag = 5, b_epoch = e, b_auth = au, b_held = h \<rparr> m)"
proof (cases "bm_codeword m")
  case None
  then show ?thesis using ok by (simp add: recv_no_header_def returns_Inr)
next
  case (Some ic)
  obtain i c where ic: "ic = (i, c)" "codeword_ok i c" using Some m by (cases ic) (auto simp: message_ok_def)
  obtain d where h: "h = nothing\<lparr> h_hdr_dec := Some d \<rparr>" "dec_fits 96 d"
    using ok by (auto simp: live_iff holds_iff)
  obtain d' b where d': "dec_receive d i c = Inr (d', b)"
    "if dec_complete d' then \<exists>v. dec_value d' = Inr (Some v) \<and> length v = nat 96 else dec_fits 96 d'"
    using dec_receive_fits [OF h(2) ic(2)] by auto
  show ?thesis
  proof (cases "dec_complete d'")
    case True
    then obtain v where "dec_value d' = Inr (Some v)" "length v = 96" using d'(2) by auto
    then show ?thesis
      using ok d' h True finish_header_ok [OF ok, of v]
      by (auto simp: recv_no_header_def Some ic obj_def val_def returns_Inr)
  next
    case False
    then show ?thesis
      using ok d' h(2)
      by (auto simp: h(1) recv_no_header_def Some ic returns_ok_def live_iff holds_iff nothing_def obj_def)
  qed
qed

lemma validate_total:
  assumes "length v = 1536"
  shows "\<exists>ok. validate_ek_vector header v = Inr ok"
proof -
  have "\<exists>ok. modulus_ok b = Inr ok" if "3 dvd length b" for b
    using that
  proof (induction b rule: modulus_ok.induct)
    case (2 b0 b1 b2 r)
    then have "3 dvd length r" by (simp add: dvd_def) presburger
    with 2 show ?case by auto
  qed (auto dest: dvd_imp_le)
  from this [of v] show ?thesis using assms by (auto simp: validate_ek_vector_def Let_def)
qed

context kem_shapes begin

lemma complete_encapsulation_ok:
  assumes a: "au = Some a" "auth_fits a" "1 \<le> e" "e < U64_MAX"
    and st: "h_encaps h = Some st" "length st = 2592" and ct1: "h_ct1 h = Some ct1" and v: "length v = 1536"
  shows "returns_ok (complete_encapsulation kem \<lparr> b_tag = t, b_epoch = e, b_auth = au, b_held = h \<rparr> v)"
  using encaps2_shape [OF st(2) v]
proof
  assume "kem_encaps2 kem st v = Inl (CryptoE KemFailure)"
  then show ?thesis by (simp add: complete_encapsulation_def st val_def kem_try_def returns_Inr)
next
  assume "\<exists>ct2. kem_encaps2 kem st v = Inr ct2 \<and> length ct2 = 160"
  then obtain ct2 where ct2: "kem_encaps2 kem st v = Inr ct2" "length ct2 = 160" by blast
  obtain mac where mac: "auth_mac_ct a e (ct1 @ ct2) = Inr mac" "length mac = 32"
    using auth_mac_ok(2) [of a e "ct1 @ ct2"] a by auto
  obtain en where "encoder_for_value (ct2 @ mac) = Inr en" "enc_fits 192 en"
    using encoder_fits [of "ct2 @ mac"] ct2 mac by auto
  then show ?thesis
    using a ct2 mac
    by (auto simp: complete_encapsulation_def st ct1 val_def obj_def kem_try_def make_iff returns_ok_def live_iff
        holds_iff nothing_def)
qed

lemma recv_keys_sampled_ok:
  assumes ok: "braid_ok \<lparr> b_tag = 1, b_epoch = e, b_auth = au, b_held = h \<rparr>" and m: "message_ok m"
  shows "returns_ok (recv_keys_sampled kem \<lparr> b_tag = 1, b_epoch = e, b_auth = au, b_held = h \<rparr> m)"
proof (cases "bm_codeword m")
  case None
  then show ?thesis using ok by (simp add: recv_keys_sampled_def returns_Inr)
next
  case (Some ic)
  obtain i c where ic: "ic = (i, c)" "codeword_ok i c" using Some m by (cases ic) (auto simp: message_ok_def)
  obtain kp en where h: "h = nothing\<lparr> h_key_pair := Some kp, h_hdr_enc := Some en \<rparr>" "length kp = 11872"
    using ok by (auto simp: live_iff holds_iff)
  obtain d d' b where "new_decoder 1408 [] = Inr d" "dec_receive d i c = Inr (d', b)" "dec_fits 1408 d'"
    using first_codeword [of 1408 i c] ic(2) by auto
  moreover obtain en' where "encoder_for_value (kem_ek_vector kem kp) = Inr en'" "enc_fits 1536 en'"
    using encoder_fits [of "kem_ek_vector kem kp"] ek_shape [OF h(2)] by auto
  ultimately show ?thesis
    using ok h(2)
    by (auto simp: h(1) recv_keys_sampled_def Some ic make_iff returns_ok_def live_iff holds_iff nothing_def val_def)
qed

lemma recv_ct1_sampled_ok:
  assumes ok: "braid_ok \<lparr> b_tag = 7, b_epoch = e, b_auth = au, b_held = h \<rparr>" and m: "message_ok m"
  shows "returns_ok (recv_ct1_sampled kem \<lparr> b_tag = 7, b_epoch = e, b_auth = au, b_held = h \<rparr> m)"
proof (cases "bm_codeword m")
  case None
  then show ?thesis using ok by (simp add: recv_ct1_sampled_def returns_Inr)
next
  case (Some ic)
  obtain i c where ic: "ic = (i, c)" "codeword_ok i c" using Some m by (cases ic) (auto simp: message_ok_def)
  obtain a where a: "au = Some a" "auth_fits a" "1 \<le> e" "e < U64_MAX" using ok by (auto simp: live_iff)
  obtain hd st ct en d where h: "h = nothing\<lparr> h_header := Some hd, h_encaps := Some st, h_ct1 := Some ct,
      h_ct1_enc := Some en, h_ek_dec := Some d \<rparr>" "length hd = 64" "length st = 2592" "length ct = 1408"
    "enc_fits 1408 en" "dec_fits 1536 d"
    using ok by (auto simp: live_iff holds_iff)
  obtain d' b where d': "dec_receive d i c = Inr (d', b)"
    "if dec_complete d' then \<exists>v. dec_value d' = Inr (Some v) \<and> length v = nat 1536 else dec_fits 1536 d'"
    using dec_receive_fits [OF h(6) ic(2)] by auto
  show ?thesis
  proof (cases "dec_complete d'")
    case True
    then obtain v where v: "dec_value d' = Inr (Some v)" "length v = 1536" using d'(2) by auto
    obtain okv where val: "validate_ek_vector hd v = Inr okv" using validate_total [OF v(2)] by blast
    have "returns_ok (complete_encapsulation kem \<lparr> b_tag = 7, b_epoch = e, b_auth = au,
        b_held = h\<lparr> h_ek_dec := Some d' \<rparr> \<rparr> v)"
      using a h(3) by (intro complete_encapsulation_ok [OF a _ h(3) _ v(2)]) (simp_all add: h(1))
    then show ?thesis
      using a d' True v val h(2-5) ok
      by (auto simp: h(1) recv_ct1_sampled_def Some ic obj_def val_def make_iff returns_ok_def live_iff holds_iff
          nothing_def Let_def)
  next
    case False
    then show ?thesis
      using ok d' h(2-5)
      by (auto simp: h(1) recv_ct1_sampled_def Some ic make_iff returns_ok_def live_iff holds_iff nothing_def obj_def
          Let_def)
  qed
qed

lemma recv_ct1_acknowledged_ok:
  assumes ok: "braid_ok \<lparr> b_tag = 9, b_epoch = e, b_auth = au, b_held = h \<rparr>" and m: "message_ok m"
  shows "returns_ok (recv_ct1_acknowledged kem \<lparr> b_tag = 9, b_epoch = e, b_auth = au, b_held = h \<rparr> m)"
proof (cases "bm_codeword m")
  case None
  then show ?thesis using ok by (simp add: recv_ct1_acknowledged_def returns_Inr)
next
  case (Some ic)
  obtain i c where ic: "ic = (i, c)" "codeword_ok i c" using Some m by (cases ic) (auto simp: message_ok_def)
  obtain a where a: "au = Some a" "auth_fits a" "1 \<le> e" "e < U64_MAX" using ok by (auto simp: live_iff)
  obtain hd st ct d where h: "h = nothing\<lparr> h_header := Some hd, h_encaps := Some st, h_ct1 := Some ct,
      h_ek_dec := Some d \<rparr>" "length hd = 64" "length st = 2592" "length ct = 1408" "dec_fits 1536 d"
    using ok by (auto simp: live_iff holds_iff)
  obtain d' b where d': "dec_receive d i c = Inr (d', b)"
    "if dec_complete d' then \<exists>v. dec_value d' = Inr (Some v) \<and> length v = nat 1536 else dec_fits 1536 d'"
    using dec_receive_fits [OF h(5) ic(2)] by auto
  show ?thesis
  proof (cases "dec_complete d'")
    case True
    then obtain v where v: "dec_value d' = Inr (Some v)" "length v = 1536" using d'(2) by auto
    obtain okv where val: "validate_ek_vector hd v = Inr okv" using validate_total [OF v(2)] by blast
    have "returns_ok (complete_encapsulation kem \<lparr> b_tag = 9, b_epoch = e, b_auth = au,
        b_held = h\<lparr> h_ek_dec := Some d' \<rparr> \<rparr> v)"
      using a h(3) by (intro complete_encapsulation_ok [OF a _ h(3) _ v(2)]) (simp_all add: h(1))
    then show ?thesis
      using d' True v val ok by (auto simp: h(1) recv_ct1_acknowledged_def Some ic obj_def val_def returns_Inr Let_def)
  next
    case False
    then show ?thesis
      using ok d' h(2-5)
      by (auto simp: h(1) recv_ct1_acknowledged_def Some ic returns_ok_def live_iff holds_iff nothing_def obj_def
          Let_def)
  qed
qed

lemma recv_ek_received_ok:
  assumes ok: "braid_ok \<lparr> b_tag = 8, b_epoch = e, b_auth = au, b_held = h \<rparr>"
  shows "returns_ok (recv_ek_received kem \<lparr> b_tag = 8, b_epoch = e, b_auth = au, b_held = h \<rparr> m)"
proof -
  obtain a where a: "au = Some a" "auth_fits a" "1 \<le> e" "e < U64_MAX" using ok by (auto simp: live_iff)
  obtain st ct v en where h: "h = nothing\<lparr> h_encaps := Some st, h_ct1 := Some ct, h_ek_vector := Some v,
      h_ct1_enc := Some en \<rparr>" "length st = 2592" "length v = 1536"
    using ok by (auto simp: live_iff holds_iff)
  have "returns_ok (complete_encapsulation kem \<lparr> b_tag = 8, b_epoch = e, b_auth = au, b_held = h \<rparr> v)"
    by (intro complete_encapsulation_ok [OF a _ h(2) _ h(3)]) (simp_all add: h(1))
  then show ?thesis using ok by (simp add: h(1) recv_ek_received_def val_def returns_Inr)
qed

lemma finish_ct2_ok:
  assumes ok: "braid_ok \<lparr> b_tag = 4, b_epoch = e, b_auth = au, b_held = h \<rparr>" and v: "length v = 192"
  shows "steps_ok (finish_ct2 kem \<lparr> b_tag = 4, b_epoch = e, b_auth = au, b_held = h \<rparr> v)"
proof (cases "e = U64_MAX - 1")
  case True
  then show ?thesis by (simp add: finish_ct2_def steps_ok_def)
next
  case False
  obtain a where a: "au = Some a" "auth_fits a" "1 \<le> e" "e < U64_MAX" using ok by (auto simp: live_iff)
  obtain kp ct d where h: "h = nothing\<lparr> h_key_pair := Some kp, h_ct1 := Some ct, h_ct2_dec := Some d \<rparr>"
    "length kp = 11872" "length ct = 1408"
    using ok by (auto simp: live_iff holds_iff)
  have ct2: "length (take 160 v) = 160" using v by simp
  show ?thesis
    using decaps_shape [OF h(2,3) ct2]
  proof
    assume "kem_decaps kem kp ct (take 160 v) = Inl (CryptoE KemFailure)"
    then show ?thesis
      using v False by (simp add: finish_ct2_def h(1) val_def nothing_def kem_try_def steps_ok_def Let_def)
  next
    assume "\<exists>key. kem_decaps kem kp ct (take 160 v) = Inr key \<and> length key = 32"
    then obtain k where k: "kem_decaps kem kp ct (take 160 v) = Inr k" by blast
    obtain key where key: "braid_kdf_ok k e = Inr key" using kdf_ok_total [of e k] a by auto
    obtain a' where a': "auth_update a e key = Inr a'" "auth_fits a'" using auth_update_ok [of e a key] a by auto
    obtain mac where mac: "auth_mac_ct a' e (ct @ take 160 v) = Inr mac"
      using auth_mac_ok(2) [OF a'(2), of e "ct @ take 160 v"] a by auto
    obtain d0 where "new_decoder 96 [] = Inr d0" "dec_fits 96 d0" using new_decoder_fits [of 96] by auto
    then show ?thesis
      using v False a a' k key mac
      by (auto simp: finish_ct2_def h(1) val_def obj_def nothing_def kem_try_def steps_ok_def Let_def make_iff
          live_iff holds_iff)
  qed
qed

lemma recv_ek_sent_ok:
  assumes ok: "braid_ok \<lparr> b_tag = 4, b_epoch = e, b_auth = au, b_held = h \<rparr>" and m: "message_ok m"
  shows "steps_ok (recv_ek_sent kem \<lparr> b_tag = 4, b_epoch = e, b_auth = au, b_held = h \<rparr> m)"
proof (cases "bm_codeword m")
  case None
  then show ?thesis using ok by (simp add: recv_ek_sent_def steps_ok_def)
next
  case (Some ic)
  obtain i c where ic: "ic = (i, c)" "codeword_ok i c" using Some m by (cases ic) (auto simp: message_ok_def)
  obtain kp ct d where h: "h = nothing\<lparr> h_key_pair := Some kp, h_ct1 := Some ct, h_ct2_dec := Some d \<rparr>"
    "length kp = 11872" "length ct = 1408" "dec_fits 192 d"
    using ok by (auto simp: live_iff holds_iff)
  obtain d' b where d': "dec_receive d i c = Inr (d', b)"
    "if dec_complete d' then \<exists>v. dec_value d' = Inr (Some v) \<and> length v = nat 192 else dec_fits 192 d'"
    using dec_receive_fits [OF h(4) ic(2)] by auto
  show ?thesis
  proof (cases "dec_complete d'")
    case True
    then obtain v where "dec_value d' = Inr (Some v)" "length v = 192" using d'(2) by auto
    then show ?thesis
      using ok d' h True finish_ct2_ok [OF ok, of v]
      by (auto simp: recv_ek_sent_def Some ic obj_def val_def steps_ok_def)
  next
    case False
    then show ?thesis
      using ok d' h(2-4)
      by (auto simp: h(1) recv_ek_sent_def Some ic steps_ok_def live_iff holds_iff nothing_def obj_def)
  qed
qed

lemma recv_step_ok:
  assumes ok: "braid_ok s" and m: "message_ok m"
  shows "steps_ok (recv_step kem s m)"
proof -
  obtain t e au h where s: "s = \<lparr> b_tag = t, b_epoch = e, b_auth = au, b_held = h \<rparr>" by (cases s)
  have quiet: "steps_ok (Inr (s, None))" using ok by (simp add: steps_ok_def)
  show ?thesis
    using ok m quiet unfolding s
    by (simp add: recv_step_def Let_def)
      (intro conjI impI; (assumption | simp add: returns_steps recv_ct2_sampled_ok recv_keys_sampled_ok
        recv_header_sent_ok recv_ct1_received_ok recv_ek_sent_ok recv_no_header_ok recv_ct1_sampled_ok
        recv_ct1_acknowledged_ok recv_ek_received_ok))
qed

text \<open>A receive of a well-formed message returns, and leaves a well-formed state.\<close>

lemma receive_ok:
  assumes "braid_ok s" "message_ok m"
  shows "\<exists>r. braid_receive kem s m = Inr r \<and> braid_ok (brr_state r)"
  using recv_step_ok [OF assms] assms(1) by (auto simp: braid_receive_def steps_ok_def)

lemma send_header_ok:
  assumes ok: "braid_ok \<lparr> b_tag = 0, b_epoch = e, b_auth = au, b_held = h \<rparr>"
    and g: "kem_generate kem k = (Inr (kp, header, ek), k')"
  shows "sends_ok (send_header \<lparr> b_tag = 0, b_epoch = e, b_auth = au, b_held = h \<rparr> (kp, header, ek))"
proof -
  obtain a where a: "au = Some a" "auth_fits a" "1 \<le> e" "e < U64_MAX" using ok by (auto simp: live_iff)
  have len: "length kp = 11872" "length header = 64" using generate_shape [OF g] by simp_all
  obtain mac where mac: "auth_mac_hdr a e header = Inr mac" "length mac = 32"
    using auth_mac_ok(1) [of a e header] a by auto
  obtain en where en: "encoder_for_value (header @ mac) = Inr en" "enc_fits 96 en"
    using encoder_fits [of "header @ mac"] len mac by auto
  obtain en' cw where "issue en = Inr (en', cw)" "enc_fits 96 en'"
    "case cw of None \<Rightarrow> True | Some (i, c) \<Rightarrow> codeword_ok i c"
    using issue_fits [OF en(2)] by blast
  then show ?thesis
    using a len mac en
    by (auto simp: send_header_def sends_ok_def obj_def make_iff sent_def live_iff holds_iff nothing_def message_ok_def)
qed

lemma send_ct1_ok:
  assumes ok: "braid_ok \<lparr> b_tag = 6, b_epoch = e, b_auth = au, b_held = h \<rparr>"
    and hdr: "h_header h = Some hdr" and g: "kem_encaps1 kem hdr k = (Inr (st, ct1, key), k')"
  shows "sends_ok (send_ct1 \<lparr> b_tag = 6, b_epoch = e, b_auth = au, b_held = h \<rparr> (st, ct1, key))"
proof -
  obtain a where a: "au = Some a" "auth_fits a" "1 \<le> e" "e < U64_MAX" using ok by (auto simp: live_iff)
  obtain d where h: "h = nothing\<lparr> h_header := Some hdr, h_ek_dec := Some d \<rparr>" "length hdr = 64" "dec_fits 1536 d"
    using ok hdr by (auto simp: live_iff holds_iff)
  have len: "length st = 2592" "length ct1 = 1408" using encaps1_shape [OF h(2) g] by simp_all
  obtain key' where key': "braid_kdf_ok key e = Inr key'" using kdf_ok_total [of e key] a by auto
  obtain a' where a': "auth_update a e key' = Inr a'" "auth_fits a'" using auth_update_ok [of e a key'] a by auto
  obtain en where en: "encoder_for_value ct1 = Inr en" "enc_fits 1408 en"
    using encoder_fits [of ct1] len by auto
  obtain en' cw where "issue en = Inr (en', cw)" "enc_fits 1408 en'"
    "case cw of None \<Rightarrow> True | Some (i, c) \<Rightarrow> codeword_ok i c"
    using issue_fits [OF en(2)] by blast
  then show ?thesis
    using a h len key' a' en
    by (auto simp: send_ct1_def sends_ok_def obj_def make_iff sent_def live_iff holds_iff nothing_def message_ok_def)
qed

lemma send_codeword_ok:
  assumes ok: "braid_ok s"
  shows "sends_ok (send_codeword s)"
proof -
  obtain t e au h where s: "s = \<lparr> b_tag = t, b_epoch = e, b_auth = au, b_held = h \<rparr>" by (cases s)
  show ?thesis
  proof (cases "sends_from t")
    case None
    then show ?thesis using ok by (simp add: s send_codeword_def sends_ok_def sent_def message_ok_def)
  next
    case (Some x)
    have "\<exists>n en. fst x h = Some en \<and> enc_fits n en
        \<and> (\<forall>en'. enc_fits n en' \<longrightarrow> braid_ok (s\<lparr> b_held := fst (snd x) en' h \<rparr>))"
      using ok Some unfolding s
      by (auto simp: sends_from_def live_iff holds_iff nothing_def split: if_splits)
    then obtain n en where en: "fst x h = Some en" "enc_fits n en"
      and keep: "\<And>en'. enc_fits n en' \<Longrightarrow> braid_ok (s\<lparr> b_held := fst (snd x) en' h \<rparr>)"
      by blast
    obtain en' cw where i: "issue en = Inr (en', cw)" "enc_fits n en'"
      "case cw of None \<Rightarrow> True | Some (i, c) \<Rightarrow> codeword_ok i c"
      using issue_fits [OF en(2)] by blast
    obtain get put ty where x: "x = (get, put, ty)" by (cases x)
    show ?thesis
      using keep [OF i(2)] i en(1) Some
      by (auto simp: x s send_codeword_def sends_ok_def sent_def message_ok_def obj_def Let_def)
  qed
qed

text \<open>What a send raises is what the KEM's draw raised, and its own failure is not among it.\<close>

lemma send_ok:
  assumes "braid_ok s"
  shows "sends_ok (fst (braid_send kem s k))
     \<or> (\<exists>err. fst (braid_send kem s k) = Inl err \<and> err \<noteq> CryptoE KemFailure
          \<and> (fst (kem_generate kem k) = Inl err \<or> (\<exists>hdr. fst (kem_encaps1 kem hdr k) = Inl err)))"
proof -
  obtain t e au h where s: "s = \<lparr> b_tag = t, b_epoch = e, b_auth = au, b_held = h \<rparr>" by (cases s)
  have dead: "sends_ok (Inr (send_failed braid_failed_state))"
    by (simp add: sends_ok_def send_failed_def braid_failed_state_def [symmetric])
      (simp add: braid_failed_state_def)
  consider (failed) "t = FAILED" | (gen) "t = 0" | (enc) "t = 6" | (other) "t \<noteq> FAILED" "t \<noteq> 0" "t \<noteq> 6" by blast
  then show ?thesis
  proof cases
    case failed
    then show ?thesis using assms by (simp add: s braid_send_def sends_ok_def send_failed_def)
  next
    case gen
    obtain r k' where r: "kem_generate kem k = (r, k')" by fastforce
    show ?thesis
    proof (cases r)
      case (Inl err)
      then show ?thesis using r dead by (simp add: s gen braid_send_def kem_try_def)
    next
      case (Inr x)
      obtain kp hdr ek where "x = (kp, hdr, ek)" by (cases x)
      then show ?thesis
        using r send_header_ok [of e au h k kp hdr ek k'] assms by (simp add: s gen braid_send_def kem_try_def Inr)
    qed
  next
    case enc
    obtain hdr where hdr: "h_header h = Some hdr" using assms by (auto simp: s enc live_iff holds_iff)
    obtain r k' where r: "kem_encaps1 kem hdr k = (r, k')" by fastforce
    show ?thesis
    proof (cases r)
      case (Inl err)
      have "\<exists>hdr. fst (kem_encaps1 kem hdr k) = Inl err" using r Inl by (intro exI [of _ hdr]) simp
      then show ?thesis
        using Inl r hdr dead by (cases "err = CryptoE KemFailure") (simp_all add: s enc braid_send_def kem_try_def val_def)
    next
      case (Inr x)
      obtain st ct1 key where "x = (st, ct1, key)" by (cases x)
      then show ?thesis
        using r hdr send_ct1_ok [of e au h hdr k st ct1 key k'] assms
        by (simp add: s enc braid_send_def kem_try_def val_def Inr)
    qed
  next
    case other
    then show ?thesis using send_codeword_ok [OF assms] by (simp add: s braid_send_def)
  qed
qed

end

section \<open>Reachable states\<close>

lemma braid_init_ok:
  "\<exists>s. braid_init_initiator sk = Inr s \<and> braid_ok s" "\<exists>s. braid_init_responder sk = Inr s \<and> braid_ok s"
proof -
  obtain a where a: "auth_init 1 sk = Inr a" "auth_fits a"
    using auth_update_ok [of 1 "\<lparr> au_root_key = zeros 32, au_mac_key = [] \<rparr>" sk] by (auto simp: auth_init_def const_defs)
  obtain d where "new_decoder 96 [] = Inr d" "dec_fits 96 d" using new_decoder_fits [of 96] by auto
  moreover have "1 < U64_MAX" by (simp add: const_defs)
  ultimately show "\<exists>s. braid_init_initiator sk = Inr s \<and> braid_ok s" "\<exists>s. braid_init_responder sk = Inr s \<and> braid_ok s"
    using a by (auto simp: braid_init_initiator_def braid_init_responder_def make_iff live_iff holds_iff)
qed

text \<open>The message any header describes is one the Braid takes: the codec fixes the codeword's index and length.\<close>

lemma header_message_ok: "encode_composite h = Inr b \<Longrightarrow> message_ok (message_from_header h)"
  by (auto simp: encode_composite_def encode_codeword_def message_ok_def message_from_header_def codeword_ok_def
      const_defs bindR_Inr_iff res_iff split: option.splits if_splits)

lemma decoded_message_ok: "decode_composite b = Inr h \<Longrightarrow> message_ok (message_from_header h)"
  using composite.dec_iff [of b h] header_message_ok by blast

text \<open>A Braid between its start and any later moment: sends that returned and receives of well-formed messages.\<close>

inductive braid_step :: "'k kem_ops \<Rightarrow> braid \<Rightarrow> braid \<Rightarrow> bool" for kem where
  on_send: "braid_send kem s k = (Inr r, k') \<Longrightarrow> braid_step kem s (bsr_state r)"
| on_receive: "message_ok m \<Longrightarrow> braid_receive kem s m = Inr r \<Longrightarrow> braid_step kem s (brr_state r)"

context kem_shapes begin

lemma step_ok: "braid_step kem s s' \<Longrightarrow> braid_ok s \<Longrightarrow> braid_ok s'"
proof (induction rule: braid_step.induct)
  case (on_send s k r k')
  then show ?case using send_ok [of s k] by (auto simp: sends_ok_def)
next
  case (on_receive m s r)
  then show ?case using receive_ok [of s m] by auto
qed

lemma reachable_ok: "(braid_step kem)\<^sup>*\<^sup>* s s' \<Longrightarrow> braid_ok s \<Longrightarrow> braid_ok s'"
  by (induction rule: rtranclp_induct) (auto intro: step_ok)

text \<open>Behind the agreement boundary a receive raises \<open>AgreementFailed\<close> or nothing.\<close>

lemma agreement_receive_ok:
  assumes "braid_ok s" "message_ok (message_from_header h)"
  shows "case ag_receive (braid_agreement kem) s h of Inl err \<Rightarrow> err = CryptoE AgreementFailed
         | Inr r \<Rightarrow> braid_ok (ar_state r)"
  using receive_ok [OF assms] by (auto simp: braid_agreement_def)

end

lemma toy_draw_errors:
  "fst (toy_generate seed fail_on k) = Inl err \<Longrightarrow> err \<noteq> CryptoE KemFailure \<Longrightarrow> err = PyE OverflowError"
  "fst (toy_encaps1 seed fail_on hdr k) = Inl err \<Longrightarrow> err \<noteq> CryptoE KemFailure \<Longrightarrow> err = PyE OverflowError"
proof -
  have rnd: "toy_random seed n d = (Inl err, d') \<Longrightarrow> err = PyE OverflowError" for n d d'
    by (auto simp: toy_random_def Let_def bindR_Inl_iff to_bytes_be_def split: if_splits)
  have enc: "byte_encode12 (toy_coeffs st) \<noteq> Inl err" for st
    using byte_encode12_length [of "toy_coeffs st"] by (auto simp: toy_coeffs_def)
  show "fst (toy_generate seed fail_on k) = Inl err \<Longrightarrow> err \<noteq> CryptoE KemFailure \<Longrightarrow> err = PyE OverflowError"
    using enc by (auto simp: toy_generate_def Let_def dest: rnd split: if_splits prod.splits sum.splits)
  show "fst (toy_encaps1 seed fail_on hdr k) = Inl err \<Longrightarrow> err \<noteq> CryptoE KemFailure \<Longrightarrow> err = PyE OverflowError"
    by (auto simp: toy_encaps1_def Let_def dest: rnd split: if_splits prod.splits sum.splits)
qed

text \<open>With the double as its KEM, all a send can raise is its draw counter leaving eight bytes.\<close>

lemma toy_send_errors:
  assumes "braid_ok s"
  shows "case fst (braid_send (toy_kem seed fail_on) s k) of Inl err \<Rightarrow> err = PyE OverflowError
         | Inr r \<Rightarrow> braid_ok (bsr_state r)"
  using toy.send_ok [OF assms, where seed = seed and fail_on = fail_on and k = k]
    toy_draw_errors [where seed = seed and fail_on = fail_on and k = k]
  by (auto simp: sends_ok_def toy_kem_def split: sum.splits)

end
