(* ===== verification/Persist_Session.thy ===== *)
theory Persist_Session
  imports Persist_Triple Persist_Braid
begin

text \<open>
  The session of \<open>persistence.py\<close>: the triple ratchet, the Braid and what establishment leaves, the rules
  that tie them together, and the scan for identity keys the rules would refuse.
\<close>

section \<open>The stored form\<close>

record pending_initial =
  pi_ephemeral_public :: bytes
  pi_kem_ciphertext :: bytes
  pi_signed_prekey_id :: int
  pi_one_time_prekey_id :: int
  pi_kem_prekey_id :: int

record session_state =
  ss_triple :: triple_state
  ss_braid :: braid_state
  ss_ratchet_private :: bytes
  ss_identity_ad :: bytes
  ss_our_identity_public :: bytes
  ss_peer_identity_public :: bytes
  ss_pending_initial :: "pending_initial option"
  ss_established_ephemeral :: "bytes option"

definition is_initiator :: "session_state \<Rightarrow> bool" where
  "is_initiator s \<longleftrightarrow> ss_established_ephemeral s = None"

text \<open>\<open>_be(len(x), 4) + x\<close>, and a field behind a presence byte.\<close>

definition prefixed :: "bytes \<Rightarrow> bytes res" where
  "prefixed x = bindR (pbe (int (length x)) 4) (\<lambda>n. Inr (n @ x))"

definition optional_field :: "('a \<Rightarrow> bytes res) \<Rightarrow> 'a option \<Rightarrow> bytes res" where
  "optional_field enc v =
     (case v of
        None \<Rightarrow> Inr [word_of_int ABSENT]
      | Some x \<Rightarrow> bindR (enc x) (\<lambda>data. bindR (prefixed data) (\<lambda>p. Inr (word_of_int PRESENT # p))))"

definition pending_bytes :: "pending_initial \<Rightarrow> bytes res" where
  "pending_bytes p =
     bindR (prefixed (pi_kem_ciphertext p)) (\<lambda>ct.
     bindR (pbe (pi_signed_prekey_id p) 4) (\<lambda>spk.
     bindR (pbe (pi_one_time_prekey_id p) 4) (\<lambda>opk.
     bindR (pbe (pi_kem_prekey_id p) 4) (\<lambda>kem.
     Inr (pi_ephemeral_public p @ ct @ spk @ opk @ kem)))))"

definition session_to_bytes :: "session_state \<Rightarrow> bytes res" where
  "session_to_bytes s =
     bindR (triple_to_bytes (ss_triple s)) (\<lambda>tb.
     bindR (braid_to_bytes (ss_braid s)) (\<lambda>bb.
     bindR (prefixed tb) (\<lambda>tp.
     bindR (prefixed bb) (\<lambda>bp.
     bindR (prefixed (ss_identity_ad s)) (\<lambda>ad.
     bindR (optional_field pending_bytes (ss_pending_initial s)) (\<lambda>pend.
     bindR (optional_field Inr (ss_established_ephemeral s)) (\<lambda>est.
     Inr ([SESSION_VERSION] @ tp @ bp @ ss_ratchet_private s @ ad @ ss_our_identity_public s
          @ ss_peer_identity_public s @ pend @ est))))))))"

section \<open>The rules of a session\<close>

text \<open>\<open>session_semantic\<close>: true when it reports no problem.\<close>

definition sparse_epoch_of :: "braid_state \<Rightarrow> int" where
  "sparse_epoch_of b = (if 7 \<le> bs_tag b \<and> bs_tag b \<le> 10 then bs_epoch b else bs_epoch b - 1)"

definition established_ok :: "bytes \<Rightarrow> bool" where
  "established_ok ee \<longleftrightarrow>
     \<not> (int (length ee) \<noteq> ENCODED_EC_LEN \<or> hd ee \<noteq> ENCODE_EC_BYTE) \<and> is_canonical_curve_key (tl ee)"

definition session_semantic :: "key_pair_view option \<Rightarrow> session_state \<Rightarrow> bool res" where
  "session_semantic view s =
     (let t = ss_triple s; b = ss_braid s;
          (initiator, responder) =
            (if is_initiator s then (ss_our_identity_public s, ss_peer_identity_public s)
             else (ss_peer_identity_public s, ss_our_identity_public s))
      in bindR (x25519_public (ss_ratchet_private s)) (\<lambda>pub.
         if pub \<noteq> r_dhs_pub (t_classical t) then Inr False
         else if \<not> braid_failed b \<and> q_epoch (t_sparse t) \<noteq> sparse_epoch_of b then Inr False
         else
           bindR (encode_ec initiator) (\<lambda>ei.
           bindR (encode_ec responder) (\<lambda>er.
           if ss_identity_ad s \<noteq> ei @ er then Inr False
           else if \<not> braid_failed b
                \<and> (is_header_sender b = (bs_epoch b mod 2 = 1)) \<noteq> is_initiator s then Inr False
           else if (q_direction (t_sparse t) = DIRECTION_A2B) \<noteq> is_initiator s then Inr False
           else if ss_pending_initial s \<noteq> None \<and> ss_established_ephemeral s \<noteq> None then Inr False
           else if \<not> opt_all (\<lambda>p. int (length (pi_kem_ciphertext p)) = MLKEM1024_CT_LEN) (ss_pending_initial s)
                then Inr False
           else if \<not> opt_all established_ok (ss_established_ephemeral s) then Inr False
           else if \<not> is_canonical_curve_key (ss_our_identity_public s) \<or> \<not> is_identity_key (ss_our_identity_public s)
                then Inr False
           else if \<not> is_canonical_curve_key (ss_peer_identity_public s) \<or> \<not> is_identity_key (ss_peer_identity_public s)
                then Inr False
           else if \<not> opt_all (\<lambda>p. is_canonical_curve_key (pi_ephemeral_public p)) (ss_pending_initial s)
                then Inr False
           else if \<not> triple_invariant t then bindR (braid_invariant view b) (\<lambda>_. Inr False)
           else braid_invariant view b))))"

section \<open>Reading\<close>

definition read_pending :: "bytes \<Rightarrow> pending_initial res" where
  "read_pending b =
     bindR (pr_take 32 b) (\<lambda>(eph, r).
     bindR (pr_prefixed r) (\<lambda>(ct, r).
     bindR (pr_u 4 r) (\<lambda>(spk, r).
     bindR (pr_u 4 r) (\<lambda>(opk, r).
     bindR (pr_u 4 r) (\<lambda>(kem, r).
     bindR (pr_end r) (\<lambda>_.
     Inr \<lparr> pi_ephemeral_public = eph, pi_kem_ciphertext = ct, pi_signed_prekey_id = spk,
           pi_one_time_prekey_id = opk, pi_kem_prekey_id = kem \<rparr>))))))"

definition read_optional :: "(bytes \<Rightarrow> 'a res) \<Rightarrow> bytes \<Rightarrow> ('a option \<times> bytes) res" where
  "read_optional dec r =
     bindR (pr_presence r) (\<lambda>(present, r).
     if present then bindR (pr_prefixed r) (\<lambda>(data, r). bindR (dec data) (\<lambda>x. Inr (Some x, r)))
     else Inr (None, r))"

text \<open>The parse, up to the constructor call; the check of the encoding and the rules follow it.\<close>

definition read_session :: "key_pair_view option \<Rightarrow> bytes \<Rightarrow> session_state res" where
  "read_session view b =
     bindR (pr_version b {SESSION_VERSION}) (\<lambda>_.
     bindR (pr_take 1 b) (\<lambda>(_, r).
     bindR (as_malformed (bindR (pr_prefixed r) (\<lambda>(tb, r).
            bindR (triple_from_bytes tb) (\<lambda>triple.
            bindR (pr_prefixed r) (\<lambda>(bb, r).
            bindR (braid_from_bytes view bb) (\<lambda>braid. Inr (triple, braid, r))))))) (\<lambda>(triple, braid, r).
     bindR (pr_take 32 r) (\<lambda>(ratchet_private, r).
     bindR (pr_prefixed r) (\<lambda>(identity_ad, r).
     bindR (pr_take 32 r) (\<lambda>(ours, r).
     bindR (pr_take 32 r) (\<lambda>(peer, r).
     bindR (read_optional read_pending r) (\<lambda>(pending, r).
     bindR (read_optional Inr r) (\<lambda>(established, r).
     bindR (pr_end r) (\<lambda>_.
     Inr \<lparr> ss_triple = triple, ss_braid = braid, ss_ratchet_private = ratchet_private,
           ss_identity_ad = identity_ad, ss_our_identity_public = ours, ss_peer_identity_public = peer,
           ss_pending_initial = pending, ss_established_ephemeral = established \<rparr>))))))))))"

definition session_from_bytes :: "key_pair_view option \<Rightarrow> bytes \<Rightarrow> session_state res" where
  "session_from_bytes view b =
     bindR (read_session view b) (\<lambda>s.
     bindR (session_to_bytes s) (\<lambda>again.
     if again \<noteq> b then Inl (PersistE NonCanonical)
     else
       bindR (session_semantic view s) (\<lambda>ok. if ok then Inr s else Inl (PersistE Inconsistent))))"

definition scan_stored_session_identities :: "bytes \<Rightarrow> (string \<times> bytes) list res" where
  "scan_stored_session_identities b =
     bindR (pr_version b {SESSION_VERSION}) (\<lambda>_.
     bindR (pr_take 1 b) (\<lambda>(_, r).
     bindR (pr_prefixed r) (\<lambda>(_, r).
     bindR (pr_prefixed r) (\<lambda>(_, r).
     bindR (pr_take 32 r) (\<lambda>(_, r).
     bindR (pr_prefixed r) (\<lambda>(_, r).
     bindR (pr_take 32 r) (\<lambda>(ours, r).
     bindR (pr_take 32 r) (\<lambda>(peer, r).
     Inr (filter (\<lambda>(_, k). \<not> (is_canonical_curve_key k \<and> is_identity_key k))
            [(''our_identity_public'', ours), (''peer_identity_public'', peer)])))))))))"

section \<open>The reader accepts exactly what the writer produces\<close>

lemma prefixed_iff [res_iff]:
  "prefixed x = Inr b \<longleftrightarrow> int (length x) < 256 ^ 4 \<and> b = be_digits 4 (int (length x)) @ x"
  by (auto simp: prefixed_def res_iff)

lemma flag_bytes: "word_of_int ABSENT = flag False" "word_of_int PRESENT = flag True"
  by (simp_all add: flag_def)

text \<open>A field behind a presence byte is self-delimiting whenever its own format is exact.\<close>

context exact_codec begin

lemma optional_codec: "prefix_codec (optional_field enc) (opt_all good) (read_optional dec)"
proof
  fix b v r
  have runs: "read_optional dec b = Inr (v, r) \<longleftrightarrow>
      (b = flag False # r \<and> v = None)
      \<or> (\<exists>data x. int (length data) < 256 ^ 4 \<and> b = flag True # be_digits 4 (int (length data)) @ data @ r
           \<and> dec data = Inr x \<and> v = Some x)"
    unfolding read_optional_def bindR_Inr_iff split_paired_Ex prod.case pr_presence_iff ex_bool_eq
    by (auto simp: bindR_Inr_iff pr_prefixed_iff)
  show "read_optional dec b = Inr (v, r) \<longleftrightarrow> opt_all good v \<and> (\<exists>e. optional_field enc v = Inr e \<and> b = e @ r)"
  proof (cases v)
    case None
    then show ?thesis unfolding runs by (simp add: optional_field_def flag_def)
  next
    case (Some x)
    then show ?thesis
      unfolding runs dec_iff by (auto simp: optional_field_def flag_def bindR_Inr_iff prefixed_iff)
  qed
qed

end

lemma pending_iff:
  "read_pending b = Inr p \<longleftrightarrow> length (pi_ephemeral_public p) = 32 \<and> pending_bytes p = Inr b"
proof
  assume "read_pending b = Inr p"
  then show "length (pi_ephemeral_public p) = 32 \<and> pending_bytes p = Inr b"
    unfolding read_pending_def by (clarsimp simp: res_iff pending_bytes_def)
next
  assume "length (pi_ephemeral_public p) = 32 \<and> pending_bytes p = Inr b"
  then show "read_pending b = Inr p"
    unfolding pending_bytes_def by (cases p) (clarsimp simp: res_iff read_pending_def pr_eval pr_end_def)
qed

interpretation pending_codec: exact_codec pending_bytes "\<lambda>p. length (pi_ephemeral_public p) = 32" read_pending
  by unfold_locales (rule pending_iff)

interpretation raw_codec: exact_codec Inr "\<lambda>_. True" Inr
  by unfold_locales auto

interpretation pending_field: prefix_codec "optional_field pending_bytes"
    "opt_all (\<lambda>p. length (pi_ephemeral_public p) = 32)" "read_optional read_pending"
  by (rule pending_codec.optional_codec)

interpretation established_field: prefix_codec "optional_field Inr" "opt_all (\<lambda>_. True)" "read_optional Inr"
  by (rule raw_codec.optional_codec)

definition session_readable :: "key_pair_view option \<Rightarrow> session_state \<Rightarrow> bool" where
  "session_readable view s \<longleftrightarrow>
     triple_storable (ss_triple s) \<and> braid_storable view (ss_braid s)
     \<and> length (ss_ratchet_private s) = 32 \<and> length (ss_our_identity_public s) = 32
     \<and> length (ss_peer_identity_public s) = 32
     \<and> opt_all (\<lambda>p. length (pi_ephemeral_public p) = 32) (ss_pending_initial s)"

lemma opt_all_True [simp]: "opt_all (\<lambda>_. True) v"
  by (cases v) simp_all

lemma read_session_iff: "read_session view b = Inr s \<longleftrightarrow> session_readable view s \<and> session_to_bytes s = Inr b"
proof
  assume dec: "read_session view b = Inr s"
  then obtain r where r: "b = SESSION_VERSION # r" by (auto simp: read_session_def res_iff)
  from dec show "session_readable view s \<and> session_to_bytes s = Inr b"
    unfolding read_session_def r pr_version_def pr_take_1
    by (clarsimp simp: res_iff pending_field.decp_iff established_field.decp_iff
        session_readable_def session_to_bytes_def triple_codec.dec_iff braid_codec.dec_iff)
next
  assume enc: "session_readable view s \<and> session_to_bytes s = Inr b"
  then obtain tb bb pe es where
    halves: "triple_from_bytes tb = Inr (ss_triple s)" "braid_from_bytes view bb = Inr (ss_braid s)"
    and len: "int (length tb) < 256 ^ 4" "int (length bb) < 256 ^ 4" "int (length (ss_identity_ad s)) < 256 ^ 4"
    and pe: "optional_field pending_bytes (ss_pending_initial s) = Inr pe"
    and es: "optional_field Inr (ss_established_ephemeral s) = Inr es"
    and b: "b = SESSION_VERSION # be_digits 4 (int (length tb)) @ tb @ be_digits 4 (int (length bb)) @ bb
      @ ss_ratchet_private s @ be_digits 4 (int (length (ss_identity_ad s))) @ ss_identity_ad s
      @ ss_our_identity_public s @ ss_peer_identity_public s @ pe @ es"
    by (auto simp: session_to_bytes_def session_readable_def res_iff triple_codec.dec_iff braid_codec.dec_iff)
  have "read_optional read_pending (pe @ es) = Inr (ss_pending_initial s, es)"
    using enc pe by (simp add: pending_field.decp_iff session_readable_def)
  moreover have "read_optional Inr es = Inr (ss_established_ephemeral s, [])"
    using es by (simp add: established_field.decp_iff)
  ultimately show "read_session view b = Inr s"
    using enc halves len
    by (cases s) (simp add: read_session_def b pr_version_def pr_eval pr_end_def session_readable_def)
qed

interpretation session_parse: exact_codec session_to_bytes "session_readable view" "read_session view" for view
  by unfold_locales (rule read_session_iff)

text \<open>The comparison with the input never refuses: the parse is already exact.\<close>

lemma session_from_bytes_eq:
  "session_from_bytes view b =
     bindR (read_session view b) (\<lambda>s.
     bindR (session_semantic view s) (\<lambda>ok. if ok then Inr s else Inl (PersistE Inconsistent)))"
proof (cases "read_session view b")
  case (Inr s)
  have "session_to_bytes s = Inr b" using Inr by (rule session_parse.enc_dec)
  then show ?thesis by (simp add: session_from_bytes_def Inr)
qed (simp add: session_from_bytes_def)

definition session_storable :: "key_pair_view option \<Rightarrow> session_state \<Rightarrow> bool" where
  "session_storable view s \<longleftrightarrow> session_readable view s \<and> session_semantic view s = Inr True"

interpretation session_codec: exact_codec session_to_bytes "session_storable view" "session_from_bytes view" for view
  by unfold_locales (auto simp: session_from_bytes_eq res_iff session_parse.dec_iff session_storable_def)

end
