(* ===== verification/Persist_Prekeys.thy ===== *)
theory Persist_Prekeys
  imports Persist_Session
begin

text \<open>
  The prekey store of \<open>persistence.py\<close>: its writer, the reader of its five versions with the migration of
  the first four, its semantic rules and the rule on its signatures.
\<close>

section \<open>The store and its writer\<close>

record prekey_store =
  pk_identity_public :: bytes
  pk_signed_prekey_secret :: bytes
  pk_signed_prekey_id :: int
  pk_signed_prekey_sig :: bytes
  pk_one_time :: "(int \<times> bytes) list"
  pk_kem_pair :: bytes
  pk_kem_id :: int
  pk_kem_sig :: bytes
  pk_kem_one_time :: "(int \<times> bytes \<times> bytes) list"
  pk_next_id :: int
  pk_seen :: "(int \<times> bytes) list"
  pk_legacy_blocked :: "int list"
  pk_previous_signed :: "(bytes \<times> int \<times> bytes) option"
  pk_previous_kem :: "(bytes \<times> int \<times> bytes) option"

definition tagged_bytes :: "int \<times> bytes \<Rightarrow> bytes res" where
  "tagged_bytes = (\<lambda>(i, x). bindR (pbe i 4) (\<lambda>n. Inr (n @ x)))"

definition kem_one_time_bytes :: "int \<times> bytes \<times> bytes \<Rightarrow> bytes res" where
  "kem_one_time_bytes = (\<lambda>(i, kp, sig). bindR (pbe i 4) (\<lambda>n. bindR (prefixed kp) (\<lambda>p. Inr (n @ p @ sig))))"

definition previous_signed_bytes :: "(bytes \<times> int \<times> bytes) option \<Rightarrow> bytes res" where
  "previous_signed_bytes prev =
     (case prev of
        None \<Rightarrow> Inr [word_of_int ABSENT]
      | Some (sec, i, sig) \<Rightarrow> bindR (pbe i 4) (\<lambda>n. Inr ([word_of_int PRESENT] @ sec @ n @ sig)))"

definition previous_kem_bytes :: "(bytes \<times> int \<times> bytes) option \<Rightarrow> bytes res" where
  "previous_kem_bytes prev =
     (case prev of
        None \<Rightarrow> Inr [word_of_int ABSENT]
      | Some (kp, i, sig) \<Rightarrow>
          bindR (prefixed kp) (\<lambda>p. bindR (pbe i 4) (\<lambda>n. Inr ([word_of_int PRESENT] @ p @ n @ sig))))"

definition prekey_store_to_bytes :: "prekey_store \<Rightarrow> bytes res" where
  "prekey_store_to_bytes p =
     bindR (pbe (pk_signed_prekey_id p) 4) (\<lambda>spk.
     bindR (pbe (int (length (pk_one_time p))) 4) (\<lambda>on.
     bindR (mapR tagged_bytes (pk_one_time p)) (\<lambda>os.
     bindR (prefixed (pk_kem_pair p)) (\<lambda>kp.
     bindR (pbe (pk_kem_id p) 4) (\<lambda>kid.
     bindR (pbe (int (length (pk_kem_one_time p))) 4) (\<lambda>kn.
     bindR (mapR kem_one_time_bytes (pk_kem_one_time p)) (\<lambda>ks.
     bindR (pbe (pk_next_id p) 4) (\<lambda>next_id.
     bindR (pbe (int (length (pk_seen p))) 4) (\<lambda>sn.
     bindR (mapR tagged_bytes (pk_seen p)) (\<lambda>ss.
     bindR (pbe (int (length (pk_legacy_blocked p))) 4) (\<lambda>ln.
     bindR (mapR (\<lambda>i. pbe i 4) (pk_legacy_blocked p)) (\<lambda>ls.
     bindR (previous_signed_bytes (pk_previous_signed p)) (\<lambda>ps.
     bindR (previous_kem_bytes (pk_previous_kem p)) (\<lambda>pk.
     Inr ([PREKEY_STORE_VERSION] @ pk_identity_public p @ pk_signed_prekey_secret p @ spk @ pk_signed_prekey_sig p
          @ on @ concat os @ kp @ kid @ pk_kem_sig p @ kn @ concat ks @ next_id @ sn @ concat ss
          @ ln @ concat ls @ ps @ pk)))))))))))))))"

section \<open>Its rules\<close>

text \<open>\<open>kem_pair_problem\<close>: true when it reports none.\<close>

definition kem_pair_ok :: "bytes \<Rightarrow> bool res" where
  "kem_pair_ok kp =
     (if int (length kp) \<noteq> KEM_PAIR_LEN then Inr False
      else
        (let dk = take (nat KEM_DK_LEN) kp; ek = drop (nat KEM_DK_LEN) kp
         in bindR (modulus_ok (take 1536 ek)) (\<lambda>ok.
            if \<not> ok then Inr False
            else
              (let ek_in_dk = take (nat KEM_EK_LEN) (drop 1536 dk);
                   h = take 32 (drop (1536 + nat KEM_EK_LEN) dk)
               in Inr (sha3_256 ek_in_dk = h \<and> ek_in_dk = ek)))))"

definition previous_id :: "(bytes \<times> int \<times> bytes) option \<Rightarrow> int list" where
  "previous_id prev = (case prev of None \<Rightarrow> [] | Some (_, i, _) \<Rightarrow> [i])"

definition store_ids :: "prekey_store \<Rightarrow> int list" where
  "store_ids p =
     [pk_signed_prekey_id p, pk_kem_id p] @ map fst (pk_one_time p) @ map fst (pk_kem_one_time p)
     @ previous_id (pk_previous_signed p) @ previous_id (pk_previous_kem p)"

definition live_kem_ids :: "prekey_store \<Rightarrow> int set" where
  "live_kem_ids p = {pk_kem_id p} \<union> set (previous_id (pk_previous_kem p))"

definition entries_of :: "int \<Rightarrow> (int \<times> bytes) list \<Rightarrow> int" where
  "entries_of k seen = int (length (filter (\<lambda>(j, _). j = k) seen))"

definition ascending_ids :: "int list \<Rightarrow> bool" where
  "ascending_ids ids \<longleftrightarrow> list_all (\<lambda>(a, b). \<not> a \<ge> b) (zip ids (drop 1 ids))"

definition prekey_store_semantic :: "prekey_store \<Rightarrow> bool" where
  "prekey_store_semantic p \<longleftrightarrow>
     \<not> list_ex (\<lambda>i. i = ABSENT_ID) (store_ids p)
     \<and> \<not> list_ex (\<lambda>i. i \<ge> pk_next_id p) (store_ids p)
     \<and> card (set (store_ids p)) = length (store_ids p)
     \<and> list_all (\<lambda>(k, _). k \<in> live_kem_ids p) (pk_seen p)
     \<and> \<not> list_ex (\<lambda>(k, _). entries_of k (pk_seen p) > MAX_LAST_RESORT_SEEN) (pk_seen p)
     \<and> card (set (map snd (pk_seen p))) = length (pk_seen p)
     \<and> \<not> list_ex (\<lambda>i. i \<notin> live_kem_ids p) (pk_legacy_blocked p)
     \<and> ascending_ids (pk_legacy_blocked p)
     \<and> is_canonical_curve_key (pk_identity_public p) \<and> is_identity_key (pk_identity_public p)"

text \<open>\<open>prekey_store_signatures\<close>: true when every stored signature verifies.\<close>

definition signature_ok :: "prekey_store \<Rightarrow> bytes \<Rightarrow> bytes \<Rightarrow> bool" where
  "signature_ok p sig message \<longleftrightarrow> xeddsa_verify (pk_identity_public p) message sig \<noteq> None"

definition curve_signature_ok :: "prekey_store \<Rightarrow> bytes \<Rightarrow> bytes \<Rightarrow> bool res" where
  "curve_signature_ok p secret sig =
     bindR (x25519_public secret) (\<lambda>pub. bindR (encode_ec pub) (\<lambda>m. Inr (signature_ok p sig m)))"

definition kem_signature_ok :: "prekey_store \<Rightarrow> bytes \<Rightarrow> bytes \<Rightarrow> bool res" where
  "kem_signature_ok p kp sig =
     bindR (encode_kem (drop (nat KEM_DK_LEN) kp) MLKEM1024_EK_LEN) (\<lambda>m. Inr (signature_ok p sig m))"

fun kem_signatures_ok :: "prekey_store \<Rightarrow> (int \<times> bytes \<times> bytes) list \<Rightarrow> bool res" where
  "kem_signatures_ok p [] = Inr True"
| "kem_signatures_ok p ((i, kp, sig) # rest) =
     bindR (kem_signature_ok p kp sig) (\<lambda>ok. if \<not> ok then Inr False else kem_signatures_ok p rest)"

definition prekey_store_signatures :: "prekey_store \<Rightarrow> bool res" where
  "prekey_store_signatures p =
     bindR (curve_signature_ok p (pk_signed_prekey_secret p) (pk_signed_prekey_sig p)) (\<lambda>ok.
     if \<not> ok then Inr False
     else
       bindR (kem_signature_ok p (pk_kem_pair p) (pk_kem_sig p)) (\<lambda>ok.
       if \<not> ok then Inr False
       else
         bindR (kem_signatures_ok p (pk_kem_one_time p)) (\<lambda>ok.
         if \<not> ok then Inr False
         else
           bindR (case pk_previous_signed p of None \<Rightarrow> Inr True | Some (sec, _, sig) \<Rightarrow> curve_signature_ok p sec sig) (\<lambda>ok.
           if \<not> ok then Inr False
           else (case pk_previous_kem p of None \<Rightarrow> Inr True | Some (kp, _, sig) \<Rightarrow> kem_signature_ok p kp sig)))))"

section \<open>Reading the five versions\<close>

definition read_kem_pair :: "bytes \<Rightarrow> (bytes \<times> bytes) res" where
  "read_kem_pair r =
     bindR (pr_prefixed r) (\<lambda>(kp, r).
     bindR (kem_pair_ok kp) (\<lambda>ok. if \<not> ok then Inl (PersistE Malformed) else Inr (kp, r)))"

definition read_tagged :: "bytes \<Rightarrow> ((int \<times> bytes) \<times> bytes) res" where
  "read_tagged r = bindR (pr_u 4 r) (\<lambda>(i, r). bindR (pr_take 32 r) (\<lambda>(x, r). Inr ((i, x), r)))"

definition read_untagged :: "int \<Rightarrow> bytes \<Rightarrow> ((int \<times> bytes) \<times> bytes) res" where
  "read_untagged kem_id r = bindR (pr_take 32 r) (\<lambda>(x, r). Inr ((kem_id, x), r))"

definition read_kem_one_time :: "bytes \<Rightarrow> ((int \<times> bytes \<times> bytes) \<times> bytes) res" where
  "read_kem_one_time r =
     bindR (pr_u 4 r) (\<lambda>(i, r).
     bindR (read_kem_pair r) (\<lambda>(kp, r).
     bindR (pr_take 64 r) (\<lambda>(sig, r). Inr ((i, kp, sig), r))))"

definition read_seen :: "byte \<Rightarrow> int \<Rightarrow> bytes \<Rightarrow> ((int \<times> bytes) list \<times> bytes) res" where
  "read_seen version kem_id r =
     (if \<not> version \<ge> 2 then Inr ([], r)
      else
        bindR (pr_u 4 r) (\<lambda>(count, r).
        let tagged = version \<in> {4, 5};
            ceiling = (if tagged then 2 * MAX_LAST_RESORT_SEEN else MAX_LAST_RESORT_SEEN);
            entry = (if tagged then 36 else 32)
        in if count > ceiling then Inl (PersistE Malformed)
           else if count * entry > int (length r) then Inl (PersistE Malformed)
           else repeatR (nat count) (if tagged then read_tagged else read_untagged kem_id) r))"

definition read_blocked :: "byte \<Rightarrow> bytes \<Rightarrow> (int list \<times> bytes) res" where
  "read_blocked version r =
     (if version \<noteq> 5 then Inr ([], r)
      else
        bindR (pr_count 4 r) (\<lambda>(blocked, r).
        if blocked > 2 then Inl (PersistE Malformed) else repeatR (nat blocked) (pr_u 4) r))"

definition read_previous_signed :: "byte \<Rightarrow> bytes \<Rightarrow> ((bytes \<times> int \<times> bytes) option \<times> bytes) res" where
  "read_previous_signed version r =
     (if \<not> version \<ge> 3 then Inr (None, r)
      else
        bindR (pr_presence r) (\<lambda>(present, r).
        if \<not> present then Inr (None, r)
        else
          bindR (pr_take 32 r) (\<lambda>(sec, r). bindR (pr_u 4 r) (\<lambda>(i, r). bindR (pr_take 64 r) (\<lambda>(sig, r).
          Inr (Some (sec, i, sig), r))))))"

definition read_previous_kem :: "byte \<Rightarrow> bytes \<Rightarrow> ((bytes \<times> int \<times> bytes) option \<times> bytes) res" where
  "read_previous_kem version r =
     (if \<not> version \<ge> 3 then Inr (None, r)
      else
        bindR (pr_presence r) (\<lambda>(present, r).
        if \<not> present then Inr (None, r)
        else
          bindR (read_kem_pair r) (\<lambda>(kp, r). bindR (pr_u 4 r) (\<lambda>(i, r). bindR (pr_take 64 r) (\<lambda>(sig, r).
          Inr (Some (kp, i, sig), r))))))"

text \<open>What migration writes into \<open>legacy_blocked\<close>: \<open>sorted(set(\<dots>))\<close>.\<close>

definition migrated :: "byte \<Rightarrow> int \<Rightarrow> (bytes \<times> int \<times> bytes) option \<Rightarrow> (int \<times> bytes) list \<Rightarrow> int list \<Rightarrow> int list" where
  "migrated version kem_id previous_kem seen blocked =
     (if version \<noteq> 5 \<and> seen \<noteq> [] then sort (remdups (blocked @ [kem_id] @ previous_id previous_kem)) else blocked)"

definition read_prekey_store :: "bytes \<Rightarrow> (byte \<times> prekey_store) res" where
  "read_prekey_store b =
     bindR (pr_version b PREKEY_STORE_VERSIONS_READ) (\<lambda>version.
     bindR (pr_take 1 b) (\<lambda>(_, r).
     bindR (pr_take 32 r) (\<lambda>(identity, r).
     bindR (pr_take 32 r) (\<lambda>(spk_secret, r).
     bindR (pr_u 4 r) (\<lambda>(spk_id, r).
     bindR (pr_take 64 r) (\<lambda>(spk_sig, r).
     bindR (pr_count 36 r) (\<lambda>(n, r).
     bindR (repeatR (nat n) read_tagged r) (\<lambda>(one_time, r).
     bindR (read_kem_pair r) (\<lambda>(kem_pair, r).
     bindR (pr_u 4 r) (\<lambda>(kem_id, r).
     bindR (pr_take 64 r) (\<lambda>(kem_sig, r).
     bindR (pr_count (4 + 4 + 64) r) (\<lambda>(n, r).
     bindR (repeatR (nat n) read_kem_one_time r) (\<lambda>(kem_one_time, r).
     bindR (pr_u 4 r) (\<lambda>(next_id, r).
     bindR (read_seen version kem_id r) (\<lambda>(seen, r).
     bindR (read_blocked version r) (\<lambda>(blocked, r).
     bindR (read_previous_signed version r) (\<lambda>(previous_signed, r).
     bindR (read_previous_kem version r) (\<lambda>(previous_kem, r).
     bindR (pr_end r) (\<lambda>_.
     Inr (version,
          \<lparr> pk_identity_public = identity, pk_signed_prekey_secret = spk_secret, pk_signed_prekey_id = spk_id,
            pk_signed_prekey_sig = spk_sig, pk_one_time = one_time, pk_kem_pair = kem_pair, pk_kem_id = kem_id,
            pk_kem_sig = kem_sig, pk_kem_one_time = kem_one_time, pk_next_id = next_id, pk_seen = seen,
            pk_legacy_blocked = migrated version kem_id previous_kem seen blocked,
            pk_previous_signed = previous_signed, pk_previous_kem = previous_kem \<rparr>))))))))))))))))))))"

definition prekey_store_from_bytes :: "bytes \<Rightarrow> prekey_store res" where
  "prekey_store_from_bytes b =
     bindR (read_prekey_store b) (\<lambda>(version, p).
     bindR (if version = PREKEY_STORE_VERSION then prekey_store_to_bytes p else Inr b) (\<lambda>again.
     if again \<noteq> b then Inl (PersistE NonCanonical)
     else if \<not> prekey_store_semantic p then Inl (PersistE Malformed)
     else
       bindR (prekey_store_signatures p) (\<lambda>ok. if ok then Inr p else Inl (PersistE Incoherent))))"

definition scan_stored_prekey_identity :: "bytes \<Rightarrow> (string \<times> bytes) list res" where
  "scan_stored_prekey_identity b =
     bindR (pr_version b PREKEY_STORE_VERSIONS_READ) (\<lambda>_.
     bindR (pr_take 1 b) (\<lambda>(_, r).
     bindR (pr_take 32 r) (\<lambda>(key, _).
     Inr (if is_canonical_curve_key key \<and> is_identity_key key then [] else [(''identity_public'', key)]))))"

section \<open>Version 5 is read exactly as written\<close>

definition tagged_counted :: "int \<times> bytes \<Rightarrow> bool" where
  "tagged_counted = (\<lambda>(i, x). 0 \<le> i \<and> i < 256 ^ 4)"

definition tagged_enc :: "int \<times> bytes \<Rightarrow> bytes" where
  "tagged_enc = (\<lambda>(i, x). be_digits 4 i @ x)"

definition prefixed_enc :: "bytes \<Rightarrow> bytes" where
  "prefixed_enc x = be_digits 4 (int (length x)) @ x"

definition kem_entry_counted :: "int \<times> bytes \<times> bytes \<Rightarrow> bool" where
  "kem_entry_counted = (\<lambda>(i, kp, sig). 0 \<le> i \<and> i < 256 ^ 4 \<and> int (length kp) < 256 ^ 4)"

definition kem_entry_enc :: "int \<times> bytes \<times> bytes \<Rightarrow> bytes" where
  "kem_entry_enc = (\<lambda>(i, kp, sig). be_digits 4 i @ prefixed_enc kp @ sig)"

definition kem_entry_ok :: "int \<times> bytes \<times> bytes \<Rightarrow> bool" where
  "kem_entry_ok = (\<lambda>(i, kp, sig). kem_pair_ok kp = Inr True \<and> length sig = 64)"

lemma tagged_bytes_iff: "tagged_bytes x = Inr b \<longleftrightarrow> tagged_counted x \<and> b = tagged_enc x"
  by (auto simp: tagged_bytes_def res_iff tagged_counted_def tagged_enc_def split: prod.splits)

lemma kem_one_time_bytes_iff: "kem_one_time_bytes x = Inr b \<longleftrightarrow> kem_entry_counted x \<and> b = kem_entry_enc x"
  by (auto simp: kem_one_time_bytes_def res_iff kem_entry_counted_def kem_entry_enc_def prefixed_enc_def split: prod.splits)

lemmas tagged_list_iff = mapR_exact [of tagged_bytes, OF tagged_bytes_iff]
lemmas kem_list_iff = mapR_exact [of kem_one_time_bytes, OF kem_one_time_bytes_iff]
lemma id_bytes_iff: "pbe i 4 = Inr b \<longleftrightarrow> (0 \<le> i \<and> i < 256 ^ 4) \<and> b = be_digits 4 i"
  by (auto simp: res_iff)

lemmas id_list_iff = mapR_exact [of "\<lambda>i. pbe i 4", OF id_bytes_iff]

lemma read_tagged_iff:
  "read_tagged r = Inr (x, r') \<longleftrightarrow> (tagged_counted x \<and> length (snd x) = 32) \<and> r = tagged_enc x @ r'"
  by (cases x) (auto simp: read_tagged_def res_iff tagged_counted_def tagged_enc_def)

lemma read_untagged_iff:
  "read_untagged k r = Inr (x, r') \<longleftrightarrow> (fst x = k \<and> length (snd x) = 32) \<and> r = snd x @ r'"
  by (cases x) (auto simp: read_untagged_def res_iff)

lemma read_kem_pair_iff:
  "read_kem_pair r = Inr (kp, r') \<longleftrightarrow>
     (kem_pair_ok kp = Inr True \<and> int (length kp) < 256 ^ 4) \<and> r = prefixed_enc kp @ r'"
  by (auto simp: read_kem_pair_def res_iff prefixed_enc_def)

lemma read_kem_one_time_iff:
  "read_kem_one_time r = Inr (x, r') \<longleftrightarrow> (kem_entry_counted x \<and> kem_entry_ok x) \<and> r = kem_entry_enc x @ r'"
  by (cases x) (auto simp: read_kem_one_time_def res_iff read_kem_pair_iff kem_entry_counted_def kem_entry_ok_def
      kem_entry_enc_def)

lemma read_id_iff: "pr_u 4 r = Inr (i, r') \<longleftrightarrow> (0 \<le> i \<and> i < 256 ^ 4) \<and> r = be_digits 4 i @ r'"
  by (auto simp: res_iff)

lemmas read_tagged_list = persist_cursor.repeat_iff [of read_tagged, OF read_tagged_iff]
lemmas read_untagged_list = persist_cursor.repeat_iff [of "read_untagged k" for k, OF read_untagged_iff]
lemmas read_kem_list = persist_cursor.repeat_iff [of read_kem_one_time, OF read_kem_one_time_iff]
lemmas read_id_list = persist_cursor.repeat_iff [of "pr_u 4", OF read_id_iff]

definition previous_signed_ok :: "(bytes \<times> int \<times> bytes) option \<Rightarrow> bool" where
  "previous_signed_ok = opt_all (\<lambda>(sec, i, sig). length sec = 32 \<and> length sig = 64)"

definition previous_kem_ok :: "(bytes \<times> int \<times> bytes) option \<Rightarrow> bool" where
  "previous_kem_ok = opt_all (\<lambda>(kp, i, sig). kem_pair_ok kp = Inr True \<and> length sig = 64)"

lemma previous_signed_codec:
  "3 \<le> version \<Longrightarrow> prefix_codec previous_signed_bytes previous_signed_ok (read_previous_signed version)"
proof
  fix b v r assume v: "3 \<le> version"
  have runs: "read_previous_signed version b = Inr (v, r) \<longleftrightarrow>
      (b = flag False # r \<and> v = None)
      \<or> (\<exists>sec i sig. b = flag True # sec @ be_digits 4 i @ sig @ r \<and> length sec = 32 \<and> 0 \<le> i \<and> i < 256 ^ 4
           \<and> length sig = 64 \<and> v = Some (sec, i, sig))"
    using v unfolding read_previous_signed_def bindR_Inr_iff split_paired_Ex prod.case pr_presence_iff ex_bool_eq
    by (auto simp: res_iff)
  show "read_previous_signed version b = Inr (v, r)
      \<longleftrightarrow> previous_signed_ok v \<and> (\<exists>e. previous_signed_bytes v = Inr e \<and> b = e @ r)"
  proof (cases v)
    case None
    then show ?thesis unfolding runs by (simp add: previous_signed_bytes_def previous_signed_ok_def flag_def)
  next
    case (Some x)
    then show ?thesis
      unfolding runs by (cases x) (auto simp: previous_signed_bytes_def previous_signed_ok_def flag_def res_iff)
  qed
qed

lemma previous_kem_codec:
  "3 \<le> version \<Longrightarrow> prefix_codec previous_kem_bytes previous_kem_ok (read_previous_kem version)"
proof
  fix b v r assume v: "3 \<le> version"
  have runs: "read_previous_kem version b = Inr (v, r) \<longleftrightarrow>
      (b = flag False # r \<and> v = None)
      \<or> (\<exists>kp i sig. b = flag True # prefixed_enc kp @ be_digits 4 i @ sig @ r \<and> kem_pair_ok kp = Inr True
           \<and> int (length kp) < 256 ^ 4 \<and> 0 \<le> i \<and> i < 256 ^ 4 \<and> length sig = 64 \<and> v = Some (kp, i, sig))"
    using v unfolding read_previous_kem_def bindR_Inr_iff split_paired_Ex prod.case pr_presence_iff ex_bool_eq
    by (auto simp: res_iff read_kem_pair_iff)
  show "read_previous_kem version b = Inr (v, r)
      \<longleftrightarrow> previous_kem_ok v \<and> (\<exists>e. previous_kem_bytes v = Inr e \<and> b = e @ r)"
  proof (cases v)
    case None
    then show ?thesis unfolding runs by (simp add: previous_kem_bytes_def previous_kem_ok_def flag_def)
  next
    case (Some x)
    then show ?thesis
      unfolding runs
      by (cases x) (auto simp: previous_kem_bytes_def previous_kem_ok_def flag_def res_iff prefixed_enc_def)
  qed
qed

lemma read_seen_sound:
  assumes "read_seen version k r = Inr (xs, r')" "0 \<le> k" "k < 256 ^ 4"
  shows "(\<forall>x \<in> set xs. tagged_counted x \<and> length (snd x) = 32) \<and> int (length xs) \<le> 2 * MAX_LAST_RESORT_SEEN"
proof (cases "version \<ge> 2")
  case False
  then show ?thesis using assms by (auto simp: read_seen_def const_defs)
next
  case True
  have pos: "0 \<le> MAX_LAST_RESORT_SEEN" by (simp add: const_defs)
  show ?thesis
  proof (cases "version \<in> {4, 5}")
    case True
    then show ?thesis
      using assms(1) \<open>version \<ge> 2\<close> by (auto simp: read_seen_def res_iff Let_def read_tagged_list split: if_splits)
  next
    case False
    then have "read_seen version k r = bindR (pr_u 4 r) (\<lambda>(count, r).
        if count > MAX_LAST_RESORT_SEEN then Inl (PersistE Malformed)
        else if count * 32 > int (length r) then Inl (PersistE Malformed) else repeatR (nat count) (read_untagged k) r)"
      using \<open>version \<ge> 2\<close> by (simp add: read_seen_def)
    with assms(1) obtain c r2 where "0 \<le> c" "c \<le> MAX_LAST_RESORT_SEEN"
        "repeatR (nat c) (read_untagged k) r2 = Inr (xs, r')"
      by (auto simp: res_iff)
    then show ?thesis using assms(2,3) pos by (auto simp: read_untagged_list tagged_counted_def)
  qed
qed

lemma length_tagged_list:
  "(\<forall>x \<in> set xs. tagged_counted x \<and> length (snd x) = 32) \<Longrightarrow>
     length (concat (map tagged_enc xs)) = length xs * 36"
  by (intro length_concat_map) (auto simp: tagged_enc_def split: prod.splits)

lemma read_seen_5:
  "read_seen 5 k r = Inr (xs, r') \<longleftrightarrow>
     (int (length xs) \<le> 2 * MAX_LAST_RESORT_SEEN \<and> (\<forall>x \<in> set xs. tagged_counted x \<and> length (snd x) = 32))
     \<and> r = be_digits 4 (int (length xs)) @ concat (map tagged_enc xs) @ r'"
proof
  assume "read_seen 5 k r = Inr (xs, r')"
  then show "(int (length xs) \<le> 2 * MAX_LAST_RESORT_SEEN \<and> (\<forall>x \<in> set xs. tagged_counted x \<and> length (snd x) = 32))
     \<and> r = be_digits 4 (int (length xs)) @ concat (map tagged_enc xs) @ r'"
    by (clarsimp simp: read_seen_def res_iff Let_def read_tagged_list)
next
  assume *: "(int (length xs) \<le> 2 * MAX_LAST_RESORT_SEEN \<and> (\<forall>x \<in> set xs. tagged_counted x \<and> length (snd x) = 32))
     \<and> r = be_digits 4 (int (length xs)) @ concat (map tagged_enc xs) @ r'"
  have "repeatR (length xs) read_tagged (concat (map tagged_enc xs) @ r') = Inr (xs, r')"
    using * by (simp add: read_tagged_list)
  moreover have "int (length xs) < 256 ^ 4" using * by (simp add: const_defs)
  ultimately show "read_seen 5 k r = Inr (xs, r')"
    using * length_tagged_list [of xs] by (simp add: read_seen_def pr_eval)
qed

lemma read_blocked_sound:
  "read_blocked version r = Inr (xs, r') \<Longrightarrow> (\<forall>i \<in> set xs. 0 \<le> i \<and> i < 256 ^ 4) \<and> length xs \<le> 2 \<and> (version \<noteq> 5 \<longrightarrow> xs = [])"
  by (auto simp: read_blocked_def res_iff read_id_list split: if_splits)

lemma read_blocked_5:
  "read_blocked 5 r = Inr (xs, r') \<longleftrightarrow>
     (length xs \<le> 2 \<and> (\<forall>i \<in> set xs. 0 \<le> i \<and> i < 256 ^ 4))
     \<and> r = be_digits 4 (int (length xs)) @ concat (map (be_digits 4) xs) @ r'"
proof
  assume "read_blocked 5 r = Inr (xs, r')"
  then show "(length xs \<le> 2 \<and> (\<forall>i \<in> set xs. 0 \<le> i \<and> i < 256 ^ 4))
     \<and> r = be_digits 4 (int (length xs)) @ concat (map (be_digits 4) xs) @ r'"
    by (clarsimp simp: read_blocked_def res_iff read_id_list not_less nat_le_iff)
next
  assume *: "(length xs \<le> 2 \<and> (\<forall>i \<in> set xs. 0 \<le> i \<and> i < 256 ^ 4))
     \<and> r = be_digits 4 (int (length xs)) @ concat (map (be_digits 4) xs) @ r'"
  have "repeatR (length xs) (pr_u 4) (concat (map (be_digits 4) xs) @ r') = Inr (xs, r')"
    using * by (simp add: read_id_list)
  moreover have "length (concat (map (be_digits 4) xs)) = length xs * 4"
    by (intro length_concat_map) simp
  ultimately show "read_blocked 5 r = Inr (xs, r')"
    using * by (simp add: read_blocked_def pr_eval)
qed

lemma previous_sound:
  "read_previous_signed version r = Inr (v, r') \<Longrightarrow> previous_signed_ok v \<and> (\<exists>e. previous_signed_bytes v = Inr e)"
  "read_previous_kem version r = Inr (w, r') \<Longrightarrow>
     previous_kem_ok w \<and> (\<exists>e. previous_kem_bytes w = Inr e) \<and> (\<forall>i \<in> set (previous_id w). 0 \<le> i \<and> i < 256 ^ 4)"
proof -
  assume v: "read_previous_signed version r = Inr (v, r')"
  show "previous_signed_ok v \<and> (\<exists>e. previous_signed_bytes v = Inr e)"
  proof (cases "3 \<le> version")
    case True
    show ?thesis using v by (auto simp: prefix_codec.decp_iff [OF previous_signed_codec [OF True]])
  qed (use v in \<open>auto simp: read_previous_signed_def previous_signed_ok_def previous_signed_bytes_def\<close>)
next
  assume w: "read_previous_kem version r = Inr (w, r')"
  show "previous_kem_ok w \<and> (\<exists>e. previous_kem_bytes w = Inr e) \<and> (\<forall>i \<in> set (previous_id w). 0 \<le> i \<and> i < 256 ^ 4)"
    using w
    by (auto simp: read_previous_kem_def previous_kem_ok_def previous_kem_bytes_def previous_id_def res_iff
        read_kem_pair_iff split: if_splits)
qed

text \<open>The shape every version's parse gives, and what version 5 bounds beyond it.\<close>

definition store_shaped :: "prekey_store \<Rightarrow> bool" where
  "store_shaped p \<longleftrightarrow>
     length (pk_identity_public p) = 32 \<and> length (pk_signed_prekey_secret p) = 32
     \<and> length (pk_signed_prekey_sig p) = 64 \<and> (\<forall>x \<in> set (pk_one_time p). length (snd x) = 32)
     \<and> kem_pair_ok (pk_kem_pair p) = Inr True \<and> length (pk_kem_sig p) = 64
     \<and> (\<forall>x \<in> set (pk_kem_one_time p). kem_entry_ok x) \<and> (\<forall>x \<in> set (pk_seen p). length (snd x) = 32)
     \<and> previous_signed_ok (pk_previous_signed p) \<and> previous_kem_ok (pk_previous_kem p)"

definition store_bounded :: "prekey_store \<Rightarrow> bool" where
  "store_bounded p \<longleftrightarrow> int (length (pk_seen p)) \<le> 2 * MAX_LAST_RESORT_SEEN \<and> length (pk_legacy_blocked p) \<le> 2"

lemma kem_entry_size:
  "\<forall>x \<in> set xs. kem_entry_ok x \<Longrightarrow> length xs * 72 \<le> length (concat (map kem_entry_enc xs))"
  by (induction xs) (auto simp: kem_entry_ok_def kem_entry_enc_def prefixed_enc_def split: prod.splits)

lemma migrated_5 [simp]: "migrated 5 k prev seen blocked = blocked"
  by (simp add: migrated_def)

lemma store_eta:
  "\<lparr> pk_identity_public = pk_identity_public p, pk_signed_prekey_secret = pk_signed_prekey_secret p,
     pk_signed_prekey_id = pk_signed_prekey_id p, pk_signed_prekey_sig = pk_signed_prekey_sig p,
     pk_one_time = pk_one_time p, pk_kem_pair = pk_kem_pair p, pk_kem_id = pk_kem_id p, pk_kem_sig = pk_kem_sig p,
     pk_kem_one_time = pk_kem_one_time p, pk_next_id = pk_next_id p, pk_seen = pk_seen p,
     pk_legacy_blocked = pk_legacy_blocked p, pk_previous_signed = pk_previous_signed p,
     pk_previous_kem = pk_previous_kem p \<rparr> = p"
  by simp

lemma migrated_length:
  "length blocked \<le> 2 \<Longrightarrow> (version \<noteq> 5 \<longrightarrow> blocked = []) \<Longrightarrow> length (migrated version k prev seen blocked) \<le> 2"
  by (auto simp: migrated_def previous_id_def split: option.splits)

lemma migrated_range:
  "\<forall>i \<in> set blocked. Q i \<Longrightarrow> Q k \<Longrightarrow> \<forall>i \<in> set (previous_id prev). Q i \<Longrightarrow>
     \<forall>i \<in> set (migrated version k prev seen blocked). Q i"
  by (auto simp: migrated_def)

lemma read_prekey_store_sound:
  assumes "read_prekey_store b = Inr (version, p)"
  shows "store_shaped p \<and> store_bounded p \<and> (\<exists>b'. prekey_store_to_bytes p = Inr b')
    \<and> (version = 5 \<longrightarrow> prekey_store_to_bytes p = Inr b)"
proof -
  obtain v r0 x identity r1 spk_secret r2 spk_id r3 spk_sig r4 n r5 one_time r6 kem_pair r7 kem_id r8 kem_sig r9 m r10
      kem_one_time r11 next_id r12 seen r13 blocked r14 ps r15 pk r16 u
    where reads: "pr_version b PREKEY_STORE_VERSIONS_READ = Inr v" "pr_take 1 b = Inr (x, r0)"
      "pr_take 32 r0 = Inr (identity, r1)" "pr_take 32 r1 = Inr (spk_secret, r2)" "pr_u 4 r2 = Inr (spk_id, r3)"
      "pr_take 64 r3 = Inr (spk_sig, r4)" "pr_count 36 r4 = Inr (n, r5)"
      "repeatR (nat n) read_tagged r5 = Inr (one_time, r6)" "read_kem_pair r6 = Inr (kem_pair, r7)"
      "pr_u 4 r7 = Inr (kem_id, r8)" "pr_take 64 r8 = Inr (kem_sig, r9)" "pr_count (4 + 4 + 64) r9 = Inr (m, r10)"
      "repeatR (nat m) read_kem_one_time r10 = Inr (kem_one_time, r11)" "pr_u 4 r11 = Inr (next_id, r12)"
    and tail: "read_seen v kem_id r12 = Inr (seen, r13)" "read_blocked v r13 = Inr (blocked, r14)"
      "read_previous_signed v r14 = Inr (ps, r15)" "read_previous_kem v r15 = Inr (pk, r16)" "pr_end r16 = Inr u"
    and version: "v = version"
    and p: "\<lparr> pk_identity_public = identity, pk_signed_prekey_secret = spk_secret, pk_signed_prekey_id = spk_id,
            pk_signed_prekey_sig = spk_sig, pk_one_time = one_time, pk_kem_pair = kem_pair, pk_kem_id = kem_id,
            pk_kem_sig = kem_sig, pk_kem_one_time = kem_one_time, pk_next_id = next_id, pk_seen = seen,
            pk_legacy_blocked = migrated v kem_id pk seen blocked,
            pk_previous_signed = ps, pk_previous_kem = pk \<rparr> = p"
    using assms
    unfolding read_prekey_store_def bindR_Inr_iff split_paired_Ex prod.case sum.inject prod.inject
    by (elim exE conjE) (rule that; assumption)
  have ids: "0 \<le> spk_id" "spk_id < 256 ^ 4" "0 \<le> kem_id" "kem_id < 256 ^ 4" "0 \<le> next_id" "next_id < 256 ^ 4"
    using reads(5,10,14) by (simp_all add: res_iff)
  have ones: "0 \<le> n" "n < 256 ^ 4" "r4 = be_digits 4 n @ r5" "length one_time = nat n"
    "\<forall>x \<in> set one_time. tagged_counted x \<and> length (snd x) = 32" "r5 = concat (map tagged_enc one_time) @ r6"
    using reads(7,8) by (simp_all add: res_iff read_tagged_list)
  have kems: "0 \<le> m" "m < 256 ^ 4" "r9 = be_digits 4 m @ r10" "length kem_one_time = nat m"
    "\<forall>x \<in> set kem_one_time. kem_entry_counted x \<and> kem_entry_ok x" "r10 = concat (map kem_entry_enc kem_one_time) @ r11"
    using reads(12,13) by (simp_all add: res_iff read_kem_list)
  have pair: "kem_pair_ok kem_pair = Inr True" "int (length kem_pair) < 256 ^ 4" "r6 = prefixed_enc kem_pair @ r7"
    using reads(9) by (simp_all add: read_kem_pair_iff)
  note seen = read_seen_sound [OF tail(1) ids(3,4)]
  note blocked = read_blocked_sound [OF tail(2)]
  obtain pse where pse: "previous_signed_ok ps" "previous_signed_bytes ps = Inr pse"
    using previous_sound(1) [OF tail(3)] by blast
  obtain pke where pke: "previous_kem_ok pk" "previous_kem_bytes pk = Inr pke"
      "\<forall>i \<in> set (previous_id pk). 0 \<le> i \<and> i < 256 ^ 4"
    using previous_sound(2) [OF tail(4)] by blast
  let ?l = "migrated v kem_id pk seen blocked"
  have legacy: "length ?l \<le> 2" "\<forall>i \<in> set ?l. 0 \<le> i \<and> i < 256 ^ 4"
    using blocked migrated_length [of blocked v kem_id pk seen]
      migrated_range [of blocked "\<lambda>i. 0 \<le> i \<and> i < 256 ^ 4" kem_id pk v seen] ids(3,4) pke(3) by auto
  have small: "int (length seen) < 256 ^ 4" "int (length ?l) < 256 ^ 4"
    using seen legacy(1) by (simp_all add: const_defs)
  let ?b = "[PREKEY_STORE_VERSION] @ identity @ spk_secret @ be_digits 4 spk_id @ spk_sig
      @ be_digits 4 n @ concat (map tagged_enc one_time) @ prefixed_enc kem_pair @ be_digits 4 kem_id @ kem_sig
      @ be_digits 4 m @ concat (map kem_entry_enc kem_one_time) @ be_digits 4 next_id
      @ be_digits 4 (int (length seen)) @ concat (map tagged_enc seen)
      @ be_digits 4 (int (length ?l)) @ concat (map (be_digits 4) ?l) @ pse @ pke"
  have enc: "prekey_store_to_bytes p = Inr ?b"
    unfolding p [symmetric] prekey_store_to_bytes_def
    using ids ones kems pair seen legacy small pse(2) pke(2)
    by (simp add: res_iff tagged_list_iff kem_list_iff id_list_iff prefixed_enc_def)
  have shape: "store_shaped p" "store_bounded p"
    unfolding p [symmetric] using reads(3,4,6,11) ones kems pair seen legacy(1) pse(1) pke(1)
    by (simp_all add: store_shaped_def store_bounded_def res_iff)
  have "?b = b" if "version = 5"
  proof -
    have v5: "v = 5" using that version by simp
    have "r12 = be_digits 4 (int (length seen)) @ concat (map tagged_enc seen) @ r13"
      "r13 = be_digits 4 (int (length ?l)) @ concat (map (be_digits 4) ?l) @ r14"
      using tail(1,2) by (simp_all add: v5 read_seen_5 read_blocked_5)
    moreover have "r14 = pse @ r15" "r15 = pke"
      using tail(3-5) pse(2) pke(2)
      by (auto simp: v5 prefix_codec.decp_iff [OF previous_signed_codec] prefix_codec.decp_iff [OF previous_kem_codec]
          res_iff)
    moreover have "b = 5 # r0"
      using reads(1,2) v5 by (cases b) (simp_all add: pr_version_def pr_take_1 split: if_splits)
    moreover have "r0 = identity @ r1" "r1 = spk_secret @ r2" "r2 = be_digits 4 spk_id @ r3" "r3 = spk_sig @ r4"
      "r7 = be_digits 4 kem_id @ r8" "r8 = kem_sig @ r9" "r11 = be_digits 4 next_id @ r12"
      using reads(3-6,10,11,14) by (simp_all add: res_iff)
    ultimately show ?thesis using ones(3,6) kems(3,6) pair(3) by simp
  qed
  then show ?thesis using enc shape by blast
qed

lemma read_prekey_store_complete:
  assumes shape: "store_shaped p" "store_bounded p" and enc: "prekey_store_to_bytes p = Inr b"
  shows "read_prekey_store b = Inr (5, p)"
proof -
  obtain pse pke where ps: "previous_signed_bytes (pk_previous_signed p) = Inr pse"
    and pk: "previous_kem_bytes (pk_previous_kem p) = Inr pke"
    and ids: "0 \<le> pk_signed_prekey_id p" "pk_signed_prekey_id p < 256 ^ 4" "0 \<le> pk_kem_id p" "pk_kem_id p < 256 ^ 4"
      "0 \<le> pk_next_id p" "pk_next_id p < 256 ^ 4"
    and counts: "int (length (pk_one_time p)) < 256 ^ 4" "int (length (pk_kem_one_time p)) < 256 ^ 4"
      "int (length (pk_kem_pair p)) < 256 ^ 4"
    and counted: "\<forall>x \<in> set (pk_one_time p). tagged_counted x" "\<forall>x \<in> set (pk_kem_one_time p). kem_entry_counted x"
      "\<forall>x \<in> set (pk_seen p). tagged_counted x" "\<forall>i \<in> set (pk_legacy_blocked p). 0 \<le> i \<and> i < 256 ^ 4"
    and b: "b = PREKEY_STORE_VERSION # pk_identity_public p @ pk_signed_prekey_secret p
      @ be_digits 4 (pk_signed_prekey_id p) @ pk_signed_prekey_sig p
      @ be_digits 4 (int (length (pk_one_time p))) @ concat (map tagged_enc (pk_one_time p))
      @ prefixed_enc (pk_kem_pair p) @ be_digits 4 (pk_kem_id p) @ pk_kem_sig p
      @ be_digits 4 (int (length (pk_kem_one_time p))) @ concat (map kem_entry_enc (pk_kem_one_time p))
      @ be_digits 4 (pk_next_id p)
      @ (be_digits 4 (int (length (pk_seen p))) @ concat (map tagged_enc (pk_seen p))
      @ (be_digits 4 (int (length (pk_legacy_blocked p))) @ concat (map (be_digits 4) (pk_legacy_blocked p))
      @ (pse @ pke)))"
    using enc
    by (clarsimp simp: prekey_store_to_bytes_def res_iff tagged_list_iff kem_list_iff id_list_iff
        prefixed_enc_def)
  have lists: "repeatR (length (pk_one_time p)) read_tagged (concat (map tagged_enc (pk_one_time p)) @ r) = Inr (pk_one_time p, r)"
    "repeatR (length (pk_kem_one_time p)) read_kem_one_time (concat (map kem_entry_enc (pk_kem_one_time p)) @ r)
      = Inr (pk_kem_one_time p, r)"
    "read_kem_pair (prefixed_enc (pk_kem_pair p) @ r) = Inr (pk_kem_pair p, r)" for r
    using shape(1) counted counts by (simp_all add: read_tagged_list read_kem_list read_kem_pair_iff store_shaped_def)
  have tails: "read_seen 5 k (be_digits 4 (int (length (pk_seen p))) @ concat (map tagged_enc (pk_seen p)) @ r) = Inr (pk_seen p, r)"
    "read_blocked 5 (be_digits 4 (int (length (pk_legacy_blocked p))) @ concat (map (be_digits 4) (pk_legacy_blocked p)) @ r)
      = Inr (pk_legacy_blocked p, r)"
    "read_previous_signed 5 (pse @ pke) = Inr (pk_previous_signed p, pke)"
    "read_previous_kem 5 pke = Inr (pk_previous_kem p, [])" for k r
    using shape counted ps pk
    by (simp_all add: read_seen_5 read_blocked_5 store_shaped_def store_bounded_def
        prefix_codec.decp_iff [OF previous_signed_codec] prefix_codec.decp_iff [OF previous_kem_codec])
  have sizes: "length (concat (map tagged_enc (pk_one_time p))) = length (pk_one_time p) * 36"
    "length (pk_kem_one_time p) * 72 \<le> length (concat (map kem_entry_enc (pk_kem_one_time p)))"
    using shape(1) counted(1) length_tagged_list [of "pk_one_time p"] kem_entry_size by (simp_all add: store_shaped_def)
  show ?thesis
    using shape ids counts sizes
    by (simp add: read_prekey_store_def b pr_version_def pr_eval pr_end_def lists tails store_shaped_def store_eta)
qed

text \<open>The rules leave room for what version 5 bounds.\<close>

lemma two_tags:
  "list_all (\<lambda>(k, _). k \<in> {a, c}) xs \<Longrightarrow> int (length xs) \<le> entries_of a xs + entries_of c xs"
  by (induction xs) (auto simp: entries_of_def)

lemma one_tag: "list_all (\<lambda>(k, _). k = a) xs \<Longrightarrow> int (length xs) = entries_of a xs"
  by (induction xs) (auto simp: entries_of_def)

lemma entries_bounded:
  assumes "\<not> list_ex (\<lambda>(k, _). entries_of k xs > MAX_LAST_RESORT_SEEN) xs"
  shows "entries_of k xs \<le> MAX_LAST_RESORT_SEEN"
proof (cases "\<exists>x \<in> set xs. fst x = k")
  case True
  then show ?thesis using assms by (auto simp: list_ex_iff)
next
  case False
  then have "filter (\<lambda>(j, _). j = k) xs = []" by (auto simp: filter_empty_conv)
  then show ?thesis by (simp add: entries_of_def const_defs)
qed

lemma semantic_bounded:
  assumes "prekey_store_semantic p"
  shows "store_bounded p"
proof -
  obtain a c where live: "live_kem_ids p \<subseteq> {a, c}"
    by (cases "pk_previous_kem p") (auto simp: live_kem_ids_def previous_id_def)
  have "list_all (\<lambda>(k, _). k \<in> {a, c}) (pk_seen p)"
    using assms live by (auto simp: prekey_store_semantic_def list_all_iff)
  moreover have "entries_of k (pk_seen p) \<le> MAX_LAST_RESORT_SEEN" for k
    using assms by (intro entries_bounded) (simp add: prekey_store_semantic_def)
  from this [of a] this [of c] calculation have seen: "int (length (pk_seen p)) \<le> 2 * MAX_LAST_RESORT_SEEN"
    using two_tags [of a c "pk_seen p"] by linarith
  have "\<forall>i \<in> set (pk_legacy_blocked p). i \<in> {a, c}" "ascending_ids (pk_legacy_blocked p)"
    using assms live by (auto simp: prekey_store_semantic_def list_ex_iff)
  then have "length (pk_legacy_blocked p) \<le> 2"
    by (cases "pk_legacy_blocked p" rule: remdups_adj.cases; cases "tl (tl (pk_legacy_blocked p))")
      (auto simp: ascending_ids_def)
  with seen show ?thesis by (simp add: store_bounded_def)
qed

definition store_storable :: "prekey_store \<Rightarrow> bool" where
  "store_storable p \<longleftrightarrow> store_shaped p \<and> prekey_store_semantic p \<and> prekey_store_signatures p = Inr True"

lemma store_from_bytes_iff:
  "prekey_store_from_bytes b = Inr p \<longleftrightarrow> (\<exists>version. read_prekey_store b = Inr (version, p))
     \<and> prekey_store_semantic p \<and> prekey_store_signatures p = Inr True"
proof (cases "read_prekey_store b")
  case (Inr vp)
  obtain version q where vp: "vp = (version, q)" by (cases vp)
  have "(if version = PREKEY_STORE_VERSION then prekey_store_to_bytes q else Inr b) = Inr b"
    using read_prekey_store_sound [of b version q] Inr vp by auto
  then show ?thesis by (auto simp: prekey_store_from_bytes_def Inr vp bindR_Inr_iff)
qed (simp add: prekey_store_from_bytes_def)

text \<open>Whatever version it was read from, an accepted store is written as version 5 and read back the same.\<close>

lemma accepted_store_rewritten:
  assumes "prekey_store_from_bytes b = Inr p"
  shows "store_storable p" "\<exists>b'. prekey_store_to_bytes p = Inr b'"
    "hd b = 5 \<Longrightarrow> prekey_store_to_bytes p = Inr b"
proof -
  obtain version where r: "read_prekey_store b = Inr (version, p)"
    and ok: "prekey_store_semantic p" "prekey_store_signatures p = Inr True"
    using assms by (auto simp: store_from_bytes_iff)
  have "b = version # tl b"
    using r by (cases b) (auto simp: read_prekey_store_def pr_version_def bindR_Inr_iff split: if_splits)
  then show "hd b = 5 \<Longrightarrow> prekey_store_to_bytes p = Inr b"
    using read_prekey_store_sound [OF r] by (metis list.sel(1))
  show "store_storable p" "\<exists>b'. prekey_store_to_bytes p = Inr b'"
    using read_prekey_store_sound [OF r] ok by (auto simp: store_storable_def)
qed

lemma storable_store_read:
  assumes "store_storable p" "prekey_store_to_bytes p = Inr b"
  shows "prekey_store_from_bytes b = Inr p"
  using assms read_prekey_store_complete [OF _ _ assms(2)] semantic_bounded [of p]
  by (auto simp: store_storable_def store_from_bytes_iff)

lemma stored_head: "prekey_store_to_bytes p = Inr b \<Longrightarrow> b \<noteq> [] \<and> hd b = 5"
  by (auto simp: prekey_store_to_bytes_def bindR_Inr_iff)

end
