(* ===== verification/Prekeys.thy ===== *)
theory Prekeys
  imports Persist_Prekeys
begin

text \<open>
  The two rotations of a prekey store, \<open>tacenta_reader/prekeys.py\<close>, and what they do to the rules the store
  is read under.
\<close>

definition check_identity :: "prekey_store \<Rightarrow> bytes \<Rightarrow> unit res" where
  "check_identity store identity_secret =
     bindR (x25519_public identity_secret) (\<lambda>pub.
     if pub \<noteq> pk_identity_public store then Inl (SessionE RotationRefused) else Inr ())"

definition rotate_signed_prekey :: "prekey_store \<Rightarrow> bytes \<Rightarrow> bytes \<Rightarrow> bytes \<Rightarrow> prekey_store res" where
  "rotate_signed_prekey store identity_secret new_secret z =
     bindR (check_identity store identity_secret) (\<lambda>_.
     if pk_next_id store \<ge> U32_MAX then Inr store
     else
       bindR (x25519_public new_secret) (\<lambda>pub.
       bindR (encode_ec pub) (\<lambda>m.
       bindR (xeddsa_sign identity_secret m z) (\<lambda>sig.
       Inr (store\<lparr> pk_previous_signed :=
                     Some (pk_signed_prekey_secret store, pk_signed_prekey_id store, pk_signed_prekey_sig store),
                   pk_signed_prekey_secret := new_secret,
                   pk_signed_prekey_id := pk_next_id store,
                   pk_signed_prekey_sig := sig,
                   pk_next_id := pk_next_id store + 1 \<rparr>)))))"

definition rotate_kem :: "prekey_store \<Rightarrow> bytes \<Rightarrow> bytes \<Rightarrow> bytes \<Rightarrow> prekey_store res" where
  "rotate_kem store identity_secret new_pair z =
     bindR (check_identity store identity_secret) (\<lambda>_.
     if pk_next_id store \<ge> U32_MAX then Inr store
     else
       (let wiped = (case pk_previous_kem store of None \<Rightarrow> None | Some (_, i, _) \<Rightarrow> Some i)
        in bindR (encode_kem (drop (nat KEM_DK_LEN) new_pair) MLKEM1024_EK_LEN) (\<lambda>m.
           bindR (xeddsa_sign identity_secret m z) (\<lambda>sig.
           Inr (store\<lparr> pk_previous_kem := Some (pk_kem_pair store, pk_kem_id store, pk_kem_sig store),
                       pk_kem_pair := new_pair,
                       pk_kem_id := pk_next_id store,
                       pk_kem_sig := sig,
                       pk_next_id := pk_next_id store + 1,
                       pk_seen := filter (\<lambda>e. Some (fst e) \<noteq> wiped) (pk_seen store) \<rparr>)))))"

section \<open>The rules after a rotation\<close>

text \<open>The rules as facts about the list of identifiers.\<close>

lemma semantic_iff:
  "prekey_store_semantic p \<longleftrightarrow>
     0 \<notin> set (store_ids p) \<and> (\<forall>i \<in> set (store_ids p). i < pk_next_id p) \<and> distinct (store_ids p)
     \<and> (\<forall>e \<in> set (pk_seen p). fst e \<in> live_kem_ids p)
     \<and> (\<forall>e \<in> set (pk_seen p). entries_of (fst e) (pk_seen p) \<le> MAX_LAST_RESORT_SEEN)
     \<and> distinct (map snd (pk_seen p)) \<and> set (pk_legacy_blocked p) \<subseteq> live_kem_ids p
     \<and> ascending_ids (pk_legacy_blocked p)
     \<and> is_canonical_curve_key (pk_identity_public p) \<and> is_identity_key (pk_identity_public p)"
proof -
  have zero: "\<not> list_ex (\<lambda>i. i = ABSENT_ID) xs \<longleftrightarrow> 0 \<notin> set xs" for xs :: "int list"
    by (auto simp: list_ex_iff)
  have below: "\<not> list_ex (\<lambda>i. i \<ge> n) xs \<longleftrightarrow> (\<forall>i \<in> set xs. i < n)" for xs :: "int list" and n
    by (auto simp: list_ex_iff)
  have dist: "card (set xs) = length xs \<longleftrightarrow> distinct xs" for xs :: "'a list"
    using distinct_card card_distinct by auto
  have tags: "list_all (\<lambda>(k, _). k \<in> A) xs \<longleftrightarrow> (\<forall>e \<in> set xs. fst e \<in> A)" for A :: "int set" and xs :: "(int \<times> bytes) list"
    by (auto simp: list_all_iff split: prod.splits)
  have full: "\<not> list_ex (\<lambda>(k, _). f k > M) xs \<longleftrightarrow> (\<forall>e \<in> set xs. f (fst e) \<le> M)"
    for f :: "int \<Rightarrow> int" and M and xs :: "(int \<times> bytes) list"
    by (auto simp: list_ex_iff not_less split: prod.splits)
  have legacy: "\<not> list_ex (\<lambda>i. i \<notin> A) xs \<longleftrightarrow> set xs \<subseteq> A" for A :: "int set" and xs
    by (auto simp: list_ex_iff)
  show ?thesis
    unfolding prekey_store_semantic_def zero below dist tags full legacy
    using dist [of "map snd (pk_seen p)"] by simp
qed

definition kem_rotated :: "prekey_store \<Rightarrow> bytes \<Rightarrow> bytes \<Rightarrow> prekey_store" where
  "kem_rotated p new_pair sig =
     p\<lparr> pk_previous_kem := Some (pk_kem_pair p, pk_kem_id p, pk_kem_sig p), pk_kem_pair := new_pair,
        pk_kem_id := pk_next_id p, pk_kem_sig := sig, pk_next_id := pk_next_id p + 1,
        pk_seen := filter (\<lambda>e. fst e \<notin> set (previous_id (pk_previous_kem p))) (pk_seen p) \<rparr>"

lemma kem_rotated_run:
  "kem_rotated p new_pair sig =
     p\<lparr> pk_previous_kem := Some (pk_kem_pair p, pk_kem_id p, pk_kem_sig p), pk_kem_pair := new_pair,
        pk_kem_id := pk_next_id p, pk_kem_sig := sig, pk_next_id := pk_next_id p + 1,
        pk_seen := filter (\<lambda>e. Some (fst e) \<noteq> (case pk_previous_kem p of None \<Rightarrow> None | Some (_, i, _) \<Rightarrow> Some i))
          (pk_seen p) \<rparr>"
proof -
  have "(\<lambda>e. Some (fst e) \<noteq> (case pk_previous_kem p of None \<Rightarrow> None | Some (_, i, _) \<Rightarrow> Some i))
      = (\<lambda>e :: int \<times> bytes. fst e \<notin> set (previous_id (pk_previous_kem p)))"
    by (auto simp: previous_id_def split: option.splits)
  then show ?thesis by (simp only: kem_rotated_def)
qed

lemma rotate_signed_Inr:
  "rotate_signed_prekey p secret new_secret z = Inr q \<Longrightarrow> q = p
     \<or> (\<exists>sig. q = p\<lparr> pk_previous_signed :=
                      Some (pk_signed_prekey_secret p, pk_signed_prekey_id p, pk_signed_prekey_sig p),
                    pk_signed_prekey_secret := new_secret, pk_signed_prekey_id := pk_next_id p,
                    pk_signed_prekey_sig := sig, pk_next_id := pk_next_id p + 1 \<rparr>)"
  by (auto simp: rotate_signed_prekey_def bindR_Inr_iff split: if_splits)

lemma previous_id_Some [simp]: "previous_id (Some (x, i, y)) = [i]"
  by (simp add: previous_id_def)

lemma entries_of_filter: "entries_of k (filter Q xs) \<le> entries_of k xs"
  by (induction xs) (auto simp: entries_of_def)

lemma fresh_ids:
  fixes n :: int
  assumes "set ids' \<subseteq> insert n (set ids)" "0 \<notin> set ids" "\<forall>i \<in> set ids. i < n" "0 < n"
  shows "0 \<notin> set ids' \<and> (\<forall>i \<in> set ids'. i < n + 1)"
proof -
  have "i = n \<or> i \<in> set ids" if "i \<in> set ids'" for i using assms(1) that by blast
  then show ?thesis using assms(2-4) by fastforce
qed

lemma signed_rotation_semantic:
  assumes ok: "prekey_store_semantic p" and pos: "0 < pk_next_id p"
    and run: "rotate_signed_prekey p secret new_secret z = Inr q"
  shows "prekey_store_semantic q"
  using rotate_signed_Inr [OF run]
proof (elim disjE exE)
  fix sig assume q: "q = p\<lparr> pk_previous_signed :=
                      Some (pk_signed_prekey_secret p, pk_signed_prekey_id p, pk_signed_prekey_sig p),
                    pk_signed_prekey_secret := new_secret, pk_signed_prekey_id := pk_next_id p,
                    pk_signed_prekey_sig := sig, pk_next_id := pk_next_id p + 1 \<rparr>"
  have "set (store_ids q) \<subseteq> insert (pk_next_id p) (set (store_ids p))"
    by (auto simp: q store_ids_def)
  moreover have "pk_next_id p \<notin> set (store_ids p)" using ok by (auto simp: semantic_iff)
  then have "distinct (store_ids q)"
    using ok by (auto simp: q semantic_iff store_ids_def)
  moreover have "live_kem_ids q = live_kem_ids p" by (simp add: q live_kem_ids_def)
  ultimately show ?thesis
    using ok fresh_ids [of "store_ids q" "pk_next_id p" "store_ids p"] pos unfolding semantic_iff by (simp add: q)
qed (use ok in simp)

lemma kem_rotation_semantic:
  assumes ok: "prekey_store_semantic p" and pos: "0 < pk_next_id p"
  shows "prekey_store_semantic (kem_rotated p new_pair sig)
    \<longleftrightarrow> set (previous_id (pk_previous_kem p)) \<inter> set (pk_legacy_blocked p) = {}"
proof -
  let ?q = "kem_rotated p new_pair sig" and ?w = "set (previous_id (pk_previous_kem p))"
  have fresh: "pk_next_id p \<notin> set (store_ids p)" using ok by (auto simp: semantic_iff)
  have ids: "set (store_ids ?q) \<subseteq> insert (pk_next_id p) (set (store_ids p))" "distinct (store_ids ?q)"
    using ok fresh by (auto simp: kem_rotated_def semantic_iff store_ids_def)
  have live: "live_kem_ids ?q = {pk_next_id p, pk_kem_id p}" "live_kem_ids p = insert (pk_kem_id p) ?w"
    by (auto simp: kem_rotated_def live_kem_ids_def)
  have apart: "pk_kem_id p \<notin> ?w" "pk_next_id p \<notin> ?w" "pk_kem_id p \<noteq> pk_next_id p"
    using ok fresh by (auto simp: semantic_iff store_ids_def)
  have seen: "\<forall>e \<in> set (pk_seen ?q). fst e \<in> live_kem_ids ?q"
    "\<forall>e \<in> set (pk_seen ?q). entries_of (fst e) (pk_seen ?q) \<le> MAX_LAST_RESORT_SEEN" "distinct (map snd (pk_seen ?q))"
    using ok live order_trans [OF entries_of_filter] by (auto simp: kem_rotated_def semantic_iff distinct_map_filter)
  have "set (pk_legacy_blocked ?q) \<subseteq> live_kem_ids ?q \<longleftrightarrow> ?w \<inter> set (pk_legacy_blocked p) = {}"
    using ok live apart by (auto simp: kem_rotated_def semantic_iff)
  then show ?thesis
    using ok fresh_ids [OF ids(1)] ids(2) pos seen unfolding semantic_iff by (simp add: kem_rotated_def)
qed

text \<open>When a KEM rotation that succeeds leaves the rules true.\<close>

lemma rotate_kem_semantic:
  assumes ok: "prekey_store_semantic p" and pos: "0 < pk_next_id p" and run: "rotate_kem p secret new_pair z = Inr q"
  shows "prekey_store_semantic q \<longleftrightarrow>
    pk_next_id p \<ge> U32_MAX \<or> set (previous_id (pk_previous_kem p)) \<inter> set (pk_legacy_blocked p) = {}"
proof (cases "pk_next_id p \<ge> U32_MAX")
  case True
  then have "q = p" using run by (auto simp: rotate_kem_def bindR_Inr_iff)
  with True ok show ?thesis by simp
next
  case False
  then have "\<exists>sig. q = kem_rotated p new_pair sig"
    using run kem_rotated_run [of p new_pair] by (auto simp: rotate_kem_def bindR_Inr_iff Let_def)
  with False show ?thesis using kem_rotation_semantic [OF ok pos] by auto
qed

end
