(* ===== verification/Pqxdh.thy ===== *)
theory Pqxdh
  imports Prekeys
begin

text \<open>
  Session establishment, \<open>tacenta_reader/pqxdh.py\<close>: the derivation of the shared secret, the agreements of
  both sides, the checks of the KEM's inputs, the last-resort replay record and the repeated initial message.
\<close>

section \<open>Derivation\<close>

definition pqxdh_kdf :: "bytes \<Rightarrow> bytes" where
  "pqxdh_kdf km = hkdf (zeros 32) (PQXDH_F @ km) SK_INFO 32"

definition shared_secret :: "bytes \<Rightarrow> bytes \<Rightarrow> bytes \<Rightarrow> bytes option \<Rightarrow> bytes \<Rightarrow> bytes res" where
  "shared_secret dh1 dh2 dh3 dh4 ss =
     (if list_ex (\<lambda>v. length v \<noteq> 32) ([dh1, dh2, dh3] @ (case dh4 of None \<Rightarrow> [] | Some v \<Rightarrow> [v]))
      then Inl (PyE ValueError)
      else Inr (pqxdh_kdf (dh1 @ dh2 @ dh3 @ (case dh4 of None \<Rightarrow> [] | Some v \<Rightarrow> v) @ ss)))"

definition associated_data :: "bytes \<Rightarrow> bytes \<Rightarrow> bytes res" where
  "associated_data ika_pub ikb_pub =
     bindR (encode_ec ika_pub) (\<lambda>a. bindR (encode_ec ikb_pub) (\<lambda>b. Inr (a @ b)))"

text \<open>\<open>f(x) if x is not None else None\<close>.\<close>

definition optR :: "('a \<Rightarrow> 'b res) \<Rightarrow> 'a option \<Rightarrow> 'b option res" where
  "optR f v = (case v of None \<Rightarrow> Inr None | Some x \<Rightarrow> bindR (f x) (\<lambda>y. Inr (Some y)))"

definition initiator_agreements ::
  "bytes \<Rightarrow> bytes \<Rightarrow> bytes \<Rightarrow> bytes \<Rightarrow> bytes option \<Rightarrow> (bytes \<times> bytes \<times> bytes \<times> bytes option) res" where
  "initiator_agreements ika_priv eka_priv ikb_pub spkb_pub opkb_pub =
     bindR (x25519_contributory ika_priv spkb_pub) (\<lambda>dh1.
     bindR (x25519_contributory eka_priv ikb_pub) (\<lambda>dh2.
     bindR (x25519_contributory eka_priv spkb_pub) (\<lambda>dh3.
     bindR (optR (x25519_contributory eka_priv) opkb_pub) (\<lambda>dh4.
     Inr (dh1, dh2, dh3, dh4)))))"

definition responder_agreements ::
  "bytes \<Rightarrow> bytes \<Rightarrow> bytes option \<Rightarrow> bytes \<Rightarrow> bytes \<Rightarrow> (bytes \<times> bytes \<times> bytes \<times> bytes option) res" where
  "responder_agreements ikb_priv spkb_priv opkb_priv ika_pub eka_pub =
     bindR (x25519_contributory spkb_priv ika_pub) (\<lambda>dh1.
     bindR (x25519_contributory ikb_priv eka_pub) (\<lambda>dh2.
     bindR (x25519_contributory spkb_priv eka_pub) (\<lambda>dh3.
     bindR (optR (\<lambda>k. x25519_contributory k eka_pub) opkb_priv) (\<lambda>dh4.
     Inr (dh1, dh2, dh3, dh4)))))"

section \<open>The KEM's inputs\<close>

definition check_kem_prekey :: "bytes \<Rightarrow> int \<Rightarrow> unit res" where
  "check_kem_prekey ek ek_len =
     (if int (length ek) \<noteq> ek_len then Inl (SessionE KemPrekeyRefused)
      else bindR (modulus_ok (take 1536 ek)) (\<lambda>ok. if \<not> ok then Inl (SessionE KemPrekeyRefused) else Inr ()))"

definition check_kem_ciphertext :: "bytes \<Rightarrow> int \<Rightarrow> unit res" where
  "check_kem_ciphertext kem_ciphertext ct_len =
     (if int (length kem_ciphertext) \<noteq> ct_len then Inl (SessionE KemCiphertextRefused) else Inr ())"

section \<open>The last-resort replay record\<close>

definition handshake_keys :: "initial_message \<Rightarrow> (bytes \<times> bytes) res" where
  "handshake_keys m =
     bindR (decode_ec (im_identity m)) (\<lambda>ika. bindR (decode_ec (im_ephemeral m)) (\<lambda>eka. Inr (ika, eka)))"

definition last_resort_fingerprint :: "bytes \<Rightarrow> bytes res" where
  "last_resort_fingerprint sk =
     (if length sk \<noteq> 32 then Inl (PyE ValueError) else Inr (hmac_sha256 LAST_RESORT_HANDSHAKE_LABEL sk))"

definition on_last_resort_path :: "prekey_store \<Rightarrow> int \<Rightarrow> bool" where
  "on_last_resort_path store kem_prekey_id \<longleftrightarrow>
     kem_prekey_id = pk_kem_id store
     \<or> (case pk_previous_kem store of None \<Rightarrow> False | Some (_, i, _) \<Rightarrow> kem_prekey_id = i)"

definition check_last_resort :: "prekey_store \<Rightarrow> initial_message \<Rightarrow> bytes option \<Rightarrow> bytes option res" where
  "check_last_resort store m sk =
     bindR (handshake_keys m) (\<lambda>_.
     if \<not> on_last_resort_path store (im_kem_prekey_id m) then Inr None
     else
       (case sk of
          None \<Rightarrow> Inl (PyE ValueError)
        | Some sk \<Rightarrow>
            bindR (last_resort_fingerprint sk) (\<lambda>fp.
            if list_ex (\<lambda>(_, f). f = fp) (pk_seen store) then Inl (SessionE ReplayedLastResort)
            else if entries_of (im_kem_prekey_id m) (pk_seen store) \<ge> MAX_LAST_RESORT_SEEN
            then Inl (SessionE LastResortRecordFull)
            else Inr (Some fp))))"

text \<open>
  \<open>receive_last_resort\<close>: the callback \<open>authenticate\<close> is its \<open>shared_secret\<close> attribute and what calling it
  does, which happens only after the check.
\<close>

definition receive_last_resort ::
  "prekey_store \<Rightarrow> initial_message \<Rightarrow> bytes option \<Rightarrow> (unit \<Rightarrow> 'a res) \<Rightarrow> (prekey_store \<times> 'a) res" where
  "receive_last_resort store m sk authenticate =
     bindR (check_last_resort store m sk) (\<lambda>fp.
     bindR (authenticate ()) (\<lambda>result.
     (case fp of
        None \<Rightarrow> Inr (store, result)
      | Some fp \<Rightarrow> Inr (store\<lparr> pk_seen := pk_seen store @ [(im_kem_prekey_id m, fp)] \<rparr>, result))))"

section \<open>A repeated initial message\<close>

definition accept_repeated_initial ::
  "bool \<Rightarrow> bytes \<Rightarrow> bytes option \<Rightarrow> bytes option \<Rightarrow> initial_message \<Rightarrow> unit res" where
  "accept_repeated_initial is_responder ratchet_private established_ephemeral peer_identity_public m =
     (case established_ephemeral of
        None \<Rightarrow> Inl (SessionE NotARepeatedInitial)
      | Some ee \<Rightarrow>
          if \<not> is_responder then Inl (SessionE NotARepeatedInitial)
          else
            bindR (catchR
                (bindR (decode_ec ee) (\<lambda>k. bindR (x25519_contributory ratchet_private k) (\<lambda>established.
                 bindR (decode_ec (im_ephemeral m)) (\<lambda>k. bindR (x25519_contributory ratchet_private k) (\<lambda>incoming.
                 Inr (established, incoming))))))
                (\<lambda>err. is_ValueError err \<or> err = CryptoE NonContributory)
                (\<lambda>_. Inl (SessionE NotARepeatedInitial))) (\<lambda>(established, incoming).
            if established \<noteq> incoming then Inl (SessionE NotARepeatedInitial)
            else
              (case peer_identity_public of
                 None \<Rightarrow> Inl (SessionE NotARepeatedInitial)
               | Some peer \<Rightarrow>
                   bindR (encode_ec peer) (\<lambda>e.
                   if im_identity m \<noteq> e then Inl (SessionE NotARepeatedInitial) else Inr ()))))"

definition receive_repeated_initial :: "session_state \<Rightarrow> bytes \<Rightarrow> (bytes \<Rightarrow> 'a res) \<Rightarrow> 'a res" where
  "receive_repeated_initial session raw decrypt_inner =
     bindR (decode_initial raw) (\<lambda>m.
     bindR (accept_repeated_initial (\<not> is_initiator session) (ss_ratchet_private session)
              (ss_established_ephemeral session) (Some (ss_peer_identity_public session)) m) (\<lambda>_.
     decrypt_inner (im_ratchet_message m)))"

section \<open>The replay record\<close>

lemma on_path_live: "on_last_resort_path p k \<longleftrightarrow> k \<in> live_kem_ids p"
  by (auto simp: on_last_resort_path_def live_kem_ids_def previous_id_def split: option.splits)

lemma check_last_resort_iff:
  "check_last_resort p m sk = Inr (Some fp) \<longleftrightarrow>
     (\<exists>keys. handshake_keys m = Inr keys) \<and> im_kem_prekey_id m \<in> live_kem_ids p
     \<and> (\<exists>s. sk = Some s \<and> length s = 32 \<and> fp = hmac_sha256 LAST_RESORT_HANDSHAKE_LABEL s)
     \<and> fp \<notin> set (map snd (pk_seen p)) \<and> entries_of (im_kem_prekey_id m) (pk_seen p) < MAX_LAST_RESORT_SEEN"
  by (cases sk)
    (force simp: check_last_resort_def bindR_Inr_iff on_path_live last_resort_fingerprint_def list_ex_iff not_le)+

lemma entries_of_snoc: "entries_of k (xs @ [(j, f)]) = entries_of k xs + (if j = k then 1 else 0)"
  by (simp add: entries_of_def)

text \<open>Recording an accepted handshake changes nothing about the store's rules.\<close>

lemma recorded_semantic:
  assumes fp: "check_last_resort p m sk = Inr (Some fp)"
  shows "prekey_store_semantic (p\<lparr> pk_seen := pk_seen p @ [(im_kem_prekey_id m, fp)] \<rparr>) \<longleftrightarrow> prekey_store_semantic p"
proof -
  let ?q = "p\<lparr> pk_seen := pk_seen p @ [(im_kem_prekey_id m, fp)] \<rparr>"
  have ids: "store_ids ?q = store_ids p" "live_kem_ids ?q = live_kem_ids p"
    by (simp_all add: store_ids_def live_kem_ids_def)
  have new: "fp \<notin> set (map snd (pk_seen p))" "im_kem_prekey_id m \<in> live_kem_ids p"
    "entries_of (im_kem_prekey_id m) (pk_seen p) < MAX_LAST_RESORT_SEEN"
    using fp by (simp_all add: check_last_resort_iff)
  have room: "entries_of k (pk_seen ?q) \<le> MAX_LAST_RESORT_SEEN \<longleftrightarrow> entries_of k (pk_seen p) \<le> MAX_LAST_RESORT_SEEN" for k
    using new(3) by (auto simp: entries_of_snoc)
  have "(\<forall>e \<in> set (pk_seen ?q). entries_of (fst e) (pk_seen ?q) \<le> MAX_LAST_RESORT_SEEN) \<longleftrightarrow>
      (\<forall>e \<in> set (pk_seen p). entries_of (fst e) (pk_seen p) \<le> MAX_LAST_RESORT_SEEN)"
    unfolding room using new(3) by simp
  then show ?thesis unfolding semantic_iff ids using new(1,2) by simp
qed

text \<open>Once recorded, the same shared secret is refused on the last-resort path, whatever key it names.\<close>

lemma recorded_replayed:
  assumes "check_last_resort p m (Some sk) = Inr (Some fp)" "handshake_keys m' = Inr keys"
    "im_kem_prekey_id m' \<in> live_kem_ids p"
  shows "check_last_resort (p\<lparr> pk_seen := pk_seen p @ [(k, fp)] \<rparr>) m' (Some sk) = Inl (SessionE ReplayedLastResort)"
proof -
  let ?q = "p\<lparr> pk_seen := pk_seen p @ [(k, fp)] \<rparr>"
  have "live_kem_ids ?q = live_kem_ids p" by (simp add: live_kem_ids_def)
  moreover have "length sk = 32" "fp = hmac_sha256 LAST_RESORT_HANDSHAKE_LABEL sk"
    using assms(1) by (auto simp: check_last_resort_iff)
  ultimately show ?thesis
    using assms(2,3) by (simp add: check_last_resort_def on_path_live last_resort_fingerprint_def)
qed

lemma receive_last_resort_iff:
  "receive_last_resort p m sk auth = Inr (q, x) \<longleftrightarrow>
     (\<exists>fp. check_last_resort p m sk = Inr fp \<and> auth () = Inr x
        \<and> q = (case fp of None \<Rightarrow> p | Some f \<Rightarrow> p\<lparr> pk_seen := pk_seen p @ [(im_kem_prekey_id m, f)] \<rparr>))"
  by (auto simp: receive_last_resort_def bindR_Inr_iff split: option.splits)

section \<open>The repeated initial message\<close>

lemma accept_repeated_iff:
  "accept_repeated_initial is_resp priv ee peer m = Inr () \<longleftrightarrow>
     is_resp \<and> (\<exists>e k k' out pk. ee = Some e \<and> decode_ec e = Inr k \<and> decode_ec (im_ephemeral m) = Inr k'
       \<and> x25519_contributory priv k = Inr out \<and> x25519_contributory priv k' = Inr out
       \<and> peer = Some pk \<and> encode_ec pk = Inr (im_identity m))"
proof -
  have catch: "catchR x E (\<lambda>_. Inl err) = Inr y \<longleftrightarrow> x = Inr y" for x :: "'b res" and E err y
    by (cases x) simp_all
  show ?thesis
    by (cases ee; cases peer) (auto simp: accept_repeated_initial_def bindR_Inr_iff catch)
qed

lemma receive_repeated_iff:
  "receive_repeated_initial session raw decrypt_inner = Inr x \<longleftrightarrow>
     (\<exists>m. decode_initial raw = Inr m
        \<and> accept_repeated_initial (\<not> is_initiator session) (ss_ratchet_private session)
            (ss_established_ephemeral session) (Some (ss_peer_identity_public session)) m = Inr ()
        \<and> decrypt_inner (im_ratchet_message m) = Inr x)"
  by (auto simp: receive_repeated_initial_def bindR_Inr_iff)

end
