(* ===== verification/Effects.thy ===== *)
theory Effects
  imports Prelude
begin

text \<open>
  Steps that may raise and also change an object the caller can inspect, whether they raise or not: the
  counters and the byte source of \<open>admission.py\<close>, the caller's policy of \<open>inventory.py\<close>.  Such a step
  takes the object's state and returns its result together with the new state.
\<close>

definition bindS :: "('w \<Rightarrow> 'a res \<times> 'w) \<Rightarrow> ('a \<Rightarrow> 'w \<Rightarrow> 'b res \<times> 'w) \<Rightarrow> 'w \<Rightarrow> 'b res \<times> 'w" where
  "bindS m f w = (case m w of (Inl err, w) \<Rightarrow> (Inl err, w) | (Inr x, w) \<Rightarrow> f x w)"

definition liftS :: "'a res \<Rightarrow> 'w \<Rightarrow> 'a res \<times> 'w" where
  "liftS m w = (m, w)"

lemma bindS_lift [simp]: "bindS (liftS m) f w = (case m of Inl err \<Rightarrow> (Inl err, w) | Inr x \<Rightarrow> f x w)"
  by (cases m) (simp_all add: bindS_def liftS_def)

lemma liftS_simp [simp]: "liftS m w = (m, w)"
  by (simp add: liftS_def)

lemma bindS_assoc: "bindS (bindS m f) h w = bindS m (\<lambda>x. bindS (f x) h) w"
  by (simp add: bindS_def split: prod.splits sum.splits)

lemma bindS_run: "m w = (Inr x, w') \<Longrightarrow> bindS m f w = f x w'" "m w = (Inl err, w') \<Longrightarrow> bindS m f w = (Inl err, w')"
  by (simp_all add: bindS_def)

text \<open>\<open>runs R m r\<close>: the step returns \<open>r\<close> from every state, and changes the state only along \<open>R\<close>.\<close>

definition runs :: "('w \<Rightarrow> 'w \<Rightarrow> bool) \<Rightarrow> ('w \<Rightarrow> 'a res \<times> 'w) \<Rightarrow> 'a res \<Rightarrow> bool" where
  "runs R m r \<longleftrightarrow> (\<forall>w. fst (m w) = r \<and> (\<forall>w0. R w0 w \<longrightarrow> R w0 (snd (m w))))"

lemma runsD: "runs R m r \<Longrightarrow> fst (m w) = r" "runs R m r \<Longrightarrow> R w0 w \<Longrightarrow> R w0 (snd (m w))"
  by (auto simp: runs_def)

lemma runs_lift: "runs R (liftS r) r"
  by (simp add: runs_def)

lemma runs_bind:
  assumes m: "runs R m r" and f: "\<And>x. runs R (f x) (g x)"
  shows "runs R (bindS m f) (bindR r g)"
  unfolding runs_def
proof (intro allI)
  fix w
  obtain y w' where y: "m w = (y, w')" by (cases "m w")
  with runsD [OF m] have "y = r" "\<And>w0. R w0 w \<Longrightarrow> R w0 w'" by (metis fst_conv, metis snd_conv)
  with runsD [OF f] y show "fst (bindS m f w) = bindR r g \<and> (\<forall>w0. R w0 w \<longrightarrow> R w0 (snd (bindS m f w)))"
    by (cases r) (auto simp: bindS_def)
qed

lemma runs_if: "runs R a a' \<Longrightarrow> runs R b b' \<Longrightarrow> runs R (if c then a else b) (if c then a' else b')"
  by simp

end
