(* ===== verification/Admission.thy ===== *)
theory Admission
  imports Pqxdh Records Effects
begin

text \<open>
  The establishment steps around the identity-key rule, \<open>tacenta_reader/admission.py\<close>.  The counters and
  the byte source are mutable objects the caller inspects after a refusal, so each prefix returns its result
  together with them (theory Effects).
\<close>

section \<open>The byte source and the counters\<close>

record rng =
  rg_seed :: bytes
  rg_n :: int
  rg_draws :: "int list"

text \<open>The loop of \<open>draw\<close>; each round appends the 32 bytes of a digest.\<close>

function draw_loop :: "bytes \<Rightarrow> nat \<Rightarrow> int \<Rightarrow> bytes \<Rightarrow> bytes res \<times> int" where
  "draw_loop seed want n out =
     (if length out < want
      then (case to_bytes_be 8 n of
              Inl err \<Rightarrow> (Inl err, n)
            | Inr d \<Rightarrow> draw_loop seed want (n + 1) (out @ sha256 (seed @ d)))
      else (Inr (take want out), n))"
  by pat_completeness auto
termination
  by (relation "measure (\<lambda>(seed, want, n, out). want - length out)") (auto simp: length_sha256)

declare draw_loop.simps [simp del]

definition rng_draw :: "rng \<Rightarrow> nat \<Rightarrow> bytes res \<times> rng" where
  "rng_draw g want =
     (let (out, n) = draw_loop (rg_seed g) want (rg_n g) []
      in (out, g\<lparr> rg_n := n, rg_draws := rg_draws g @ [int want] \<rparr>))"

record counters =
  ct_signatures_verified :: int
  ct_agreements :: int
  ct_encapsulations :: int
  ct_private_keys_used :: int
  ct_stored_state_changes :: int

section \<open>The initiator\<close>

record InitiatorPrefix =
  ip_identity_key :: bytes
  ip_dh :: "bytes \<times> bytes \<times> bytes \<times> bytes option"
  ip_ephemeral_secret :: bytes
  ip_encapsulation_m :: bytes

text \<open>\<open>wire.initiator_check_bundle\<close> with a verifier that has effects.\<close>

definition check_bundle_with ::
  "prekey_bundle \<Rightarrow> expectation \<Rightarrow> (bytes \<Rightarrow> bytes \<Rightarrow> bytes \<Rightarrow> 'w \<Rightarrow> bytes option \<times> 'w) \<Rightarrow> int option \<Rightarrow>
    'w \<Rightarrow> unit res \<times> 'w" where
  "check_bundle_with b ex verify kem_prekey_len =
     bindS (liftS (check_expectation_wellformed ex)) (\<lambda>_.
     if \<not> is_canonical_curve_key (pb_identity_key b) \<or> \<not> is_canonical_curve_key (pb_signed_prekey b)
        \<or> (case pb_one_time_prekey b of None \<Rightarrow> False | Some k \<Rightarrow> \<not> is_canonical_curve_key k)
     then liftS (Inl (WireE NonCanonicalBundleKey))
     else if (pb_one_time_prekey b \<noteq> None) \<noteq> (pb_one_time_prekey_id b \<noteq> ABSENT_ID)
     then liftS (Inl (WireE InconsistentBundle))
     else
       bindS (liftS (check_bundle_identity ex (pb_identity_key b))) (\<lambda>_.
       if \<not> is_identity_key (pb_identity_key b) then liftS (Inl (WireE InvalidIdentityKey))
       else
         bindS (liftS (encode_ec (pb_signed_prekey b))) (\<lambda>spk w.
         let (ok, w) = verify (pb_identity_key b) spk (pb_signed_prekey_signature b) w
         in if ok = None then (Inl (WireE BundleSignatureFails), w)
            else
              (let width = (case kem_prekey_len of None \<Rightarrow> int (length (pb_kem_prekey b)) | Some n \<Rightarrow> n)
               in bindS (liftS (encode_kem (pb_kem_prekey b) width)) (\<lambda>kem w.
                  let (ok, w) = verify (pb_identity_key b) kem (pb_kem_prekey_signature b) w
                  in if ok = None then (Inl (WireE BundleSignatureFails), w) else (Inr (), w)) w))))"

definition counting_verify :: "bytes \<Rightarrow> bytes \<Rightarrow> bytes \<Rightarrow> counters \<times> rng \<Rightarrow> bytes option \<times> counters \<times> rng" where
  "counting_verify u msg sig = (\<lambda>(c, g).
     (xeddsa_verify u msg sig, c\<lparr> ct_signatures_verified := ct_signatures_verified c + 1 \<rparr>, g))"

definition draw_from :: "nat \<Rightarrow> counters \<times> rng \<Rightarrow> bytes res \<times> counters \<times> rng" where
  "draw_from n = (\<lambda>(c, g). let (out, g) = rng_draw g n in (out, c, g))"

definition counted_dh :: "bytes \<Rightarrow> bytes \<Rightarrow> counters \<times> rng \<Rightarrow> bytes res \<times> counters \<times> rng" where
  "counted_dh k u = (\<lambda>(c, g). (x25519_contributory k u, c\<lparr> ct_agreements := ct_agreements c + 1 \<rparr>, g))"

text \<open>A bundle arrives as bytes or already decoded.\<close>

definition bundle_of :: "bytes + prekey_bundle \<Rightarrow> prekey_bundle res" where
  "bundle_of given = (case given of Inl b \<Rightarrow> decode_bundle b (Some MLKEM1024_EK_LEN) | Inr b \<Rightarrow> Inr b)"

definition initiator_prefix ::
  "bytes + prekey_bundle \<Rightarrow> bytes \<Rightarrow> expectation \<Rightarrow> counters \<times> rng \<Rightarrow> InitiatorPrefix res \<times> counters \<times> rng" where
  "initiator_prefix given ika ex =
     bindS (liftS (check_expectation_wellformed ex)) (\<lambda>_.
     bindS (liftS (bundle_of given)) (\<lambda>b.
     bindS (check_bundle_with b ex counting_verify None) (\<lambda>_.
     bindS (liftS (check_kem_prekey (pb_kem_prekey b) MLKEM1024_EK_LEN)) (\<lambda>_.
     bindS (draw_from 32) (\<lambda>eka.
     bindS (draw_from 32) (\<lambda>m.
     bindS (counted_dh ika (pb_signed_prekey b)) (\<lambda>dh1.
     bindS (counted_dh eka (pb_identity_key b)) (\<lambda>dh2.
     bindS (counted_dh eka (pb_signed_prekey b)) (\<lambda>dh3.
     bindS (case pb_one_time_prekey b of
              None \<Rightarrow> liftS (Inr None)
            | Some k \<Rightarrow> bindS (counted_dh eka k) (\<lambda>dh. liftS (Inr (Some dh)))) (\<lambda>dh4.
     liftS (Inr \<lparr> ip_identity_key = pb_identity_key b, ip_dh = (dh1, dh2, dh3, dh4),
                  ip_ephemeral_secret = eka, ip_encapsulation_m = m \<rparr>)))))))))))"

section \<open>The responder\<close>

record ResponderPrefix =
  rp_identity_key :: bytes
  rp_signed_prekey_id :: int
  rp_kem_prekey_id :: int
  rp_one_time_prekey_id :: int

definition find_signed_prekey :: "prekey_store \<Rightarrow> int \<Rightarrow> bytes option" where
  "find_signed_prekey store prekey_id =
     (if prekey_id = pk_signed_prekey_id store then Some (pk_signed_prekey_secret store)
      else
        (case pk_previous_signed store of
           None \<Rightarrow> None
         | Some (sec, i, _) \<Rightarrow> if prekey_id = i then Some sec else None))"

fun find_kem_loop :: "(int \<times> bytes \<times> bytes) list \<Rightarrow> int \<Rightarrow> bytes option" where
  "find_kem_loop [] prekey_id = None"
| "find_kem_loop ((i, kp, _) # r) prekey_id = (if i = prekey_id then Some kp else find_kem_loop r prekey_id)"

definition find_kem_prekey :: "prekey_store \<Rightarrow> int \<Rightarrow> bytes option" where
  "find_kem_prekey store prekey_id =
     (if prekey_id = pk_kem_id store then Some (pk_kem_pair store)
      else
        (case pk_previous_kem store of
           Some (kp, i, _) \<Rightarrow>
             if prekey_id = i then Some kp else find_kem_loop (pk_kem_one_time store) prekey_id
         | None \<Rightarrow> find_kem_loop (pk_kem_one_time store) prekey_id))"

definition store_of :: "bytes + prekey_store \<Rightarrow> prekey_store res" where
  "store_of store = (case store of Inl b \<Rightarrow> prekey_store_from_bytes b | Inr p \<Rightarrow> Inr p)"

definition responder_prefix :: "bytes + prekey_store \<Rightarrow> bytes \<Rightarrow> ResponderPrefix res" where
  "responder_prefix store message =
     bindR (store_of store) (\<lambda>store.
     bindR (decode_initial message) (\<lambda>m.
     if find_signed_prekey store (im_signed_prekey_id m) = None then Inl (SessionE UnknownPrekey)
     else if find_kem_prekey store (im_kem_prekey_id m) = None then Inl (SessionE UnknownPrekey)
     else
       bindR (decode_ec (im_identity m)) (\<lambda>ika.
       if \<not> is_identity_key ika then Inl (WireE InvalidIdentityKey)
       else if one_time_prekey_used m \<and> list_all (\<lambda>(i, _). i \<noteq> im_one_time_prekey_id m) (pk_one_time store)
       then Inl (SessionE UnknownPrekey)
       else
         bindR (check_kem_ciphertext (im_kem_ciphertext m) MLKEM1024_CT_LEN) (\<lambda>_.
         Inr \<lparr> rp_identity_key = ika, rp_signed_prekey_id = im_signed_prekey_id m,
               rp_kem_prekey_id = im_kem_prekey_id m, rp_one_time_prekey_id = im_one_time_prekey_id m \<rparr>))))"

text \<open>
  The responder's agreements for a message; \<open>next\<close> on an exhausted generator raises \<open>StopIteration\<close>, and
  passing on a missing signed prekey raises where its length is taken.
\<close>

definition store_agreements ::
  "prekey_store \<Rightarrow> bytes \<Rightarrow> bytes \<Rightarrow> (bytes \<times> bytes \<times> bytes \<times> bytes option) res" where
  "store_agreements store message identity_secret =
     bindR (decode_initial message) (\<lambda>m.
     let spkb = find_signed_prekey store (im_signed_prekey_id m)
     in bindR (if one_time_prekey_used m
               then (case filter (\<lambda>(i, _). i = im_one_time_prekey_id m) (pk_one_time store) of
                       [] \<Rightarrow> Inl (PyE StopIteration) | (_, sec) # _ \<Rightarrow> Inr (Some sec))
               else Inr None) (\<lambda>opkb.
        bindR (decode_ec (im_identity m)) (\<lambda>ika.
        bindR (decode_ec (im_ephemeral m)) (\<lambda>eka.
        (case spkb of
           None \<Rightarrow> Inl (PyE TypeError)
         | Some spkb \<Rightarrow> Pqxdh.responder_agreements identity_secret spkb opkb ika eka)))))"

section \<open>What a refusal leaves undone\<close>

text \<open>The verifier's effects do not change the verdict, and only the verifier has effects.\<close>

lemma runs_verify:
  assumes v: "\<And>w. fst (m w) = ok" "\<And>w w0. R w0 w \<Longrightarrow> R w0 (snd (m w))" and k: "runs R k r"
  shows "runs R (\<lambda>w. case m w of (ok, w) \<Rightarrow> if ok = None then (Inl err, w) else k w)
    (if ok = None then Inl err else r)"
  unfolding runs_def
proof (intro allI)
  fix w
  obtain y w' where y: "m w = (y, w')" by (cases "m w")
  with v have "y = ok" "\<And>w0. R w0 w \<Longrightarrow> R w0 w'" by (metis fst_conv, metis snd_conv)
  with runsD [OF k] y show "fst (case m w of (ok, w) \<Rightarrow> if ok = None then (Inl err, w) else k w)
      = (if ok = None then Inl err else r) \<and>
      (\<forall>w0. R w0 w \<longrightarrow> R w0 (snd (case m w of (ok, w) \<Rightarrow> if ok = None then (Inl err, w) else k w)))"
    by auto
qed

lemma check_bundle_with_runs:
  assumes v: "\<And>u msg sig w. fst (verify u msg sig w) = pure u msg sig"
    and R: "\<And>u msg sig w w0. R w0 w \<Longrightarrow> R w0 (snd (verify u msg sig w))"
  shows "runs R (check_bundle_with b ex verify n) (initiator_check_bundle b ex pure n)"
  unfolding check_bundle_with_def initiator_check_bundle_def Let_def
  by (intro runs_bind runs_if runs_lift runs_verify v R; (erule R)?; (simp add: runs_def)?)

text \<open>Everything the counters and the byte source show but the number of signatures verified.\<close>

definition same_work :: "counters \<times> rng \<Rightarrow> counters \<times> rng \<Rightarrow> bool" where
  "same_work w w' \<longleftrightarrow>
     snd w' = snd w \<and> (\<exists>n. fst w' = (fst w)\<lparr> ct_signatures_verified := n \<rparr>)"

lemma same_work_refl [simp]: "same_work w w"
  by (auto simp: same_work_def intro: exI [of _ "ct_signatures_verified (fst w)"])

lemma same_work_agreements: "same_work w w' \<Longrightarrow> ct_agreements (fst w') = ct_agreements (fst w) \<and> snd w' = snd w"
  by (auto simp: same_work_def)

lemma counting_runs: "runs same_work (check_bundle_with b ex counting_verify n) (initiator_check_bundle b ex xeddsa_verify n)"
  by (rule check_bundle_with_runs) (auto simp: counting_verify_def same_work_def split: prod.splits)

text \<open>The checks before the first draw, as one pure step.\<close>

definition initiator_checks :: "bytes + prekey_bundle \<Rightarrow> expectation \<Rightarrow> prekey_bundle res" where
  "initiator_checks given ex =
     bindR (check_expectation_wellformed ex) (\<lambda>_.
     bindR (bundle_of given) (\<lambda>b.
     bindR (initiator_check_bundle b ex xeddsa_verify None) (\<lambda>_.
     bindR (check_kem_prekey (pb_kem_prekey b) MLKEM1024_EK_LEN) (\<lambda>_. Inr b))))"

lemma initiator_refused:
  "fst (initiator_prefix given ika ex w) = Inl err \<and> same_work w (snd (initiator_prefix given ika ex w))"
  if "initiator_checks given ex = Inl err"
proof (cases "bindR (check_expectation_wellformed ex) (\<lambda>_. bundle_of given)")
  case (Inl e')
  with that show ?thesis
    by (auto simp: initiator_checks_def initiator_prefix_def bindR_def split: sum.splits)
next
  case (Inr b)
  then have b: "check_expectation_wellformed ex = Inr ()" "bundle_of given = Inr b"
    by (auto simp: res_iff)
  obtain r c g where r: "check_bundle_with b ex counting_verify None w = (r, c, g)"
    by (cases "check_bundle_with b ex counting_verify None w") auto
  with runsD [OF counting_runs [of b ex None]] have "r = initiator_check_bundle b ex xeddsa_verify None"
    "same_work w (c, g)"
    by (metis fst_conv, metis snd_conv same_work_refl)
  with b r that show ?thesis
    by (cases "check_kem_prekey (pb_kem_prekey b) MLKEM1024_EK_LEN")
      (auto simp: initiator_checks_def initiator_prefix_def bindR_def bindS_def [of "check_bundle_with b ex counting_verify None"]
        split: sum.splits)
qed

lemma bindS_draw: "rng_draw g n = (Inr x, g') \<Longrightarrow> bindS (draw_from n) f (c, g) = f x (c, g')"
  by (simp add: bindS_def draw_from_def)

lemma bindS_dh:
  "bindS (counted_dh k u) f (c, g) =
     (case x25519_contributory k u of
        Inl err \<Rightarrow> (Inl err, c\<lparr> ct_agreements := ct_agreements c + 1 \<rparr>, g)
      | Inr x \<Rightarrow> f x (c\<lparr> ct_agreements := ct_agreements c + 1 \<rparr>, g))"
  by (simp add: bindS_def counted_dh_def split: sum.splits)

lemma initiator_admitted:
  assumes "initiator_checks given ex = Inr b" "rng_draw g 32 = (Inr eka, g1)" "rng_draw g1 32 = (Inr m, g2)"
  shows "fst (initiator_prefix given ika ex (c, g)) =
      bindR (initiator_agreements ika eka (pb_identity_key b) (pb_signed_prekey b) (pb_one_time_prekey b)) (\<lambda>dh.
      Inr \<lparr> ip_identity_key = pb_identity_key b, ip_dh = dh, ip_ephemeral_secret = eka, ip_encapsulation_m = m \<rparr>)
    \<and> snd (snd (initiator_prefix given ika ex (c, g))) = g2"
proof -
  have b: "check_expectation_wellformed ex = Inr ()" "bundle_of given = Inr b"
    "initiator_check_bundle b ex xeddsa_verify None = Inr ()" "check_kem_prekey (pb_kem_prekey b) MLKEM1024_EK_LEN = Inr ()"
    using assms(1) by (auto simp: initiator_checks_def res_iff)
  obtain r c' g' where r: "check_bundle_with b ex counting_verify None (c, g) = (r, c', g')"
    by (cases "check_bundle_with b ex counting_verify None (c, g)") auto
  with runsD [OF counting_runs [of b ex None]] have "r = initiator_check_bundle b ex xeddsa_verify None"
    "same_work (c, g) (c', g')"
    by (metis fst_conv, metis snd_conv same_work_refl)
  with b r have "check_bundle_with b ex counting_verify None (c, g) = (Inr (), c', g)"
    by (simp add: same_work_def)
  then show ?thesis
    using b assms(2,3)
    by (simp add: initiator_prefix_def bindS_def [of "check_bundle_with b ex counting_verify None"]
        bindS_draw bindS_dh bindS_assoc initiator_agreements_def optR_def bindR_def split: sum.split option.split)
qed

lemma draw_32:
  assumes "0 \<le> rg_n g" "rg_n g < 2 ^ 64"
  shows "rng_draw g 32 = (Inr (sha256 (rg_seed g @ be_digits 8 (rg_n g))), g\<lparr> rg_n := rg_n g + 1, rg_draws := rg_draws g @ [32] \<rparr>)"
  using assms by (simp add: rng_draw_def draw_loop.simps length_sha256 to_bytes_be_def)

section \<open>What an accepted initial message names\<close>

lemma find_kem_loop_iff: "find_kem_loop xs i = None \<longleftrightarrow> i \<notin> fst ` set xs"
  by (induction xs i rule: find_kem_loop.induct) auto

lemma find_kem_iff:
  "find_kem_prekey p i = None \<longleftrightarrow> i \<notin> live_kem_ids p \<union> fst ` set (pk_kem_one_time p)"
  by (auto simp: find_kem_prekey_def live_kem_ids_def previous_id_def find_kem_loop_iff split: option.splits)

lemma decode_initial_ephemeral: "decode_initial b = Inr m \<Longrightarrow> \<exists>k. decode_ec (im_ephemeral m) = Inr k"
  by (auto simp: decode_initial_def res_iff)

lemma responder_prefix_iff:
  "responder_prefix (Inr p) b = Inr r \<longleftrightarrow>
     (\<exists>m spk ika. decode_initial b = Inr m \<and> find_signed_prekey p (im_signed_prekey_id m) = Some spk
        \<and> im_kem_prekey_id m \<in> live_kem_ids p \<union> fst ` set (pk_kem_one_time p)
        \<and> decode_ec (im_identity m) = Inr ika \<and> is_identity_key ika
        \<and> (im_one_time_prekey_id m = 0 \<or> im_one_time_prekey_id m \<in> fst ` set (pk_one_time p))
        \<and> int (length (im_kem_ciphertext m)) = MLKEM1024_CT_LEN
        \<and> r = \<lparr> rp_identity_key = ika, rp_signed_prekey_id = im_signed_prekey_id m,
               rp_kem_prekey_id = im_kem_prekey_id m, rp_one_time_prekey_id = im_one_time_prekey_id m \<rparr>)"
proof -
  have otk: "list_all (\<lambda>(i, _). i \<noteq> k) xs \<longleftrightarrow> k \<notin> fst ` set xs" for k :: int and xs :: "(int \<times> bytes) list"
    by (force simp: list_all_iff)
  have ct: "check_kem_ciphertext c n = Inr () \<longleftrightarrow> int (length c) = n" for c n
    by (simp add: check_kem_ciphertext_def)
  show ?thesis
  proof (cases "decode_initial b")
    case (Inr m)
    then show ?thesis
      unfolding responder_prefix_def store_of_def find_kem_iff one_time_prekey_used_def ABSENT_ID_def otk
      by (cases "decode_ec (im_identity m)"; cases "check_kem_ciphertext (im_kem_ciphertext m) MLKEM1024_CT_LEN")
        (auto simp: check_kem_ciphertext_def split: if_splits)
  qed (simp add: responder_prefix_def store_of_def)
qed

lemma store_agreements_eq:
  assumes "decode_initial b = Inr m" "find_signed_prekey p (im_signed_prekey_id m) = Some spk"
    "decode_ec (im_identity m) = Inr ika"
    "im_one_time_prekey_id m = 0 \<or> im_one_time_prekey_id m \<in> fst ` set (pk_one_time p)"
  shows "\<exists>opk eka. decode_ec (im_ephemeral m) = Inr eka
    \<and> (opk = None \<longleftrightarrow> im_one_time_prekey_id m = 0)
    \<and> (\<forall>k. opk = Some k \<longrightarrow> (im_one_time_prekey_id m, k) \<in> set (pk_one_time p))
    \<and> store_agreements p b secret = responder_agreements secret spk opk ika eka"
proof -
  obtain eka where e: "decode_ec (im_ephemeral m) = Inr eka"
    using decode_initial_ephemeral [OF assms(1)] by auto
  show ?thesis
  proof (cases "im_one_time_prekey_id m = 0")
    case True
    with assms e show ?thesis
      by (auto simp: store_agreements_def one_time_prekey_used_def Let_def)
  next
    case False
    then obtain i k r where f: "filter (\<lambda>(i, _). i = im_one_time_prekey_id m) (pk_one_time p) = (i, k) # r"
      using assms(4) by (cases "filter (\<lambda>(i, _). i = im_one_time_prekey_id m) (pk_one_time p)")
        (fastforce simp: filter_empty_conv)+
    then have "(i, k) \<in> set (filter (\<lambda>(i, _). i = im_one_time_prekey_id m) (pk_one_time p))" by simp
    then have "(im_one_time_prekey_id m, k) \<in> set (pk_one_time p)" by auto
    with False assms e f show ?thesis
      by (auto simp: store_agreements_def one_time_prekey_used_def Let_def intro!: exI [of _ "Some k"])
  qed
qed

end
