(* ===== verification/Utf8.thy ===== *)
theory Utf8
  imports Prelude
begin

text \<open>
  Python's strict UTF-8 decoder (\<open>bytes.decode("utf-8", errors="strict")\<close>), which the inventory statement
  applies to an account handle, and its agreement with the encoding of Unicode scalar values.
\<close>

section \<open>The decoder\<close>

text \<open>
  Python's strict UTF-8 decoder: the first code point of an input and what follows it.  The second byte's
  range excludes overlong forms, surrogates and values above \<open>0x10FFFF\<close>.
\<close>

definition utf8_cont :: "byte \<Rightarrow> bool" where
  "utf8_cont x \<longleftrightarrow> 0x80 \<le> x \<and> x \<le> 0xBF"

fun utf8_next :: "bytes \<Rightarrow> (int \<times> bytes) option" where
  "utf8_next [] = None"
| "utf8_next (a # r) =
     (if a < 0x80 then Some (uint a, r)
      else if 0xC2 \<le> a \<and> a \<le> 0xDF then
        (case r of b # r \<Rightarrow>
           if utf8_cont b then Some ((uint a - 0xC0) * 64 + (uint b - 0x80), r) else None
         | _ \<Rightarrow> None)
      else if 0xE0 \<le> a \<and> a \<le> 0xEF then
        (case r of b # c # r \<Rightarrow>
           if utf8_cont b \<and> utf8_cont c \<and> (a = 0xE0 \<longrightarrow> 0xA0 \<le> b) \<and> (a = 0xED \<longrightarrow> b \<le> 0x9F)
           then Some (((uint a - 0xE0) * 64 + (uint b - 0x80)) * 64 + (uint c - 0x80), r) else None
         | _ \<Rightarrow> None)
      else if 0xF0 \<le> a \<and> a \<le> 0xF4 then
        (case r of b # c # d # r \<Rightarrow>
           if utf8_cont b \<and> utf8_cont c \<and> utf8_cont d \<and> (a = 0xF0 \<longrightarrow> 0x90 \<le> b) \<and> (a = 0xF4 \<longrightarrow> b \<le> 0x8F)
           then Some ((((uint a - 0xF0) * 64 + (uint b - 0x80)) * 64 + (uint c - 0x80)) * 64 + (uint d - 0x80), r)
           else None
         | _ \<Rightarrow> None)
      else None)"

lemma utf8_next_shorter: "utf8_next b = Some (cp, r) \<Longrightarrow> length r < length b"
  by (cases b) (auto split: if_splits list.splits)

function utf8_decode :: "bytes \<Rightarrow> int list option" where
  "utf8_decode b =
     (if b = [] then Some []
      else (case utf8_next b of
              None \<Rightarrow> None
            | Some (cp, r) \<Rightarrow> (case utf8_decode r of None \<Rightarrow> None | Some cps \<Rightarrow> Some (cp # cps))))"
  by pat_completeness auto
termination
  by (relation "measure length") (auto dest: utf8_next_shorter)

declare utf8_decode.simps [simp del]

section \<open>It accepts exactly the encodings of scalar values\<close>

definition scalar_value :: "int \<Rightarrow> bool" where
  "scalar_value cp \<longleftrightarrow> 0 \<le> cp \<and> cp < 0xD800 \<or> 0xE000 \<le> cp \<and> cp \<le> 0x10FFFF"

definition utf8_byte :: "int \<Rightarrow> byte" where
  "utf8_byte v = word_of_int v"

definition utf8_encode :: "int \<Rightarrow> bytes" where
  "utf8_encode cp =
     (if cp < 0x80 then [utf8_byte cp]
      else if cp < 0x800 then [utf8_byte (0xC0 + cp div 64), utf8_byte (0x80 + cp mod 64)]
      else if cp < 0x10000
      then [utf8_byte (0xE0 + cp div 64 div 64), utf8_byte (0x80 + cp div 64 mod 64), utf8_byte (0x80 + cp mod 64)]
      else [utf8_byte (0xF0 + cp div 64 div 64 div 64), utf8_byte (0x80 + cp div 64 div 64 mod 64),
            utf8_byte (0x80 + cp div 64 mod 64), utf8_byte (0x80 + cp mod 64)])"

lemma uint_utf8_byte: "0 \<le> v \<Longrightarrow> v < 256 \<Longrightarrow> uint (utf8_byte v) = v"
  by (simp add: utf8_byte_def uint_word_of_int)

lemma utf8_byte_uint: "utf8_byte (uint a) = a"
  by (simp add: utf8_byte_def)

lemma byte_compare:
  "a < numeral n \<longleftrightarrow> uint a < uint (numeral n :: byte)" "numeral n \<le> a \<longleftrightarrow> uint (numeral n :: byte) \<le> uint a"
  "a \<le> numeral n \<longleftrightarrow> uint a \<le> uint (numeral n :: byte)" "a = numeral n \<longleftrightarrow> uint a = uint (numeral n :: byte)" for a :: byte
  by (simp_all add: word_le_def word_less_def word_uint_eq_iff)

lemma digits_64: "v = x * 64 + y \<Longrightarrow> 0 \<le> y \<Longrightarrow> y < 64 \<Longrightarrow> v div 64 = x \<and> v mod 64 = y" for v :: int
  by simp

lemma utf8_next_sound:
  assumes "utf8_next b = Some (cp, r)"
  shows "scalar_value cp \<and> b = utf8_encode cp @ r"
proof (cases b)
  case (Cons a t)
  note a = uint_byte_bounds [of a]
  from assms Cons consider
    "uint a < 128" "cp = uint a" "r = t"
  | y t' where "t = y # t'" "194 \<le> uint a" "uint a \<le> 223" "128 \<le> uint y" "uint y \<le> 191" 
      "cp = (uint a - 192) * 64 + (uint y - 128)" "r = t'"
  | y z t' where "t = y # z # t'" "224 \<le> uint a" "uint a \<le> 239" "128 \<le> uint y" "uint y \<le> 191" "128 \<le> uint z" "uint z \<le> 191"
      "uint a = 224 \<longrightarrow> 160 \<le> uint y" "uint a = 237 \<longrightarrow> uint y \<le> 159"
      "cp = ((uint a - 224) * 64 + (uint y - 128)) * 64 + (uint z - 128)" "r = t'"
  | y z w t' where "t = y # z # w # t'" "240 \<le> uint a" "uint a \<le> 244" "128 \<le> uint y" "uint y \<le> 191" "128 \<le> uint z" "uint z \<le> 191"
      "128 \<le> uint w" "uint w \<le> 191" "uint a = 240 \<longrightarrow> 144 \<le> uint y" "uint a = 244 \<longrightarrow> uint y \<le> 143"
      "cp = (((uint a - 240) * 64 + (uint y - 128)) * 64 + (uint z - 128)) * 64 + (uint w - 128)" "r = t'"
    by (auto simp: byte_compare utf8_cont_def split: if_splits list.splits)
  then show ?thesis
  proof cases
    case 1
    then show ?thesis using a Cons by (simp add: scalar_value_def utf8_encode_def utf8_byte_uint)
  next
    case (2 y t')
    have "cp div 64 = uint a - 192" "cp mod 64 = uint y - 128"
      using digits_64 [OF 2(6)] 2(4,5) by simp_all
    moreover have "128 \<le> cp" "cp < 2048" using 2(2-6) by simp_all
    ultimately show ?thesis using Cons 2(1,7) by (simp only: utf8_encode_def scalar_value_def) (simp add: utf8_byte_uint)
  next
    case (3 y z t')
    have lin: "cp = uint a * 4096 + uint y * 64 + uint z - 925824" using 3(10) by simp
    then have r: "2048 \<le> cp" "cp < 65536" using 3(2-8) by linarith+
    have "cp < 0xD800 \<or> 0xE000 \<le> cp"
    proof (cases "uint a \<le> 236")
      case True
      then show ?thesis using lin 3(5,7) by linarith
    next
      case False
      then show ?thesis using lin 3(4-9) by (cases "uint a = 237") linarith+
    qed
    with r have "scalar_value cp" by (simp add: scalar_value_def)
    note this r
    moreover have "cp div 64 = (uint a - 224) * 64 + (uint y - 128)" "cp mod 64 = uint z - 128"
      using digits_64 [OF 3(10)] 3(4-7) by simp_all
    moreover from digits_64 [OF this(1)] have "cp div 64 div 64 = uint a - 224" "cp div 64 mod 64 = uint y - 128"
      using 3(4-7) by simp_all
    ultimately show ?thesis using Cons 3(1,11) by (simp only: utf8_encode_def) (simp add: utf8_byte_uint)
  next
    case (4 y z w t')
    have lin: "cp = uint a * 262144 + uint y * 4096 + uint z * 64 + uint w - 63447168" using 4(12) by simp
    then have r: "65536 \<le> cp" "cp \<le> 0x10FFFF" using 4(2-11) by linarith+
    then have "scalar_value cp" by (simp add: scalar_value_def)
    obtain v where v: "v = (uint a - 240) * 64 + (uint y - 128)" by blast
    obtain u where u: "u = v * 64 + (uint z - 128)" by blast
    have c: "cp = u * 64 + (uint w - 128)" using 4(12) u v by simp
    have "utf8_encode cp = [utf8_byte (uint a), utf8_byte (uint y), utf8_byte (uint z), utf8_byte (uint w)]"
      using r 4(4-9) digits_64 [OF c] digits_64 [OF u] digits_64 [OF v] by (simp add: utf8_encode_def)
    then show ?thesis using \<open>scalar_value cp\<close> Cons 4(1,13) by (simp add: utf8_byte_uint)
  qed
qed (use assms in simp)

lemma base_64: "\<exists>x y. v = x * 64 + y \<and> 0 \<le> y \<and> y < 64" for v :: int
  by (rule exI [of _ "v div 64"], rule exI [of _ "v mod 64"]) simp

lemmas utf8_eval = byte_compare uint_utf8_byte utf8_cont_def

lemma utf8_next_complete:
  assumes "scalar_value cp"
  shows "utf8_next (utf8_encode cp @ r) = Some (cp, r)"
proof -
  obtain u z where c: "cp = u * 64 + z" "0 \<le> z" "z < 64" using base_64 by blast
  obtain v y where u: "u = v * 64 + y" "0 \<le> y" "y < 64" using base_64 by blast
  obtain w x where v: "v = w * 64 + x" "0 \<le> x" "x < 64" using base_64 by blast
  note d = digits_64 [OF c] digits_64 [OF u] digits_64 [OF v]
  consider "cp < 128" | "128 \<le> cp" "cp < 2048" | "2048 \<le> cp" "cp < 65536" | "65536 \<le> cp" by linarith
  then show ?thesis
  proof cases
    case 1
    then show ?thesis using assms by (simp add: utf8_encode_def scalar_value_def utf8_eval)
  next
    case 2
    then have b: "2 \<le> u" "u < 32" using c by linarith+
    have "utf8_encode cp = [utf8_byte (192 + u), utf8_byte (128 + z)]" using 2 d by (simp add: utf8_encode_def)
    then show ?thesis using b c by (simp add: utf8_eval)
  next
    case 3
    then have b: "0 \<le> v" "v < 16" "v = 0 \<longrightarrow> 32 \<le> y" "v = 13 \<longrightarrow> y < 32"
      using c u assms unfolding scalar_value_def by linarith+
    have "utf8_encode cp = [utf8_byte (224 + v), utf8_byte (128 + y), utf8_byte (128 + z)]" using 3 d by (simp add: utf8_encode_def)
    then show ?thesis using b c u by (auto simp: utf8_eval)
  next
    case 4
    then have b: "0 \<le> w" "w \<le> 4" "w = 0 \<longrightarrow> 16 \<le> x" "w = 4 \<longrightarrow> x < 16"
      using c u v assms unfolding scalar_value_def by linarith+
    have "utf8_encode cp = [utf8_byte (240 + w), utf8_byte (128 + x), utf8_byte (128 + y), utf8_byte (128 + z)]"
      using 4 d by (simp add: utf8_encode_def)
    then show ?thesis using b c u v by (auto simp: utf8_eval)
  qed
qed

lemma utf8_next_iff: "utf8_next b = Some (cp, r) \<longleftrightarrow> scalar_value cp \<and> b = utf8_encode cp @ r"
  using utf8_next_sound utf8_next_complete by blast

lemma utf8_encode_nonempty: "utf8_encode cp \<noteq> []"
  by (simp add: utf8_encode_def)

lemma utf8_decode_iff: "utf8_decode b = Some cps \<longleftrightarrow> (\<forall>cp \<in> set cps. scalar_value cp) \<and> b = concat (map utf8_encode cps)"
proof (induction b arbitrary: cps rule: utf8_decode.induct)
  case (1 b)
  show ?case
  proof (cases "b = []")
    case True
    then show ?thesis by (cases cps) (auto simp: utf8_decode.simps utf8_encode_nonempty)
  next
    case False
    show ?thesis
    proof (cases cps)
      case Nil
      then show ?thesis using False by (auto simp: utf8_decode.simps [of b] split: option.splits)
    next
      case (Cons cp cps')
      have "utf8_decode b = Some cps \<longleftrightarrow> (\<exists>r. utf8_next b = Some (cp, r) \<and> utf8_decode r = Some cps')"
        using False Cons by (auto simp: utf8_decode.simps [of b] split: option.splits)
      also have "\<dots> \<longleftrightarrow> (\<forall>cp \<in> set cps. scalar_value cp) \<and> b = concat (map utf8_encode cps)"
        using 1 False Cons by (auto simp: utf8_next_iff)
      finally show ?thesis .
    qed
  qed
qed

end
