(* ===== verification/Inventory.thy ===== *)
theory Inventory
  imports Effects Bytes_Order Constants Utf8 Curve25519 Raises
begin

text \<open>
  Hosted device-inventory statements, \<open>tacenta_reader/inventory.py\<close>: the encodings and their rules, the
  signed statement, the ordered checks a verifier applies with its own policy, and what an issuer signs.
  Every encoding refusal is the check \<open>decode\<close>, so \<open>DecodeFailure\<close> is \<open>InventoryRefusal Chk_decode\<close>; the
  value types of the model are the ones the code's \<open>isinstance\<close> tests ask for.
\<close>

section \<open>Constants and values\<close>

definition INVENTORY_DOMAIN :: bytes where
  "INVENTORY_DOMAIN = ascii ''Tacenta Inventory Statement v1''"

definition INVENTORY_SIGNING_LABEL :: bytes where
  "INVENTORY_SIGNING_LABEL = ascii ''Tacenta:inventory-statement:v1'' @ [0xFF]"

definition BINDING_COMMITMENT_LABEL :: bytes where
  "BINDING_COMMITMENT_LABEL = ascii ''Tacenta:inventory-binding-commitment:v1'' @ [0xFF]"

definition GROUP_EPOCH_V1 :: int where "GROUP_EPOCH_V1 = 1"
definition MAX_ACCOUNT_BYTES :: int where [const_defs]: "MAX_ACCOUNT_BYTES = 256"
definition MAX_ACTIVE_BINDINGS :: int where [const_defs]: "MAX_ACTIVE_BINDINGS = 8"
definition MAX_RECENT_REVOCATIONS :: int where [const_defs]: "MAX_RECENT_REVOCATIONS = 8"

definition CHECKS :: "inv_check list" where
  "CHECKS = [Chk_decode, Chk_account, Chk_issuer, Chk_signature, Chk_freshness, Chk_duplicate_device,
             Chk_identity_key, Chk_binding_policy, Chk_statement_policy]"

record device_binding =
  db_device_id :: int
  db_identity_public_key :: bytes
  db_capabilities :: int
  db_replacement_predecessor :: "bytes option"

record revocation =
  rv_binding :: device_binding
  rv_terminal_generation :: int

record inventory_statement =
  iv_issuer_key_id :: int
  iv_account_handle :: bytes
  iv_inventory_generation :: int
  iv_active :: "device_binding list"
  iv_revocation_floor_generation :: int
  iv_revoked :: "revocation list"

abbreviation decode_failure :: error where
  "decode_failure \<equiv> InventoryRefusal Chk_decode"

section \<open>Encoding\<close>

definition iu :: "int \<Rightarrow> nat \<Rightarrow> bytes res" where
  "iu value bits = (if \<not> (0 \<le> value \<and> value < 2 ^ bits) then Inl decode_failure else to_bytes_be (bits div 8) value)"

definition encode_binding :: "device_binding \<Rightarrow> bytes res" where
  "encode_binding b =
     (if length (db_identity_public_key b) \<noteq> 32 then Inl decode_failure
      else
        bindR (iu (db_capabilities b) 64) (\<lambda>caps.
        if db_capabilities b = 0 \<or> db_capabilities b AND NOT GROUP_EPOCH_V1 \<noteq> 0 then Inl decode_failure
        else
          bindR (iu (db_device_id b) 32) (\<lambda>dev.
          let out = dev @ db_identity_public_key b @ caps
          in case db_replacement_predecessor b of
               None \<Rightarrow> Inr (out @ [0])
             | Some pred \<Rightarrow> if length pred \<noteq> 32 then Inl decode_failure else Inr (out @ [1] @ pred))))"

definition encode_revocation :: "revocation \<Rightarrow> bytes res" where
  "encode_revocation r =
     bindR (encode_binding (rv_binding r)) (\<lambda>b. bindR (iu (rv_terminal_generation r) 64) (\<lambda>g. Inr (b @ g)))"

definition strictly_ascending :: "bytes list \<Rightarrow> bool" where
  "strictly_ascending encodings \<longleftrightarrow> list_all (\<lambda>(a, b). bytes_lt a b) (zip encodings (tl encodings))"

fun generations_within :: "int \<Rightarrow> int \<Rightarrow> revocation list \<Rightarrow> unit res" where
  "generations_within lo up [] = Inr ()"
| "generations_within lo up (r # rs) =
     (if \<not> (lo < rv_terminal_generation r \<and> rv_terminal_generation r \<le> up) then Inl decode_failure
      else generations_within lo up rs)"

fun none_active :: "bytes set \<Rightarrow> revocation list \<Rightarrow> unit res" where
  "none_active active_set [] = Inr ()"
| "none_active active_set (r # rs) =
     bindR (encode_binding (rv_binding r)) (\<lambda>e. if e \<in> active_set then Inl decode_failure else none_active active_set rs)"

definition check_encoding_rules :: "inventory_statement \<Rightarrow> unit res" where
  "check_encoding_rules s =
     bindR (iu (iv_issuer_key_id s) 64) (\<lambda>_.
     bindR (iu (iv_inventory_generation s) 64) (\<lambda>_.
     bindR (iu (iv_revocation_floor_generation s) 64) (\<lambda>_.
     let account = iv_account_handle s; active = iv_active s; revoked = iv_revoked s
     in if length account = 0 then Inl decode_failure
        else if int (length account) > MAX_ACCOUNT_BYTES then Inl decode_failure
        else if utf8_decode account = None then Inl decode_failure
        else if int (length active) > MAX_ACTIVE_BINDINGS then Inl decode_failure
        else if int (length revoked) > MAX_RECENT_REVOCATIONS then Inl decode_failure
        else if iv_revocation_floor_generation s > iv_inventory_generation s then Inl decode_failure
        else
          bindR (mapR encode_binding active) (\<lambda>active_enc.
          bindR (mapR encode_revocation revoked) (\<lambda>revoked_enc.
          if \<not> strictly_ascending active_enc then Inl decode_failure
          else if \<not> strictly_ascending revoked_enc then Inl decode_failure
          else
            bindR (generations_within (iv_revocation_floor_generation s) (iv_inventory_generation s) revoked) (\<lambda>_.
            none_active (set active_enc) revoked))))))"

definition encode_unsigned :: "inventory_statement \<Rightarrow> bytes res" where
  "encode_unsigned s =
     bindR (check_encoding_rules s) (\<lambda>_.
     bindR (iu (iv_issuer_key_id s) 64) (\<lambda>issuer.
     bindR (iu (int (length (iv_account_handle s))) 32) (\<lambda>account_len.
     bindR (iu (iv_inventory_generation s) 64) (\<lambda>generation.
     bindR (iu (int (length (iv_active s))) 32) (\<lambda>active_count.
     bindR (mapR encode_binding (iv_active s)) (\<lambda>active.
     bindR (iu (iv_revocation_floor_generation s) 64) (\<lambda>floor.
     bindR (iu (int (length (iv_revoked s))) 32) (\<lambda>revoked_count.
     bindR (mapR encode_revocation (iv_revoked s)) (\<lambda>revoked.
     Inr (INVENTORY_DOMAIN @ issuer @ account_len @ iv_account_handle s @ generation
          @ active_count @ concat active @ floor @ revoked_count @ concat revoked))))))))))"

section \<open>Decoding\<close>

text \<open>\<open>_Cursor\<close> as its unread suffix.\<close>

definition ic_take :: "int \<Rightarrow> bytes \<Rightarrow> (bytes \<times> bytes) res" where
  "ic_take n r = (if n > int (length r) then Inl decode_failure else Inr (take (nat n) r, drop (nat n) r))"

abbreviation ic_uint :: "int \<Rightarrow> bytes \<Rightarrow> (int \<times> bytes) res" where
  "ic_uint \<equiv> uint_of ic_take"

interpretation inv_cursor: cursor ic_take decode_failure
  by unfold_locales (simp_all add: ic_take_def)

lemmas ic_iff [res_iff] = inv_cursor.take_iff inv_cursor.uint_iff

definition read_binding :: "bytes \<Rightarrow> (device_binding \<times> bytes) res" where
  "read_binding r =
     bindR (ic_uint 4 r) (\<lambda>(device_id, r).
     bindR (ic_take 32 r) (\<lambda>(key, r).
     bindR (ic_uint 8 r) (\<lambda>(caps, r).
     bindR (ic_uint 1 r) (\<lambda>(tag, r).
     bindR (if tag = 0 then Inr (None, r)
            else if tag = 1 then bindR (ic_take 32 r) (\<lambda>(p, r). Inr (Some p, r))
            else Inl decode_failure) (\<lambda>(pred, r).
     if caps = 0 \<or> caps AND NOT GROUP_EPOCH_V1 \<noteq> 0 then Inl decode_failure
     else
       Inr (\<lparr> db_device_id = device_id, db_identity_public_key = key, db_capabilities = caps,
             db_replacement_predecessor = pred \<rparr>, r))))))"

definition read_revocation :: "bytes \<Rightarrow> (revocation \<times> bytes) res" where
  "read_revocation r =
     bindR (read_binding r) (\<lambda>(b, r).
     bindR (ic_uint 8 r) (\<lambda>(g, r). Inr (\<lparr> rv_binding = b, rv_terminal_generation = g \<rparr>, r)))"

text \<open>The fields, before the rules are checked.\<close>

definition read_statement :: "bytes \<Rightarrow> inventory_statement res" where
  "read_statement data =
     bindR (ic_take (int (length INVENTORY_DOMAIN)) data) (\<lambda>(domain, r).
     if domain \<noteq> INVENTORY_DOMAIN then Inl decode_failure
     else
       bindR (ic_uint 8 r) (\<lambda>(issuer_key_id, r).
       bindR (ic_uint 4 r) (\<lambda>(account_len, r).
       if account_len = 0 then Inl decode_failure
       else if account_len > MAX_ACCOUNT_BYTES then Inl decode_failure
       else
         bindR (ic_take account_len r) (\<lambda>(account, r).
         bindR (ic_uint 8 r) (\<lambda>(generation, r).
         bindR (ic_uint 4 r) (\<lambda>(active_count, r).
         if active_count > MAX_ACTIVE_BINDINGS then Inl decode_failure
         else
           bindR (repeatR (nat active_count) read_binding r) (\<lambda>(active, r).
           bindR (ic_uint 8 r) (\<lambda>(floor, r).
           bindR (ic_uint 4 r) (\<lambda>(revoked_count, r).
           if revoked_count > MAX_RECENT_REVOCATIONS then Inl decode_failure
           else
             bindR (repeatR (nat revoked_count) read_revocation r) (\<lambda>(revoked, r).
             if r \<noteq> [] then Inl decode_failure
             else
               Inr \<lparr> iv_issuer_key_id = issuer_key_id, iv_account_handle = account,
                     iv_inventory_generation = generation, iv_active = active,
                     iv_revocation_floor_generation = floor, iv_revoked = revoked \<rparr>))))))))))"

definition decode_unsigned :: "bytes \<Rightarrow> inventory_statement res" where
  "decode_unsigned data =
     bindR (read_statement data) (\<lambda>s.
     bindR (check_encoding_rules s) (\<lambda>_.
     bindR (encode_unsigned s) (\<lambda>again.
     if again \<noteq> data then Inl decode_failure else Inr s)))"

definition signing_input :: "bytes \<Rightarrow> bytes" where
  "signing_input preimage = INVENTORY_SIGNING_LABEL @ preimage"

definition decode_signed :: "bytes \<Rightarrow> (inventory_statement \<times> bytes \<times> bytes) res" where
  "decode_signed data =
     (if length data < 64 then Inl decode_failure
      else
        (let preimage = take (length data - 64) data; signature = drop (length data - 64) data
         in bindR (decode_unsigned preimage) (\<lambda>s. Inr (s, preimage, signature))))"

definition binding_commitment :: "device_binding \<Rightarrow> bytes res" where
  "binding_commitment b = bindR (encode_binding b) (\<lambda>e. Inr (sha256 (BINDING_COMMITMENT_LABEL @ e)))"

section \<open>The codec is exact\<close>

text \<open>The bindings that have an encoding, and that encoding.\<close>

definition binding_ok :: "device_binding \<Rightarrow> bool" where
  "binding_ok b \<longleftrightarrow>
     length (db_identity_public_key b) = 32 \<and> db_capabilities b = GROUP_EPOCH_V1
     \<and> 0 \<le> db_device_id b \<and> db_device_id b < 2 ^ 32 \<and> opt_all (\<lambda>p. length p = 32) (db_replacement_predecessor b)"

definition binding_enc :: "device_binding \<Rightarrow> bytes" where
  "binding_enc b =
     be_digits 4 (db_device_id b) @ db_identity_public_key b @ be_digits 8 (db_capabilities b)
     @ (case db_replacement_predecessor b of None \<Rightarrow> [0] | Some p \<Rightarrow> 1 # p)"

definition revocation_ok :: "revocation \<Rightarrow> bool" where
  "revocation_ok r \<longleftrightarrow> binding_ok (rv_binding r) \<and> 0 \<le> rv_terminal_generation r \<and> rv_terminal_generation r < 2 ^ 64"

definition revocation_enc :: "revocation \<Rightarrow> bytes" where
  "revocation_enc r = binding_enc (rv_binding r) @ be_digits 8 (rv_terminal_generation r)"

lemma iu_iff [res_iff]:
  "iu v 32 = Inr b \<longleftrightarrow> 0 \<le> v \<and> v < 2 ^ 32 \<and> b = be_digits 4 v"
  "iu v 64 = Inr b \<longleftrightarrow> 0 \<le> v \<and> v < 2 ^ 64 \<and> b = be_digits 8 v"
  by (auto simp: iu_def res_iff)

text \<open>The one capability word.\<close>

lemma only_group_epoch: "caps \<noteq> 0 \<and> caps AND NOT GROUP_EPOCH_V1 = 0 \<longleftrightarrow> caps = GROUP_EPOCH_V1" for caps :: int
proof
  assume c: "caps \<noteq> 0 \<and> caps AND NOT GROUP_EPOCH_V1 = 0"
  have "bit (caps AND NOT 1) n \<longleftrightarrow> bit caps n \<and> n \<noteq> 0" for n
    by (auto simp: bit_simps bit_1_iff)
  then have high: "\<not> bit caps n" if "n \<noteq> 0" for n
    using c that by (auto simp: GROUP_EPOCH_V1_def)
  have "caps = (if bit caps 0 then 1 else 0)"
  proof (rule bit_eqI)
    fix n
    show "bit caps n \<longleftrightarrow> bit (if bit caps 0 then 1 else 0 :: int) n"
      using high [of n] by (cases "n = 0") (auto simp: bit_1_iff)
  qed
  with c show "caps = GROUP_EPOCH_V1" by (auto simp: GROUP_EPOCH_V1_def split: if_splits)
qed (simp add: GROUP_EPOCH_V1_def)

lemma encode_binding_iff: "encode_binding b = Inr e \<longleftrightarrow> binding_ok b \<and> e = binding_enc b"
  using only_group_epoch [of "db_capabilities b"]
  by (cases "db_replacement_predecessor b")
    (auto simp: encode_binding_def res_iff Let_def binding_ok_def binding_enc_def GROUP_EPOCH_V1_def)

lemma encode_revocation_iff: "encode_revocation r = Inr e \<longleftrightarrow> revocation_ok r \<and> e = revocation_enc r"
  by (auto simp: encode_revocation_def res_iff encode_binding_iff revocation_ok_def revocation_enc_def)

lemma read_binding_iff: "read_binding r = Inr (b, r') \<longleftrightarrow> binding_ok b \<and> r = binding_enc b @ r'"
proof
  assume "read_binding r = Inr (b, r')"
  then show "binding_ok b \<and> r = binding_enc b @ r'"
    using only_group_epoch unfolding read_binding_def
    by (clarsimp simp: res_iff binding_ok_def binding_enc_def split: if_splits)
next
  assume "binding_ok b \<and> r = binding_enc b @ r'"
  then show "read_binding r = Inr (b, r')"
    by (cases b; cases "db_replacement_predecessor b")
      (auto simp: read_binding_def binding_ok_def binding_enc_def inv_cursor.eval GROUP_EPOCH_V1_def
        inv_cursor.uint_byte [of 0, simplified] inv_cursor.uint_byte [of 1, simplified])
qed

lemma read_revocation_iff: "read_revocation r = Inr (v, r') \<longleftrightarrow> revocation_ok v \<and> r = revocation_enc v @ r'"
  by (cases v) (auto simp: read_revocation_def res_iff read_binding_iff revocation_ok_def revocation_enc_def)

lemmas read_bindings_iff = inv_cursor.repeat_iff [of read_binding, OF read_binding_iff]
lemmas read_revocations_iff = inv_cursor.repeat_iff [of read_revocation, OF read_revocation_iff]

text \<open>The rules a statement is encoded under, and its encoding.\<close>

definition fields_fit :: "inventory_statement \<Rightarrow> bool" where
  "fields_fit s \<longleftrightarrow>
     0 \<le> iv_issuer_key_id s \<and> iv_issuer_key_id s < 2 ^ 64
     \<and> 0 \<le> iv_inventory_generation s \<and> iv_inventory_generation s < 2 ^ 64
     \<and> 0 \<le> iv_revocation_floor_generation s \<and> iv_revocation_floor_generation s < 2 ^ 64
     \<and> iv_account_handle s \<noteq> [] \<and> int (length (iv_account_handle s)) \<le> MAX_ACCOUNT_BYTES
     \<and> int (length (iv_active s)) \<le> MAX_ACTIVE_BINDINGS \<and> int (length (iv_revoked s)) \<le> MAX_RECENT_REVOCATIONS
     \<and> (\<forall>b \<in> set (iv_active s). binding_ok b) \<and> (\<forall>r \<in> set (iv_revoked s). revocation_ok r)"

definition statement_ok :: "inventory_statement \<Rightarrow> bool" where
  "statement_ok s \<longleftrightarrow>
     fields_fit s \<and> utf8_decode (iv_account_handle s) \<noteq> None
     \<and> iv_revocation_floor_generation s \<le> iv_inventory_generation s
     \<and> ascending bytes_lt (map binding_enc (iv_active s)) \<and> ascending bytes_lt (map revocation_enc (iv_revoked s))
     \<and> (\<forall>r \<in> set (iv_revoked s). iv_revocation_floor_generation s < rv_terminal_generation r
          \<and> rv_terminal_generation r \<le> iv_inventory_generation s
          \<and> binding_enc (rv_binding r) \<notin> binding_enc ` set (iv_active s))"

definition statement_enc :: "inventory_statement \<Rightarrow> bytes" where
  "statement_enc s =
     INVENTORY_DOMAIN @ be_digits 8 (iv_issuer_key_id s)
     @ be_digits 4 (int (length (iv_account_handle s))) @ iv_account_handle s
     @ be_digits 8 (iv_inventory_generation s)
     @ be_digits 4 (int (length (iv_active s))) @ concat (map binding_enc (iv_active s))
     @ be_digits 8 (iv_revocation_floor_generation s)
     @ be_digits 4 (int (length (iv_revoked s))) @ concat (map revocation_enc (iv_revoked s))"

lemmas bindings_enc_iff = mapR_exact [of encode_binding, OF encode_binding_iff]
lemmas revocations_enc_iff = mapR_exact [of encode_revocation, OF encode_revocation_iff]

lemma generations_within_iff:
  "generations_within lo up rs = Inr () \<longleftrightarrow> (\<forall>r \<in> set rs. lo < rv_terminal_generation r \<and> rv_terminal_generation r \<le> up)"
  by (induction lo up rs rule: generations_within.induct) auto

lemma none_active_iff:
  "none_active A rs = Inr () \<longleftrightarrow> (\<forall>r \<in> set rs. binding_ok (rv_binding r) \<and> binding_enc (rv_binding r) \<notin> A)"
  by (induction A rs rule: none_active.induct) (auto simp: bindR_Inr_iff encode_binding_iff)

lemma check_encoding_rules_iff: "check_encoding_rules s = Inr () \<longleftrightarrow> statement_ok s"
  unfolding check_encoding_rules_def statement_ok_def fields_fit_def strictly_ascending_def ascending_zip
  by (auto simp: Let_def bindR_Inr_iff iu_iff bindings_enc_iff revocations_enc_iff generations_within_iff none_active_iff
      revocation_ok_def)

lemma encode_unsigned_iff: "encode_unsigned s = Inr b \<longleftrightarrow> statement_ok s \<and> b = statement_enc s"
  unfolding encode_unsigned_def bindR_Inr_iff
  by (auto simp: check_encoding_rules_iff iu_iff bindings_enc_iff revocations_enc_iff statement_enc_def
      statement_ok_def fields_fit_def const_defs)

lemma read_bindings_eval:
  "\<forall>x \<in> set xs. binding_ok x \<Longrightarrow> repeatR (length xs) read_binding (concat (map binding_enc xs) @ r) = Inr (xs, r)"
  by (simp add: read_bindings_iff)

lemma read_revocations_eval:
  "\<forall>x \<in> set xs. revocation_ok x \<Longrightarrow> repeatR (length xs) read_revocation (concat (map revocation_enc xs)) = Inr (xs, [])"
  by (simp add: read_revocations_iff)

lemma read_statement_iff: "read_statement b = Inr s \<longleftrightarrow> fields_fit s \<and> b = statement_enc s"
proof
  assume "read_statement b = Inr s"
  then show "fields_fit s \<and> b = statement_enc s"
    unfolding read_statement_def
    by (clarsimp simp: res_iff read_bindings_iff read_revocations_iff fields_fit_def statement_enc_def)
next
  assume "fields_fit s \<and> b = statement_enc s"
  then show "read_statement b = Inr s"
    by (cases s) (auto simp: read_statement_def statement_enc_def fields_fit_def inv_cursor.eval const_defs
        read_bindings_eval read_revocations_eval)
qed

text \<open>The comparison with the input never refuses, and the decoder accepts exactly what the encoder produces.\<close>

lemma decode_unsigned_eq:
  "decode_unsigned b = bindR (read_statement b) (\<lambda>s. bindR (check_encoding_rules s) (\<lambda>_. Inr s))"
proof (cases "read_statement b")
  case (Inr s)
  then have b: "b = statement_enc s" by (simp add: read_statement_iff)
  show ?thesis
  proof (cases "check_encoding_rules s")
    case (Inr u)
    then have "encode_unsigned s = Inr b" by (simp add: check_encoding_rules_iff encode_unsigned_iff b)
    with Inr \<open>read_statement b = Inr s\<close> show ?thesis by (simp add: decode_unsigned_def)
  qed (simp add: decode_unsigned_def \<open>read_statement b = Inr s\<close>)
qed (simp add: decode_unsigned_def)

lemma decode_unsigned_iff: "decode_unsigned b = Inr s \<longleftrightarrow> encode_unsigned s = Inr b"
  by (auto simp: decode_unsigned_eq bindR_Inr_iff check_encoding_rules_iff read_statement_iff encode_unsigned_iff
      statement_ok_def)

interpretation inventory_codec: exact_codec encode_unsigned "\<lambda>_. True" decode_unsigned
  by unfold_locales (simp add: decode_unsigned_iff)

lemma decode_signed_iff:
  "decode_signed data = Inr (s, u, sig) \<longleftrightarrow> data = u @ sig \<and> length sig = 64 \<and> encode_unsigned s = Inr u"
proof
  assume "decode_signed data = Inr (s, u, sig)"
  then show "data = u @ sig \<and> length sig = 64 \<and> encode_unsigned s = Inr u"
    by (auto simp: decode_signed_def Let_def bindR_Inr_iff decode_unsigned_iff split: if_splits)
qed (simp add: decode_signed_def bindR_Inr_iff decode_unsigned_iff)

text \<open>No binding's encoding is a prefix of another's, so a commitment's input determines the binding.\<close>

interpretation binding_codec: prefix_codec encode_binding "\<lambda>_. True" read_binding
  by unfold_locales (auto simp: read_binding_iff encode_binding_iff)

section \<open>The verifier\<close>

text \<open>
  \<open>Policy\<close>: the verifier's own parts, each of which may raise and change the verifier's state.
  \<open>po_accepted\<close> is \<open>Some False\<close> where the code tests \<open>is False\<close>, \<open>None\<close> where the hook returns nothing.
\<close>

record 'p policy =
  po_issuer_key :: "int \<Rightarrow> bytes \<Rightarrow> 'p \<Rightarrow> bytes option res \<times> 'p"
  po_fresh :: "bytes \<Rightarrow> int \<Rightarrow> 'p \<Rightarrow> bool res \<times> 'p"
  po_accept_binding :: "device_binding \<Rightarrow> string \<Rightarrow> 'p \<Rightarrow> bool res \<times> 'p"
  po_accept_statement :: "inventory_statement \<Rightarrow> 'p \<Rightarrow> bool res \<times> 'p"
  po_accepted :: "inventory_statement \<Rightarrow> 'p \<Rightarrow> bool option res \<times> 'p"

definition refused :: "inv_check \<Rightarrow> 'p \<Rightarrow> 'a res \<times> 'p" where
  "refused c = liftS (Inl (InventoryRefusal c))"

definition duplicate_active_device :: "inventory_statement \<Rightarrow> bool" where
  "duplicate_active_device s \<longleftrightarrow>
     length (map db_device_id (iv_active s)) \<noteq> card (set (map db_device_id (iv_active s)))"

fun first_unsound :: "device_binding list \<Rightarrow> device_binding option" where
  "first_unsound [] = None"
| "first_unsound (b # bs) = (if \<not> is_identity_key (db_identity_public_key b) then Some b else first_unsound bs)"

definition unsound_key :: "inventory_statement \<Rightarrow> device_binding option" where
  "unsound_key s = first_unsound (iv_active s @ map rv_binding (iv_revoked s))"

fun accept_bindings :: "'p policy \<Rightarrow> string \<Rightarrow> device_binding list \<Rightarrow> 'p \<Rightarrow> unit res \<times> 'p" where
  "accept_bindings pol status [] = liftS (Inr ())"
| "accept_bindings pol status (b # bs) =
     bindS (po_accept_binding pol b status) (\<lambda>ok.
     if \<not> ok then refused Chk_binding_policy else accept_bindings pol status bs)"

definition inv_checks ::
  "inventory_statement \<Rightarrow> bytes \<Rightarrow> bytes \<Rightarrow> bytes \<Rightarrow> 'p policy \<Rightarrow> 'p \<Rightarrow> inventory_statement res \<times> 'p" where
  "inv_checks s preimage signature asked_account pol =
     (if iv_account_handle s \<noteq> asked_account then refused Chk_account
      else
        bindS (po_issuer_key pol (iv_issuer_key_id s) (iv_account_handle s)) (\<lambda>key.
        (case key of
           None \<Rightarrow> refused Chk_issuer
         | Some key \<Rightarrow>
             if xeddsa_verify key (signing_input preimage) signature = None then refused Chk_signature
             else
               bindS (po_fresh pol (iv_account_handle s) (iv_inventory_generation s)) (\<lambda>fresh.
               if \<not> fresh then refused Chk_freshness
               else if duplicate_active_device s then refused Chk_duplicate_device
               else if unsound_key s \<noteq> None then refused Chk_identity_key
               else
                 bindS (accept_bindings pol ''active'' (iv_active s)) (\<lambda>_.
                 bindS (accept_bindings pol ''revoked'' (map rv_binding (iv_revoked s))) (\<lambda>_.
                 bindS (po_accept_statement pol s) (\<lambda>ok.
                 if \<not> ok then refused Chk_statement_policy
                 else
                   bindS (po_accepted pol s) (\<lambda>recorded.
                   if recorded = Some False then refused Chk_freshness else liftS (Inr s)))))))))"

definition accept :: "bytes \<Rightarrow> bytes \<Rightarrow> 'p policy \<Rightarrow> 'p \<Rightarrow> inventory_statement res \<times> 'p" where
  "accept data asked_account pol =
     bindS (liftS (decode_signed data)) (\<lambda>(s, preimage, signature). inv_checks s preimage signature asked_account pol)"

definition accept_built ::
  "inventory_statement \<Rightarrow> bytes \<Rightarrow> bytes \<Rightarrow> 'p policy \<Rightarrow> 'p \<Rightarrow> inventory_statement res \<times> 'p" where
  "accept_built s signature asked_account pol =
     bindS (liftS (encode_unsigned s)) (\<lambda>preimage.
     if length signature \<noteq> 64 then refused Chk_decode else inv_checks s preimage signature asked_account pol)"

section \<open>The issuer\<close>

definition sign_statement :: "bytes \<Rightarrow> inventory_statement \<Rightarrow> bytes \<Rightarrow> bytes res" where
  "sign_statement issuer_secret s z =
     bindR (catchR (encode_unsigned s) (\<lambda>err. err = decode_failure) (\<lambda>_. Inl IssuerRefusal)) (\<lambda>preimage.
     if duplicate_active_device s then Inl IssuerRefusal
     else if unsound_key s \<noteq> None then Inl IssuerRefusal
     else bindR (xeddsa_sign issuer_secret (signing_input preimage) z) (\<lambda>sig. Inr (preimage @ sig)))"

section \<open>What is accepted, and in which order the hooks are called\<close>

text \<open>
  The acceptance rule as a table: the checks in order, each with the hook call it makes, if any, and its
  verdict.  A policy without effects of its own is a verdict per call; \<open>logging\<close> makes it a policy whose
  state is the calls made so far.
\<close>

datatype hook_call =
    IssuerCall int bytes
  | FreshCall bytes int
  | BindingCall device_binding string
  | StatementCall inventory_statement
  | AcceptedCall inventory_statement

record verdicts =
  vd_key :: "int \<Rightarrow> bytes \<Rightarrow> bytes option"
  vd_ok :: "hook_call \<Rightarrow> bool"

definition logging :: "verdicts \<Rightarrow> hook_call list policy" where
  "logging vd =
     \<lparr> po_issuer_key = (\<lambda>i a log. (Inr (vd_key vd i a), log @ [IssuerCall i a])),
       po_fresh = (\<lambda>a n log. (Inr (vd_ok vd (FreshCall a n)), log @ [FreshCall a n])),
       po_accept_binding = (\<lambda>b st log. (Inr (vd_ok vd (BindingCall b st)), log @ [BindingCall b st])),
       po_accept_statement = (\<lambda>s log. (Inr (vd_ok vd (StatementCall s)), log @ [StatementCall s])),
       po_accepted = (\<lambda>s log. (Inr (Some (vd_ok vd (AcceptedCall s))), log @ [AcceptedCall s])) \<rparr>"

definition binding_steps :: "verdicts \<Rightarrow> string \<Rightarrow> device_binding list \<Rightarrow> (inv_check \<times> hook_call list \<times> bool) list" where
  "binding_steps vd st bs = map (\<lambda>b. (Chk_binding_policy, [BindingCall b st], vd_ok vd (BindingCall b st))) bs"

definition acceptance_steps ::
  "inventory_statement \<Rightarrow> bytes \<Rightarrow> bytes \<Rightarrow> bytes \<Rightarrow> verdicts \<Rightarrow> (inv_check \<times> hook_call list \<times> bool) list" where
  "acceptance_steps s preimage signature asked vd =
     (let acct = iv_account_handle s; key = vd_key vd (iv_issuer_key_id s) acct;
          fresh = FreshCall acct (iv_inventory_generation s)
      in [(Chk_account, [], acct = asked),
          (Chk_issuer, [IssuerCall (iv_issuer_key_id s) acct], key \<noteq> None),
          (Chk_signature, [], xeddsa_verify (the key) (signing_input preimage) signature \<noteq> None),
          (Chk_freshness, [fresh], vd_ok vd fresh),
          (Chk_duplicate_device, [], distinct (map db_device_id (iv_active s))),
          (Chk_identity_key, [], \<forall>b \<in> set (iv_active s @ map rv_binding (iv_revoked s)). is_identity_key (db_identity_public_key b))]
         @ binding_steps vd ''active'' (iv_active s) @ binding_steps vd ''revoked'' (map rv_binding (iv_revoked s))
         @ [(Chk_statement_policy, [StatementCall s], vd_ok vd (StatementCall s)),
            (Chk_freshness, [AcceptedCall s], vd_ok vd (AcceptedCall s))])"

text \<open>The first refusing step decides, and the calls made are those up to it.\<close>

fun first_refusal :: "('c \<times> 'h list \<times> bool) list \<Rightarrow> 'c option \<times> 'h list" where
  "first_refusal [] = (None, [])"
| "first_refusal ((c, calls, ok) # steps) =
     (if ok then (let (r, more) = first_refusal steps in (r, calls @ more)) else (Some c, calls))"

lemma first_refusal_append:
  "first_refusal (xs @ ys) =
     (case first_refusal xs of
        (Some c, calls) \<Rightarrow> (Some c, calls) | (None, calls) \<Rightarrow> (let (r, more) = first_refusal ys in (r, calls @ more)))"
  by (induction xs rule: first_refusal.induct) (auto simp: Let_def split: prod.splits option.splits)

definition decided :: "'a \<Rightarrow> inv_check option \<times> hook_call list \<Rightarrow> hook_call list \<Rightarrow> 'a res \<times> hook_call list" where
  "decided x r log =
     (case r of (None, calls) \<Rightarrow> (Inr x, log @ calls) | (Some c, calls) \<Rightarrow> (Inl (InventoryRefusal c), log @ calls))"

lemma decided_simps [simp]:
  "decided x (None, calls) log = (Inr x, log @ calls)"
  "decided x (Some c, calls) log = (Inl (InventoryRefusal c), log @ calls)"
  by (simp_all add: decided_def)

lemma accept_bindings_log:
  "accept_bindings (logging vd) st bs log = decided () (first_refusal (binding_steps vd st bs)) log"
  by (induction bs arbitrary: log)
    (auto simp: binding_steps_def logging_def bindS_def refused_def decided_def Let_def split: prod.splits option.splits)

lemma first_unsound_iff: "first_unsound bs = None \<longleftrightarrow> (\<forall>b \<in> set bs. is_identity_key (db_identity_public_key b))"
  by (induction bs) auto

lemma duplicate_iff: "duplicate_active_device s \<longleftrightarrow> \<not> distinct (map db_device_id (iv_active s))"
  by (metis duplicate_active_device_def distinct_card card_distinct)

lemma inv_checks_log:
  "inv_checks s preimage sig asked (logging vd) log = decided s (first_refusal (acceptance_steps s preimage sig asked vd)) log"
proof -
  let ?A = "first_refusal (binding_steps vd ''active'' (iv_active s))"
  let ?R = "first_refusal (binding_steps vd ''revoked'' (map rv_binding (iv_revoked s)))"
  have hooks: "po_issuer_key (logging vd) i a l = (Inr (vd_key vd i a), l @ [IssuerCall i a])"
    "po_fresh (logging vd) a n l = (Inr (vd_ok vd (FreshCall a n)), l @ [FreshCall a n])"
    "po_accept_statement (logging vd) s l = (Inr (vd_ok vd (StatementCall s)), l @ [StatementCall s])"
    "po_accepted (logging vd) s l = (Inr (Some (vd_ok vd (AcceptedCall s))), l @ [AcceptedCall s])" for i a n l
    by (simp_all add: logging_def)
  obtain ra ca where A: "?A = (ra, ca)" by (cases ?A)
  obtain rr cr where R: "?R = (rr, cr)" by (cases ?R)
  show ?thesis
  proof (cases "asked = iv_account_handle s")
    case True
    show ?thesis unfolding True
      by (cases "vd_key vd (iv_issuer_key_id s) (iv_account_handle s)"; cases ra; cases rr)
        (simp_all add: inv_checks_def acceptance_steps_def Let_def bindS_def refused_def hooks accept_bindings_log
          duplicate_iff unsound_key_def first_unsound_iff first_refusal_append A R)
  qed (auto simp: inv_checks_def acceptance_steps_def refused_def Let_def)
qed

lemma accept_log:
  "accept data asked (logging vd) log =
     (case decode_signed data of
        Inl err \<Rightarrow> (Inl err, log)
      | Inr (s, preimage, sig) \<Rightarrow> decided s (first_refusal (acceptance_steps s preimage sig asked vd)) log)"
  by (simp add: accept_def inv_checks_log split: sum.split prod.split)

section \<open>What the decoder and the encoder refuse with, and what an issuer signs\<close>

abbreviation decode_only :: "error \<Rightarrow> bool" where
  "decode_only err \<equiv> err = decode_failure"

lemma raises_iu: "bits \<in> {32, 64} \<Longrightarrow> raises decode_only (iu v bits)"
  by (auto simp: raises_def iu_def to_bytes_be_def split: if_splits)

lemma raises_ic_take: "raises decode_only (ic_take n r)"
  by (simp add: raises_def ic_take_def)

lemma raises_encode_binding: "raises decode_only (encode_binding b)"
  unfolding encode_binding_def by (intro raises_intro raises_iu) simp_all

lemma raises_encode_revocation: "raises decode_only (encode_revocation r)"
  unfolding encode_revocation_def by (intro raises_intro raises_iu raises_encode_binding) simp_all

lemma raises_generations_within: "raises decode_only (generations_within lo up rs)"
  by (induction lo up rs rule: generations_within.induct) (auto simp: raises_def)

lemma raises_none_active: "raises decode_only (none_active A rs)"
  using raises_encode_binding by (induction A rs rule: none_active.induct) (auto simp: raises_def bindR_Inl_iff split: if_splits)

lemma raises_check_encoding_rules: "raises decode_only (check_encoding_rules s)"
  unfolding check_encoding_rules_def
  by (intro raises_intro raises_iu raises_encode_binding raises_encode_revocation raises_generations_within
      raises_none_active) simp_all

lemma raises_encode_unsigned: "raises decode_only (encode_unsigned s)"
  unfolding encode_unsigned_def
  by (intro raises_intro raises_iu raises_encode_binding raises_encode_revocation raises_check_encoding_rules) simp_all

lemma raises_read_binding: "raises decode_only (read_binding r)"
  unfolding read_binding_def by (intro raises_intro raises_ic_take) simp_all

lemma raises_read_statement: "raises decode_only (read_statement b)"
  unfolding read_statement_def read_revocation_def
  by (intro raises_intro raises_ic_take raises_read_binding) simp_all

lemma raises_decode_signed: "raises decode_only (decode_signed b)"
  unfolding decode_signed_def decode_unsigned_def
  by (intro raises_intro raises_read_statement raises_check_encoding_rules raises_encode_unsigned) simp_all

lemma length_compress: "length (compress P) = 32"
  by (cases P) (simp add: compress_def Let_def le32_def)

lemma length_xeddsa_sign:
  assumes "xeddsa_sign k msg z = Inr sig"
  shows "length sig = 64"
proof -
  obtain R v where "sig = compress R @ le32 v"
    using assms unfolding xeddsa_sign_def Let_def if_Inl_iff bindR_Inr_iff by (elim conjE exE) blast
  then show ?thesis by (simp add: length_compress le32_def)
qed

text \<open>The statements an issuer signs.\<close>

definition signable :: "inventory_statement \<Rightarrow> bool" where
  "signable s \<longleftrightarrow>
     statement_ok s \<and> distinct (map db_device_id (iv_active s))
     \<and> (\<forall>b \<in> set (iv_active s @ map rv_binding (iv_revoked s)). is_identity_key (db_identity_public_key b))"

lemma sign_statement_eq:
  "sign_statement k s z =
     (if signable s then bindR (xeddsa_sign k (signing_input (statement_enc s)) z) (\<lambda>sig. Inr (statement_enc s @ sig))
      else Inl IssuerRefusal)"
proof (cases "statement_ok s")
  case True
  then have "encode_unsigned s = Inr (statement_enc s)" by (simp add: encode_unsigned_iff)
  with True show ?thesis
    by (simp add: sign_statement_def signable_def duplicate_iff unsound_key_def first_unsound_iff)
next
  case False
  then obtain e where e: "encode_unsigned s = Inl e" by (cases "encode_unsigned s") (auto simp: encode_unsigned_iff)
  with raises_encode_unsigned have "e = decode_failure" by (rule raisesD)
  with e False show ?thesis by (simp add: sign_statement_def signable_def)
qed

lemma signed_decodes:
  "sign_statement k s z = Inr b \<Longrightarrow> \<exists>sig. decode_signed b = Inr (s, statement_enc s, sig) \<and> signable s"
  by (auto simp: sign_statement_eq bindR_Inr_iff decode_signed_iff length_xeddsa_sign encode_unsigned_iff signable_def
      split: if_splits)

lemma first_refusal_in:
  "first_refusal steps = (Some c, calls) \<Longrightarrow> \<exists>own. (c, own, False) \<in> set steps"
  by (induction steps arbitrary: calls rule: first_refusal.induct) (auto simp: Let_def split: if_splits prod.splits)

text \<open>Neither the decoder nor the checks of devices and keys refuse what an issuer has signed.\<close>

lemma signed_refusals:
  assumes "sign_statement k s z = Inr b" and no: "fst (accept b asked (logging vd) log) = Inl err"
  shows "\<exists>c. err = InventoryRefusal c \<and> c \<notin> {Chk_decode, Chk_duplicate_device, Chk_identity_key}"
proof -
  obtain sig where "decode_signed b = Inr (s, statement_enc s, sig)" and ok: "signable s"
    using signed_decodes [OF assms(1)] by blast
  then have d: "fst (decided s (first_refusal (acceptance_steps s (statement_enc s) sig asked vd)) log) = Inl err"
    using no by (simp add: accept_log)
  obtain c calls where r: "first_refusal (acceptance_steps s (statement_enc s) sig asked vd) = (Some c, calls)"
      "err = InventoryRefusal c"
    using d by (cases "first_refusal (acceptance_steps s (statement_enc s) sig asked vd)")
      (auto simp: decided_def split: option.splits)
  obtain own where "(c, own, False) \<in> set (acceptance_steps s (statement_enc s) sig asked vd)"
    using first_refusal_in [OF r(1)] by blast
  then show ?thesis
    using ok r(2) by (auto simp: acceptance_steps_def binding_steps_def signable_def Let_def)
qed

end
