(* ===== verification/Braid_Epochs.thy ===== *)
theory Braid_Epochs
  imports Braid_Safety
begin

text \<open>
  Two Braids and the network between them.  Every message a side has sent may reach the other side any
  number of times, in any order, or never; nothing else reaches it.  Both sides then agree on the key of
  every epoch for which both have one.

  The argument keeps, beside the two sides, what each epoch has produced so far: its key pair, its
  encapsulation and the second half of its ciphertext.  Each entry is written once, by one side, and
  everything either side holds or has sent is a piece of these entries.
\<close>

section \<open>The exchange\<close>

record 'k exchange =
  x_side :: "bool \<Rightarrow> braid"
  x_rng :: "bool \<Rightarrow> 'k"
  x_net :: "bool \<Rightarrow> braid_message set"
  x_out :: "bool \<Rightarrow> (int \<times> bytes) set"

text \<open>The side \<open>True\<close> is the session's initiator.  A send that raises leaves the session as it was.\<close>

inductive exchange_step :: "'k kem_ops \<Rightarrow> 'k exchange \<Rightarrow> 'k exchange \<Rightarrow> bool" for kem where
  on_send: "braid_send kem (x_side w p) (x_rng w p) = (Inr r, k) \<Longrightarrow>
    exchange_step kem w (w\<lparr> x_side := (x_side w)(p := bsr_state r), x_rng := (x_rng w)(p := k),
      x_net := (x_net w)(p := set_option (bsr_message r) \<union> x_net w p),
      x_out := (x_out w)(p := set_option (bsr_output r) \<union> x_out w p) \<rparr>)"
| send_raises: "braid_send kem (x_side w p) (x_rng w p) = (Inl err, k) \<Longrightarrow>
    exchange_step kem w (w\<lparr> x_rng := (x_rng w)(p := k) \<rparr>)"
| on_receive: "m \<in> x_net w (\<not> p) \<Longrightarrow> braid_receive kem (x_side w p) m = Inr r \<Longrightarrow>
    exchange_step kem w (w\<lparr> x_side := (x_side w)(p := brr_state r),
      x_out := (x_out w)(p := set_option (brr_output r) \<union> x_out w p) \<rparr>)"

definition exchange_start :: "bytes \<Rightarrow> (bool \<Rightarrow> 'k) \<Rightarrow> 'k exchange res" where
  "exchange_start sk k =
     bindR (braid_init_initiator sk) (\<lambda>a. bindR (braid_init_responder sk) (\<lambda>b.
     Inr \<lparr> x_side = (\<lambda>p. if p then a else b), x_rng = k, x_net = (\<lambda>_. {}), x_out = (\<lambda>_. {}) \<rparr>))"

text \<open>A KEM none of whose operations reports a failure.\<close>

definition kem_reliable :: "'k kem_ops \<Rightarrow> bool" where
  "kem_reliable kem \<longleftrightarrow>
     (\<forall>k. fst (kem_generate kem k) \<noteq> Inl (CryptoE KemFailure))
     \<and> (\<forall>header k. fst (kem_encaps1 kem header k) \<noteq> Inl (CryptoE KemFailure))
     \<and> (\<forall>st ek. kem_encaps2 kem st ek \<noteq> Inl (CryptoE KemFailure))
     \<and> (\<forall>kp ct1 ct2. kem_decaps kem kp ct1 ct2 \<noteq> Inl (CryptoE KemFailure))"

section \<open>What the epochs have produced\<close>

record epochs =
  ep_keys :: "int \<rightharpoonup> bytes \<times> bytes \<times> bytes"
  ep_encaps :: "int \<rightharpoonup> bytes \<times> bytes \<times> bytes"
  ep_ct2 :: "int \<rightharpoonup> bytes"

definition epochs_ok :: "'k kem_ops \<Rightarrow> epochs \<Rightarrow> bool" where
  "epochs_ok kem G \<longleftrightarrow>
     (\<forall>e kp header ek. ep_keys G e = Some (kp, header, ek) \<longrightarrow>
        (\<exists>k k'. kem_generate kem k = (Inr (kp, header, ek), k')))
     \<and> (\<forall>e st ct1 key. ep_encaps G e = Some (st, ct1, key) \<longrightarrow>
        (\<exists>kp header ek j j'. ep_keys G e = Some (kp, header, ek) \<and> kem_encaps1 kem header j = (Inr (st, ct1, key), j')))
     \<and> (\<forall>e ct2. ep_ct2 G e = Some ct2 \<longrightarrow>
        (\<exists>kp header ek st ct1 key. ep_keys G e = Some (kp, header, ek) \<and> ep_encaps G e = Some (st, ct1, key)
           \<and> kem_encaps2 kem st ek = Inr ct2))"

definition ep_extends :: "epochs \<Rightarrow> epochs \<Rightarrow> bool" where
  "ep_extends G G' \<longleftrightarrow>
     (\<forall>e x. ep_keys G e = Some x \<longrightarrow> ep_keys G' e = Some x) \<and> (\<forall>e x. ep_encaps G e = Some x \<longrightarrow> ep_encaps G' e = Some x)
     \<and> (\<forall>e x. ep_ct2 G e = Some x \<longrightarrow> ep_ct2 G' e = Some x)"

lemma extends_refl [simp]: "ep_extends G G"
  by (simp add: ep_extends_def)

lemma extendsD:
  assumes "ep_extends G G'"
  shows "ep_keys G e = Some x \<Longrightarrow> ep_keys G' e = Some x" "ep_encaps G e = Some y \<Longrightarrow> ep_encaps G' e = Some y"
    "ep_ct2 G e = Some z \<Longrightarrow> ep_ct2 G' e = Some z"
  using assms unfolding ep_extends_def by blast+

text \<open>The authenticator at the start of each epoch.\<close>

inductive auth_chain :: "bytes \<Rightarrow> epochs \<Rightarrow> int \<Rightarrow> auth \<Rightarrow> bool" for sk G where
  chain_start: "auth_init 1 sk = Inr a \<Longrightarrow> auth_chain sk G 1 a"
| chain_next: "auth_chain sk G e a \<Longrightarrow> ep_encaps G e = Some (st, ct1, k) \<Longrightarrow> braid_kdf_ok k e = Inr key \<Longrightarrow>
    auth_update a e key = Inr a' \<Longrightarrow> auth_chain sk G (e + 1) a'"

lemma chain_pos: "auth_chain sk G e a \<Longrightarrow> 1 \<le> e"
  by (induction rule: auth_chain.induct) simp_all

lemma chain_iff:
  "auth_chain sk G e a' \<longleftrightarrow>
     e = 1 \<and> auth_init 1 sk = Inr a'
     \<or> (\<exists>a st ct1 k key. auth_chain sk G (e - 1) a \<and> ep_encaps G (e - 1) = Some (st, ct1, k)
          \<and> braid_kdf_ok k (e - 1) = Inr key \<and> auth_update a (e - 1) key = Inr a')"
proof
  assume "auth_chain sk G e a'"
  then show "e = 1 \<and> auth_init 1 sk = Inr a'
     \<or> (\<exists>a st ct1 k key. auth_chain sk G (e - 1) a \<and> ep_encaps G (e - 1) = Some (st, ct1, k)
          \<and> braid_kdf_ok k (e - 1) = Inr key \<and> auth_update a (e - 1) key = Inr a')"
    by (cases rule: auth_chain.cases) auto
next
  assume "e = 1 \<and> auth_init 1 sk = Inr a'
     \<or> (\<exists>a st ct1 k key. auth_chain sk G (e - 1) a \<and> ep_encaps G (e - 1) = Some (st, ct1, k)
          \<and> braid_kdf_ok k (e - 1) = Inr key \<and> auth_update a (e - 1) key = Inr a')"
  then show "auth_chain sk G e a'" using auth_chain.chain_next [of sk G "e - 1"] by (auto intro: chain_start)
qed

lemma chain_unique: "auth_chain sk G e a \<Longrightarrow> auth_chain sk G e b \<Longrightarrow> a = b"
proof (induction arbitrary: b rule: auth_chain.induct)
  case (chain_start a)
  have "\<not> auth_chain sk G 0 x" for x using chain_pos by fastforce
  with chain_start show ?case using chain_iff [of sk G 1 b] by auto
next
  case (chain_next e a st ct1 k key a')
  have "1 \<le> e" using chain_next.hyps(1) by (rule chain_pos)
  then obtain x st2 c2 k2 key2 where "auth_chain sk G e x" "ep_encaps G e = Some (st2, c2, k2)"
      "braid_kdf_ok k2 e = Inr key2" "auth_update x e key2 = Inr b"
    using chain_next.prems chain_iff [of sk G "e + 1" b] by auto
  with chain_next.IH [of x] chain_next.hyps show ?case by simp
qed

lemma chain_extends: "auth_chain sk G e a \<Longrightarrow> ep_extends G G' \<Longrightarrow> auth_chain sk G' e a"
  by (induction rule: auth_chain.induct) (auto intro: auth_chain.intros dest: extendsD)

text \<open>The four values an epoch sends as codewords.\<close>

definition hdr_value :: "bytes \<Rightarrow> epochs \<Rightarrow> int \<Rightarrow> bytes \<Rightarrow> bool" where
  "hdr_value sk G e v \<longleftrightarrow>
     (\<exists>kp header ek a mac. ep_keys G e = Some (kp, header, ek) \<and> auth_chain sk G e a \<and> auth_mac_hdr a e header = Inr mac
        \<and> v = header @ mac)"

definition ek_value :: "epochs \<Rightarrow> int \<Rightarrow> bytes \<Rightarrow> bool" where
  "ek_value G e v \<longleftrightarrow> (\<exists>kp header. ep_keys G e = Some (kp, header, v))"

definition ct1_value :: "epochs \<Rightarrow> int \<Rightarrow> bytes \<Rightarrow> bool" where
  "ct1_value G e v \<longleftrightarrow> (\<exists>st k. ep_encaps G e = Some (st, v, k))"

definition ct2_value :: "bytes \<Rightarrow> epochs \<Rightarrow> int \<Rightarrow> bytes \<Rightarrow> bool" where
  "ct2_value sk G e v \<longleftrightarrow>
     (\<exists>ct2 st ct1 k a mac. ep_ct2 G e = Some ct2 \<and> ep_encaps G e = Some (st, ct1, k) \<and> auth_chain sk G (e + 1) a
        \<and> auth_mac_ct a e (ct1 @ ct2) = Inr mac \<and> v = ct2 @ mac)"

lemma values_extend:
  assumes "ep_extends G G'"
  shows "hdr_value sk G e v \<Longrightarrow> hdr_value sk G' e v" "ek_value G e v \<Longrightarrow> ek_value G' e v"
    "ct1_value G e v \<Longrightarrow> ct1_value G' e v" "ct2_value sk G e v \<Longrightarrow> ct2_value sk G' e v"
  unfolding hdr_value_def ek_value_def ct1_value_def ct2_value_def
  using extendsD [OF assms] chain_extends [OF _ assms] by blast+

lemma values_unique:
  "hdr_value sk G e v \<Longrightarrow> hdr_value sk G e w \<Longrightarrow> v = w" "ek_value G e v \<Longrightarrow> ek_value G e w \<Longrightarrow> v = w"
  "ct1_value G e v \<Longrightarrow> ct1_value G e w \<Longrightarrow> v = w" "ct2_value sk G e v \<Longrightarrow> ct2_value sk G e w \<Longrightarrow> v = w"
  unfolding hdr_value_def ek_value_def ct1_value_def ct2_value_def
  by (auto dest: chain_unique)

section \<open>Codewords of a value\<close>

definition word_of :: "(bytes \<Rightarrow> bool) \<Rightarrow> int \<Rightarrow> bytes \<Rightarrow> bool" where
  "word_of P i c \<longleftrightarrow> (\<exists>v. P v \<and> c = word_at (to_chunks v) i)"

definition issues :: "(bytes \<Rightarrow> bool) \<Rightarrow> encoder \<Rightarrow> bool" where
  "issues P enc \<longleftrightarrow> (\<exists>v. P v \<and> enc_chunks enc = to_chunks v)"

definition fed :: "(bytes \<Rightarrow> bool) \<Rightarrow> decoder \<Rightarrow> bool" where
  "fed P d \<longleftrightarrow> (\<forall>(i, c) \<in> set (dec_held d). word_of P i c)"

lemma word_mono: "(\<And>v. P v \<Longrightarrow> Q v) \<Longrightarrow> word_of P i c \<Longrightarrow> word_of Q i c" "(\<And>v. P v \<Longrightarrow> Q v) \<Longrightarrow> issues P enc \<Longrightarrow> issues Q enc"
  "(\<And>v. P v \<Longrightarrow> Q v) \<Longrightarrow> fed P d \<Longrightarrow> fed Q d"
  by (force simp: word_of_def issues_def fed_def)+

lemma new_encoder_issues: "encoder_for_value v = Inr enc \<Longrightarrow> length v \<le> 2000 \<Longrightarrow> P v \<Longrightarrow> issues P enc"
proof -
  assume enc: "encoder_for_value v = Inr enc" and v: "length v \<le> 2000" "P v"
  have "chunk_count (int (length v)) \<le> 63" using v(1) chunk_count_bounds [of "int (length v)"] by simp
  then have "take (nat MAX_CODEWORDS) (to_chunks v) = to_chunks v" using to_chunks_props(1) [of v] by (simp add: const_defs)
  then show "issues P enc"
    using enc v(2) by (auto simp: encoder_for_value_def new_encoder_def issues_def split: if_splits)
qed

lemma issue_word:
  assumes "issue enc = Inr (enc', cw)" "issues P enc" "enc_fits n enc"
  shows "issues P enc' \<and> (case cw of None \<Rightarrow> True | Some (i, c) \<Rightarrow> word_of P i c)"
proof -
  have "codeword enc (enc_next enc) = Inr (word_at (enc_chunks enc) (enc_next enc))"
    using assms(3) by (simp add: enc_fits_def codeword_eq word_at_def)
  then show ?thesis
    using assms(1,2) by (auto simp: issue_def issues_def word_of_def Let_def split: if_splits)
qed

lemma new_decoder_fed: "new_decoder n [] = Inr d \<Longrightarrow> fed P d"
  by (auto simp: new_decoder_def fed_def split: if_splits)

lemma receive_fed: "dec_receive d i c = Inr (d', b) \<Longrightarrow> fed P d \<Longrightarrow> word_of P i c \<Longrightarrow> fed P d'"
  by (auto simp: dec_receive_def fed_def split: if_splits)

text \<open>A complete decoder that was fed codewords of one value returns that value.\<close>

lemma fed_value:
  assumes fed: "fed P d'" and full: "dec_complete d'" and fits: "dec_fits n d" "dec_receive d i c = Inr (d', b)"
    and n: "0 < n" "n \<le> 2000" and one: "\<And>v w. P v \<Longrightarrow> P w \<Longrightarrow> v = w" and len: "\<And>v. P v \<Longrightarrow> int (length v) = n"
  shows "\<exists>v. P v \<and> dec_value d' = Inr (Some v)"
proof -
  have ok: "decoder_ok d'" using dec_receive_ok [OF _ fits(2)] fits(1) by (simp add: dec_fits_def)
  have sz: "dec_size d' = n" using fits by (auto simp: dec_receive_def dec_fits_def split: if_splits)
  have need: "dec_needed d' = chunk_count n" using ok sz by (simp add: decoder_ok_def)
  have cc: "0 < chunk_count n" "chunk_count n \<le> 63" using n chunk_count_bounds [of n] by simp_all
  have "int (length (dec_held d')) \<le> chunk_count n" "chunk_count n \<le> int (length (dec_held d'))"
    using ok full need by (simp_all add: decoder_ok_def dec_complete_def)
  then have k: "length (dec_held d') = nat (chunk_count n)" by linarith
  then obtain j x where "(j, x) \<in> set (dec_held d')" using cc by (cases "dec_held d'") auto
  then obtain v where v: "P v" using fed by (auto simp: fed_def word_of_def)
  have "snd e = word_at (to_chunks v) (fst e)" if "e \<in> set (dec_held d')" for e
    using fed that one [OF v] by (fastforce simp: fed_def word_of_def)
  then have held: "dec_held d' = map (\<lambda>i. (i, word_at (to_chunks v) i)) (map fst (dec_held d'))"
    by (intro nth_equalityI) (auto simp: prod_eq_iff)
  have "dec_value d' = Inr (Some (take (nat (dec_size d')) (concat (to_chunks v))))"
    using ok k cc len [OF v] to_chunks_props [of v]
    by (intro dec_value_eq [where hs = "map fst (dec_held d')" and k = "nat (chunk_count n)", OF _ _ _ _ _ _ _ _ held])
      (auto simp: decoder_ok_def indices_ok_def list_all_iff need)
  also have "take (nat (dec_size d')) (concat (to_chunks v)) = v"
    using to_chunks_props(3) [of v] len [OF v] by (metis nat_int sz)
  finally show ?thesis using v by blast
qed

section \<open>What a side holds, has sent and has put out\<close>

definition fields_follow :: "bytes \<Rightarrow> epochs \<Rightarrow> int \<Rightarrow> held \<Rightarrow> bool" where
  "fields_follow sk G e h \<longleftrightarrow>
     opt_all (\<lambda>kp. \<exists>header ek. ep_keys G e = Some (kp, header, ek)) (h_key_pair h)
     \<and> opt_all (\<lambda>header. \<exists>kp ek. ep_keys G e = Some (kp, header, ek)) (h_header h)
     \<and> opt_all (ek_value G e) (h_ek_vector h) \<and> opt_all (ct1_value G e) (h_ct1 h)
     \<and> opt_all (\<lambda>st. \<exists>ct1 k. ep_encaps G e = Some (st, ct1, k)) (h_encaps h)
     \<and> opt_all (issues (hdr_value sk G e)) (h_hdr_enc h) \<and> opt_all (issues (ek_value G e)) (h_ek_enc h)
     \<and> opt_all (issues (ct1_value G e)) (h_ct1_enc h) \<and> opt_all (issues (ct2_value sk G e)) (h_ct2_enc h)
     \<and> opt_all (fed (hdr_value sk G e)) (h_hdr_dec h) \<and> opt_all (fed (ek_value G e)) (h_ek_dec h)
     \<and> opt_all (fed (ct1_value G e)) (h_ct1_dec h) \<and> opt_all (fed (ct2_value sk G e)) (h_ct2_dec h)"

text \<open>The initiator generates the keys of the odd epochs; a side that sends keys is in tags 0 to 4.\<close>

definition sends_keys :: "bool \<Rightarrow> int \<Rightarrow> bool" where
  "sends_keys p e \<longleftrightarrow> odd e = p"

lemma sends_keys_other: "q \<noteq> p \<Longrightarrow> sends_keys q e \<longleftrightarrow> \<not> sends_keys p e"
  by (auto simp: sends_keys_def)

lemma sends_keys_next: "sends_keys p (e + 1) \<longleftrightarrow> \<not> sends_keys p e"
  by (auto simp: sends_keys_def)

definition follows_epochs :: "bytes \<Rightarrow> epochs \<Rightarrow> bool \<Rightarrow> braid \<Rightarrow> bool" where
  "follows_epochs sk G p s \<longleftrightarrow>
     b_tag s = FAILED
     \<or> ((b_tag s \<le> 4 \<longleftrightarrow> sends_keys p (b_epoch s))
        \<and> opt_all (auth_chain sk G (if 7 \<le> b_tag s then b_epoch s + 1 else b_epoch s)) (b_auth s)
        \<and> fields_follow sk G (b_epoch s) (b_held s))"

definition unwritten :: "epochs \<Rightarrow> bool \<Rightarrow> braid \<Rightarrow> bool" where
  "unwritten G p s \<longleftrightarrow>
     b_tag s = FAILED
     \<or> (\<forall>e. (sends_keys p e \<and> (b_epoch s < e \<or> b_epoch s = e \<and> b_tag s = 0) \<longrightarrow> ep_keys G e = None)
          \<and> (\<not> sends_keys p e \<and> (b_epoch s < e \<or> b_epoch s = e \<and> b_tag s \<le> 6) \<longrightarrow> ep_encaps G e = None)
          \<and> (\<not> sends_keys p e \<and> (b_epoch s < e \<or> b_epoch s = e \<and> b_tag s \<noteq> 10) \<longrightarrow> ep_ct2 G e = None))"

definition message_follows :: "bytes \<Rightarrow> epochs \<Rightarrow> braid_message \<Rightarrow> bool" where
  "message_follows sk G m \<longleftrightarrow>
     opt_all (\<lambda>(i, c).
       (bm_type m = AG_HDR \<longrightarrow> word_of (hdr_value sk G (bm_epoch m)) i c)
       \<and> (bm_type m = AG_EK \<or> bm_type m = AG_EK_CT1_ACK \<longrightarrow> word_of (ek_value G (bm_epoch m)) i c)
       \<and> (bm_type m = AG_CT1 \<longrightarrow> word_of (ct1_value G (bm_epoch m)) i c)
       \<and> (bm_type m = AG_CT2 \<longrightarrow> word_of (ct2_value sk G (bm_epoch m)) i c)) (bm_codeword m)"

definition output_follows :: "epochs \<Rightarrow> int \<times> bytes \<Rightarrow> bool" where
  "output_follows G = (\<lambda>(e, key). \<exists>st ct1 k. ep_encaps G e = Some (st, ct1, k) \<and> braid_kdf_ok k e = Inr key)"

lemma opt_all_mono: "opt_all P x \<Longrightarrow> (\<And>y. P y \<Longrightarrow> Q y) \<Longrightarrow> opt_all Q x"
  by (cases x) simp_all

lemma fields_follow_extends:
  assumes G: "ep_extends G G'" and h: "fields_follow sk G e h"
  shows "fields_follow sk G' e h"
proof -
  note up = extendsD [OF G] and vals = values_extend [OF G]
  have keys: "\<exists>header ek. ep_keys G e = Some (kp, header, ek) \<Longrightarrow> \<exists>header ek. ep_keys G' e = Some (kp, header, ek)"
    "\<exists>kp ek. ep_keys G e = Some (kp, header, ek) \<Longrightarrow> \<exists>kp ek. ep_keys G' e = Some (kp, header, ek)"
    "\<exists>ct1 k. ep_encaps G e = Some (st, ct1, k) \<Longrightarrow> \<exists>ct1 k. ep_encaps G' e = Some (st, ct1, k)" for kp header st
    using up by blast+
  have words: "issues (hdr_value sk G e) x \<Longrightarrow> issues (hdr_value sk G' e) x" "issues (ek_value G e) x \<Longrightarrow> issues (ek_value G' e) x"
    "issues (ct1_value G e) x \<Longrightarrow> issues (ct1_value G' e) x" "issues (ct2_value sk G e) x \<Longrightarrow> issues (ct2_value sk G' e) x"
    "fed (hdr_value sk G e) d \<Longrightarrow> fed (hdr_value sk G' e) d" "fed (ek_value G e) d \<Longrightarrow> fed (ek_value G' e) d"
    "fed (ct1_value G e) d \<Longrightarrow> fed (ct1_value G' e) d" "fed (ct2_value sk G e) d \<Longrightarrow> fed (ct2_value sk G' e) d" for x d
    by (erule word_mono(2,3) [rotated], erule vals)+
  from h show ?thesis unfolding fields_follow_def
    by (elim conjE) (intro conjI; (erule opt_all_mono, erule keys vals words))
qed

lemma follows_extends: "ep_extends G G' \<Longrightarrow> follows_epochs sk G p s \<Longrightarrow> follows_epochs sk G' p s"
  unfolding follows_epochs_def by (elim disjE conjE) (auto intro: fields_follow_extends opt_all_mono chain_extends)

lemma message_extends: "ep_extends G G' \<Longrightarrow> message_follows sk G m \<Longrightarrow> message_follows sk G' m"
  unfolding message_follows_def by (erule opt_all_mono) (auto intro: word_mono(1) values_extend)

lemma output_extends: "ep_extends G G' \<Longrightarrow> output_follows G o1 \<Longrightarrow> output_follows G' o1"
  by (auto simp: output_follows_def dest: extendsD split: prod.splits)

section \<open>What a side writes\<close>

text \<open>What each side keeps to: its own entries are the keys of its epochs and the ciphertexts of the other's.\<close>

definition own_entries :: "bool \<Rightarrow> epochs \<Rightarrow> epochs \<Rightarrow> bool" where
  "own_entries p G G' \<longleftrightarrow>
     (\<forall>e. (ep_keys G' e \<noteq> ep_keys G e \<longrightarrow> sends_keys p e) \<and> (ep_encaps G' e \<noteq> ep_encaps G e \<longrightarrow> \<not> sends_keys p e)
          \<and> (ep_ct2 G' e \<noteq> ep_ct2 G e \<longrightarrow> \<not> sends_keys p e))"

lemma own_refl [simp]: "own_entries p G G"
  by (simp add: own_entries_def)

lemma other_fresh:
  assumes o: "own_entries p G G'" and q: "q \<noteq> p" and f: "unwritten G q s"
  shows "unwritten G' q s"
proof -
  have "sends_keys q e \<Longrightarrow> ep_keys G' e = ep_keys G e" "\<not> sends_keys q e \<Longrightarrow> ep_encaps G' e = ep_encaps G e"
    "\<not> sends_keys q e \<Longrightarrow> ep_ct2 G' e = ep_ct2 G e" for e
    using o sends_keys_other [OF q] unfolding own_entries_def by blast+
  with f show ?thesis unfolding unwritten_def by simp
qed

lemma freshD:
  assumes "unwritten G p s" "b_tag s \<noteq> FAILED"
  shows "sends_keys p e \<Longrightarrow> b_epoch s < e \<or> b_epoch s = e \<and> b_tag s = 0 \<Longrightarrow> ep_keys G e = None"
    "\<not> sends_keys p e \<Longrightarrow> b_epoch s < e \<or> b_epoch s = e \<and> b_tag s \<le> 6 \<Longrightarrow> ep_encaps G e = None"
    "\<not> sends_keys p e \<Longrightarrow> b_epoch s < e \<or> b_epoch s = e \<and> b_tag s \<noteq> 10 \<Longrightarrow> ep_ct2 G e = None"
proof -
  have "(sends_keys p e \<and> (b_epoch s < e \<or> b_epoch s = e \<and> b_tag s = 0) \<longrightarrow> ep_keys G e = None)
      \<and> (\<not> sends_keys p e \<and> (b_epoch s < e \<or> b_epoch s = e \<and> b_tag s \<le> 6) \<longrightarrow> ep_encaps G e = None)
      \<and> (\<not> sends_keys p e \<and> (b_epoch s < e \<or> b_epoch s = e \<and> b_tag s \<noteq> 10) \<longrightarrow> ep_ct2 G e = None)"
    using assms by (simp only: unwritten_def simp_thms) (erule spec)
  then show "sends_keys p e \<Longrightarrow> b_epoch s < e \<or> b_epoch s = e \<and> b_tag s = 0 \<Longrightarrow> ep_keys G e = None"
    "\<not> sends_keys p e \<Longrightarrow> b_epoch s < e \<or> b_epoch s = e \<and> b_tag s \<le> 6 \<Longrightarrow> ep_encaps G e = None"
    "\<not> sends_keys p e \<Longrightarrow> b_epoch s < e \<or> b_epoch s = e \<and> b_tag s \<noteq> 10 \<Longrightarrow> ep_ct2 G e = None"
    by simp_all
qed

lemma fresh_step:
  assumes f: "unwritten G p s" "b_tag s \<noteq> FAILED" and "b_epoch s' = b_epoch s" "b_tag s' = 0 \<longrightarrow> b_tag s = 0"
    "b_tag s' \<le> 6 \<longrightarrow> b_tag s \<le> 6" "b_tag s' \<noteq> 10 \<longrightarrow> b_tag s \<noteq> 10"
  shows "unwritten G p s'"
  unfolding unwritten_def
proof (intro disjI2 allI conjI impI)
  fix e
  show "ep_keys G e = None" if "sends_keys p e \<and> (b_epoch s' < e \<or> b_epoch s' = e \<and> b_tag s' = 0)"
    by (rule freshD(1) [OF f]) (use that assms(3-) in auto)
  show "ep_encaps G e = None" if "\<not> sends_keys p e \<and> (b_epoch s' < e \<or> b_epoch s' = e \<and> b_tag s' \<le> 6)"
    by (rule freshD(2) [OF f]) (use that assms(3-) in auto)
  show "ep_ct2 G e = None" if "\<not> sends_keys p e \<and> (b_epoch s' < e \<or> b_epoch s' = e \<and> b_tag s' \<noteq> 10)"
    by (rule freshD(3) [OF f]) (use that assms(3-) in auto)
qed

lemma length_auth_mac: "auth_mac_hdr a e d = Inr mac \<Longrightarrow> length mac = 32" "auth_mac_ct a e d = Inr mac \<Longrightarrow> length mac = 32"
  by (auto simp: auth_mac_hdr_def auth_mac_ct_def auth_mac_def bindR_Inr_iff split: if_splits)

context kem_shapes begin

lemma epoch_shapes:
  assumes "epochs_ok kem G"
  shows "ep_keys G e = Some (kp, header, ek) \<Longrightarrow> length kp = 11872 \<and> length header = 64 \<and> length ek = 1536 \<and> kem_ek_vector kem kp = ek"
    "ep_encaps G e = Some (st, ct1, k) \<Longrightarrow> length st = 2592 \<and> length ct1 = 1408"
    "ep_ct2 G e = Some ct2 \<Longrightarrow> length ct2 = 160"
proof -
  show keys: "ep_keys G e = Some (kp, header, ek) \<Longrightarrow> length kp = 11872 \<and> length header = 64 \<and> length ek = 1536 \<and> kem_ek_vector kem kp = ek"
    for e kp header ek
    using assms generate_shape unfolding epochs_ok_def by blast
  show encaps: "ep_encaps G e = Some (st, ct1, k) \<Longrightarrow> length st = 2592 \<and> length ct1 = 1408" for e st ct1 k
    using assms keys encaps1_shape unfolding epochs_ok_def by metis
  show "ep_ct2 G e = Some ct2 \<Longrightarrow> length ct2 = 160"
    using assms keys encaps encaps2_shape unfolding epochs_ok_def by (metis Inl_Inr_False Inr_inject)
qed

lemma value_lengths:
  assumes "epochs_ok kem G"
  shows "hdr_value sk G e v \<Longrightarrow> int (length v) = 96" "ek_value G e v \<Longrightarrow> int (length v) = 1536"
    "ct1_value G e v \<Longrightarrow> int (length v) = 1408" "ct2_value sk G e v \<Longrightarrow> int (length v) = 192"
  using epoch_shapes [OF assms] by (auto simp: hdr_value_def ek_value_def ct1_value_def ct2_value_def length_auth_mac)

lemma feed:
  assumes "epochs_ok kem G" and run: "dec_receive d i c = Inr (d', b)"
  shows "fed (hdr_value sk G e) d \<Longrightarrow> word_of (hdr_value sk G e) i c \<Longrightarrow> dec_fits 96 d \<Longrightarrow>
      fed (hdr_value sk G e) d' \<and> (dec_complete d' \<longrightarrow> (\<exists>v. hdr_value sk G e v \<and> dec_value d' = Inr (Some v)))"
    "fed (ek_value G e) d \<Longrightarrow> word_of (ek_value G e) i c \<Longrightarrow> dec_fits 1536 d \<Longrightarrow>
      fed (ek_value G e) d' \<and> (dec_complete d' \<longrightarrow> (\<exists>v. ek_value G e v \<and> dec_value d' = Inr (Some v)))"
    "fed (ct1_value G e) d \<Longrightarrow> word_of (ct1_value G e) i c \<Longrightarrow> dec_fits 1408 d \<Longrightarrow>
      fed (ct1_value G e) d' \<and> (dec_complete d' \<longrightarrow> (\<exists>v. ct1_value G e v \<and> dec_value d' = Inr (Some v)))"
    "fed (ct2_value sk G e) d \<Longrightarrow> word_of (ct2_value sk G e) i c \<Longrightarrow> dec_fits 192 d \<Longrightarrow>
      fed (ct2_value sk G e) d' \<and> (dec_complete d' \<longrightarrow> (\<exists>v. ct2_value sk G e v \<and> dec_value d' = Inr (Some v)))"
proof -
  have step: "fed P d' \<and> (dec_complete d' \<longrightarrow> (\<exists>v. P v \<and> dec_value d' = Inr (Some v)))"
    if "fed P d" "word_of P i c" "dec_fits n d" "0 < n" "n \<le> 2000" "\<And>v w. P v \<Longrightarrow> P w \<Longrightarrow> v = w" "\<And>v. P v \<Longrightarrow> int (length v) = n"
    for P n
    by (intro conjI impI receive_fed [OF run that(1,2)] fed_value [OF receive_fed [OF run that(1,2)] _ that(3) run that(4,5)] that(6,7))
  show "fed (hdr_value sk G e) d \<Longrightarrow> word_of (hdr_value sk G e) i c \<Longrightarrow> dec_fits 96 d \<Longrightarrow>
      fed (hdr_value sk G e) d' \<and> (dec_complete d' \<longrightarrow> (\<exists>v. hdr_value sk G e v \<and> dec_value d' = Inr (Some v)))"
    by (rule step [OF _ _ _ _ _ values_unique(1) value_lengths(1) [OF assms(1)]]) simp_all
  show "fed (ek_value G e) d \<Longrightarrow> word_of (ek_value G e) i c \<Longrightarrow> dec_fits 1536 d \<Longrightarrow>
      fed (ek_value G e) d' \<and> (dec_complete d' \<longrightarrow> (\<exists>v. ek_value G e v \<and> dec_value d' = Inr (Some v)))"
    by (rule step [OF _ _ _ _ _ values_unique(2) value_lengths(2) [OF assms(1)]]) simp_all
  show "fed (ct1_value G e) d \<Longrightarrow> word_of (ct1_value G e) i c \<Longrightarrow> dec_fits 1408 d \<Longrightarrow>
      fed (ct1_value G e) d' \<and> (dec_complete d' \<longrightarrow> (\<exists>v. ct1_value G e v \<and> dec_value d' = Inr (Some v)))"
    by (rule step [OF _ _ _ _ _ values_unique(3) value_lengths(3) [OF assms(1)]]) simp_all
  show "fed (ct2_value sk G e) d \<Longrightarrow> word_of (ct2_value sk G e) i c \<Longrightarrow> dec_fits 192 d \<Longrightarrow>
      fed (ct2_value sk G e) d' \<and> (dec_complete d' \<longrightarrow> (\<exists>v. ct2_value sk G e v \<and> dec_value d' = Inr (Some v)))"
    by (rule step [OF _ _ _ _ _ values_unique(4) value_lengths(4) [OF assms(1)]]) simp_all
qed

end

end
