(* ===== verification/Braid_Agreement.thy ===== *)
theory Braid_Agreement
  imports Braid_Epochs
begin

text \<open>
  Each operation of a Braid keeps what it holds, sends and puts out to the epochs' entries, so the two sides
  of an exchange agree on the key of every epoch for which both have one.
\<close>

section \<open>One step of a side\<close>

abbreviation br_at :: "int \<Rightarrow> int \<Rightarrow> auth option \<Rightarrow> held \<Rightarrow> braid" where
  "br_at t e au h \<equiv> \<lparr> b_tag = t, b_epoch = e, b_auth = au, b_held = h \<rparr>"

lemma follows_at:
  "t \<noteq> FAILED \<Longrightarrow> follows_epochs sk G p (br_at t e au h) \<longleftrightarrow>
     (t \<le> 4 \<longleftrightarrow> sends_keys p e) \<and> opt_all (auth_chain sk G (if 7 \<le> t then e + 1 else e)) au \<and> fields_follow sk G e h"
  by (simp add: follows_epochs_def)

lemma message_word:
  assumes "message_follows sk G m" "bm_codeword m = Some (i, c)"
  shows "bm_type m = AG_HDR \<Longrightarrow> word_of (hdr_value sk G (bm_epoch m)) i c"
    "bm_type m = AG_EK \<or> bm_type m = AG_EK_CT1_ACK \<Longrightarrow> word_of (ek_value G (bm_epoch m)) i c"
    "bm_type m = AG_CT1 \<Longrightarrow> word_of (ct1_value G (bm_epoch m)) i c"
    "bm_type m = AG_CT2 \<Longrightarrow> word_of (ct2_value sk G (bm_epoch m)) i c"
  using assms by (simp_all add: message_follows_def)

text \<open>
  What one step of a side may do to its own state when it adds nothing: it keeps to the epochs, and fails only
  at the ceiling or because the KEM reported a failure.
\<close>

definition keeps :: "'k kem_ops \<Rightarrow> bytes \<Rightarrow> epochs \<Rightarrow> bool \<Rightarrow> braid \<Rightarrow> braid \<Rightarrow> bool" where
  "keeps kem sk G p s s' \<longleftrightarrow>
     follows_epochs sk G p s' \<and> unwritten G p s' \<and> (b_tag s' = FAILED \<longrightarrow> b_epoch s = U64_MAX - 1 \<or> \<not> kem_reliable kem)"

lemma keepsI:
  assumes "follows_epochs sk G p s'" "unwritten G p s" "b_tag s \<noteq> FAILED" "b_tag s' \<noteq> FAILED" "b_epoch s' = b_epoch s"
    "b_tag s' = 0 \<longrightarrow> b_tag s = 0" "b_tag s' \<le> 6 \<longrightarrow> b_tag s \<le> 6" "b_tag s' \<noteq> 10 \<longrightarrow> b_tag s \<noteq> 10"
  shows "keeps kem sk G p s s'"
  using assms fresh_step [OF assms(2,3,5-8)] by (simp add: keeps_def)

lemma fresh_next:
  assumes f: "unwritten G p s" "b_tag s \<noteq> FAILED" and "b_epoch s' = b_epoch s + 1"
  shows "unwritten G p s'"
  unfolding unwritten_def
proof (intro disjI2 allI conjI impI)
  fix e
  show "ep_keys G e = None" if "sends_keys p e \<and> (b_epoch s' < e \<or> b_epoch s' = e \<and> b_tag s' = 0)"
    by (rule freshD(1) [OF f]) (use that assms(3) in auto)
  show "ep_encaps G e = None" if "\<not> sends_keys p e \<and> (b_epoch s' < e \<or> b_epoch s' = e \<and> b_tag s' \<le> 6)"
    by (rule freshD(2) [OF f]) (use that assms(3) in auto)
  show "ep_ct2 G e = None" if "\<not> sends_keys p e \<and> (b_epoch s' < e \<or> b_epoch s' = e \<and> b_tag s' \<noteq> 10)"
    by (rule freshD(3) [OF f]) (use that assms(3) in auto)
qed

lemma epochs_okD:
  assumes "epochs_ok kem G"
  shows "ep_keys G e = Some (kp, header, ek) \<Longrightarrow> \<exists>i i'. kem_generate kem i = (Inr (kp, header, ek), i')"
    "ep_keys G e = Some (kp, header, ek) \<Longrightarrow> ep_encaps G e = Some (st, ct1, k) \<Longrightarrow>
       \<exists>j j'. kem_encaps1 kem header j = (Inr (st, ct1, k), j')"
    "ep_keys G e = Some (kp, header, ek) \<Longrightarrow> ep_encaps G e = Some (st, ct1, k) \<Longrightarrow> ep_ct2 G e = Some ct2 \<Longrightarrow>
       kem_encaps2 kem st ek = Inr ct2"
  using assms unfolding epochs_ok_def by fastforce+

lemma keeps_refl: "follows_epochs sk G p s \<Longrightarrow> unwritten G p s \<Longrightarrow> b_tag s \<noteq> FAILED \<Longrightarrow> keeps kem sk G p s s"
  by (simp add: keeps_def)

lemma keeps_failed: "b_epoch s = U64_MAX - 1 \<or> \<not> kem_reliable kem \<Longrightarrow> keeps kem sk G p s braid_failed_state"
  by (simp add: keeps_def follows_epochs_def unwritten_def braid_failed_state_def)

text \<open>Each handler ignores a message without a codeword, of another epoch or of another type.\<close>

definition addressed :: "braid \<Rightarrow> braid_message \<Rightarrow> int list \<Rightarrow> int \<Rightarrow> bytes \<Rightarrow> bool" where
  "addressed s m types i c \<longleftrightarrow> bm_codeword m = Some (i, c) \<and> bm_epoch m = b_epoch s \<and> bm_type m \<in> set types"

lemma addressedD: "addressed s m types i c \<Longrightarrow> bm_codeword m = Some (i, c)" "addressed s m types i c \<Longrightarrow> bm_epoch m = b_epoch s"
  "addressed s m types i c \<Longrightarrow> bm_type m \<in> set types"
  by (simp_all add: addressed_def)

lemma ignored:
  "(\<And>i c. \<not> addressed s m [AG_CT1] i c) \<Longrightarrow> recv_keys_sampled kem s m = Inr s \<and> recv_header_sent s m = Inr s"
  "(\<And>i c. \<not> addressed s m [AG_CT2] i c) \<Longrightarrow> recv_ct1_received s m = Inr s \<and> recv_ek_sent kem s m = Inr (s, None)"
  "(\<And>i c. \<not> addressed s m [AG_HDR] i c) \<Longrightarrow> recv_no_header s m = Inr s"
  "(\<And>i c. \<not> addressed s m [AG_EK, AG_EK_CT1_ACK] i c) \<Longrightarrow> recv_ct1_sampled kem s m = Inr s"
  "(\<And>i c. \<not> addressed s m [AG_EK_CT1_ACK] i c) \<Longrightarrow> recv_ct1_acknowledged kem s m = Inr s"
  by (cases "bm_codeword m"; force simp: addressed_def recv_keys_sampled_def recv_header_sent_def recv_ct1_received_def
      recv_ek_sent_def recv_no_header_def recv_ct1_sampled_def recv_ct1_acknowledged_def)+

lemmas followed = follows_at fields_follow_def nothing_def

context kem_shapes begin

lemma header_sent_keeps:
  assumes ok: "braid_ok (br_at 2 e au h)" and G: "epochs_ok kem G" and f: "follows_epochs sk G p (br_at 2 e au h)"
    and fr: "unwritten G p (br_at 2 e au h)" and m: "message_follows sk G m" and run: "recv_header_sent (br_at 2 e au h) m = Inr s'"
  shows "keeps kem sk G p (br_at 2 e au h) s'"
proof (cases "\<exists>i c. addressed (br_at 2 e au h) m [AG_CT1] i c")
  case True
  then obtain i c where ic: "bm_codeword m = Some (i, c)" "bm_epoch m = e" "bm_type m = AG_CT1"
    by (auto simp: addressed_def)
  obtain kp d en where h: "h = nothing\<lparr> h_key_pair := Some kp, h_ct1_dec := Some d, h_ek_enc := Some en \<rparr>" "dec_fits 1408 d"
    using ok by (auto simp: live_iff holds_iff)
  obtain d' b where d': "dec_receive d i c = Inr (d', b)"
    using run h ic by (cases "dec_receive d i c") (auto simp: recv_header_sent_def obj_def nothing_def)
  have "word_of (ct1_value G e) i c" using message_word(3) [OF m ic(1,3)] ic(2) by simp
  then have fed: "fed (ct1_value G e) d' \<and> (dec_complete d' \<longrightarrow> (\<exists>v. ct1_value G e v \<and> dec_value d' = Inr (Some v)))"
    using f h feed(3) [OF G d', of e] by (simp add: followed)
  have "follows_epochs sk G p s' \<and> b_epoch s' = e \<and> b_tag s' \<in> {2, 3}"
  proof (cases "dec_complete d'")
    case True
    then obtain v where "ct1_value G e v" "dec_value d' = Inr (Some v)" using fed by blast
    then show ?thesis
      using run f True by (auto simp: recv_header_sent_def ic d' h make_iff obj_def followed)
  next
    case False
    then show ?thesis
      using run f fed by (auto simp: recv_header_sent_def ic d' h obj_def followed)
  qed
  then show ?thesis by (intro keepsI [OF _ fr]) auto
next
  case False
  then show ?thesis using ignored(1) [of "br_at 2 e au h" m] run keeps_refl [OF f fr, where kem = kem] by auto
qed

lemma keys_sampled_keeps:
  assumes ok: "braid_ok (br_at 1 e au h)" and G: "epochs_ok kem G" and f: "follows_epochs sk G p (br_at 1 e au h)"
    and fr: "unwritten G p (br_at 1 e au h)" and m: "message_follows sk G m" and run: "recv_keys_sampled kem (br_at 1 e au h) m = Inr s'"
  shows "keeps kem sk G p (br_at 1 e au h) s'"
proof (cases "\<exists>i c. addressed (br_at 1 e au h) m [AG_CT1] i c")
  case True
  then obtain i c where ic: "bm_codeword m = Some (i, c)" "bm_epoch m = e" "bm_type m = AG_CT1"
    by (auto simp: addressed_def)
  obtain kp en where h: "h = nothing\<lparr> h_key_pair := Some kp, h_hdr_enc := Some en \<rparr>"
    using ok by (auto simp: live_iff holds_iff)
  obtain header ek where keys: "ep_keys G e = Some (kp, header, ek)" using f by (auto simp: h followed)
  have shape: "length ek = 1536" "kem_ek_vector kem kp = ek" using epoch_shapes(1) [OF G keys] by simp_all
  have ek: "ek_value G e ek" using keys by (auto simp: ek_value_def)
  obtain d d' b en' where d: "new_decoder 1408 [] = Inr d" "dec_receive d i c = Inr (d', b)" "encoder_for_value ek = Inr en'"
    and s': "s' = br_at 2 e au (nothing\<lparr> h_key_pair := Some kp, h_ct1_dec := Some d', h_ek_enc := Some en' \<rparr>)"
    using run shape by (auto simp: recv_keys_sampled_def ic h val_def make_iff nothing_def bindR_Inr_iff)
  have "word_of (ct1_value G e) i c" using message_word(3) [OF m ic(1,3)] ic(2) by simp
  then have "fed (ct1_value G e) d'" using receive_fed [OF d(2)] new_decoder_fed [OF d(1)] by blast
  moreover have "issues (ek_value G e) en'" using new_encoder_issues [OF d(3), where P = "ek_value G e"] ek shape by simp
  ultimately have "follows_epochs sk G p s'" using f keys by (auto simp: s' followed)
  then show ?thesis by (rule keepsI [OF _ fr]) (simp_all add: s')
next
  case False
  then show ?thesis using ignored(1) [where kem = kem and s = "br_at 1 e au h" and m = m] run keeps_refl [OF f fr, where kem = kem] by auto
qed

lemma ct1_received_keeps:
  assumes ok: "braid_ok (br_at 3 e au h)" and G: "epochs_ok kem G" and f: "follows_epochs sk G p (br_at 3 e au h)"
    and fr: "unwritten G p (br_at 3 e au h)" and m: "message_follows sk G m" and run: "recv_ct1_received (br_at 3 e au h) m = Inr s'"
  shows "keeps kem sk G p (br_at 3 e au h) s'"
proof (cases "\<exists>i c. addressed (br_at 3 e au h) m [AG_CT2] i c")
  case True
  then obtain i c where ic: "bm_codeword m = Some (i, c)" "bm_epoch m = e" "bm_type m = AG_CT2"
    by (auto simp: addressed_def)
  obtain kp ct en where h: "h = nothing\<lparr> h_key_pair := Some kp, h_ct1 := Some ct, h_ek_enc := Some en \<rparr>"
    using ok by (auto simp: live_iff holds_iff)
  obtain d d' b where d: "new_decoder 192 [] = Inr d" "dec_receive d i c = Inr (d', b)"
    and s': "s' = br_at 4 e au (nothing\<lparr> h_key_pair := Some kp, h_ct1 := Some ct, h_ct2_dec := Some d' \<rparr>)"
    using run by (auto simp: recv_ct1_received_def ic h make_iff nothing_def bindR_Inr_iff)
  have "word_of (ct2_value sk G e) i c" using message_word(4) [OF m ic(1,3)] ic(2) by simp
  then have "fed (ct2_value sk G e) d'" using receive_fed [OF d(2)] new_decoder_fed [OF d(1)] by blast
  then have "follows_epochs sk G p s'" using f by (auto simp: s' h followed)
  then show ?thesis by (rule keepsI [OF _ fr]) (simp_all add: s')
next
  case False
  then show ?thesis using ignored(2) [where kem = kem and s = "br_at 3 e au h" and m = m] run keeps_refl [OF f fr, where kem = kem] by auto
qed

lemma finish_header_keeps:
  assumes ok: "braid_ok (br_at 5 e au h)" and G: "epochs_ok kem G" and f: "follows_epochs sk G p (br_at 5 e au h)"
    and fr: "unwritten G p (br_at 5 e au h)" and v: "hdr_value sk G e v" and run: "finish_header (br_at 5 e au h) v = Inr s'"
  shows "keeps kem sk G p (br_at 5 e au h) s'"
proof -
  obtain kp header ek a mac where keys: "ep_keys G e = Some (kp, header, ek)" and a: "auth_chain sk G e a"
    and mac: "auth_mac_hdr a e header = Inr mac" "v = header @ mac"
    using v by (auto simp: hdr_value_def)
  have len: "length header = 64" "length mac = 32" using epoch_shapes(1) [OF G keys] length_auth_mac(1) [OF mac(1)] by simp_all
  obtain a' where "au = Some a'" using ok by (auto simp: live_iff)
  with f a have au: "au = Some a" by (auto simp: follows_at dest: chain_unique)
  obtain d where d: "new_decoder 1536 [] = Inr d" and
    s': "s' = br_at 6 e au (nothing\<lparr> h_header := Some header, h_ek_dec := Some d \<rparr>)"
    using run len mac by (auto simp: finish_header_def au obj_def mac_matches_def make_iff bindR_Inr_iff Let_def)
  have "follows_epochs sk G p s'" using f keys new_decoder_fed [OF d] by (auto simp: s' followed)
  then show ?thesis by (rule keepsI [OF _ fr]) (simp_all add: s')
qed

lemma no_header_keeps:
  assumes ok: "braid_ok (br_at 5 e au h)" and G: "epochs_ok kem G" and f: "follows_epochs sk G p (br_at 5 e au h)"
    and fr: "unwritten G p (br_at 5 e au h)" and m: "message_follows sk G m" and run: "recv_no_header (br_at 5 e au h) m = Inr s'"
  shows "keeps kem sk G p (br_at 5 e au h) s'"
proof (cases "\<exists>i c. addressed (br_at 5 e au h) m [AG_HDR] i c")
  case True
  then obtain i c where ic: "bm_codeword m = Some (i, c)" "bm_epoch m = e" "bm_type m = AG_HDR"
    by (auto simp: addressed_def)
  obtain d where h: "h = nothing\<lparr> h_hdr_dec := Some d \<rparr>" "dec_fits 96 d" using ok by (auto simp: live_iff holds_iff)
  obtain d' b where d': "dec_receive d i c = Inr (d', b)"
    using run h ic by (cases "dec_receive d i c") (auto simp: recv_no_header_def obj_def nothing_def)
  have "word_of (hdr_value sk G e) i c" using message_word(1) [OF m ic(1,3)] ic(2) by simp
  then have fed: "fed (hdr_value sk G e) d' \<and> (dec_complete d' \<longrightarrow> (\<exists>v. hdr_value sk G e v \<and> dec_value d' = Inr (Some v)))"
    using f h feed(1) [OF G d', of sk e] by (simp add: followed)
  show ?thesis
  proof (cases "dec_complete d'")
    case True
    then obtain v where v: "hdr_value sk G e v" "dec_value d' = Inr (Some v)" using fed by blast
    have "finish_header (br_at 5 e au h) v = Inr s'"
      using run True v by (simp add: recv_no_header_def ic d' h obj_def val_def)
    then show ?thesis by (rule finish_header_keeps [OF ok G f fr v(1)])
  next
    case False
    then have s': "s' = br_at 5 e au (nothing\<lparr> h_hdr_dec := Some d' \<rparr>)"
      using run by (simp add: recv_no_header_def ic d' h obj_def nothing_def)
    then have "follows_epochs sk G p s'" using f fed by (simp add: followed)
    then show ?thesis by (rule keepsI [OF _ fr]) (simp_all add: s')
  qed
next
  case False
  then show ?thesis using ignored(3) [of "br_at 5 e au h" m] run keeps_refl [OF f fr, where kem = kem] by auto
qed

lemma ct2_sampled_keeps:
  assumes ok: "braid_ok (br_at 10 e au h)" and f: "follows_epochs sk G p (br_at 10 e au h)" and fr: "unwritten G p (br_at 10 e au h)"
    and run: "recv_ct2_sampled (br_at 10 e au h) m = Inr s'"
  shows "keeps kem sk G p (br_at 10 e au h) s'"
proof -
  consider (ceiling) "e = U64_MAX - 1" "s' = braid_failed_state" | (advance) "s' = br_at 0 (e + 1) au nothing" | (same) "s' = br_at 10 e au h"
    using run by (auto simp: recv_ct2_sampled_def make_iff split: if_splits)
  then show ?thesis
  proof cases
    case advance
    have "follows_epochs sk G p s'" using f sends_keys_next [of p e] by (simp add: advance followed)
    then show ?thesis using fresh_next [OF fr, of s'] by (simp add: keeps_def advance)
  qed (use f fr in \<open>simp_all add: keeps_failed keeps_refl\<close>)
qed

end

context kem_correct begin

text \<open>The second ciphertext ends the epoch: decapsulation returns the key that was encapsulated.\<close>

lemma finish_ct2_keeps:
  assumes ok: "braid_ok (br_at 4 e au h)" and G: "epochs_ok kem G" and f: "follows_epochs sk G p (br_at 4 e au h)"
    and fr: "unwritten G p (br_at 4 e au h)" and v: "ct2_value sk G e v" and run: "finish_ct2 kem (br_at 4 e au h) v = Inr (s', out)"
  shows "keeps kem sk G p (br_at 4 e au h) s' \<and> opt_all (output_follows G) out"
proof -
  obtain ct2 st ct1 k a' mac where v': "ep_ct2 G e = Some ct2" "ep_encaps G e = Some (st, ct1, k)"
      "auth_chain sk G (e + 1) a'" "auth_mac_ct a' e (ct1 @ ct2) = Inr mac" "v = ct2 @ mac"
    using v by (auto simp: ct2_value_def)
  obtain kp ct d where h: "h = nothing\<lparr> h_key_pair := Some kp, h_ct1 := Some ct, h_ct2_dec := Some d \<rparr>"
    using ok by (auto simp: live_iff holds_iff)
  obtain header ek where keys: "ep_keys G e = Some (kp, header, ek)" and ct: "ct = ct1"
    using f v' by (auto simp: h followed ct1_value_def)
  obtain i i' j j' where gen: "kem_generate kem i = (Inr (kp, header, ek), i')"
    and enc: "kem_encaps1 kem header j = (Inr (st, ct1, k), j')" and ct2: "kem_encaps2 kem st ek = Inr ct2"
    using epochs_okD(1) [OF G keys] epochs_okD(2) [OF G keys v'(2)] epochs_okD(3) [OF G keys v'(2,1)] by blast
  have dec: "kem_decaps kem kp ct1 ct2 = Inr k" by (rule decaps_encaps [OF gen enc ct2])
  have len: "length ct2 = 160" "length mac = 32" using epoch_shapes(3) [OF G v'(1)] length_auth_mac(2) [OF v'(4)] by simp_all
  obtain a where au: "au = Some a" "1 \<le> e" using ok by (auto simp: live_iff)
  have a: "auth_chain sk G e a" using f au by (simp add: follows_at)
  obtain key where key: "braid_kdf_ok k e = Inr key" "auth_update a e key = Inr a'"
  proof -
    obtain x st2 c2 k2 key2 where "auth_chain sk G e x" "ep_encaps G e = Some (st2, c2, k2)" "braid_kdf_ok k2 e = Inr key2"
        "auth_update x e key2 = Inr a'"
      using v'(3) au(2) chain_iff [of sk G "e + 1" a'] by auto
    then show ?thesis using that v'(2) chain_unique [OF a] by auto
  qed
  show ?thesis
  proof (cases "e = U64_MAX - 1")
    case True
    then show ?thesis using run by (auto simp: finish_ct2_def intro: keeps_failed)
  next
    case False
    obtain d0 where d0: "new_decoder 96 [] = Inr d0" and
      s': "s' = br_at 5 (e + 1) (Some a') (nothing\<lparr> h_hdr_dec := Some d0 \<rparr>)" "out = Some (e, key)"
      using run False len dec key v'(4)
      by (auto simp: finish_ct2_def h ct v'(5) au val_def obj_def nothing_def kem_try_def mac_matches_def make_iff bindR_Inr_iff
          Let_def)
    have p: "sends_keys p e" using f by (simp add: follows_at)
    have flw: "follows_epochs sk G p s'"
      using p v'(3) new_decoder_fed [OF d0] sends_keys_next [of p e] by (simp add: s' followed)
    have "unwritten G p s'" by (rule fresh_next [OF fr]) (simp_all add: s')
    with flw show ?thesis using v'(2) key(1) by (auto simp: keeps_def s' output_follows_def)
  qed
qed

lemma ek_sent_keeps:
  assumes ok: "braid_ok (br_at 4 e au h)" and G: "epochs_ok kem G" and f: "follows_epochs sk G p (br_at 4 e au h)"
    and fr: "unwritten G p (br_at 4 e au h)" and m: "message_follows sk G m" and run: "recv_ek_sent kem (br_at 4 e au h) m = Inr (s', out)"
  shows "keeps kem sk G p (br_at 4 e au h) s' \<and> opt_all (output_follows G) out"
proof (cases "\<exists>i c. addressed (br_at 4 e au h) m [AG_CT2] i c")
  case True
  then obtain i c where ic: "bm_codeword m = Some (i, c)" "bm_epoch m = e" "bm_type m = AG_CT2"
    by (auto simp: addressed_def)
  obtain kp ct d where h: "h = nothing\<lparr> h_key_pair := Some kp, h_ct1 := Some ct, h_ct2_dec := Some d \<rparr>" "dec_fits 192 d"
    using ok by (auto simp: live_iff holds_iff)
  obtain d' b where d': "dec_receive d i c = Inr (d', b)"
    using run h ic by (cases "dec_receive d i c") (auto simp: recv_ek_sent_def obj_def nothing_def)
  have "word_of (ct2_value sk G e) i c" using message_word(4) [OF m ic(1,3)] ic(2) by simp
  then have fed: "fed (ct2_value sk G e) d' \<and> (dec_complete d' \<longrightarrow> (\<exists>v. ct2_value sk G e v \<and> dec_value d' = Inr (Some v)))"
    using f h feed(4) [OF G d', of sk e] by (simp add: followed)
  show ?thesis
  proof (cases "dec_complete d'")
    case True
    then obtain v where v: "ct2_value sk G e v" "dec_value d' = Inr (Some v)" using fed by blast
    have "finish_ct2 kem (br_at 4 e au h) v = Inr (s', out)"
      using run True v by (simp add: recv_ek_sent_def ic d' h obj_def val_def)
    then show ?thesis by (rule finish_ct2_keeps [OF ok G f fr v(1)])
  next
    case False
    then have s': "s' = br_at 4 e au (nothing\<lparr> h_key_pair := Some kp, h_ct1 := Some ct, h_ct2_dec := Some d' \<rparr>)" "out = None"
      using run by (auto simp: recv_ek_sent_def ic d' h obj_def nothing_def)
    then have "follows_epochs sk G p s'" using f fed by (simp add: h followed)
    then have "keeps kem sk G p (br_at 4 e au h) s'" by (rule keepsI [OF _ fr]) (simp_all add: s')
    then show ?thesis by (simp add: s')
  qed
next
  case False
  then show ?thesis
    using ignored(2) [where kem = kem and s = "br_at 4 e au h" and m = m] run keeps_refl [OF f fr, where kem = kem] by auto
qed

end

section \<open>Steps that write an entry\<close>

definition writes :: "'k kem_ops \<Rightarrow> bytes \<Rightarrow> epochs \<Rightarrow> bool \<Rightarrow> braid \<Rightarrow> braid \<Rightarrow> braid_message option \<Rightarrow> (int \<times> bytes) option \<Rightarrow> bool" where
  "writes kem sk G p s s' msg out \<longleftrightarrow>
     (\<exists>G'. ep_extends G G' \<and> own_entries p G G' \<and> epochs_ok kem G' \<and> keeps kem sk G' p s s'
        \<and> opt_all (message_follows sk G') msg \<and> opt_all (output_follows G') out)"

lemma keeps_writes:
  "epochs_ok kem G \<Longrightarrow> keeps kem sk G p s s' \<Longrightarrow> opt_all (message_follows sk G) msg \<Longrightarrow> opt_all (output_follows G) out \<Longrightarrow>
     writes kem sk G p s s' msg out"
  unfolding writes_def by (intro exI [of _ G]) simp

lemma writes_epoch: "b_epoch s = b_epoch t \<Longrightarrow> writes kem sk G p s s' msg out \<longleftrightarrow> writes kem sk G p t s' msg out"
  by (simp add: writes_def keeps_def)

lemma entry_added:
  "ep_keys G e = None \<Longrightarrow> ep_extends G (G\<lparr> ep_keys := (ep_keys G)(e \<mapsto> x) \<rparr>)"
  "ep_encaps G e = None \<Longrightarrow> ep_extends G (G\<lparr> ep_encaps := (ep_encaps G)(e \<mapsto> x) \<rparr>)"
  "ep_ct2 G e = None \<Longrightarrow> ep_extends G (G\<lparr> ep_ct2 := (ep_ct2 G)(e \<mapsto> c) \<rparr>)"
  by (auto simp: ep_extends_def)

lemma entry_own:
  "sends_keys p e \<Longrightarrow> own_entries p G (G\<lparr> ep_keys := (ep_keys G)(e \<mapsto> x) \<rparr>)"
  "\<not> sends_keys p e \<Longrightarrow> own_entries p G (G\<lparr> ep_encaps := (ep_encaps G)(e \<mapsto> x) \<rparr>)"
  "\<not> sends_keys p e \<Longrightarrow> own_entries p G (G\<lparr> ep_ct2 := (ep_ct2 G)(e \<mapsto> c) \<rparr>)"
  by (simp_all add: own_entries_def)

lemma epochs_okI:
  assumes G: "epochs_ok kem G" and up: "ep_extends G G'"
    and keys: "\<And>e kp header ek. ep_keys G' e = Some (kp, header, ek) \<Longrightarrow> ep_keys G e \<noteq> Some (kp, header, ek) \<Longrightarrow>
      \<exists>i i'. kem_generate kem i = (Inr (kp, header, ek), i')"
    and encaps: "\<And>e st ct1 k. ep_encaps G' e = Some (st, ct1, k) \<Longrightarrow> ep_encaps G e \<noteq> Some (st, ct1, k) \<Longrightarrow>
      \<exists>kp header ek j j'. ep_keys G' e = Some (kp, header, ek) \<and> kem_encaps1 kem header j = (Inr (st, ct1, k), j')"
    and ct2: "\<And>e c. ep_ct2 G' e = Some c \<Longrightarrow> ep_ct2 G e \<noteq> Some c \<Longrightarrow>
      \<exists>kp header ek st ct1 k. ep_keys G' e = Some (kp, header, ek) \<and> ep_encaps G' e = Some (st, ct1, k) \<and> kem_encaps2 kem st ek = Inr c"
  shows "epochs_ok kem G'"
  unfolding epochs_ok_def
proof (intro conjI allI impI)
  note up = extendsD [OF up]
  show "\<exists>i i'. kem_generate kem i = (Inr (kp, header, ek), i')" if "ep_keys G' e = Some (kp, header, ek)" for e kp header ek
    using keys [OF that] epochs_okD(1) [OF G] by (cases "ep_keys G e = Some (kp, header, ek)") auto
  show "\<exists>kp header ek j j'. ep_keys G' e = Some (kp, header, ek) \<and> kem_encaps1 kem header j = (Inr (st, ct1, k), j')"
    if e: "ep_encaps G' e = Some (st, ct1, k)" for e st ct1 k
  proof (cases "ep_encaps G e = Some (st, ct1, k)")
    case True
    then obtain kp header ek j j' where "ep_keys G e = Some (kp, header, ek)" "kem_encaps1 kem header j = (Inr (st, ct1, k), j')"
      using G unfolding epochs_ok_def by blast
    then show ?thesis using up(1) by blast
  qed (rule encaps [OF e])
  show "\<exists>kp header ek st ct1 k. ep_keys G' e = Some (kp, header, ek) \<and> ep_encaps G' e = Some (st, ct1, k) \<and> kem_encaps2 kem st ek = Inr c"
    if e: "ep_ct2 G' e = Some c" for e c
  proof (cases "ep_ct2 G e = Some c")
    case True
    then obtain kp header ek st ct1 k where "ep_keys G e = Some (kp, header, ek)" "ep_encaps G e = Some (st, ct1, k)"
        "kem_encaps2 kem st ek = Inr c"
      using G unfolding epochs_ok_def by blast
    then show ?thesis using up(1,2) by blast
  qed (rule ct2 [OF e])
qed

lemma entry_ok:
  assumes G: "epochs_ok kem G"
  shows "ep_keys G e = None \<Longrightarrow> kem_generate kem i = (Inr (kp, header, ek), i') \<Longrightarrow>
      epochs_ok kem (G\<lparr> ep_keys := (ep_keys G)(e \<mapsto> (kp, header, ek)) \<rparr>)"
    "ep_encaps G e = None \<Longrightarrow> ep_keys G e = Some (kp, header, ek) \<Longrightarrow> kem_encaps1 kem header j = (Inr (st, ct1, k), j') \<Longrightarrow>
      epochs_ok kem (G\<lparr> ep_encaps := (ep_encaps G)(e \<mapsto> (st, ct1, k)) \<rparr>)"
    "ep_ct2 G e = None \<Longrightarrow> ep_keys G e = Some (kp, header, ek) \<Longrightarrow> ep_encaps G e = Some (st, ct1, k) \<Longrightarrow>
      kem_encaps2 kem st ek = Inr ct2 \<Longrightarrow> epochs_ok kem (G\<lparr> ep_ct2 := (ep_ct2 G)(e \<mapsto> ct2) \<rparr>)"
  subgoal by (rule epochs_okI [OF G entry_added(1)]) (auto split: if_splits)
  subgoal by (rule epochs_okI [OF G entry_added(2)]) (auto split: if_splits)
  subgoal by (rule epochs_okI [OF G entry_added(3)]) (auto split: if_splits)
  done

text \<open>The writer of an entry has moved past the tag at which it had none.\<close>

lemma fresh_written:
  assumes "unwritten G p s" "b_tag s \<noteq> FAILED" "b_epoch s' = b_epoch s"
  shows "sends_keys p (b_epoch s) \<Longrightarrow> 0 < b_tag s' \<Longrightarrow>
      unwritten (G\<lparr> ep_keys := (ep_keys G)(b_epoch s \<mapsto> x) \<rparr>) p s'"
    "\<not> sends_keys p (b_epoch s) \<Longrightarrow> 6 < b_tag s' \<Longrightarrow> b_tag s \<noteq> 10 \<Longrightarrow>
      unwritten (G\<lparr> ep_encaps := (ep_encaps G)(b_epoch s \<mapsto> x) \<rparr>) p s'"
    "\<not> sends_keys p (b_epoch s) \<Longrightarrow> b_tag s' = 10 \<Longrightarrow>
      unwritten (G\<lparr> ep_ct2 := (ep_ct2 G)(b_epoch s \<mapsto> c) \<rparr>) p s'"
proof -
  note fr = freshD [OF assms(1,2)]
  have later: "sends_keys p e \<Longrightarrow> b_epoch s < e \<Longrightarrow> ep_keys G e = None" "\<not> sends_keys p e \<Longrightarrow> b_epoch s < e \<Longrightarrow> ep_encaps G e = None"
    "\<not> sends_keys p e \<Longrightarrow> b_epoch s < e \<Longrightarrow> ep_ct2 G e = None" "\<not> sends_keys p (b_epoch s) \<Longrightarrow> b_tag s \<noteq> 10 \<Longrightarrow> ep_ct2 G (b_epoch s) = None" for e
    by (rule fr; simp)+
  show "sends_keys p (b_epoch s) \<Longrightarrow> 0 < b_tag s' \<Longrightarrow> unwritten (G\<lparr> ep_keys := (ep_keys G)(b_epoch s \<mapsto> x) \<rparr>) p s'"
    using later assms(3) unfolding unwritten_def by auto
  show "\<not> sends_keys p (b_epoch s) \<Longrightarrow> 6 < b_tag s' \<Longrightarrow> b_tag s \<noteq> 10 \<Longrightarrow>
      unwritten (G\<lparr> ep_encaps := (ep_encaps G)(b_epoch s \<mapsto> x) \<rparr>) p s'"
    using later assms(3) unfolding unwritten_def by auto
  show "\<not> sends_keys p (b_epoch s) \<Longrightarrow> b_tag s' = 10 \<Longrightarrow> unwritten (G\<lparr> ep_ct2 := (ep_ct2 G)(b_epoch s \<mapsto> c) \<rparr>) p s'"
    using later assms(3) unfolding unwritten_def by auto
qed

context kem_correct begin

text \<open>The second half of the encapsulation.\<close>

lemma complete_writes:
  assumes G: "epochs_ok kem G" and f: "follows_epochs sk G p (br_at t e au h)" and fr: "unwritten G p (br_at t e au h)"
    and t: "t \<in> {7, 8, 9}" and held: "au = Some a" "h_encaps h = Some st" "h_ct1 h = Some ct1" and v: "ek_value G e v"
    and run: "complete_encapsulation kem (br_at t e au h) v = Inr s'"
  shows "writes kem sk G p (br_at t e au h) s' None None"
proof -
  have p: "\<not> sends_keys p e" and a: "auth_chain sk G (e + 1) a" using f t held(1) by (auto simp: follows_at)
  obtain c k where encaps: "ep_encaps G e = Some (st, ct1, k)"
    using f t held by (auto simp: follows_at fields_follow_def ct1_value_def)
  obtain kp header where keys: "ep_keys G e = Some (kp, header, v)" using v by (auto simp: ek_value_def)
  have none: "ep_ct2 G e = None" by (rule freshD(3) [OF fr]) (use p t in auto)
  show ?thesis
  proof (cases "kem_encaps2 kem st v")
    case (Inl err)
    have "err = CryptoE KemFailure \<and> s' = braid_failed_state"
      using run by (auto simp: complete_encapsulation_def held val_def kem_try_def Inl split: if_splits)
    then show ?thesis
      using Inl by (auto simp: kem_reliable_def intro!: keeps_writes [OF G keeps_failed])
  next
    case (Inr ct2)
    let ?G = "G\<lparr> ep_ct2 := (ep_ct2 G)(e \<mapsto> ct2) \<rparr>"
    have up: "ep_extends G ?G" "own_entries p G ?G" "epochs_ok kem ?G"
      using entry_added(3) [where G = G, OF none] entry_own(3) [OF p] entry_ok(3) [OF G none keys encaps Inr] by simp_all
    obtain mac en where mac: "auth_mac_ct a e (ct1 @ ct2) = Inr mac" and en: "encoder_for_value (ct2 @ mac) = Inr en"
      and s': "s' = br_at 10 e au (nothing\<lparr> h_ct2_enc := Some en \<rparr>)"
      using run by (auto simp: complete_encapsulation_def held val_def obj_def kem_try_def Inr make_iff bindR_Inr_iff)
    have "ct2_value sk ?G e (ct2 @ mac)"
      using encaps mac chain_extends [OF a up(1)] by (auto simp: ct2_value_def)
    moreover from this have "length (ct2 @ mac) = 192" using value_lengths(4) [OF up(3)] by force
    ultimately have "issues (ct2_value sk ?G e) en"
      using new_encoder_issues [OF en, where P = "ct2_value sk ?G e"] by simp
    then have "follows_epochs sk ?G p s'" using p held(1) chain_extends [OF a up(1)] by (simp add: s' followed)
    moreover have "unwritten ?G p s'" using fresh_written(3) [OF fr, of s' ct2] p t by (auto simp: s')
    ultimately have "keeps kem sk ?G p (br_at t e au h) s'" by (simp add: keeps_def s')
    with up show ?thesis unfolding writes_def by (intro exI [of _ ?G]) simp
  qed
qed

lemma ek_received_writes:
  assumes ok: "braid_ok (br_at 8 e au h)" and G: "epochs_ok kem G" and f: "follows_epochs sk G p (br_at 8 e au h)"
    and fr: "unwritten G p (br_at 8 e au h)" and run: "recv_ek_received kem (br_at 8 e au h) m = Inr s'"
  shows "writes kem sk G p (br_at 8 e au h) s' None None"
proof -
  obtain a where au: "au = Some a" using ok by (auto simp: live_iff)
  obtain st ct v en where h: "h = nothing\<lparr> h_encaps := Some st, h_ct1 := Some ct, h_ek_vector := Some v, h_ct1_enc := Some en \<rparr>"
    using ok by (auto simp: live_iff holds_iff)
  have v: "ek_value G e v" using f by (simp add: h followed)
  show ?thesis
  proof (cases "bm_epoch m = e \<and> bm_type m = AG_EK_CT1_ACK")
    case True
    then have run': "complete_encapsulation kem (br_at 8 e au h) v = Inr s'"
      using run by (simp add: recv_ek_received_def h val_def)
    show ?thesis by (rule complete_writes [OF G f fr _ au _ _ v run']) (simp_all add: h)
  next
    case False
    then have "s' = br_at 8 e au h" using run by (simp add: recv_ek_received_def split: if_splits)
    then show ?thesis using keeps_writes [OF G keeps_refl [OF f fr]] by simp
  qed
qed

lemma ek_valid:
  assumes "epochs_ok kem G" "ek_value G e v" "ep_keys G e = Some (kp, header, ek)"
  shows "validate_ek_vector header v = Inr True"
proof -
  obtain i i' where "kem_generate kem i = (Inr (kp, header, ek), i')" using epochs_okD(1) [OF assms(1,3)] by blast
  moreover have "v = ek" using assms(2,3) by (simp add: ek_value_def)
  ultimately show ?thesis using generate_valid by blast
qed

text \<open>The decoder of the encapsulation key after one more codeword, in either state that has it.\<close>

lemma ek_fed:
  assumes G: "epochs_ok kem G" and f: "follows_epochs sk G p (br_at t e au h)" and t: "t \<noteq> FAILED" and m: "message_follows sk G m"
    and ic: "bm_codeword m = Some (i, c)" "bm_epoch m = e" "bm_type m = AG_EK \<or> bm_type m = AG_EK_CT1_ACK"
    and h: "h_ek_dec h = Some d" "dec_fits 1536 d" and d': "dec_receive d i c = Inr (d', b)"
  shows "follows_epochs sk G p (br_at t e au (h\<lparr> h_ek_dec := Some d' \<rparr>))"
    "dec_complete d' \<Longrightarrow> \<exists>v. ek_value G e v \<and> dec_value d' = Inr (Some v)"
proof -
  have "word_of (ek_value G e) i c" using message_word(2) [OF m ic(1,3)] ic(2) by simp
  moreover have "fed (ek_value G e) d" using f t h(1) by (simp add: follows_at fields_follow_def)
  ultimately have fed: "fed (ek_value G e) d' \<and> (dec_complete d' \<longrightarrow> (\<exists>v. ek_value G e v \<and> dec_value d' = Inr (Some v)))"
    using feed(2) [OF G d'] h(2) by blast
  then show "dec_complete d' \<Longrightarrow> \<exists>v. ek_value G e v \<and> dec_value d' = Inr (Some v)" by blast
  show "follows_epochs sk G p (br_at t e au (h\<lparr> h_ek_dec := Some d' \<rparr>))"
    using fed f t by (simp add: follows_at fields_follow_def)
qed

lemma ct1_acknowledged_writes:
  assumes ok: "braid_ok (br_at 9 e au h)" and G: "epochs_ok kem G" and f: "follows_epochs sk G p (br_at 9 e au h)"
    and fr: "unwritten G p (br_at 9 e au h)" and m: "message_follows sk G m"
    and run: "recv_ct1_acknowledged kem (br_at 9 e au h) m = Inr s'"
  shows "writes kem sk G p (br_at 9 e au h) s' None None"
proof (cases "\<exists>i c. addressed (br_at 9 e au h) m [AG_EK_CT1_ACK] i c")
  case True
  then obtain i c where ic: "bm_codeword m = Some (i, c)" "bm_epoch m = e" "bm_type m = AG_EK_CT1_ACK"
    by (auto simp: addressed_def)
  obtain a where au: "au = Some a" using ok by (auto simp: live_iff)
  obtain hdr st ct d where h: "h = nothing\<lparr> h_header := Some hdr, h_encaps := Some st, h_ct1 := Some ct, h_ek_dec := Some d \<rparr>"
    "dec_fits 1536 d"
    using ok by (auto simp: live_iff holds_iff)
  obtain d' b where d': "dec_receive d i c = Inr (d', b)"
    using run h ic by (cases "dec_receive d i c") (auto simp: recv_ct1_acknowledged_def obj_def nothing_def)
  let ?h = "h\<lparr> h_ek_dec := Some d' \<rparr>"
  have f': "follows_epochs sk G p (br_at 9 e au ?h)" and val: "dec_complete d' \<Longrightarrow> \<exists>v. ek_value G e v \<and> dec_value d' = Inr (Some v)"
    using ek_fed [OF G f _ m ic(1,2) _ _ h(2) d'] ic(3) by (auto simp: h(1))
  have fr': "unwritten G p (br_at 9 e au ?h)" by (rule fresh_step [OF fr]) simp_all
  obtain kp ek where keys: "ep_keys G e = Some (kp, hdr, ek)" using f by (auto simp: h(1) followed)
  have "writes kem sk G p (br_at 9 e au ?h) s' None None"
  proof (cases "dec_complete d'")
    case True
    then obtain v where v: "ek_value G e v" "dec_value d' = Inr (Some v)" using val by blast
    have run': "complete_encapsulation kem (br_at 9 e au ?h) v = Inr s'"
      using run True v ek_valid [OF G v(1) keys] by (simp add: recv_ct1_acknowledged_def ic d' h obj_def val_def nothing_def)
    show ?thesis by (rule complete_writes [OF G f' fr' _ au _ _ v(1) run']) (simp_all add: h(1))
  next
    case False
    then have "s' = br_at 9 e au ?h" using run by (simp add: recv_ct1_acknowledged_def ic d' h obj_def nothing_def)
    then show ?thesis using keeps_writes [OF G keeps_refl [OF f' fr']] by simp
  qed
  then show ?thesis by (subst writes_epoch [where t = "br_at 9 e au ?h"]) simp_all
next
  case False
  then show ?thesis
    using ignored(5) [where kem = kem and s = "br_at 9 e au h" and m = m] run keeps_writes [OF G keeps_refl [OF f fr]] by auto
qed

lemma ct1_sampled_writes:
  assumes ok: "braid_ok (br_at 7 e au h)" and G: "epochs_ok kem G" and f: "follows_epochs sk G p (br_at 7 e au h)"
    and fr: "unwritten G p (br_at 7 e au h)" and m: "message_follows sk G m"
    and run: "recv_ct1_sampled kem (br_at 7 e au h) m = Inr s'"
  shows "writes kem sk G p (br_at 7 e au h) s' None None"
proof (cases "\<exists>i c. addressed (br_at 7 e au h) m [AG_EK, AG_EK_CT1_ACK] i c")
  case True
  then obtain i c where ic: "bm_codeword m = Some (i, c)" "bm_epoch m = e" and ty: "bm_type m = AG_EK \<or> bm_type m = AG_EK_CT1_ACK"
    by (auto simp: addressed_def)
  obtain a where au: "au = Some a" using ok by (auto simp: live_iff)
  obtain hdr st ct en d where h: "h = nothing\<lparr> h_header := Some hdr, h_encaps := Some st, h_ct1 := Some ct,
      h_ct1_enc := Some en, h_ek_dec := Some d \<rparr>" "dec_fits 1536 d"
    using ok by (auto simp: live_iff holds_iff)
  obtain d' b where d': "dec_receive d i c = Inr (d', b)"
    using run h ic ty by (cases "dec_receive d i c") (auto simp: recv_ct1_sampled_def obj_def nothing_def)
  let ?h = "h\<lparr> h_ek_dec := Some d' \<rparr>"
  have f': "follows_epochs sk G p (br_at 7 e au ?h)" and val: "dec_complete d' \<Longrightarrow> \<exists>v. ek_value G e v \<and> dec_value d' = Inr (Some v)"
    using ek_fed [OF G f _ m ic ty _ h(2) d'] by (auto simp: h(1))
  have fr': "unwritten G p (br_at 7 e au ?h)" by (rule fresh_step [OF fr]) simp_all
  obtain kp ek where keys: "ep_keys G e = Some (kp, hdr, ek)" using f by (auto simp: h(1) followed)
  have "writes kem sk G p (br_at 7 e au ?h) s' None None"
  proof (cases "dec_complete d'")
    case True
    then obtain v where v: "ek_value G e v" "dec_value d' = Inr (Some v)" using val by blast
    show ?thesis
    proof (cases "bm_type m = AG_EK_CT1_ACK")
      case ack: True
      have run': "complete_encapsulation kem (br_at 7 e au ?h) v = Inr s'"
        using run True v ack ek_valid [OF G v(1) keys]
        by (simp add: recv_ct1_sampled_def ic d' h obj_def val_def nothing_def)
      show ?thesis by (rule complete_writes [OF G f' fr' _ au _ _ v(1) run']) (simp_all add: h(1))
    next
      case False
      with ty have ty': "bm_type m = AG_EK" by simp
      have s': "s' = br_at 8 e au (nothing\<lparr> h_encaps := Some st, h_ct1 := Some ct, h_ek_vector := Some v, h_ct1_enc := Some en \<rparr>)"
        using run True v ty' ek_valid [OF G v(1) keys]
        by (simp add: recv_ct1_sampled_def ic d' h obj_def val_def nothing_def make_iff)
      have "follows_epochs sk G p s'" using f v(1) by (simp add: s' h(1) followed)
      then have "keeps kem sk G p (br_at 7 e au ?h) s'" by (rule keepsI [OF _ fr']) (simp_all add: s')
      then show ?thesis using keeps_writes [OF G] by simp
    qed
  next
    case False
    consider "s' = br_at 9 e au (nothing\<lparr> h_header := Some hdr, h_encaps := Some st, h_ct1 := Some ct, h_ek_dec := Some d' \<rparr>)"
      | "s' = br_at 7 e au ?h"
      using run False by (cases "bm_type m = AG_EK_CT1_ACK")
        (use ty in \<open>simp_all add: recv_ct1_sampled_def ic d' h obj_def nothing_def make_iff\<close>)
    then show ?thesis
    proof cases
      case 1
      have "follows_epochs sk G p s'" using f' by (simp add: 1 h(1) followed)
      then have "keeps kem sk G p (br_at 7 e au ?h) s'" by (rule keepsI [OF _ fr']) (simp_all add: 1)
      then show ?thesis using keeps_writes [OF G] by simp
    next
      case 2
      then show ?thesis using keeps_writes [OF G keeps_refl [OF f' fr']] by simp
    qed
  qed
  then show ?thesis by (subst writes_epoch [where t = "br_at 7 e au ?h"]) simp_all
next
  case False
  then show ?thesis
    using ignored(4) [where kem = kem and s = "br_at 7 e au h" and m = m] run keeps_writes [OF G keeps_refl [OF f fr]] by auto
qed

text \<open>Any receive.\<close>

lemma braid_tags: "braid_ok s \<Longrightarrow> b_tag s \<in> {0, 1, 2, 3, 4, 5, 6, 7, 8, 9, 10, FAILED}"
  by (auto simp: braid_ok_def braid_failed_state_def HOLDS_def dict_get_def split: if_splits)

lemma recv_step_writes:
  assumes ok: "braid_ok s" and G: "epochs_ok kem G" and f: "follows_epochs sk G p s" and fr: "unwritten G p s"
    and m: "message_follows sk G m" and run: "recv_step kem s m = Inr (s', out)" and live: "b_tag s \<noteq> FAILED"
  shows "writes kem sk G p s s' None out"
proof -
  obtain t e au h where s: "s = br_at t e au h" by (cases s)
  note br_at = ok [unfolded s] G f [unfolded s] fr [unfolded s]
  have quiet: "writes kem sk G p s s' None None" if "keeps kem sk G p s s'" using keeps_writes [OF G that] by simp
  consider "t = 0 \<or> t = 6" | "t = 10" | "t = 1" | "t = 2" | "t = 3" | "t = 4" | "t = 5" | "t = 7" | "t = 8" | "t = 9"
    using live braid_tags [OF ok] by (auto simp: s)
  then show ?thesis
  proof cases
    case 1
    then show ?thesis using run keeps_writes [OF G keeps_refl [OF f fr live]] by (auto simp: recv_step_def s)
  next
    case 2
    then show ?thesis using run quiet ct2_sampled_keeps [OF br_at(1,3,4) [unfolded 2]]
      by (auto simp: recv_step_def s 2 bindR_Inr_iff)
  next
    case 3
    then show ?thesis using run quiet keys_sampled_keeps [OF br_at [unfolded 3] m]
      by (auto simp: recv_step_def s 3 bindR_Inr_iff)
  next
    case 4
    then show ?thesis using run quiet header_sent_keeps [OF br_at [unfolded 4] m]
      by (auto simp: recv_step_def s 4 bindR_Inr_iff)
  next
    case 5
    then show ?thesis using run quiet ct1_received_keeps [OF br_at [unfolded 5] m]
      by (auto simp: recv_step_def s 5 bindR_Inr_iff)
  next
    case 6
    then show ?thesis using run ek_sent_keeps [OF br_at [unfolded 6] m] keeps_writes [OF G]
      by (auto simp: recv_step_def s 6)
  next
    case 7
    then show ?thesis using run quiet no_header_keeps [OF br_at [unfolded 7] m]
      by (auto simp: recv_step_def s 7 bindR_Inr_iff)
  next
    case 8
    then show ?thesis using run ct1_sampled_writes [OF br_at [unfolded 8] m] by (auto simp: recv_step_def s 8 bindR_Inr_iff)
  next
    case 9
    then show ?thesis using run ek_received_writes [OF br_at [unfolded 9]] by (auto simp: recv_step_def s 9 bindR_Inr_iff)
  next
    case 10
    then show ?thesis using run ct1_acknowledged_writes [OF br_at [unfolded 10] m] by (auto simp: recv_step_def s 10 bindR_Inr_iff)
  qed
qed

section \<open>Sending\<close>

lemma sent_word:
  assumes "issue enc = Inr (enc', cw)" "issues P enc" "enc_fits n enc"
    and "ty = AG_HDR \<Longrightarrow> P = hdr_value sk G e" "ty = AG_EK \<or> ty = AG_EK_CT1_ACK \<Longrightarrow> P = ek_value G e"
    "ty = AG_CT1 \<Longrightarrow> P = ct1_value G e" "ty = AG_CT2 \<Longrightarrow> P = ct2_value sk G e"
  shows "message_follows sk G \<lparr> bm_epoch = e, bm_type = ty, bm_codeword = cw \<rparr>"
  using issue_word [OF assms(1-3)] assms(4-7) by (auto simp: message_follows_def split: option.splits)

text \<open>Transition (1) writes the epoch's keys.\<close>

lemma send_header_writes:
  assumes ok: "braid_ok (br_at 0 e au h)" and G: "epochs_ok kem G" and f: "follows_epochs sk G p (br_at 0 e au h)"
    and fr: "unwritten G p (br_at 0 e au h)" and gen: "kem_generate kem i = (Inr (kp, header, ek), i')"
    and run: "send_header (br_at 0 e au h) (kp, header, ek) = Inr r"
  shows "writes kem sk G p (br_at 0 e au h) (bsr_state r) (bsr_message r) (bsr_output r)"
proof -
  have p: "sends_keys p e" using f by (simp add: follows_at)
  obtain a where au: "au = Some a" using ok by (auto simp: live_iff)
  have a: "auth_chain sk G e a" using f au by (simp add: follows_at)
  have none: "ep_keys G e = None" by (rule freshD(1) [OF fr]) (use p in auto)
  let ?G = "G\<lparr> ep_keys := (ep_keys G)(e \<mapsto> (kp, header, ek)) \<rparr>"
  have up: "ep_extends G ?G" "own_entries p G ?G" "epochs_ok kem ?G"
    using entry_added(1) [where G = G, OF none] entry_own(1) [OF p] entry_ok(1) [OF G none gen] by simp_all
  obtain mac en en' cw where mac: "auth_mac_hdr a e header = Inr mac" and en: "encoder_for_value (header @ mac) = Inr en"
    and i: "issue en = Inr (en', cw)"
    and r: "r = sent (br_at 1 e au (nothing\<lparr> h_key_pair := Some kp, h_hdr_enc := Some en' \<rparr>)) e AG_HDR cw None"
    using run by (auto simp: send_header_def au obj_def make_iff bindR_Inr_iff)
  have v: "hdr_value sk ?G e (header @ mac)" using mac chain_extends [OF a up(1)] by (auto simp: hdr_value_def)
  then have len: "length (header @ mac) = 96" using value_lengths(1) [OF up(3)] by force
  have issues: "issues (hdr_value sk ?G e) en" using new_encoder_issues [OF en, where P = "hdr_value sk ?G e"] v len by simp
  have fits: "enc_fits 96 en" using encoder_fits [of "header @ mac", unfolded len] en by auto
  have "follows_epochs sk ?G p (bsr_state r)"
    using p au chain_extends [OF a up(1)] issue_word [OF i issues fits] by (simp add: r sent_def followed)
  moreover have "unwritten ?G p (bsr_state r)"
    using fresh_written(1) [OF fr, of "bsr_state r" "(kp, header, ek)"] p by (simp add: r sent_def)
  moreover have "opt_all (message_follows sk ?G) (bsr_message r)" by (simp add: r sent_def, rule sent_word [OF i issues fits]) simp_all
  ultimately show ?thesis
    unfolding writes_def keeps_def using up by (intro exI [of _ ?G]) (simp add: r sent_def)
qed

text \<open>Transition (7) writes the encapsulation and puts out the epoch's key.\<close>

lemma send_ct1_writes:
  assumes ok: "braid_ok (br_at 6 e au h)" and G: "epochs_ok kem G" and f: "follows_epochs sk G p (br_at 6 e au h)"
    and fr: "unwritten G p (br_at 6 e au h)" and hdr: "h_header h = Some header"
    and enc: "kem_encaps1 kem header j = (Inr (st, ct1, k), j')" and run: "send_ct1 (br_at 6 e au h) (st, ct1, k) = Inr r"
  shows "writes kem sk G p (br_at 6 e au h) (bsr_state r) (bsr_message r) (bsr_output r)"
proof -
  have p: "\<not> sends_keys p e" using f by (simp add: follows_at)
  obtain a where au: "au = Some a" using ok by (auto simp: live_iff)
  have a: "auth_chain sk G e a" using f au by (simp add: follows_at)
  obtain d where h: "h = nothing\<lparr> h_header := Some header, h_ek_dec := Some d \<rparr>" using ok hdr by (auto simp: live_iff holds_iff)
  obtain kp ek where keys: "ep_keys G e = Some (kp, header, ek)" and d: "fed (ek_value G e) d" using f by (auto simp: h followed)
  have none: "ep_encaps G e = None" by (rule freshD(2) [OF fr]) (use p in auto)
  let ?G = "G\<lparr> ep_encaps := (ep_encaps G)(e \<mapsto> (st, ct1, k)) \<rparr>"
  have up: "ep_extends G ?G" "own_entries p G ?G" "epochs_ok kem ?G"
    using entry_added(2) [where G = G, OF none] entry_own(2) [OF p] entry_ok(2) [OF G none keys enc] by simp_all
  obtain key a' en en' cw where key: "braid_kdf_ok k e = Inr key" "auth_update a e key = Inr a'"
    and en: "encoder_for_value ct1 = Inr en" and i: "issue en = Inr (en', cw)"
    and r: "r = sent (br_at 7 e (Some a') (nothing\<lparr> h_header := Some header, h_encaps := Some st, h_ct1 := Some ct1,
                  h_ct1_enc := Some en', h_ek_dec := Some d \<rparr>)) e AG_CT1 cw (Some (e, key))"
    using run by (auto simp: send_ct1_def au h obj_def make_iff nothing_def bindR_Inr_iff)
  have v: "ct1_value ?G e ct1" by (simp add: ct1_value_def)
  then have len: "length ct1 = 1408" using value_lengths(3) [OF up(3)] by force
  have issues: "issues (ct1_value ?G e) en" using new_encoder_issues [OF en, where P = "ct1_value ?G e"] v len by simp
  have fits: "enc_fits 1408 en" using encoder_fits [of ct1] en len by auto
  have next_auth: "auth_chain sk ?G (e + 1) a'"
    by (rule chain_next [OF chain_extends [OF a up(1)] _ key]) simp
  have "ek_value ?G e = ek_value G e" by (simp add: ek_value_def fun_eq_iff)
  with d have "fed (ek_value ?G e) d" by simp
  then have "follows_epochs sk ?G p (bsr_state r)"
    using p next_auth keys v issue_word [OF i issues fits] by (simp add: r sent_def followed)
  moreover have "unwritten ?G p (bsr_state r)"
    using fresh_written(2) [OF fr, of "bsr_state r" "(st, ct1, k)"] p by (simp add: r sent_def)
  moreover have "opt_all (message_follows sk ?G) (bsr_message r)" by (simp add: r sent_def, rule sent_word [OF i issues fits]) simp_all
  moreover have "opt_all (output_follows ?G) (bsr_output r)" using key(1) by (simp add: r sent_def output_follows_def)
  ultimately show ?thesis
    unfolding writes_def keeps_def using up by (intro exI [of _ ?G]) (simp add: r sent_def)
qed

text \<open>Every other state repeats codewords of the value it is sending.\<close>

lemma send_codeword_keeps:
  assumes ok: "braid_ok s" and f: "follows_epochs sk G p s" and fr: "unwritten G p s" and live: "b_tag s \<noteq> FAILED"
    and run: "send_codeword s = Inr r"
  shows "keeps kem sk G p s (bsr_state r)" "opt_all (message_follows sk G) (bsr_message r)" "bsr_output r = None"
proof -
  obtain t e au h where s: "s = br_at t e au h" by (cases s)
  have all: "keeps kem sk G p s (bsr_state r) \<and> opt_all (message_follows sk G) (bsr_message r) \<and> bsr_output r = None"
  proof (cases "sends_from t")
    case None
    then have "r = sent s e AG_NONE None None" using run by (simp add: send_codeword_def s)
    then show ?thesis using keeps_refl [OF f fr live] by (simp add: sent_def message_follows_def)
  next
    case (Some x)
    obtain get put ty where x: "x = (get, put, ty)" by (cases x)
    obtain n P en where en: "get h = Some en" "enc_fits n en" "issues P en"
      and P: "ty = AG_HDR \<Longrightarrow> P = hdr_value sk G e" "ty = AG_EK \<or> ty = AG_EK_CT1_ACK \<Longrightarrow> P = ek_value G e"
        "ty = AG_CT1 \<Longrightarrow> P = ct1_value G e" "ty = AG_CT2 \<Longrightarrow> P = ct2_value sk G e"
      and put: "\<And>en'. issues P en' \<Longrightarrow> follows_epochs sk G p (br_at t e au (put en' h))"
    proof -
      have "\<exists>n P en. get h = Some en \<and> enc_fits n en \<and> issues P en
          \<and> (ty = AG_HDR \<longrightarrow> P = hdr_value sk G e) \<and> (ty = AG_EK \<or> ty = AG_EK_CT1_ACK \<longrightarrow> P = ek_value G e)
          \<and> (ty = AG_CT1 \<longrightarrow> P = ct1_value G e) \<and> (ty = AG_CT2 \<longrightarrow> P = ct2_value sk G e)
          \<and> (\<forall>en'. issues P en' \<longrightarrow> follows_epochs sk G p (br_at t e au (put en' h)))"
        using ok f Some unfolding s x
        by (auto simp: sends_from_def live_iff holds_iff followed const_defs split: if_splits)
      then show ?thesis using that by blast
    qed
    obtain en' cw where i: "issue en = Inr (en', cw)"
      using run Some en(1) by (cases "issue en") (auto simp: send_codeword_def s x obj_def)
    have r: "bsr_state r = br_at t e au (put en' h)" "bsr_output r = None"
      "bsr_message r = Some (\<lparr> bm_epoch = e, bm_type = (if cw = None then AG_NONE else ty), bm_codeword = cw \<rparr>)"
      using run Some en(1) i by (cases cw; auto simp: send_codeword_def s x obj_def sent_def)+
    have "follows_epochs sk G p (bsr_state r)" using put issue_word [OF i en(3,2)] r(1) by simp
    then have "keeps kem sk G p s (bsr_state r)"
      by (rule keepsI [OF _ fr live]) (use live in \<open>simp_all add: r s\<close>)
    moreover have "opt_all (message_follows sk G) (bsr_message r)"
      using sent_word [OF i en(3,2) P] by (cases cw) (simp_all add: r message_follows_def)
    ultimately show ?thesis by (simp add: r)
  qed
  then show "keeps kem sk G p s (bsr_state r)" "opt_all (message_follows sk G) (bsr_message r)" "bsr_output r = None" by simp_all
qed

text \<open>Any send and any receive, the side's own result as the exchange records it.\<close>

lemma braid_send_writes:
  assumes ok: "braid_ok s" and G: "epochs_ok kem G" and f: "follows_epochs sk G p s" and fr: "unwritten G p s"
    and run: "braid_send kem s i = (Inr r, i')" and live: "b_tag s \<noteq> FAILED"
  shows "writes kem sk G p s (bsr_state r) (bsr_message r) (bsr_output r)"
proof -
  obtain t e au h where s: "s = br_at t e au h" by (cases s)
  note br_at = ok [unfolded s] G f [unfolded s] fr [unfolded s]
  have failed: "writes kem sk G p s (bsr_state (send_failed braid_failed_state)) (bsr_message (send_failed braid_failed_state))
      (bsr_output (send_failed braid_failed_state))" if "\<not> kem_reliable kem"
    using keeps_writes [OF G keeps_failed] that by (simp add: send_failed_def)
  consider (keys) "t = 0" | (ct1) "t = 6" | (other) "t \<noteq> 0" "t \<noteq> 6" by blast
  then show ?thesis
  proof cases
    case keys
    obtain x i2 where gen: "kem_generate kem i = (x, i2)" by fastforce
    show ?thesis
    proof (cases x)
      case (Inl err)
      then have "err = CryptoE KemFailure \<and> r = send_failed braid_failed_state"
        using run gen by (auto simp: braid_send_def s keys kem_try_def split: if_splits)
      moreover have "err = CryptoE KemFailure \<Longrightarrow> \<not> kem_reliable kem"
        using gen Inl unfolding kem_reliable_def by (metis fst_conv)
      ultimately show ?thesis using failed by blast
    next
      case (Inr y)
      obtain kp header ek where y: "y = (kp, header, ek)" by (cases y)
      have "send_header (br_at 0 e au h) (kp, header, ek) = Inr r"
        using run gen by (simp add: braid_send_def s keys kem_try_def Inr y)
      then show ?thesis
        using send_header_writes [OF br_at [unfolded keys] gen [unfolded Inr y]] by (simp add: s keys)
    qed
  next
    case ct1
    obtain header where hdr: "h_header h = Some header" using ok by (auto simp: s ct1 live_iff holds_iff)
    obtain x i2 where enc: "kem_encaps1 kem header i = (x, i2)" by fastforce
    show ?thesis
    proof (cases x)
      case (Inl err)
      then have "err = CryptoE KemFailure \<and> r = send_failed braid_failed_state"
        using run enc by (auto simp: braid_send_def s ct1 hdr val_def kem_try_def split: if_splits)
      moreover have "err = CryptoE KemFailure \<Longrightarrow> \<not> kem_reliable kem"
        using enc Inl unfolding kem_reliable_def by (metis fst_conv)
      ultimately show ?thesis using failed by blast
    next
      case (Inr y)
      obtain st c k where y: "y = (st, c, k)" by (cases y)
      have "send_ct1 (br_at 6 e au h) (st, c, k) = Inr r"
        using run enc by (simp add: braid_send_def s ct1 hdr val_def kem_try_def Inr y)
      then show ?thesis
        using send_ct1_writes [OF br_at [unfolded ct1] hdr enc [unfolded Inr y]] by (simp add: s ct1)
    qed
  next
    case other
    then have "send_codeword s = Inr r" using run live by (simp add: braid_send_def s)
    then show ?thesis
      using send_codeword_keeps [OF ok f fr live] keeps_writes [OF G] by simp
  qed
qed

lemma braid_receive_writes:
  assumes ok: "braid_ok s" and G: "epochs_ok kem G" and f: "follows_epochs sk G p s" and fr: "unwritten G p s"
    and m: "message_follows sk G m" and run: "braid_receive kem s m = Inr r" and live: "b_tag s \<noteq> FAILED"
  shows "writes kem sk G p s (brr_state r) None (brr_output r)"
proof -
  obtain s' out where step: "recv_step kem s m = Inr (s', out)" and r: "brr_state r = s'" "brr_output r = None \<or> brr_output r = out"
    using run live by (auto simp: braid_receive_def bindR_Inr_iff split: if_splits)
  have "writes kem sk G p s s' None out" by (rule recv_step_writes [OF ok G f fr m step live])
  then show ?thesis using r unfolding writes_def by auto
qed

text \<open>A side that has failed stays as it is, and sends and puts out nothing.\<close>

lemma failed_send: "b_tag s = FAILED \<Longrightarrow> braid_send kem s i = (Inr r, i') \<Longrightarrow>
    bsr_state r = s \<and> bsr_message r = None \<and> bsr_output r = None"
  by (auto simp: braid_send_def send_failed_def)

lemma failed_receive: "b_tag s = FAILED \<Longrightarrow> braid_receive kem s m = Inr r \<Longrightarrow> brr_state r = s \<and> brr_output r = None"
  by (auto simp: braid_receive_def)

end

section \<open>The two sides\<close>

definition side_follows :: "bytes \<Rightarrow> epochs \<Rightarrow> 'k exchange \<Rightarrow> bool \<Rightarrow> bool" where
  "side_follows sk G w p \<longleftrightarrow>
     braid_ok (x_side w p) \<and> follows_epochs sk G p (x_side w p) \<and> unwritten G p (x_side w p)
     \<and> (\<forall>m \<in> x_net w p. message_follows sk G m \<and> message_ok m) \<and> (\<forall>out \<in> x_out w p. output_follows G out)"

definition exchange_ok :: "'k kem_ops \<Rightarrow> bytes \<Rightarrow> 'k exchange \<Rightarrow> bool" where
  "exchange_ok kem sk w \<longleftrightarrow> (\<exists>G. epochs_ok kem G \<and> (\<forall>p. side_follows sk G w p))"

lemma side_follows_extends:
  assumes "ep_extends G G'" "own_entries p G G'" "q \<noteq> p" "side_follows sk G w q"
  shows "side_follows sk G' w q"
  using assms(4) follows_extends [OF assms(1)] other_fresh [OF assms(2,3)] message_extends [OF assms(1)] output_extends [OF assms(1)]
  by (auto simp: side_follows_def)

lemma side_follows_cong:
  "x_side w q = x_side w' q \<Longrightarrow> x_net w q = x_net w' q \<Longrightarrow> x_out w q = x_out w' q \<Longrightarrow> side_follows sk G w q \<longleftrightarrow> side_follows sk G w' q"
  by (simp add: side_follows_def)

lemma exchange_start_ok:
  assumes "exchange_start sk k = Inr w"
  shows "exchange_ok kem sk w"
proof -
  let ?G = "\<lparr> ep_keys = Map.empty, ep_encaps = Map.empty, ep_ct2 = Map.empty \<rparr>"
  obtain a b where a: "braid_init_initiator sk = Inr a" "braid_ok a" and b: "braid_init_responder sk = Inr b" "braid_ok b"
    using braid_init_ok [of sk] by blast
  obtain au d where au: "auth_init 1 sk = Inr au" and a': "a = br_at 0 1 (Some au) nothing"
    using a(1) by (auto simp: braid_init_initiator_def make_iff bindR_Inr_iff)
  obtain d where d: "new_decoder 96 [] = Inr d" and b': "b = br_at 5 1 (Some au) (nothing\<lparr> h_hdr_dec := Some d \<rparr>)"
    using b(1) au by (auto simp: braid_init_responder_def make_iff bindR_Inr_iff)
  have "follows_epochs sk ?G True a" "follows_epochs sk ?G False b"
    using chain_start [OF au] new_decoder_fed [OF d] by (simp_all add: a' b' followed sends_keys_def)
  moreover have "unwritten ?G p s" "epochs_ok kem ?G" for p s by (simp_all add: unwritten_def epochs_ok_def)
  ultimately show ?thesis
    using assms a b unfolding exchange_ok_def side_follows_def exchange_start_def
    by (intro exI [of _ ?G]) auto
qed

context kem_correct begin

lemma exchange_write:
  assumes wr: "writes kem sk G p (x_side w p) s' msg out" and ok: "\<And>q. side_follows sk G w q" "braid_ok s'"
    "opt_all message_ok msg" and w': "x_side w' = (x_side w)(p := s')" "x_net w' = (x_net w)(p := set_option msg \<union> x_net w p)"
      "x_out w' = (x_out w)(p := set_option out \<union> x_out w p)"
  shows "exchange_ok kem sk w'"
proof -
  obtain G' where up: "ep_extends G G'" "own_entries p G G'" and G': "epochs_ok kem G'" and k: "keeps kem sk G' p (x_side w p) s'"
    and msg: "opt_all (message_follows sk G') msg" and out: "opt_all (output_follows G') out"
    using wr unfolding writes_def by blast
  have "side_follows sk G' w' q" for q
  proof (cases "q = p")
    case True
    show ?thesis
      using ok k msg out message_extends [OF up(1)] output_extends [OF up(1)]
      unfolding True side_follows_def keeps_def w' by (cases msg; cases out) (auto simp: side_follows_def)
  next
    case False
    have "side_follows sk G' w q" by (rule side_follows_extends [OF up False ok(1)])
    then show ?thesis using False side_follows_cong [of w' q w sk G'] by (simp add: w')
  qed
  with G' show ?thesis unfolding exchange_ok_def by blast
qed

lemma failed_silent:
  assumes "exchange_ok kem sk w" "x_side w' = x_side w" "x_net w' = x_net w" "x_out w' = x_out w"
  shows "exchange_ok kem sk w'"
  using assms unfolding exchange_ok_def side_follows_def by simp

lemma exchange_step_ok:
  assumes "exchange_step kem w w'" "exchange_ok kem sk w"
  shows "exchange_ok kem sk w' \<and> (\<forall>p. b_tag (x_side w' p) = FAILED \<longrightarrow>
     b_tag (x_side w p) = FAILED \<or> b_epoch (x_side w p) = U64_MAX - 1 \<or> \<not> kem_reliable kem)"
proof -
  obtain G where G: "epochs_ok kem G" and side: "\<And>q. side_follows sk G w q" using assms(2) unfolding exchange_ok_def by blast
  note s = side [unfolded side_follows_def]
  show ?thesis
    using assms(1)
  proof cases
    case (on_send p r k)
    show ?thesis
    proof (cases "b_tag (x_side w p) = FAILED")
      case True
      then show ?thesis using failed_send [OF True on_send(2)] failed_silent [OF assms(2), of w'] by (simp add: on_send(1))
    next
      case False
      have wr: "writes kem sk G p (x_side w p) (bsr_state r) (bsr_message r) (bsr_output r)"
        using s [of p] by (intro braid_send_writes [OF _ G _ _ on_send(2) False]) simp_all
      have ok: "braid_ok (bsr_state r) \<and> opt_all message_ok (bsr_message r)"
        using send_ok [of "x_side w p" "x_rng w p"] s [of p] on_send(2) by (auto simp: sends_ok_def split: option.splits)
      have "exchange_ok kem sk w'" by (rule exchange_write [OF wr side]) (use ok in \<open>simp_all add: on_send(1)\<close>)
      with wr show ?thesis by (auto simp: on_send(1) writes_def keeps_def)
    qed
  next
    case (send_raises p err k)
    then show ?thesis using failed_silent [OF assms(2), of w'] by simp
  next
    case (on_receive m p r)
    show ?thesis
    proof (cases "b_tag (x_side w p) = FAILED")
      case True
      then show ?thesis using failed_receive [OF True on_receive(3)] failed_silent [OF assms(2), of w'] by (simp add: on_receive(1))
    next
      case False
      have m: "message_follows sk G m" "message_ok m" using s [of "\<not> p"] on_receive(2) by blast+
      have wr: "writes kem sk G p (x_side w p) (brr_state r) None (brr_output r)"
        using s [of p] by (intro braid_receive_writes [OF _ G _ _ m(1) on_receive(3) False]) simp_all
      have ok: "braid_ok (brr_state r)" using receive_ok [OF _ m(2), of "x_side w p"] s [of p] on_receive(3) by auto
      have "exchange_ok kem sk w'" by (rule exchange_write [OF wr side]) (use ok in \<open>simp_all add: on_receive(1)\<close>)
      with wr show ?thesis by (auto simp: on_receive(1) writes_def keeps_def)
    qed
  qed
qed

lemma exchange_reachable_ok:
  "(exchange_step kem)\<^sup>*\<^sup>* w0 w \<Longrightarrow> exchange_start sk k = Inr w0 \<Longrightarrow> exchange_ok kem sk w"
  by (induction rule: rtranclp_induct) (auto intro: exchange_start_ok dest: exchange_step_ok)

end

text \<open>All keys put out for an epoch are the same, whichever side put them out.\<close>

lemma exchange_ok_agrees:
  assumes "exchange_ok kem sk w" "(e, k1) \<in> x_out w p" "(e, k2) \<in> x_out w q"
  shows "k1 = k2"
proof -
  obtain G where "output_follows G (e, k1)" "output_follows G (e, k2)"
    using assms unfolding exchange_ok_def side_follows_def by blast
  then show ?thesis by (auto simp: output_follows_def)
qed

end
