(* ===== verification/Braid_Progress.thy ===== *)
theory Braid_Progress
  imports Braid_Agreement
begin

text \<open>
  An epoch of the Braid ends: from two sides that stand at its start, the schedule that delivers each message
  as it is sent leaves both at the start of the next epoch, in each other's role, with the same authenticator
  and with the epoch's key put out by both.  The premises are that the KEM's calls return.
\<close>

section \<open>A value's encoder and decoder after so many codewords in order\<close>

definition enc_at :: "bytes \<Rightarrow> nat \<Rightarrow> encoder" where
  "enc_at v j = \<lparr> enc_chunks = to_chunks v, enc_next = int j, enc_exhausted = False \<rparr>"

definition dec_at :: "bytes \<Rightarrow> nat \<Rightarrow> decoder" where
  "dec_at v j = \<lparr> dec_size = int (length v), dec_needed = chunk_count (int (length v)),
     dec_held = map (\<lambda>i. (i, word_at (to_chunks v) i)) (map int [0..<j]) \<rparr>"

abbreviation word_nr :: "bytes \<Rightarrow> nat \<Rightarrow> int \<times> bytes" where
  "word_nr v j \<equiv> (int j, word_at (to_chunks v) (int j))"

lemma enc_at_start: "length v \<le> 2000 \<Longrightarrow> encoder_for_value v = Inr (enc_at v 0)"
  using to_chunks_props(1,2) [of v] chunk_count_bounds [of "int (length v)"]
  by (simp add: encoder_for_value_def new_encoder_def enc_at_def const_defs list_all_iff)

lemma enc_at_issue:
  assumes "length v \<le> 2000" "j < 65535"
  shows "issue (enc_at v j) = Inr (enc_at v (Suc j), Some (word_nr v j))"
proof -
  have "length (to_chunks v) \<le> 65536"
    using assms(1) to_chunks_props(1) [of v] chunk_count_bounds [of "int (length v)"] by simp
  then have "encoder_ok (enc_at v j)" using to_chunks_props(2) [of v] by (simp add: encoder_ok_def enc_at_def)
  then have "codeword (enc_at v j) (int j) = Inr (word_at (to_chunks v) (int j))"
    using assms(2) by (simp add: codeword_eq word_at_def enc_at_def const_defs)
  then show ?thesis using assms(2) by (simp add: issue_def enc_at_def const_defs Let_def)
qed

lemma dec_at_start: "new_decoder (int (length v)) [] = Inr (dec_at v 0)"
  by (simp add: new_decoder_def dec_at_def)

lemma dec_at_same_length: "length v = length w \<Longrightarrow> dec_at v 0 = dec_at w 0"
  by (simp add: dec_at_def)

lemma dec_at_receive:
  assumes "int j < chunk_count (int (length v))" "j < 65536"
  shows "dec_receive (dec_at v j) (int j) (word_at (to_chunks v) (int j)) = Inr (dec_at v (Suc j), True)"
  using assms by (auto simp: dec_receive_def dec_at_def const_defs)

lemma dec_at_complete: "dec_complete (dec_at v j) \<longleftrightarrow> chunk_count (int (length v)) \<le> int j"
  by (simp add: dec_complete_def dec_at_def)

lemma dec_at_value:
  assumes "chunk_count (int (length v)) = int j" "0 < j" "j \<le> 65536"
  shows "dec_value (dec_at v j) = Inr (Some v)"
proof -
  have "dec_value (dec_at v j) = Inr (Some (take (nat (dec_size (dec_at v j))) (concat (to_chunks v))))"
    using to_chunks_props [of v] assms
    by (intro dec_value_eq [where hs = "map int [0..<j]" and k = j])
      (auto simp: dec_at_def distinct_map inj_on_def indices_ok_def list_all_iff const_defs)
  then show ?thesis using to_chunks_props(3) [of v] by (simp add: dec_at_def)
qed

section \<open>Schedules\<close>

text \<open>What some schedule can lead to: the two sides' states and byte sources, and keys each has put out.\<close>

definition leads :: "'k kem_ops \<Rightarrow> bool \<Rightarrow> 'k exchange \<Rightarrow> braid \<Rightarrow> 'k \<Rightarrow> braid \<Rightarrow> 'k \<Rightarrow>
    (int \<times> bytes) set \<Rightarrow> (int \<times> bytes) set \<Rightarrow> bool" where
  "leads kem p w a ka b kb oa ob \<longleftrightarrow>
     (\<exists>w'. (exchange_step kem)\<^sup>*\<^sup>* w w' \<and> x_side w' p = a \<and> x_rng w' p = ka \<and> x_side w' (\<not> p) = b \<and> x_rng w' (\<not> p) = kb
        \<and> oa \<subseteq> x_out w' p \<and> ob \<subseteq> x_out w' (\<not> p))"

lemma leads_start: "leads kem p w (x_side w p) (x_rng w p) (x_side w (\<not> p)) (x_rng w (\<not> p)) {} {}"
  by (auto simp: leads_def)

lemma leads_swap: "leads kem p w a ka b kb oa ob \<longleftrightarrow> leads kem (\<not> p) w b kb a ka ob oa"
  by (auto simp: leads_def)

text \<open>One side sends, and its message is delivered at once.\<close>

lemma leads_pass:
  assumes l: "leads kem p w a ka b kb oa ob"
    and send: "braid_send kem a ka = (Inr r, ka')" "bsr_message r = Some m" and receive: "braid_receive kem b m = Inr r'"
  shows "leads kem p w (bsr_state r) ka' (brr_state r') kb (set_option (bsr_output r) \<union> oa) (set_option (brr_output r') \<union> ob)"
proof -
  obtain v where v: "(exchange_step kem)\<^sup>*\<^sup>* w v" "x_side v p = a" "x_rng v p = ka" "x_side v (\<not> p) = b" "x_rng v (\<not> p) = kb"
    "oa \<subseteq> x_out v p" "ob \<subseteq> x_out v (\<not> p)"
    using l unfolding leads_def by blast
  let ?u = "v\<lparr> x_side := (x_side v)(p := bsr_state r), x_rng := (x_rng v)(p := ka'),
      x_net := (x_net v)(p := set_option (bsr_message r) \<union> x_net v p),
      x_out := (x_out v)(p := set_option (bsr_output r) \<union> x_out v p) \<rparr>"
  let ?t = "?u\<lparr> x_side := (x_side ?u)(\<not> p := brr_state r'),
      x_out := (x_out ?u)(\<not> p := set_option (brr_output r') \<union> x_out ?u (\<not> p)) \<rparr>"
  have "exchange_step kem v ?u" by (rule exchange_step.on_send) (simp add: v send)
  moreover have "exchange_step kem ?u ?t" by (rule exchange_step.on_receive [where m = m]) (simp_all add: v send receive)
  ultimately have "(exchange_step kem)\<^sup>*\<^sup>* w ?t" using v(1) by (meson rtranclp.rtrancl_into_rtrancl)
  then show ?thesis unfolding leads_def using v(5-7) by (intro exI [of _ ?t]) auto
qed

definition passes :: "'k kem_ops \<Rightarrow> braid \<Rightarrow> 'k \<Rightarrow> braid \<Rightarrow> braid \<Rightarrow> 'k \<Rightarrow> braid \<Rightarrow> (int \<times> bytes) option \<Rightarrow> (int \<times> bytes) option \<Rightarrow> bool" where
  "passes kem a ka b a' ka' b' oa ob \<longleftrightarrow>
     (\<exists>r m r'. braid_send kem a ka = (Inr r, ka') \<and> bsr_message r = Some m \<and> bsr_state r = a' \<and> bsr_output r = oa
        \<and> braid_receive kem b m = Inr r' \<and> brr_state r' = b' \<and> brr_output r' = ob)"

lemma leads_passes:
  "leads kem p w a ka b kb oa ob \<Longrightarrow> passes kem a ka b a' ka' b' o1 o2 \<Longrightarrow>
     leads kem p w a' ka' b' kb (set_option o1 \<union> oa) (set_option o2 \<union> ob)"
  unfolding passes_def using leads_pass by metis

text \<open>A run of passes that draw nothing and put out nothing.\<close>

lemma leads_stream:
  assumes "leads kem p w (a i) ka (b i) kb oa ob" "i \<le> n"
    and "\<And>j. i \<le> j \<Longrightarrow> j < n \<Longrightarrow> passes kem (a j) ka (b j) (a (Suc j)) ka (b (Suc j)) None None"
  shows "leads kem p w (a n) ka (b n) kb oa ob"
  using assms(2,3)
proof (induction n rule: nat_induct_at_least)
  case base
  show ?case by (rule assms(1))
next
  case (Suc n)
  then have "leads kem p w (a n) ka (b n) kb oa ob" by simp
  from leads_passes [OF this Suc.prems [of n]] Suc.hyps show ?case by simp
qed

lemma send_word:
  assumes "sends_from t = Some (get, put, ty)" "get h = Some (enc_at v j)" "length v \<le> 2000" "j < 65535"
  shows "braid_send kem (br_at t e au h) k =
    (Inr (sent (br_at t e au (put (enc_at v (Suc j)) h)) e ty (Some (word_nr v j)) None), k)"
proof -
  have "t \<noteq> FAILED" "t \<noteq> 0" "t \<noteq> 6" using assms(1) by (auto simp: sends_from_def)
  then show ?thesis
    using assms(1,2) enc_at_issue [OF assms(3,4)] by (simp add: braid_send_def send_codeword_def obj_def)
qed

lemma passes_sent:
  assumes "braid_send kem a ka = (Inr (sent a' e ty cw o1), ka')"
    and "recv_step kem b \<lparr> bm_epoch = e, bm_type = ty, bm_codeword = cw \<rparr> = Inr (b', o2)"
    and "b_tag b \<noteq> FAILED" "b_tag b' \<noteq> FAILED"
  shows "passes kem a ka b a' ka' b' o1 o2"
proof -
  have "braid_receive kem b \<lparr> bm_epoch = e, bm_type = ty, bm_codeword = cw \<rparr>
      = Inr \<lparr> brr_state = b', brr_epoch = b_epoch b' - 1, brr_output = o2 \<rparr>"
    using assms(2-4) by (simp add: braid_receive_def)
  with assms(1) show ?thesis unfolding passes_def sent_def by auto
qed

lemmas passes_word = passes_sent [OF send_word]

section \<open>One epoch\<close>

text \<open>
  The values of an epoch, and that every call which produces one of them returned it: \<open>a\<close> is the
  authenticator both sides start the epoch with, \<open>a2\<close> the one they start the next with.
\<close>

record epoch_run =
  er_key_pair :: bytes
  er_header :: bytes
  er_ek :: bytes
  er_encaps :: bytes
  er_ct1 :: bytes
  er_k :: bytes
  er_ct2 :: bytes

definition epoch_called :: "'k kem_ops \<Rightarrow> 'k \<Rightarrow> 'k \<Rightarrow> epoch_run \<Rightarrow> 'k \<Rightarrow> 'k \<Rightarrow> bool" where
  "epoch_called kem ka kb x ka' kb' \<longleftrightarrow>
     kem_generate kem ka = (Inr (er_key_pair x, er_header x, er_ek x), ka')
     \<and> kem_encaps1 kem (er_header x) kb = (Inr (er_encaps x, er_ct1 x, er_k x), kb')
     \<and> kem_encaps2 kem (er_encaps x) (er_ek x) = Inr (er_ct2 x)"

text \<open>The two states at the start of an epoch.\<close>

definition keys_side :: "int \<Rightarrow> auth \<Rightarrow> braid" where
  "keys_side e a = br_at 0 e (Some a) nothing"

definition waiting_side :: "int \<Rightarrow> auth \<Rightarrow> braid" where
  "waiting_side e a = br_at 5 e (Some a)
     (nothing\<lparr> h_hdr_dec := Some \<lparr> dec_size = 96, dec_needed = 3, dec_held = [] \<rparr> \<rparr>)"

lemma waiting_dec: "length v = 96 \<Longrightarrow> dec_at v 0 = \<lparr> dec_size = 96, dec_needed = 3, dec_held = [] \<rparr>"
  by (simp add: dec_at_def chunk_count_def)

lemma header_phase:
  assumes l: "leads kem p w (keys_side e a) ka (waiting_side e a) kb oa ob"
    and gen: "kem_generate kem ka = (Inr (kp, header, ek), ka')" and len: "length header = 64" "length ek = 1536"
    and mac: "auth_mac_hdr a e header = Inr mac"
  defines "hv \<equiv> header @ mac"
  shows "leads kem p w (br_at 1 e (Some a) (nothing\<lparr> h_key_pair := Some kp, h_hdr_enc := Some (enc_at hv 3) \<rparr>)) ka'
    (br_at 6 e (Some a) (nothing\<lparr> h_header := Some header, h_ek_dec := Some (dec_at ek 0) \<rparr>)) kb oa ob"
proof -
  define A where "A j = br_at 1 e (Some a) (nothing\<lparr> h_key_pair := Some kp, h_hdr_enc := Some (enc_at hv j) \<rparr>)" for j
  define B where "B j = br_at 5 e (Some a) (nothing\<lparr> h_hdr_dec := Some (dec_at hv j) \<rparr>)" for j
  have hv: "length hv = 96" using len length_auth_mac(1) [OF mac] by (simp add: hv_def)
  have n: "chunk_count 96 = 3" by (simp add: chunk_count_def)
  have B0: "waiting_side e a = B 0" by (simp add: waiting_side_def B_def waiting_dec [OF hv])
  have one: "recv_step kem (B j) \<lparr> bm_epoch = e, bm_type = AG_HDR, bm_codeword = Some (word_nr hv j) \<rparr> = Inr (B (Suc j), None)"
    if "j < 2" for j
    using that dec_at_receive [of j hv]
    by (simp add: B_def recv_step_def recv_no_header_def obj_def nothing_def hv n dec_at_complete)
  have "dec_value (dec_at hv 3) = Inr (Some hv)" by (rule dec_at_value) (simp_all add: hv n)
  moreover have "finish_header (B 2) hv = Inr (br_at 6 e (Some a) (nothing\<lparr> h_header := Some header, h_ek_dec := Some (dec_at ek 0) \<rparr>))"
    using hv len mac length_auth_mac(1) [OF mac] dec_at_start [of ek]
    by (simp add: finish_header_def B_def hv_def obj_def mac_matches_def make_iff)
  ultimately have last: "recv_step kem (B 2) \<lparr> bm_epoch = e, bm_type = AG_HDR, bm_codeword = Some (word_nr hv 2) \<rparr>
      = Inr (br_at 6 e (Some a) (nothing\<lparr> h_header := Some header, h_ek_dec := Some (dec_at ek 0) \<rparr>), None)"
    using dec_at_receive [of 2 hv]
    by (simp add: B_def recv_step_def recv_no_header_def obj_def val_def nothing_def hv n dec_at_complete)
  have sends: "sends_from 1 = Some (h_hdr_enc, \<lambda>e. h_hdr_enc_update (\<lambda>_. Some e), AG_HDR)" by (simp add: sends_from_def)
  have "braid_send kem (keys_side e a) ka = (Inr (sent (A 1) e AG_HDR (Some (word_nr hv 0)) None), ka')"
    using gen mac enc_at_start [of hv] enc_at_issue [of hv 0] hv
    by (simp add: braid_send_def keys_side_def send_header_def obj_def kem_try_def hv_def [symmetric] make_iff A_def)
  then have first: "passes kem (keys_side e a) ka (B 0) (A 1) ka' (B 1) None None"
    by (rule passes_sent) (use one [of 0] in \<open>simp_all add: B_def\<close>)
  have mid: "passes kem (A j) k (B j) (A (Suc j)) k b None None" if "j < 3" "b_tag b \<noteq> FAILED"
      "recv_step kem (B j) \<lparr> bm_epoch = e, bm_type = AG_HDR, bm_codeword = Some (word_nr hv j) \<rparr> = Inr (b, None)" for j k b
    using passes_word [OF sends, where v = hv and j = j and h = "b_held (A j)", OF _ _ _ that(3)] hv that(1,2) by (simp add: A_def B_def)
  have "leads kem p w (A 1) ka' (B 1) kb oa ob" using leads_passes [OF l [unfolded B0] first] by simp
  then have "leads kem p w (A 2) ka' (B 2) kb oa ob" by (rule leads_stream) (use mid one in \<open>simp_all add: B_def\<close>)
  from leads_passes [OF this mid [OF _ _ last]] show ?thesis by (simp add: A_def)
qed
text \<open>The first ciphertext; the side that encapsulates puts out the key.\<close>

lemma ct1_phase:
  assumes l: "leads kem p w (br_at 1 e (Some a) (nothing\<lparr> h_key_pair := Some kp, h_hdr_enc := Some en \<rparr>)) ka
      (br_at 6 e (Some a) (nothing\<lparr> h_header := Some header, h_ek_dec := Some (dec_at ek 0) \<rparr>)) kb oa ob"
    and enc: "kem_encaps1 kem header kb = (Inr (st, ct1, k), kb')" and len: "length ct1 = 1408" "length ek = 1536"
    and kp: "kem_ek_vector kem kp = ek" and key: "braid_kdf_ok k e = Inr key" "auth_update a e key = Inr a2"
  shows "leads kem p w (br_at 3 e (Some a) (nothing\<lparr> h_key_pair := Some kp, h_ct1 := Some ct1, h_ek_enc := Some (enc_at ek 0) \<rparr>)) ka
    (br_at 7 e (Some a2) (nothing\<lparr> h_header := Some header, h_encaps := Some st, h_ct1 := Some ct1,
       h_ct1_enc := Some (enc_at ct1 44), h_ek_dec := Some (dec_at ek 0) \<rparr>)) kb' oa (insert (e, key) ob)"
proof -
  define A where "A j = br_at 2 e (Some a) (nothing\<lparr> h_key_pair := Some kp, h_ct1_dec := Some (dec_at ct1 j),
    h_ek_enc := Some (enc_at ek 0) \<rparr>)" for j
  define B where "B j = br_at 7 e (Some a2) (nothing\<lparr> h_header := Some header, h_encaps := Some st, h_ct1 := Some ct1,
    h_ct1_enc := Some (enc_at ct1 j), h_ek_dec := Some (dec_at ek 0) \<rparr>)" for j
  let ?A = "br_at 1 e (Some a) (nothing\<lparr> h_key_pair := Some kp, h_hdr_enc := Some en \<rparr>)"
  let ?A3 = "br_at 3 e (Some a) (nothing\<lparr> h_key_pair := Some kp, h_ct1 := Some ct1, h_ek_enc := Some (enc_at ek 0) \<rparr>)"
  let ?B = "br_at 6 e (Some a) (nothing\<lparr> h_header := Some header, h_ek_dec := Some (dec_at ek 0) \<rparr>)"
  let ?m = "\<lambda>j. \<lparr> bm_epoch = e, bm_type = AG_CT1, bm_codeword = Some (word_nr ct1 j) \<rparr>"
  have n: "chunk_count 1408 = 44" by (simp add: chunk_count_def)
  have "recv_step kem ?A (?m 0) = Inr (A 1, None)"
    using dec_at_start [of ct1] dec_at_receive [of 0 ct1] enc_at_start [of ek] len kp
    by (simp add: recv_step_def recv_keys_sampled_def val_def nothing_def n make_iff A_def)
  moreover have "braid_send kem ?B kb = (Inr (sent (B 1) e AG_CT1 (Some (word_nr ct1 0)) (Some (e, key))), kb')"
    using enc key enc_at_start [of ct1] enc_at_issue [of ct1 0] len
    by (simp add: braid_send_def send_ct1_def obj_def val_def nothing_def kem_try_def make_iff B_def)
  ultimately have first: "passes kem ?B kb ?A (B 1) kb' (A 1) (Some (e, key)) None"
    by (intro passes_sent) (simp_all add: A_def)
  have one: "recv_step kem (A j) (?m j) = Inr (A (Suc j), None)" if "j < 43" for j
    using that dec_at_receive [of j ct1] len(1)
    by (simp add: A_def recv_step_def recv_header_sent_def obj_def nothing_def n dec_at_complete)
  have "dec_value (dec_at ct1 44) = Inr (Some ct1)" by (rule dec_at_value) (simp_all add: len n)
  then have last: "recv_step kem (A 43) (?m 43) = Inr (?A3, None)"
    using dec_at_receive [of 43 ct1] len(1)
    by (simp add: A_def recv_step_def recv_header_sent_def obj_def nothing_def n dec_at_complete make_iff)
  have sends: "sends_from 7 = Some (h_ct1_enc, \<lambda>e. h_ct1_enc_update (\<lambda>_. Some e), AG_CT1)" by (simp add: sends_from_def)
  have mid: "passes kem (B j) k (A j) (B (Suc j)) k s None None"
    if "j < 44" "b_tag s \<noteq> FAILED" "recv_step kem (A j) (?m j) = Inr (s, None)" for j k s
    using passes_word [OF sends, where v = ct1 and j = j and h = "b_held (B j)", OF _ _ _ that(3)] len that(1,2)
    by (simp add: A_def B_def nothing_def)
  have "leads kem (\<not> p) w (B 1) kb' (A 1) ka (insert (e, key) ob) oa"
    using leads_passes [OF l [unfolded leads_swap [where p = p]] first] by simp
  then have "leads kem (\<not> p) w (B 43) kb' (A 43) ka (insert (e, key) ob) oa"
    by (rule leads_stream) (use mid one in \<open>simp_all add: A_def\<close>)
  from leads_passes [OF this mid [OF _ _ last]] show ?thesis
    by (subst leads_swap) (simp add: B_def)
qed

text \<open>The encapsulation key, acknowledging the first ciphertext; the other side completes the encapsulation.\<close>

lemma ek_phase:
  assumes l: "leads kem p w (br_at 3 e (Some a) (nothing\<lparr> h_key_pair := Some kp, h_ct1 := Some ct1, h_ek_enc := Some (enc_at ek 0) \<rparr>)) ka
      (br_at 7 e (Some a2) (nothing\<lparr> h_header := Some header, h_encaps := Some st, h_ct1 := Some ct1,
       h_ct1_enc := Some en, h_ek_dec := Some (dec_at ek 0) \<rparr>)) kb oa ob"
    and len: "length ek = 1536" "length ct2 = 160" and valid: "validate_ek_vector header ek = Inr True"
    and enc: "kem_encaps2 kem st ek = Inr ct2" and mac: "auth_mac_ct a2 e (ct1 @ ct2) = Inr mac"
  shows "leads kem p w (br_at 3 e (Some a) (nothing\<lparr> h_key_pair := Some kp, h_ct1 := Some ct1, h_ek_enc := Some (enc_at ek 48) \<rparr>)) ka
    (br_at 10 e (Some a2) (nothing\<lparr> h_ct2_enc := Some (enc_at (ct2 @ mac) 0) \<rparr>)) kb oa ob"
proof -
  define A where "A j = br_at 3 e (Some a) (nothing\<lparr> h_key_pair := Some kp, h_ct1 := Some ct1, h_ek_enc := Some (enc_at ek j) \<rparr>)" for j
  define B where "B j = br_at 9 e (Some a2) (nothing\<lparr> h_header := Some header, h_encaps := Some st, h_ct1 := Some ct1,
    h_ek_dec := Some (dec_at ek j) \<rparr>)" for j
  let ?B = "br_at 7 e (Some a2) (nothing\<lparr> h_header := Some header, h_encaps := Some st, h_ct1 := Some ct1,
       h_ct1_enc := Some en, h_ek_dec := Some (dec_at ek 0) \<rparr>)"
  let ?C = "br_at 10 e (Some a2) (nothing\<lparr> h_ct2_enc := Some (enc_at (ct2 @ mac) 0) \<rparr>)"
  let ?m = "\<lambda>j. \<lparr> bm_epoch = e, bm_type = AG_EK_CT1_ACK, bm_codeword = Some (word_nr ek j) \<rparr>"
  have n: "chunk_count 1536 = 48" by (simp add: chunk_count_def)
  have mac_len: "length mac = 32" by (rule length_auth_mac(2) [OF mac])
  have first: "recv_step kem ?B (?m 0) = Inr (B 1, None)"
    using dec_at_receive [of 0 ek] len
    by (simp add: recv_step_def recv_ct1_sampled_def obj_def nothing_def n dec_at_complete make_iff B_def)
  have one: "recv_step kem (B j) (?m j) = Inr (B (Suc j), None)" if "j < 47" for j
    using that dec_at_receive [of j ek] len
    by (simp add: B_def recv_step_def recv_ct1_acknowledged_def obj_def nothing_def n dec_at_complete)
  have "dec_value (dec_at ek 48) = Inr (Some ek)" by (rule dec_at_value) (simp_all add: len n)
  moreover have "complete_encapsulation kem (B 48) ek = Inr ?C"
    using enc mac enc_at_start [of "ct2 @ mac"] len mac_len
    by (simp add: complete_encapsulation_def B_def nothing_def val_def obj_def kem_try_def make_iff)
  ultimately have last: "recv_step kem (B 47) (?m 47) = Inr (?C, None)"
    using dec_at_receive [of 47 ek] len valid
    by (simp add: B_def recv_step_def recv_ct1_acknowledged_def obj_def val_def nothing_def n dec_at_complete)
  have sends: "sends_from 3 = Some (h_ek_enc, \<lambda>e. h_ek_enc_update (\<lambda>_. Some e), AG_EK_CT1_ACK)" by (simp add: sends_from_def)
  have mid: "passes kem (A j) k b (A (Suc j)) k s None None"
    if "j < 48" "b_tag b \<noteq> FAILED" "b_tag s \<noteq> FAILED" "recv_step kem b (?m j) = Inr (s, None)" for j k b s
    using passes_word [OF sends, where v = ek and j = j and h = "b_held (A j)", OF _ _ _ that(4)] len that(1-3)
    by (simp add: A_def)
  have "leads kem p w (A 1) ka (B 1) kb oa ob"
    using leads_passes [OF l [folded A_def] mid [OF _ _ _ first]] by (simp add: B_def)
  then have "leads kem p w (A 47) ka (B 47) kb oa ob"
    by (rule leads_stream) (use mid one in \<open>simp_all add: B_def\<close>)
  from leads_passes [OF this mid [OF _ _ _ last]] show ?thesis by (simp add: A_def B_def)
qed

text \<open>The second ciphertext: decapsulation gives the key, which this side puts out too.\<close>

lemma ct2_phase:
  assumes l: "leads kem p w (br_at 3 e (Some a) (nothing\<lparr> h_key_pair := Some kp, h_ct1 := Some ct1, h_ek_enc := Some en \<rparr>)) ka
      (br_at 10 e (Some a2) (nothing\<lparr> h_ct2_enc := Some (enc_at (ct2 @ mac) 0) \<rparr>)) kb oa ob"
    and len: "length ct2 = 160" and mac: "auth_mac_ct a2 e (ct1 @ ct2) = Inr mac" and e: "e \<noteq> U64_MAX - 1"
    and dec: "kem_decaps kem kp ct1 ct2 = Inr k" and key: "braid_kdf_ok k e = Inr key" "auth_update a e key = Inr a2"
  shows "leads kem p w (waiting_side (e + 1) a2) ka (br_at 10 e (Some a2) (nothing\<lparr> h_ct2_enc := Some (enc_at (ct2 @ mac) 6) \<rparr>)) kb
    (insert (e, key) oa) ob"
proof -
  let ?v = "ct2 @ mac"
  define A where "A j = br_at 4 e (Some a) (nothing\<lparr> h_key_pair := Some kp, h_ct1 := Some ct1, h_ct2_dec := Some (dec_at ?v j) \<rparr>)" for j
  define B where "B j = br_at 10 e (Some a2) (nothing\<lparr> h_ct2_enc := Some (enc_at ?v j) \<rparr>)" for j
  let ?A = "br_at 3 e (Some a) (nothing\<lparr> h_key_pair := Some kp, h_ct1 := Some ct1, h_ek_enc := Some en \<rparr>)"
  let ?m = "\<lambda>j. \<lparr> bm_epoch = e, bm_type = AG_CT2, bm_codeword = Some (word_nr ?v j) \<rparr>"
  have mac_len: "length mac = 32" by (rule length_auth_mac(2) [OF mac])
  have n: "chunk_count 192 = 6" by (simp add: chunk_count_def)
  have v: "length ?v = 192" "int (length ?v) = 192" by (simp_all add: len mac_len)
  have first: "recv_step kem ?A (?m 0) = Inr (A 1, None)"
    using dec_at_start [of ?v, unfolded v(2)] dec_at_receive [of 0 ?v, unfolded v(2) n]
    by (simp add: recv_step_def recv_ct1_received_def nothing_def make_iff A_def)
  have one: "recv_step kem (A j) (?m j) = Inr (A (Suc j), None)" if "j < 5" for j
    using that dec_at_receive [of j ?v, unfolded v(2) n] dec_at_complete [of ?v "Suc j", unfolded v(2) n]
    by (simp add: A_def recv_step_def recv_ek_sent_def obj_def nothing_def)
  have "dec_value (dec_at ?v 6) = Inr (Some ?v)" by (rule dec_at_value) (use n in \<open>simp_all add: len mac_len\<close>)
  moreover have "new_decoder 96 [] = Inr \<lparr> dec_size = 96, dec_needed = 3, dec_held = [] \<rparr>"
    by (simp add: new_decoder_def chunk_count_def)
  then have "finish_ct2 kem (A 5) ?v = Inr (waiting_side (e + 1) a2, Some (e, key))"
    using len mac_len mac e dec key
    by (simp add: finish_ct2_def A_def nothing_def val_def obj_def kem_try_def mac_matches_def make_iff waiting_side_def)
  ultimately have last: "recv_step kem (A 5) (?m 5) = Inr (waiting_side (e + 1) a2, Some (e, key))"
    using dec_at_receive [of 5 ?v, unfolded v(2) n] dec_at_complete [of ?v 6, unfolded v(2) n]
    by (simp add: A_def recv_step_def recv_ek_sent_def obj_def val_def nothing_def)
  have sends: "sends_from 10 = Some (h_ct2_enc, \<lambda>e. h_ct2_enc_update (\<lambda>_. Some e), AG_CT2)" by (simp add: sends_from_def)
  have mid: "passes kem (B j) i b (B (Suc j)) i s None out"
    if "j < 6" "b_tag b \<noteq> FAILED" "b_tag s \<noteq> FAILED" "recv_step kem b (?m j) = Inr (s, out)" for j i b s out
    using passes_word [OF sends, where v = ?v and j = j and h = "b_held (B j)", OF _ _ _ that(4)] v(1) that(1-3)
    by (simp add: B_def)
  have "leads kem (\<not> p) w (B 1) kb (A 1) ka ob oa"
    using leads_passes [OF l [folded B_def, unfolded leads_swap [where p = p]] mid [OF _ _ _ first]] by (simp add: A_def)
  then have "leads kem (\<not> p) w (B 5) kb (A 5) ka ob oa"
    by (rule leads_stream) (use mid one in \<open>simp_all add: A_def\<close>)
  from leads_passes [OF this mid [OF _ _ _ last]] show ?thesis
    by (subst leads_swap) (simp add: A_def B_def waiting_side_def)
qed

lemma waiting_sends: "braid_send kem (waiting_side e a) k = (Inr (sent (waiting_side e a) e AG_NONE None None), k)"
  by (simp add: braid_send_def waiting_side_def send_codeword_def sends_from_def)

text \<open>The next epoch begins at the side that encapsulated when it hears of it.\<close>

lemma next_phase:
  assumes l: "leads kem p w (waiting_side (e + 1) a) ka (br_at 10 e (Some a) h) kb oa ob" and e: "e \<noteq> U64_MAX - 1"
  shows "leads kem p w (waiting_side (e + 1) a) ka (keys_side (e + 1) a) kb oa ob"
proof -
  have "recv_step kem (br_at 10 e (Some a) h) \<lparr> bm_epoch = e + 1, bm_type = AG_NONE, bm_codeword = None \<rparr>
      = Inr (keys_side (e + 1) a, None)"
    using e by (simp add: recv_step_def recv_ct2_sampled_def make_iff keys_side_def)
  then have "passes kem (waiting_side (e + 1) a) ka (br_at 10 e (Some a) h) (waiting_side (e + 1) a) ka (keys_side (e + 1) a) None None"
    by (rule passes_sent [OF waiting_sends]) (simp_all add: keys_side_def)
  from leads_passes [OF l this] show ?thesis by simp
qed

text \<open>
  The whole epoch: 3 codewords of the header, 44 of the first ciphertext, 48 of the encapsulation key, 6 of
  the second ciphertext, and one message of the next epoch.
\<close>

context kem_correct begin

lemma epoch_completes:
  assumes start: "x_side w p = keys_side e a" "x_side w (\<not> p) = waiting_side e a" and e: "1 \<le> e" "e < U64_MAX - 1" and a: "auth_fits a"
    and called: "epoch_called kem (x_rng w p) (x_rng w (\<not> p)) x ka' kb'"
  shows "\<exists>key a2 w'. braid_kdf_ok (er_k x) e = Inr key \<and> auth_update a e key = Inr a2 \<and> auth_fits a2
    \<and> (exchange_step kem)\<^sup>*\<^sup>* w w' \<and> x_side w' p = waiting_side (e + 1) a2 \<and> x_side w' (\<not> p) = keys_side (e + 1) a2
    \<and> x_rng w' p = ka' \<and> x_rng w' (\<not> p) = kb' \<and> (e, key) \<in> x_out w' p \<and> (e, key) \<in> x_out w' (\<not> p)"
proof -
  obtain kp header ek st ct1 k ct2 where x: "x = \<lparr> er_key_pair = kp, er_header = header, er_ek = ek, er_encaps = st, er_ct1 = ct1,
      er_k = k, er_ct2 = ct2 \<rparr>"
    by (cases x)
  have gen: "kem_generate kem (x_rng w p) = (Inr (kp, header, ek), ka')"
    and enc1: "kem_encaps1 kem header (x_rng w (\<not> p)) = (Inr (st, ct1, k), kb')" and enc2: "kem_encaps2 kem st ek = Inr ct2"
    using called by (simp_all add: epoch_called_def x)
  note g = generate_shape [OF gen]
  have header: "length header = 64" and ek: "length ek = 1536" "kem_ek_vector kem kp = ek" using g by simp_all
  have ct1: "length ct1 = 1408" "length st = 2592" using encaps1_shape [OF header enc1] by simp_all
  have ct2: "length ct2 = 160" using encaps2_shape [OF ct1(2) ek(1)] enc2 by simp
  have e': "0 \<le> e" "e \<le> U64_MAX" using e by simp_all
  obtain key where key: "braid_kdf_ok k e = Inr key" using kdf_ok_total [OF e', of k] by blast
  obtain a2 where a2: "auth_update a e key = Inr a2" "auth_fits a2" using auth_update_ok [OF e', of a key] by blast
  obtain mh where mh: "auth_mac_hdr a e header = Inr mh" using auth_mac_ok(1) [OF a e'] by blast
  obtain mc where mc: "auth_mac_ct a2 e (ct1 @ ct2) = Inr mc" using auth_mac_ok(2) [OF a2(2) e'] by blast
  have "leads kem p w (keys_side e a) (x_rng w p) (waiting_side e a) (x_rng w (\<not> p)) {} {}"
    using leads_start [of kem p w] by (simp add: start)
  note header_phase [OF this gen header ek(1) mh]
  note ct1_phase [OF this enc1 ct1(1) ek key a2(1)]
  note ek_phase [OF this ek(1) ct2 generate_valid [OF gen] enc2 mc]
  note ct2_phase [OF this ct2 mc _ decaps_encaps [OF gen enc1 enc2] key a2(1)]
  then have "leads kem p w (waiting_side (e + 1) a2) ka' (br_at 10 e (Some a2) (nothing\<lparr> h_ct2_enc := Some (enc_at (ct2 @ mc) 6) \<rparr>)) kb'
      {(e, key)} {(e, key)}"
    using e by simp
  from next_phase [OF this] e
  have "leads kem p w (waiting_side (e + 1) a2) ka' (keys_side (e + 1) a2) kb' {(e, key)} {(e, key)}" by simp
  then show ?thesis using key a2 unfolding leads_def by (auto simp: x)
qed

end

section \<open>The start of a session, and the double's calls\<close>

lemma exchange_start_sides:
  "\<exists>w a. exchange_start sk k = Inr w \<and> auth_init 1 sk = Inr a \<and> auth_fits a \<and> x_side w True = keys_side 1 a
     \<and> x_side w False = waiting_side 1 a \<and> x_rng w = k \<and> x_out w = (\<lambda>_. {}) \<and> x_net w = (\<lambda>_. {})"
proof -
  obtain a where a: "auth_init 1 sk = Inr a" "auth_fits a"
    using auth_update_ok [of 1 "\<lparr> au_root_key = zeros 32, au_mac_key = [] \<rparr>" sk] by (auto simp: auth_init_def const_defs)
  moreover have "new_decoder 96 [] = Inr \<lparr> dec_size = 96, dec_needed = 3, dec_held = [] \<rparr>"
    by (simp add: new_decoder_def chunk_count_def)
  ultimately show ?thesis
    by (simp add: exchange_start_def braid_init_initiator_def braid_init_responder_def make_iff keys_side_def waiting_side_def)
qed

lemma toy_random_total: "0 \<le> d \<Longrightarrow> d + 1 < 2 ^ 64 \<Longrightarrow> \<exists>x. toy_random seed n d = (Inr x, d + 1)"
  by (simp add: toy_random_def Let_def to_bytes_be_def)

lemma toy_generate_total:
  assumes "0 \<le> d" "d + 3 < 2 ^ 64"
  shows "\<exists>x. toy_generate seed {} d = (Inr x, d + 3)"
proof -
  obtain x y z where "toy_random seed 2048 d = (Inr x, d + 1)" "toy_random seed 32 (d + 1) = (Inr y, d + 2)"
    "toy_random seed 32 (d + 2) = (Inr z, d + 3)"
    using toy_random_total [of d seed 2048] toy_random_total [of "d + 1" seed 32] toy_random_total [of "d + 2" seed 32] assms
    by auto
  moreover obtain v where "byte_encode12 (toy_coeffs x) = Inr v"
    using byte_encode12_length [of "toy_coeffs x"] by (auto simp: toy_coeffs_def)
  ultimately show ?thesis by (simp add: toy_generate_def Let_def)
qed

lemma toy_encaps1_total:
  assumes "0 \<le> d" "d + 1 < 2 ^ 64"
  shows "\<exists>x. toy_encaps1 seed {} header d = (Inr x, d + 1)"
  using toy_random_total [OF assms, of seed 32] by (auto simp: toy_encaps1_def Let_def)

lemma toy_called:
  assumes "0 \<le> ka" "ka + 3 < 2 ^ 64" "0 \<le> kb" "kb + 1 < 2 ^ 64"
  shows "\<exists>x. epoch_called (toy_kem seed {}) ka kb x (ka + 3) (kb + 1)"
proof -
  obtain kp header ek where g: "toy_generate seed {} ka = (Inr (kp, header, ek), ka + 3)"
    using toy_generate_total [OF assms(1,2), of seed] by auto
  obtain st ct1 k where e: "toy_encaps1 seed {} header kb = (Inr (st, ct1, k), kb + 1)"
    using toy_encaps1_total [OF assms(3,4), of seed header] by auto
  obtain ct2 where "toy_encaps2 {} st ek = Inr ct2" by (simp add: toy_encaps2_def Let_def)
  with g e show ?thesis
    by (intro exI [of _ "\<lparr> er_key_pair = kp, er_header = header, er_ek = ek, er_encaps = st, er_ct1 = ct1, er_k = k, er_ct2 = ct2 \<rparr>"])
      (simp add: epoch_called_def toy_kem_def)
qed

lemma toy_reliable: "kem_reliable (toy_kem seed {})"
proof -
  have rnd: "toy_random seed n d = (Inl err, d') \<Longrightarrow> err \<noteq> CryptoE KemFailure" for n d d' err
    by (auto simp: toy_random_def Let_def bindR_Inl_iff to_bytes_be_def split: if_splits)
  have enc: "byte_encode12 (toy_coeffs st) \<noteq> Inl err" for st err
    using byte_encode12_length [of "toy_coeffs st"] by (auto simp: toy_coeffs_def)
  have "fst (toy_generate seed {} k) \<noteq> Inl (CryptoE KemFailure)" for k
    using enc by (auto simp: toy_generate_def Let_def dest: rnd split: prod.splits sum.splits)
  moreover have "fst (toy_encaps1 seed {} header k) \<noteq> Inl (CryptoE KemFailure)" for header k
    by (auto simp: toy_encaps1_def Let_def dest: rnd split: prod.splits sum.splits)
  ultimately show ?thesis
    by (auto simp: kem_reliable_def toy_kem_def toy_encaps2_def toy_decaps_def Let_def split: if_splits prod.splits)
qed

text \<open>With the double, an exchange in which both sides have put out a key.\<close>

lemma toy_exchange:
  "\<exists>w0 w key. exchange_start sk (\<lambda>_. 0) = Inr w0 \<and> (exchange_step (toy_kem seed {}))\<^sup>*\<^sup>* w0 w
     \<and> (1, key) \<in> x_out w True \<and> (1, key) \<in> x_out w False"
proof -
  obtain w0 a where w: "exchange_start sk (\<lambda>_. 0) = Inr w0" "auth_fits a" "x_side w0 True = keys_side 1 a"
    "x_side w0 False = waiting_side 1 a" "x_rng w0 = (\<lambda>_. 0 :: int)"
    using exchange_start_sides [of sk "\<lambda>_. 0"] by blast
  obtain x where "epoch_called (toy_kem seed {}) (x_rng w0 True) (x_rng w0 (\<not> True)) x 3 1"
    using toy_called [of 0 0 seed] by (auto simp: w(5))
  from toy_ok.epoch_completes [OF w(3) _ _ _ w(2) this] w show ?thesis by (auto simp: const_defs)
qed

end
