(* ===== verification/Session_Store.thy ===== *)
theory Session_Store
  imports Braid_Safety Pqxdh
begin

text \<open>
  A whole session: the triple ratchet fed by the Braid, with what establishment leaves beside them.  Its two
  epochs move together and its roles stay as they began, so every session reached obeys the rules of
  \<open>persistence.py\<close> and is stored and read back unchanged.
\<close>

section \<open>How a Braid moves\<close>

text \<open>
  A step puts out a key exactly when the epoch's key becomes known: at transition (7) for the side that
  encapsulates, and with the last codeword of the second ciphertext for the other.
\<close>

definition braid_moves :: "braid \<Rightarrow> braid \<Rightarrow> (int \<times> bytes) option \<Rightarrow> bool" where
  "braid_moves s s' out \<longleftrightarrow>
     (case out of
        None \<Rightarrow>
          b_tag s' = FAILED
          \<or> b_epoch s' = b_epoch s \<and> (b_tag s' \<le> 4 \<longleftrightarrow> b_tag s \<le> 4) \<and> (7 \<le> b_tag s' \<longleftrightarrow> 7 \<le> b_tag s)
          \<or> b_tag s = 10 \<and> b_tag s' = 0 \<and> b_epoch s' = b_epoch s + 1
      | Some (e, key) \<Rightarrow>
          e = b_epoch s \<and> (b_tag s = 4 \<and> b_tag s' = 5 \<and> b_epoch s' = b_epoch s + 1
            \<or> b_tag s = 6 \<and> b_tag s' = 7 \<and> b_epoch s' = b_epoch s))"

lemma kem_try_iff:
  "kem_try m failed f = Inr y \<longleftrightarrow> m = Inl (CryptoE KemFailure) \<and> y = failed \<or> (\<exists>x. m = Inr x \<and> f x = Inr y)"
  by (cases m) (auto simp: kem_try_def)

lemma moves_refl [simp]: "braid_moves s s None"
  by (simp add: braid_moves_def)

lemma moves_failed [simp]: "braid_moves s braid_failed_state None"
  by (simp add: braid_moves_def braid_failed_state_def)

lemma finish_ct2_result:
  assumes "finish_ct2 kem s v = Inr (s', out)"
  shows "s' = braid_failed_state \<and> out = None
    \<or> (\<exists>key. out = Some (b_epoch s, key) \<and> b_tag s' = 5 \<and> b_epoch s' = b_epoch s + 1)"
proof (cases "int (length v) \<noteq> BRAID_CT2_VALUE_LEN \<or> b_epoch s = U64_MAX - 1")
  case True
  then show ?thesis using assms by (simp add: finish_ct2_def)
next
  case False
  show ?thesis
    using assms unfolding finish_ct2_def if_not_P [OF False] Let_def bindR_Inr_iff kem_try_iff
    by (elim exE conjE disjE) (simp_all add: bindR_Inr_iff make_iff split: if_splits, elim exE conjE, hypsubst, simp)
qed

lemma complete_result:
  "complete_encapsulation kem s v = Inr s' \<Longrightarrow> s' = braid_failed_state \<or> b_tag s' = 10 \<and> b_epoch s' = b_epoch s"
  by (auto simp: complete_encapsulation_def bindR_Inr_iff kem_try_iff make_iff)

lemma ct1_sampled_result:
  assumes "recv_ct1_sampled kem s m = Inr s'" "b_tag s = 7"
  shows "s' = braid_failed_state \<or> b_epoch s' = b_epoch s \<and> b_tag s' \<in> {7, 8, 9, 10}"
proof (cases "s' = s \<or> s' = braid_failed_state")
  case False
  then obtain i c where ic: "bm_codeword m = Some (i, c)"
    using assms by (cases "bm_codeword m") (auto simp: recv_ct1_sampled_def)
  then obtain dec d b where run: "obj (h_ek_dec (b_held s)) = Inr dec" "dec_receive dec i c = Inr (d, b)"
    using assms False by (auto simp: recv_ct1_sampled_def bindR_Inr_iff split: if_splits)
  show ?thesis
  proof (cases "dec_complete d")
    case True
    then show ?thesis
      using assms False ic run
      by (auto simp: recv_ct1_sampled_def Let_def bindR_Inr_iff make_iff dest!: complete_result split: if_splits)
  next
    case False
    then show ?thesis
      using assms ic run
      by (cases "bm_type m = AG_EK_CT1_ACK") (auto simp: recv_ct1_sampled_def Let_def make_iff split: if_splits)
  qed
qed (use assms in auto)

lemma ct1_acknowledged_result:
  "recv_ct1_acknowledged kem s m = Inr s' \<Longrightarrow> b_tag s = 9 \<Longrightarrow>
     s' = braid_failed_state \<or> b_epoch s' = b_epoch s \<and> b_tag s' \<in> {9, 10}"
  by (auto simp: recv_ct1_acknowledged_def Let_def bindR_Inr_iff dest!: complete_result split: if_splits option.splits)

lemma recv_step_moves:
  assumes "recv_step kem s m = Inr (s', out)" "b_tag s \<noteq> FAILED"
  shows "braid_moves s s' out"
proof -
  obtain t e au h where s: "s = \<lparr> b_tag = t, b_epoch = e, b_auth = au, b_held = h \<rparr>" by (cases s)
  note moves = braid_moves_def braid_failed_state_def make_iff bindR_Inr_iff
  consider "t \<notin> {10, 1, 2, 3, 4, 5, 7, 9, 8}" | "t = 10" | "t = 1" | "t = 2" | "t = 3" | "t = 4" | "t = 5" | "t = 7" | "t = 8" | "t = 9"
    by blast
  then show ?thesis
  proof cases
    case 1
    then show ?thesis using assms by (auto simp: s recv_step_def)
  next
    case 2
    then show ?thesis using assms by (auto simp: s 2 recv_step_def recv_ct2_sampled_def moves split: if_splits)
  next
    case 3
    then show ?thesis using assms by (auto simp: s 3 recv_step_def recv_keys_sampled_def moves split: if_splits option.splits)
  next
    case 4
    then show ?thesis using assms by (auto simp: s 4 recv_step_def recv_header_sent_def moves split: if_splits option.splits)
  next
    case 5
    then show ?thesis using assms by (auto simp: s 5 recv_step_def recv_ct1_received_def moves split: if_splits option.splits)
  next
    case 6
    then show ?thesis using assms
      by (auto simp: s 6 recv_step_def recv_ek_sent_def bindR_Inr_iff braid_moves_def braid_failed_state_def
          dest!: finish_ct2_result split: if_splits option.splits)
  next
    case 7
    then show ?thesis using assms
      by (auto simp: s 7 recv_step_def recv_no_header_def finish_header_def Let_def moves split: if_splits option.splits)
  next
    case 8
    then show ?thesis using assms
      by (auto simp: s 8 recv_step_def moves dest!: ct1_sampled_result)
  next
    case 9
    then show ?thesis using assms
      by (auto simp: s 9 recv_step_def recv_ek_received_def moves dest!: complete_result split: if_splits)
  next
    case 10
    then show ?thesis using assms
      by (auto simp: s 10 recv_step_def moves dest!: ct1_acknowledged_result)
  qed
qed

lemma send_codeword_moves: "send_codeword s = Inr r \<Longrightarrow> b_tag s \<noteq> FAILED \<Longrightarrow> braid_moves s (bsr_state r) (bsr_output r)"
  by (auto simp: send_codeword_def sent_def Let_def bindR_Inr_iff braid_moves_def split: option.splits if_splits)

lemma send_moves:
  assumes "braid_send kem s k = (Inr r, k')" "b_tag s \<noteq> FAILED"
  shows "braid_moves s (bsr_state r) (bsr_output r)"
proof -
  have hdr: "send_header s x = Inr r \<Longrightarrow> b_tag s = 0 \<Longrightarrow> braid_moves s (bsr_state r) (bsr_output r)" for x
    by (auto simp: send_header_def sent_def make_iff bindR_Inr_iff braid_moves_def split: prod.splits)
  have ct1: "send_ct1 s x = Inr r \<Longrightarrow> b_tag s = 6 \<Longrightarrow> braid_moves s (bsr_state r) (bsr_output r)" for x
    by (auto simp: send_ct1_def sent_def make_iff bindR_Inr_iff braid_moves_def split: prod.splits)
  have dead: "braid_moves s (bsr_state (send_failed braid_failed_state)) (bsr_output (send_failed braid_failed_state))"
    by (simp add: send_failed_def)
  show ?thesis
    using assms hdr ct1 dead send_codeword_moves
    by (auto simp: braid_send_def kem_try_iff split: if_splits prod.splits sum.splits)
qed

section \<open>The sparse ratchet's epoch\<close>

lemma spqr_offer_epoch:
  "spqr_offer s sec se = Inr s' \<Longrightarrow>
     (case sec of None \<Rightarrow> q_epoch s' = q_epoch s | Some _ \<Rightarrow> se = Some (q_epoch s + 1) \<and> q_epoch s' = q_epoch s + 1)"
  by (auto simp: spqr_offer_def spqr_advance_def bindR_Inr_iff Let_def split: option.splits if_splits prod.splits)

lemma spqr_send_epoch:
  assumes ok: "spqr_ok s" and run: "spqr_send s e sec se = Inr (s', e', n, mk)"
  shows "case sec of None \<Rightarrow> q_epoch s' = q_epoch s | Some _ \<Rightarrow> se = Some (q_epoch s + 1) \<and> q_epoch s' = q_epoch s + 1"
proof -
  obtain s1 where s1: "spqr_offer s sec se = Inr s1" and on: "spqr_send s1 e None None = Inr (s', e', n, mk)"
    using run by (subst (asm) spqr_send_offer) (auto simp: bindR_Inr_iff)
  have ok1: "spqr_ok s1" by (rule spqr_offer_ok [OF ok s1])
  obtain c rc where get: "dict_get (q_chains s1) e = Some (Some c, rc)"
    using on by (auto simp: spqr_send_def spqr_offer_def split: option.splits prod.splits)
  have "0 \<le> ch_n c" "ch_n c \<le> U64_MAX" using spqr_ok_chain [OF ok1 get] by (simp_all add: chain_ok_def)
  then have "q_epoch s' = q_epoch s1" using on by (auto simp: spqr_send_current [OF get] split: if_splits)
  then show ?thesis using spqr_offer_epoch [OF s1] by (cases sec) simp_all
qed

lemma spqr_receive_epoch:
  assumes ok: "spqr_ok s" and run: "spqr_receive s e n sec se = Inr (s', mk)"
  shows "case sec of None \<Rightarrow> q_epoch s' = q_epoch s | Some _ \<Rightarrow> se = Some (q_epoch s + 1) \<and> q_epoch s' = q_epoch s + 1"
proof -
  obtain s1 where s1: "spqr_offer s sec se = Inr s1" and on: "spqr_receive s1 e n None None = Inr (s', mk)"
    using run by (subst (asm) spqr_receive_offer) (auto simp: bindR_Inr_iff)
  have ok1: "spqr_ok s1" by (rule spqr_offer_ok [OF ok s1])
  have "q_epoch s' = q_epoch s1"
  proof (cases "dict_get (q_skipped s1) (e, n)")
    case (Some v)
    then show ?thesis using on by (auto simp: spqr_receive_def spqr_offer_def)
  next
    case None
    then obtain sc c where get: "dict_get (q_chains s1) e = Some (sc, Some c)"
      using on by (auto simp: spqr_receive_def spqr_offer_def split: option.splits prod.splits)
    have "0 \<le> ch_n c" "ch_n c \<le> U64_MAX" using spqr_ok_chain [OF ok1 get] by (simp_all add: chain_ok_def)
    then show ?thesis using on None by (auto simp: spqr_receive_current [OF get] spqr_accepted_def split: if_splits)
  qed
  then show ?thesis using spqr_offer_epoch [OF s1] by (cases sec) simp_all
qed

section \<open>The invariant of a session\<close>

text \<open>The sparse epoch a Braid's state stands for, and the role it plays in its epoch.\<close>

definition epochs_agree :: "bool \<Rightarrow> qstate \<Rightarrow> braid \<Rightarrow> bool" where
  "epochs_agree initiator q s \<longleftrightarrow>
     b_tag s = FAILED
     \<or> q_epoch q = (if 7 \<le> b_tag s then b_epoch s else b_epoch s - 1) \<and> ((b_tag s \<le> 4) = odd (b_epoch s)) = initiator"

definition session_ok :: "bool \<Rightarrow> braid party \<Rightarrow> bool" where
  "session_ok initiator p \<longleftrightarrow>
     party_ok p \<and> braid_ok (p_agreement_state p) \<and> (q_direction (p_sparse p) = DIRECTION_A2B) = initiator
     \<and> epochs_agree initiator (p_sparse p) (p_agreement_state p)"

text \<open>What the Braid puts out is what the sparse ratchet is offered.\<close>

lemma moves_agree:
  assumes "epochs_agree i q s" "b_tag s \<noteq> FAILED" "braid_moves s s' out"
    and "case map_option snd out of None \<Rightarrow> q_epoch q' = q_epoch q
      | Some _ \<Rightarrow> map_option fst out = Some (q_epoch q + 1) \<and> q_epoch q' = q_epoch q + 1"
  shows "epochs_agree i q' s'"
proof (cases out)
  case None
  then show ?thesis using assms by (auto simp: epochs_agree_def braid_moves_def)
next
  case (Some x)
  then show ?thesis using assms by (cases x) (auto simp: epochs_agree_def braid_moves_def)
qed

lemma fields_of_evicted:
  assumes "evicted_from p w"
  shows "q_epoch (p_sparse w) = q_epoch (p_sparse p)"
proof -
  obtain c q k a d c' q' k' a' d' where "p = \<lparr> p_classical = c, p_sparse = q, p_ratchet_private = k,
      p_agreement_state = a, p_ad = d \<rparr>" "w = \<lparr> p_classical = c', p_sparse = q', p_ratchet_private = k',
      p_agreement_state = a', p_ad = d' \<rparr>"
    by (cases p; cases w) auto
  then show ?thesis using assms by (cases q; cases q'; simp add: evicted_from_def without_stores_def)
qed

context kem_shapes begin

lemma agreement_send_moves:
  assumes ok: "braid_ok s" and run: "ag_send (braid_agreement kem) s k = (Inr a, k')"
  shows "\<exists>out. b_tag s \<noteq> FAILED \<and> braid_moves s (as_state a) out \<and> as_secret a = map_option snd out
    \<and> as_secret_epoch a = map_option fst out \<and> braid_ok (as_state a)"
proof -
  have live: "b_tag s \<noteq> FAILED" using run by (auto simp: braid_agreement_def)
  obtain r k2 where r: "braid_send kem s k = (r, k2)" by (cases "braid_send kem s k")
  then obtain x where x: "r = Inr x" and a: "as_state a = bsr_state x" "as_secret a = map_option snd (bsr_output x)"
      "as_secret_epoch a = map_option fst (bsr_output x)"
    using run live by (auto simp: braid_agreement_def bindR_Inr_iff Let_def split_beta split: if_splits)
  have "braid_ok (bsr_state x)" using send_ok [OF ok, of k] r x by (auto simp: sends_ok_def)
  moreover have "braid_moves s (bsr_state x) (bsr_output x)" using send_moves [OF r [unfolded x] live] .
  ultimately show ?thesis using a live by auto
qed

lemma agreement_receive_moves:
  assumes ok: "braid_ok s" and h: "message_ok (message_from_header h)" and run: "ag_receive (braid_agreement kem) s h = Inr a"
  shows "\<exists>out. b_tag s \<noteq> FAILED \<and> braid_moves s (ar_state a) out \<and> ar_secret a = map_option snd out
    \<and> ar_secret_epoch a = map_option fst out \<and> braid_ok (ar_state a)"
proof -
  let ?m = "message_from_header h"
  have live: "b_tag s \<noteq> FAILED" using run by (auto simp: braid_agreement_def)
  obtain r where r: "braid_receive kem s ?m = Inr r" and a: "ar_state a = brr_state r"
      "ar_secret a = map_option snd (brr_output r)" "ar_secret_epoch a = map_option fst (brr_output r)"
    using run live by (auto simp: braid_agreement_def bindR_Inr_iff)
  have "braid_ok (brr_state r)" using receive_ok [OF ok h] r by auto
  moreover obtain s' out where "recv_step kem s ?m = Inr (s', out)" "brr_state r = s'"
      "brr_output r = (if b_tag s' = FAILED then None else out)"
    using r live by (auto simp: braid_receive_def bindR_Inr_iff split: if_splits)
  then have "braid_moves s (brr_state r) (brr_output r)"
    using recv_step_moves [of kem s ?m s' out] live by (auto simp: braid_moves_def split: option.splits)
  ultimately show ?thesis using a live by auto
qed

lemma session_decrypt_ok:
  assumes ok: "party_ok p'" "braid_ok (p_agreement_state w)" "spqr_ok (p_sparse w)"
      "epochs_agree i (p_sparse w) (p_agreement_state w)" "(q_direction (p_sparse w) = DIRECTION_A2B) = i"
    and run: "triple_decrypt (braid_agreement kem) w msg fresh = Inr (p', pt)"
  shows "session_ok i p' \<and> p_ad p' = p_ad w"
proof -
  obtain h ct d1 d2 pub c mk st q mk2 and a :: "braid agreement_receive"
    where h: "decode_ratchet_message msg = Inr (h, ct)" and a: "ag_receive (braid_agreement kem) (p_agreement_state w) h = Inr a"
    and q: "spqr_receive (p_sparse w) (ch_pq_epoch h) (ch_pq_n h) (ar_secret a) (ar_secret_epoch a) = Inr (q, mk2)"
    and p': "p' = \<lparr> p_classical = c, p_sparse = q, p_ratchet_private = (if st then fresh else p_ratchet_private w),
               p_agreement_state = ar_state a, p_ad = p_ad w \<rparr>"
    using run unfolding triple_decrypt_iff by blast
  have "message_ok (message_from_header h)"
    using h header_message_ok by (auto simp: decode_ratchet_message_def decode_composite_prefix_iff)
  then obtain out where out: "b_tag (p_agreement_state w) \<noteq> FAILED" "braid_moves (p_agreement_state w) (ar_state a) out"
      "ar_secret a = map_option snd out" "ar_secret_epoch a = map_option fst out" "braid_ok (ar_state a)"
    using agreement_receive_moves [OF ok(2) _ a] by blast
  have "epochs_agree i q (ar_state a)"
    using moves_agree [OF ok(4) out(1,2)] spqr_receive_epoch [OF ok(3) q] out(3,4) by (cases out) simp_all
  moreover have "q_direction q = q_direction (p_sparse w)" using spqr_receive_fields [OF ok(3) q] by simp
  ultimately show ?thesis using ok(1,5) out(5) by (simp add: session_ok_def p')
qed

lemma session_step_ok:
  assumes "triple_step (braid_agreement kem) p p'" "session_ok i p"
  shows "session_ok i p' \<and> p_ad p' = p_ad p"
  using assms(1)
proof cases
  case (on_encrypt pt e msg e')
  obtain c h mk q ep n mk2 and a :: "braid agreement_send" where a: "ag_send (braid_agreement kem) (p_agreement_state p) e = (Inr a, e')"
    and q: "spqr_send (p_sparse p) (as_epoch a) (as_secret a) (as_secret_epoch a) = Inr (q, ep, n, mk2)"
    and p': "p' = p\<lparr> p_classical := c, p_sparse := q, p_agreement_state := as_state a \<rparr>"
    using on_encrypt unfolding triple_encrypt_iff by blast
  have ok: "spqr_ok (p_sparse p)" "braid_ok (p_agreement_state p)" "epochs_agree i (p_sparse p) (p_agreement_state p)"
    using assms(2) by (simp_all add: session_ok_def party_ok_def)
  obtain out where out: "b_tag (p_agreement_state p) \<noteq> FAILED" "braid_moves (p_agreement_state p) (as_state a) out"
      "as_secret a = map_option snd out" "as_secret_epoch a = map_option fst out" "braid_ok (as_state a)"
    using agreement_send_moves [OF ok(2) a] by blast
  have "epochs_agree i q (as_state a)"
    using moves_agree [OF ok(3) out(1,2)] spqr_send_epoch [OF ok(1) q] out(3,4) by (cases out) simp_all
  moreover have "q_direction q = q_direction (p_sparse p)" using spqr_send_fields [OF ok(1) q] by simp
  moreover have "party_ok p'" using triple_step_ok [OF assms(1)] assms(2) by (simp add: session_ok_def)
  ultimately show ?thesis using assms(2) out(5) by (simp add: session_ok_def p')
next
  case (on_decrypt msg fresh pt)
  have "party_ok p'" using triple_step_ok [OF assms(1)] assms(2) by (simp add: session_ok_def)
  then show ?thesis using session_decrypt_ok [OF _ _ _ _ _ on_decrypt, of i] assms(2) by (simp add: session_ok_def party_ok_def)
next
  case (on_decrypt_evicting msg fresh pt)
  have p': "party_ok p'" using triple_step_ok [OF assms(1)] assms(2) by (simp add: session_ok_def)
  have "party_ok p" using assms(2) by (simp add: session_ok_def)
  then obtain w where w: "evicted_from p w" "spqr_ok (p_sparse w)"
    and run: "triple_decrypt (braid_agreement kem) w msg fresh = Inr (p', pt)"
    using eviction_returns [OF _ on_decrypt_evicting(1), of p msg fresh] on_decrypt_evicting(2) by auto
  show ?thesis
    using session_decrypt_ok [OF p' _ w(2) _ _ run, of i] evicted_fields [OF w(1)] fields_of_evicted [OF w(1)] assms(2)
    by (simp add: session_ok_def epochs_agree_def)
qed

lemma session_steps_ok:
  "(triple_step (braid_agreement kem))\<^sup>*\<^sup>* p p' \<Longrightarrow> session_ok i p \<Longrightarrow> session_ok i p' \<and> p_ad p' = p_ad p"
  by (induction rule: rtranclp_induct) (auto dest: session_step_ok)

end


section \<open>Storing a session\<close>

text \<open>
  \<open>session_of\<close>: the record kept of a party, with what establishment leaves beside it.  The function is local to
  the run of \<open>session_e2e.py\<close> and reads the identity keys and the associated data from it, and has no pending
  message; here they are arguments, so that it is also the record the run makes of the initiator.
\<close>

definition session_of ::
  "bytes \<Rightarrow> bytes \<Rightarrow> bytes \<Rightarrow> pending_initial option \<Rightarrow> bytes option \<Rightarrow> braid party \<Rightarrow> session_state res" where
  "session_of identity_ad ours peer pending established p =
     bindR (to_persisted (p_agreement_state p)) (\<lambda>b.
     Inr \<lparr> ss_triple = \<lparr> t_classical = p_classical p, t_sparse = p_sparse p \<rparr>, ss_braid = b,
           ss_ratchet_private = p_ratchet_private p, ss_identity_ad = identity_ad,
           ss_our_identity_public = ours, ss_peer_identity_public = peer,
           ss_pending_initial = pending, ss_established_ephemeral = established \<rparr>)"

text \<open>What establishment leaves: the initiator's message until it is answered, the responder's opening key.\<close>

definition pending_fits :: "pending_initial \<Rightarrow> bool" where
  "pending_fits m \<longleftrightarrow> int (length (pi_kem_ciphertext m)) = MLKEM1024_CT_LEN \<and> is_canonical_curve_key (pi_ephemeral_public m)
     \<and> (\<forall>i \<in> {pi_signed_prekey_id m, pi_one_time_prekey_id m, pi_kem_prekey_id m}. 0 \<le> i \<and> i < 256 ^ 4)"

definition left_over :: "bool \<Rightarrow> pending_initial option \<Rightarrow> bytes option \<Rightarrow> bool" where
  "left_over initiator pending established \<longleftrightarrow>
     (if initiator then established = None \<and> opt_all pending_fits pending
      else pending = None \<and> established \<noteq> None \<and> opt_all established_ok established)"

lemma pending_stored:
  assumes "opt_all pending_fits v"
  shows "\<exists>b. optional_field pending_bytes v = Inr b"
  using assms
  by (cases v) (auto simp: optional_field_def pending_fits_def pending_bytes_def prefixed_def pbe_def to_bytes_be_def
      const_defs dest: canonical_length)

lemma established_stored:
  assumes "opt_all established_ok v"
  shows "\<exists>b. optional_field Inr v = Inr b"
  using assms
  by (cases v) (auto simp: optional_field_def established_ok_def prefixed_def pbe_def to_bytes_be_def const_defs)

lemma persisted_fields:
  "to_persisted s = Inr b \<Longrightarrow> b = failed_braid \<and> b_tag s = FAILED \<or> bs_tag b = b_tag s \<and> bs_epoch b = b_epoch s \<and> b_tag s \<noteq> FAILED"
  by (auto simp: to_persisted_def bindR_Inr_iff split: if_splits option.splits)

text \<open>The rules that tie the two ratchets to the Braid and to the role hold of every session reached.\<close>

lemma by_role: "(case (if i then (x, y) else (y, x)) of (a, b) \<Rightarrow> f a b) = f (if i then x else y) (if i then y else x)"
  by simp

lemma session_rules:
  assumes ok: "session_ok i p" and left: "left_over i pending established"
    and ad: "associated_data (if i then ours else peer) (if i then peer else ours) = Inr ad"
    and b: "to_persisted (p_agreement_state p) = Inr b" "braid_storable None b"
    and s: "session_of ad ours peer pending established p = Inr s"
  shows "session_semantic None s = Inr (is_identity_key ours \<and> is_identity_key peer)"
proof -
  let ?a = "p_agreement_state p"
  have p: "x25519_public (p_ratchet_private p) = Inr (r_dhs_pub (p_classical p))"
      "triple_invariant \<lparr> t_classical = p_classical p, t_sparse = p_sparse p \<rparr>"
      "(q_direction (p_sparse p) = DIRECTION_A2B) = i" "epochs_agree i (p_sparse p) ?a" "braid_ok ?a"
    using ok roles_ok_invariant by (auto simp: session_ok_def party_ok_def)
  have role: "established = None \<longleftrightarrow> i" "opt_all established_ok established"
      "pending = None \<or> established = None" "opt_all pending_fits pending"
    using left by (auto simp: left_over_def split: if_splits)
  have pend: "opt_all (\<lambda>m. int (length (pi_kem_ciphertext m)) = MLKEM1024_CT_LEN) pending"
      "opt_all (\<lambda>m. is_canonical_curve_key (pi_ephemeral_public m)) pending"
    using role(4) by (cases pending; simp add: pending_fits_def)+
  have live: "b_tag ?a \<noteq> FAILED \<Longrightarrow> b_tag ?a \<le> 10" 
    using p(5) by (auto simp: braid_ok_def braid_failed_state_def dest!: holds_states)
  have braid: "braid_invariant None b = Inr True"
  proof -
    have "braid_invariant None failed_braid = Inr True" by (simp add: braid_invariant_def braid_failed_def failed_braid_def)
    then show ?thesis using b(2) by (auto simp: braid_storable_def)
  qed
  have epoch: "braid_failed b \<or> q_epoch (p_sparse p) = sparse_epoch_of b
      \<and> (is_header_sender b \<longleftrightarrow> bs_epoch b mod 2 = 1) = i"
    using persisted_fields [OF b(1)] p(4) live
    by (auto simp: epochs_agree_def braid_failed_def failed_braid_def sparse_epoch_of_def is_header_sender_def odd_iff_mod_2_eq_one)
  have ad': "ad = (0x05 # (if i then ours else peer)) @ (0x05 # (if i then peer else ours))" "length ours = 32" "length peer = 32"
    using ad by (cases i; auto simp: associated_data_def bindR_Inr_iff encode_ec_iff)+
  have fields: "ss_triple s = \<lparr> t_classical = p_classical p, t_sparse = p_sparse p \<rparr>" "ss_braid s = b"
      "ss_ratchet_private s = p_ratchet_private p" "ss_identity_ad s = ad" "ss_our_identity_public s = ours"
      "ss_peer_identity_public s = peer" "ss_pending_initial s = pending" "ss_established_ephemeral s = established"
      "is_initiator s = i"
    using s b(1) role(1) by (auto simp: session_of_def is_initiator_def)
  have ec: "encode_ec (if i then ours else peer) = Inr (0x05 # (if i then ours else peer))"
      "encode_ec (if i then peer else ours) = Inr (0x05 # (if i then peer else ours))"
    using ad' by (simp_all add: encode_ec_iff)
  have passed: "(\<not> braid_failed b \<and> q_epoch (p_sparse p) \<noteq> sparse_epoch_of b) = False"
      "(\<not> braid_failed b \<and> (is_header_sender b = (bs_epoch b mod 2 = 1)) \<noteq> i) = False"
      "((q_direction (p_sparse p) = DIRECTION_A2B) \<noteq> i) = False"
      "(pending \<noteq> None \<and> established \<noteq> None) = False"
    using epoch p(3) role(3) by auto
  have "session_semantic None s =
      (if \<not> is_canonical_curve_key ours \<or> \<not> is_identity_key ours then Inr False
       else if \<not> is_canonical_curve_key peer \<or> \<not> is_identity_key peer then Inr False else Inr True)"
    by (simp only: session_semantic_def Let_def fields triple_state.simps by_role p(1,2) bindR_simps ec ad'(1) passed pend
        role(2) braid eq_True [THEN iffD2, OF refl] not_True_eq_False not_False_eq_True if_True if_False)
  then show ?thesis using identity_key_is_canonical [of ours] identity_key_is_canonical [of peer] by auto
qed

text \<open>So a session reached is written, and read back unchanged unless a key of it is no identity key.\<close>

lemma session_stored:
  assumes ok: "session_ok i p" and left: "left_over i pending established"
    and ad: "associated_data (if i then ours else peer) (if i then peer else ours) = Inr ad"
  shows "\<exists>s b. session_of ad ours peer pending established p = Inr s \<and> session_to_bytes s = Inr b
    \<and> session_from_bytes None b = (if is_identity_key ours \<and> is_identity_key peer then Inr s else Inl (PersistE Inconsistent))
    \<and> from_persisted (ss_braid s) = Inr (p_agreement_state p)"
proof -
  have p: "party_ok p" "braid_ok (p_agreement_state p)" using ok by (simp_all add: session_ok_def)
  obtain pb bb where braid: "to_persisted (p_agreement_state p) = Inr pb" "braid_storable None pb" "braid_to_bytes pb = Inr bb"
      "int (length bb) < 256 ^ 4" "from_persisted pb = Inr (p_agreement_state p)"
    using braid_ok_persisted [OF p(2)] by blast
  obtain tb where triple: "triple_to_bytes \<lparr> t_classical = p_classical p, t_sparse = p_sparse p \<rparr> = Inr tb"
      "int (length tb) < 256 ^ 4" "triple_storable \<lparr> t_classical = p_classical p, t_sparse = p_sparse p \<rparr>"
    using party_stored [OF p(1)] by blast
  obtain s where s: "session_of ad ours peer pending established p = Inr s" using braid(1) by (simp add: session_of_def)
  then have fields: "ss_triple s = \<lparr> t_classical = p_classical p, t_sparse = p_sparse p \<rparr>" "ss_braid s = pb"
      "ss_ratchet_private s = p_ratchet_private p" "ss_identity_ad s = ad" "ss_our_identity_public s = ours"
      "ss_peer_identity_public s = peer" "ss_pending_initial s = pending" "ss_established_ephemeral s = established"
    using braid(1) by (auto simp: session_of_def)
  have keys: "length ours = 32" "length peer = 32" "length ad = 66"
    using ad by (cases i; auto simp: associated_data_def bindR_Inr_iff encode_ec_iff)+
  have priv: "length (p_ratchet_private p) = 32"
    using p(1) x25519_cases [of "p_ratchet_private p" "le32 9"] by (simp add: party_ok_def x25519_public_def)
  have pend: "opt_all (\<lambda>m. length (pi_ephemeral_public m) = 32) pending" "opt_all pending_fits pending"
      "opt_all established_ok established"
    using left by (cases pending; cases i; auto simp: left_over_def pending_fits_def dest: canonical_length)+
  obtain pe es where "optional_field pending_bytes pending = Inr pe" "optional_field Inr established = Inr es"
    using pending_stored [OF pend(2)] established_stored [OF pend(3)] by blast
  then obtain b where b: "session_to_bytes s = Inr b"
    using triple(1,2) braid(3,4) keys(3) by (simp add: session_to_bytes_def fields prefixed_def pbe_def to_bytes_be_def)
  have "session_readable None s"
    using triple(3) braid(2) priv keys(1,2) pend(1) by (simp add: session_readable_def fields)
  then have "read_session None b = Inr s" using b by (simp add: read_session_iff)
  then show ?thesis
    using s b braid(5) session_rules [OF ok left ad braid(1,2) s] by (simp add: session_from_bytes_eq fields)
qed

section \<open>Where a session starts\<close>

lemma started_initiator:
  assumes "triple_init_initiator sk ad priv spk st = Inr p" "is_canonical_curve_key spk" "braid_init_initiator sk = Inr st"
  shows "session_ok True p"
proof -
  have st: "p_agreement_state p = st" "q_direction (p_sparse p) = DIRECTION_A2B" "q_epoch (p_sparse p) = 0"
    using assms(1) by (auto simp: triple_init_initiator_def spqr_init_def bindR_Inr_iff split: if_splits prod.splits)
  have "b_tag st = 0" "b_epoch st = 1" using assms(3) by (auto simp: braid_init_initiator_def make_iff bindR_Inr_iff)
  then show ?thesis
    using init_initiator_ok [OF assms(1,2)] braid_init_ok(1) [of sk] assms(3) st
    by (simp add: session_ok_def epochs_agree_def)
qed

lemma started_responder:
  assumes "triple_init_responder sk ad priv st = Inr p" "braid_init_responder sk = Inr st"
  shows "session_ok False p"
proof -
  have st: "p_agreement_state p = st" "q_direction (p_sparse p) = DIRECTION_B2A" "q_epoch (p_sparse p) = 0"
    using assms(1) by (auto simp: triple_init_responder_def spqr_init_def bindR_Inr_iff split: prod.splits)
  have "b_tag st = 5" "b_epoch st = 1" using assms(2) by (auto simp: braid_init_responder_def make_iff bindR_Inr_iff)
  then show ?thesis
    using init_responder_ok [OF assms(1)] braid_init_ok(2) [of sk] assms(2) st
    by (simp add: session_ok_def epochs_agree_def const_defs)
qed

section \<open>A repeated initial message\<close>

text \<open>
  \<open>receive\<close>: what a session that already exists does with an initial message.  The tests come first, then
  the message inside is decrypted by the party the record stands for, and the record is made of what results.
\<close>

definition session_receive ::
  "'k kem_ops \<Rightarrow> bytes \<Rightarrow> bytes \<Rightarrow> bytes \<Rightarrow> session_state \<Rightarrow> bytes \<Rightarrow> bytes \<Rightarrow> (session_state \<times> bytes) res" where
  "session_receive kem identity_ad ours peer session raw fresh =
     receive_repeated_initial session raw (\<lambda>ratchet_message.
       bindR (from_persisted (ss_braid session)) (\<lambda>braid.
       bindR (triple_decrypt (braid_agreement kem)
                \<lparr> p_classical = t_classical (ss_triple session), p_sparse = t_sparse (ss_triple session),
                  p_ratchet_private = ss_ratchet_private session, p_agreement_state = braid, p_ad = identity_ad \<rparr>
                ratchet_message fresh) (\<lambda>(party, pt).
       bindR (session_of identity_ad ours peer None (ss_established_ephemeral session) party) (\<lambda>s. Inr (s, pt)))))"

text \<open>So it is a decryption step of the party: nothing a wrapper carries reaches the state by another way.\<close>

lemma session_receive_step:
  assumes ok: "braid_ok (p_agreement_state p)"
    and s: "session_of (p_ad p) ours peer None established p = Inr s"
    and run: "session_receive kem (p_ad p) ours peer s raw fresh = Inr (s', pt)"
  shows "\<exists>m p'. decode_initial raw = Inr m
    \<and> triple_decrypt (braid_agreement kem) p (im_ratchet_message m) fresh = Inr (p', pt)
    \<and> session_of (p_ad p) ours peer None established p' = Inr s'"
proof -
  obtain pb where pb: "to_persisted (p_agreement_state p) = Inr pb" "from_persisted pb = Inr (p_agreement_state p)"
    using braid_ok_persisted [OF ok] by blast
  have party: "\<lparr> p_classical = p_classical p, p_sparse = p_sparse p, p_ratchet_private = p_ratchet_private p,
      p_agreement_state = p_agreement_state p, p_ad = p_ad p \<rparr> = p"
    by simp
  have "s = \<lparr> ss_triple = \<lparr> t_classical = p_classical p, t_sparse = p_sparse p \<rparr>, ss_braid = pb,
      ss_ratchet_private = p_ratchet_private p, ss_identity_ad = p_ad p, ss_our_identity_public = ours,
      ss_peer_identity_public = peer, ss_pending_initial = None, ss_established_ephemeral = established \<rparr>"
    using s pb(1) by (simp add: session_of_def)
  then show ?thesis
    using run pb(2) party by (auto simp: session_receive_def receive_repeated_iff bindR_Inr_iff)
qed

lemma rev_zeros: "rev (zeros n) = zeros n"
  by (simp add: zeros_def)

lemma session_starts:
  assumes "initiator \<and> triple_init_initiator sk ad priv spk st = Inr p \<and> is_canonical_curve_key spk
        \<and> braid_init_initiator sk = Inr st
      \<or> \<not> initiator \<and> triple_init_responder sk ad priv st = Inr p \<and> braid_init_responder sk = Inr st"
  shows "session_ok initiator p \<and> p_ad p = ad"
proof -
  have "p_ad p = ad"
    using assms by (auto simp: triple_init_initiator_def triple_init_responder_def bindR_Inr_iff split: if_splits prod.splits)
  then show ?thesis using assms started_initiator [of sk ad priv spk st p] started_responder [of sk ad priv st p] by auto
qed

lemma session_receive_reached:
  assumes ok: "session_ok initiator p" and left: "left_over initiator pending established"
    and s: "session_of (p_ad p) ours peer pending established p = Inr s"
    and run: "session_receive kem (p_ad p) ours peer s raw fresh = Inr (s', pt)"
  shows "\<exists>p'. triple_step (braid_agreement kem) p p' \<and> session_of (p_ad p) ours peer pending established p' = Inr s'"
proof -
  have "\<not> is_initiator s"
    using run by (auto simp: session_receive_def receive_repeated_iff accept_repeated_iff)
  moreover have "ss_established_ephemeral s = established" using s by (auto simp: session_of_def bindR_Inr_iff)
  ultimately have "pending = None" using left by (auto simp: left_over_def is_initiator_def split: if_splits)
  then show ?thesis
    using session_receive_step [of p ours peer established s kem raw fresh s' pt] ok s run
    by (auto simp: session_ok_def intro: triple_step.on_decrypt)
qed

end
