(* ===== verification/Braid_Quiet.thy ===== *)
theory Braid_Quiet
  imports Kem_Double Triple
begin

text \<open>
  What a Braid's \<open>receive\<close> can raise is never one of the two errors for a full store that the loop of
  \<open>decrypt_with_eviction\<close> answers to, whatever state and header it is given, so the results on eviction
  (\<open>quiet_agreement\<close>) apply to the triple ratchet fed by the Braid.
\<close>

section \<open>Every call, by the structure of the code\<close>

definition calm :: "error \<Rightarrow> bool" where
  "calm err \<longleftrightarrow> \<not> store_full err"

lemma calm_simps [simp]: "calm (PyE e)" "calm (CryptoE c)" "calm (WireE w)" "calm (PersistE p)"
  by (simp_all add: calm_def store_full_def)

lemma raises_foldR: "(\<And>x acc. raises E (f x acc)) \<Longrightarrow> raises E (foldR f xs acc)"
  by (induction xs arbitrary: acc) (auto simp: raises_def bindR_Inl_iff)

lemma raises_kem_try: "raises E m \<Longrightarrow> (\<And>x. raises E (f x)) \<Longrightarrow> raises E (kem_try m failed f)"
  by (auto simp: raises_def kem_try_def split: sum.splits if_splits)

lemma raises_prod_applied:
  "(\<And>a b. p = (a, b) \<Longrightarrow> raises E (f a b x)) \<Longrightarrow> raises E ((case p of (a, b) \<Rightarrow> f a b) x)"
  by (cases p) simp

named_theorems calm_intro \<open>calls that never report a full store\<close>

declare raises_intro [calm_intro]
declare raises_prod_applied [calm_intro]
declare raises_foldR [calm_intro]
declare raises_kem_try [calm_intro]

lemma calm_obj [calm_intro]: "raises calm (obj x)" "raises calm (val x)"
  by (simp_all add: raises_def obj_def val_def split: option.splits)

lemma calm_bytes [calm_intro]:
  "raises calm (to_bytes_be w v)" "raises calm (chunk_elements c)" "raises calm (braid_epoch_bytes e)"
  "raises calm (py_nth xs i)"
  by (simp_all add: raises_def to_bytes_be_def chunk_elements_def braid_epoch_bytes_def py_nth_def)

lemma calm_modulus [calm_intro]: "raises calm (modulus_ok b)"
  by (induction b rule: modulus_ok.induct) (simp_all add: raises_def)

lemma calm_field [calm_intro]: "raises calm gf_tables" "raises calm (gf_mul_fast a b)" "raises calm (gf_inv_fast a)"
proof -
  obtain t where t: "gf_tables = Inr t" using gf_tables_eq by blast
  show tables: "raises calm gf_tables" unfolding t by (rule raises_Inr)
  show "raises calm (gf_mul_fast a b)" unfolding gf_mul_fast_def by (intro calm_intro tables)
  show "raises calm (gf_inv_fast a)" unfolding gf_inv_fast_def by (intro calm_intro tables) simp
qed

lemma calm_interpolation [calm_intro]:
  "raises calm (inv_denominators nodes)" "raises calm (basis_at nodes inv_den x)" "raises calm (combine_els els basis)"
  unfolding inv_denominators_def basis_at_def prefix_products_def suffix_products_def combine_els_def from_elements_def
  by (intro calm_intro; simp?)+

lemma calm_coders [calm_intro]:
  "raises calm (encoder_for_value v)" "raises calm (new_decoder sz held)" "raises calm (dec_receive d i c)"
  "raises calm (dec_value d)"
  unfolding encoder_for_value_def new_encoder_def new_decoder_def dec_receive_def dec_value_def
  by (intro calm_intro | simp)+

lemma calm_auth [calm_intro]:
  "raises calm (braid_kdf_ok k e)" "raises calm (auth_update a e u)" "raises calm (auth_mac_hdr a e d)"
  "raises calm (auth_mac_ct a e d)" "raises calm (validate_ek_vector h v)"
  unfolding braid_kdf_ok_def auth_update_def braid_kdf_auth_def auth_mac_hdr_def auth_mac_ct_def auth_mac_def
    validate_ek_vector_def
  by (intro calm_intro | simp)+

lemma calm_make [calm_intro]: "raises calm (braid_make tag e a given flds)"
  by (simp add: raises_def braid_make_def split: option.splits)

section \<open>The handlers\<close>

text \<open>What is asked of the KEM: that its own calls do not raise the two errors.\<close>

definition calm_kem :: "'k kem_ops \<Rightarrow> bool" where
  "calm_kem kem \<longleftrightarrow>
     (\<forall>st ek. raises calm (kem_encaps2 kem st ek)) \<and> (\<forall>kp ct1 ct2. raises calm (kem_decaps kem kp ct1 ct2))"

lemma calm_kem_calls:
  assumes "calm_kem kem"
  shows "raises calm (kem_encaps2 kem st ek)" "raises calm (kem_decaps kem kp ct1 ct2)"
  using assms by (simp_all add: calm_kem_def)

lemma calm_complete: "calm_kem kem \<Longrightarrow> raises calm (complete_encapsulation kem s ek)"
  unfolding complete_encapsulation_def by (intro calm_intro calm_kem_calls)

lemma calm_finish_ct2: "calm_kem kem \<Longrightarrow> raises calm (finish_ct2 kem s v)"
  unfolding finish_ct2_def by (intro calm_intro calm_kem_calls)

lemma calm_finish_header [calm_intro]: "raises calm (finish_header s v)"
  unfolding finish_header_def by (intro calm_intro)

lemma calm_recv:
  assumes "calm_kem kem"
  shows "raises calm (recv_step kem s m)"
  unfolding recv_step_def Let_def recv_ct2_sampled_def recv_keys_sampled_def recv_header_sent_def recv_ct1_received_def
    recv_ek_sent_def recv_no_header_def recv_ct1_sampled_def recv_ct1_acknowledged_def recv_ek_received_def
  by (intro calm_intro calm_complete calm_finish_ct2 assms)

theorem braid_agreement_quiet: "calm_kem kem \<Longrightarrow> quiet_agreement (braid_agreement kem)"
  using calm_recv [of kem] unfolding quiet_agreement_def
  by (fastforce simp: braid_agreement_def braid_receive_def bindR_Inl_iff raises_def calm_def store_full_def split: if_splits)

lemma toy_calm: "calm_kem (toy_kem seed fail_on)"
  by (simp add: calm_kem_def toy_kem_def toy_encaps2_def toy_decaps_def raises_def Let_def split: prod.splits)

end
