(* ===== verification/Spec2Isabelle.thy ===== *)
theory Spec2Isabelle
  imports PyDict Constants Hashes Kdf Wire Protobuf Channel Ratchet Lagrange Spqr XorLinear Gf65536
    Erasure Aes Aead Curve25519 Bytes_Order Identity Records Persistence Persist_Triple Raises Triple
    Triple_Session Persist_Braid Braid Braid_Store Kem_Double Braid_Safety
    Persist_Session Persist_Prekeys Prekeys Pqxdh Effects Admission
    Utf8 Inventory Braid_Epochs Braid_Agreement Braid_Progress Session_Store
    Braid_Quiet
begin

text \<open>
  A model of the independent reader of the Tacenta specification,
  \<open>src/tacenta-test-vectors/runners/independent/reader/tacenta_reader/\<close>: the executable Python
  account of the protocol (curve keys, AEAD, wire formats, the classical and sparse ratchets, the
  erasure code of the Braid, identities and contact records, storage formats) that the repository's
  test vectors are checked against.

  How the program's parts fit.  \<open>kdf\<close>, \<open>aes\<close>, \<open>aead\<close> and \<open>curve25519\<close> are the primitives.
  \<open>wire\<close> and \<open>protobuf\<close> turn messages into bytes and back.  \<open>ratchet\<close> is the Double Ratchet and
  \<open>spqr\<close> the sparse post-quantum ratchet; \<open>triple\<close> runs both side by side, feeding \<open>spqr\<close> the
  secrets an agreement (the Braid) produces.  The Braid sends its long values as codewords of the
  erasure code in \<open>erasure\<close> over the field of \<open>gf65536\<close>.  \<open>identity\<close> and \<open>records\<close> decide whose key
  a peer presents, \<open>persistence\<close> stores the states, and \<open>inventory\<close> is the signed list of an account's
  devices that a host publishes.

  Theories, the module each models and what its lemmas show:

    \<^item> Prelude: results (\<open>error + 'a\<close>, one constructor per exception class of the program),
      \<open>bindR\<close>, loops over results, integers as big-endian bytes, a byte cursor (locale \<open>cursor\<close>), and
      the contracts of a format (locales \<open>exact_codec\<close> and \<open>prefix_codec\<close>).
    \<^item> PyDict: Python's insertion-ordered dict as an association list, \<open>dict_get\<close>, \<open>dict_set\<close>,
      \<open>dict_del\<close> (locale \<open>key_store\<close> states what a store of keys promises).
    \<^item> Constants: \<open>constants.py\<close>.
    \<^item> Hashes: SHA-256, SHA-512 and SHA3-256, which the program takes from \<open>hashlib\<close>, written from
      FIPS 180-4 and 202; every other theory uses of them only the length of the digest.
    \<^item> Kdf: \<open>kdf.py\<close>.  HKDF's outputs are prefixes of one stream.
    \<^item> Wire, Protobuf: \<open>wire.py\<close>, \<open>protobuf.py\<close>.  Each decoder of \<open>wire.py\<close> accepts exactly the
      encoder's outputs on well-formed values; the parser of \<open>protobuf.py\<close>, which takes fields in any order,
      inverts its encoder.
    \<^item> Channel: a channel that delays, drops, reorders and repeats messages, and the argument that a
      receiver which only ever takes the sender's keys, each once, agrees with it (locale).
    \<^item> Ratchet, Spqr: \<open>ratchet.py\<close>, \<open>spqr.py\<close>.  State invariants over the step relations
      \<open>ratchet_step\<close> and \<open>spqr_step\<close>, every refusal, closed forms of the chains, agreement.
    \<^item> XorLinear, Gf65536, Lagrange, Erasure: \<open>gf65536.py\<close>, \<open>erasure.py\<close>.  The field of \<open>2 ^ 16\<close>
      elements as a type of class \<open>field\<close> that the code's arithmetic on integers implements, and
      interpolation over it.
    \<^item> Aes, Aead: \<open>aes.py\<close>, \<open>aead.py\<close>.  Decryption inverts encryption block by block and over CBC
      (locale \<open>block_cipher\<close>), and opening accepts exactly what sealing produces.
    \<^item> Curve25519: \<open>curve25519.py\<close>, its arithmetic on integers as it stands.  Ranges, degenerate inputs,
      and which keys a signature can verify under.  That the ladder computes a group law is not proved.
    \<^item> Bytes_Order, Identity, Records: \<open>identity.py\<close>, \<open>records.py\<close>, and the bundle check of \<open>wire.py\<close>
      (byte strings ordered as Python orders them).
    \<^item> Persistence, Persist_Triple, Persist_Braid: \<open>persistence.py\<close>, the ratchet states, their pair, the
      erasure coders and the Braid.  Each reader is an \<open>exact_codec\<close>, and every reachable ratchet state
      is stored and restored.
    \<^item> Raises: which exceptions a function can raise, as a calculus over \<open>bindR\<close> (collection \<open>raises_intro\<close>).
    \<^item> Triple, Triple_Session: \<open>triple.py\<close>.  The loop of \<open>decrypt_with_eviction\<close> ends (a
      \<open>partial_function\<close>, shown to return), and the invariant of a party over the relation \<open>triple_step\<close>.
    \<^item> Braid, Braid_Store, Braid_Safety: \<open>braid.py\<close>: the authenticator, the twelve states and their
      transitions, one function per state of \<open>receive\<close>; what each state holds (\<open>braid_ok\<close>), that every
      operation keeps it, raises nothing of its own, and that every such state is stored and restored.
      What the Braid asks of its KEM are the locales \<open>kem_shapes\<close> and \<open>kem_correct\<close> of Braid.
    \<^item> Kem_Double: \<open>kem_double.py\<close>, the KEM test double, an instance of both locales.
    \<^item> Braid_Epochs, Braid_Agreement: two Braids over a network that may delay, drop, reorder and repeat
      (relation \<open>exchange_step\<close>).  What each epoch has produced so far is written once, by one side
      (record \<open>epochs\<close>), and every field, message and output of either side is a piece of it; so the keys
      agree, and nothing the other side sent is ever refused.
    \<^item> Braid_Progress: the schedule that delivers each message as it is sent completes an epoch.

    \<^item> Persist_Session, Persist_Prekeys: the rest of \<open>persistence.py\<close>.  The session's format is exact, and
      so is the current version of the prekey store's; a store of an older version is read with its
      record migrated.  The rules the two readers apply are \<open>session_semantic\<close> and \<open>prekey_store_semantic\<close>.
    \<^item> Prekeys, Pqxdh, Admission: \<open>prekeys.py\<close>, \<open>pqxdh.py\<close>, \<open>admission.py\<close>: rotations, the handshake's
      agreements and checks, the record of last-resort handshakes, and the steps of either side before
      the KEM.  The steps of the initiator change counters and a byte source the caller keeps, which the
      model passes along (\<open>bindS\<close>, in Effects); the relation \<open>runs\<close> says what such a step returns and leaves alone.
    \<^item> Session_Store: the whole session of \<open>session_e2e.py\<close>'s \<open>session_of\<close> and \<open>receive\<close>.  The sparse
      ratchet's epoch moves exactly when the Braid puts out a key, and the roles of the two stay those of
      establishment (\<open>session_ok\<close>), so the rules \<open>session_semantic\<close> ask for hold of every session reached.
    \<^item> Braid_Quiet: the Braid never raises the two errors that eviction answers to, call by call, so what
      is shown of eviction holds of the triple ratchet fed by the Braid.
    \<^item> Utf8, Inventory: \<open>inventory.py\<close>, with Python's strict UTF-8 decoder.  The statement's codec is exact,
      the verifier's checks refine a table of steps (\<open>acceptance_steps\<close>) of which the first refusal decides,
      and an issuer signs nothing a verifier's own checks of encoding, devices and keys refuse.

  How the model reads.  A Python \<open>int\<close> is \<open>int\<close>, \<open>bytes\<close> are lists of 8-bit words, \<open>Optional\<close> is
  \<open>option\<close>, a dict an association list in insertion order, an exception the left value of a result.
  Functions that mutate return the new state; a \<open>clone\<close> followed by mutation is then just the function,
  and a caller that keeps its state on an exception is one that ignores the left value.  A cursor's state
  is its unread suffix.

  Bounds.  No fuel is used: loops are structural, or recurse on a measure; the one \<open>while True\<close> is a
  \<open>partial_function\<close>.  Counters keep the code's
  explicit limits (\<open>U32_MAX\<close>, \<open>U64_MAX\<close>, \<open>MAX_SKIP\<close>, \<open>MAX_SKIPPED_STORE\<close>); \<open>HKDF\<close> is limited to
  8,160 bytes as in the code.

  Parameters.  The signature check a bundle is given, the Diffie-Hellman step a ratchet is given and the
  agreement's outputs are arguments in the code and in the model.
  So are the agreement of the triple ratchet (record \<open>agreement\<close>; the null and scripted doubles and the
  Braid are its instances), the KEM of the Braid (record \<open>kem_ops\<close>), and the layout of its key pair, which
  the code sets in \<open>KEY_PAIR_VIEW\<close> and leaves \<open>None\<close> (an optional function).
  Not modelled.
  In the reader package: \<open>inventory_vectors.py\<close>, the handlers of the inventory's vectors.
  Outside it: the rest of \<open>session_e2e.py\<close>, the vector runner and generators (file and JSON I/O around calls of the
  reader) and the repository's gate scripts (subprocesses, git and file checks).  Randomness is always
  an argument in the code.
\<close>

section \<open>The ratchets over a channel\<close>

text \<open>
  C1. However the channel delays, drops, reorders or repeats messages, a responder started from the
  shared secret takes from the initiator's chain only keys the initiator sent under that header, and
  takes no message twice; the ratchet step \<open>step\<close> is any function that returns the initiator's
  agreement output on the initiator's key.
\<close>

theorem classical_key_agreement:
  assumes "length sk = 32" and "step our_pub = Inr (dh_out, fresh_pub, dh_send)"
  shows "chan_agrees (chan_run ratchet_send (classical_recv step) evs
            (ratchet_init_initiator sk our_pub peer dh_out) (ratchet_init_responder sk peer))
       \<and> chan_once (chan_run ratchet_send (classical_recv step) evs
            (ratchet_init_initiator sk our_pub peer dh_out) (ratchet_init_responder sk peer))"
  using follows_responder [OF assms(1), where step = step and dh = our_pub] assms(2)
  by (intro classical.agreement [OF sends_on_initiator]) simp

theorem classical_key_agreement_witness:
  "let sk = replicate 32 1; step = (\<lambda>_. Inr ([7], [8], [9])); evs = [Send, Send, Deliver 1, Deliver 0, Deliver 1];
       c = chan_run ratchet_send (classical_recv step) evs
             (ratchet_init_initiator sk [5] [6] [7]) (ratchet_init_responder sk [6])
   in chan_agrees c \<and> chan_once c"
  unfolding Let_def by (rule classical_key_agreement [where fresh_pub = "[8]" and dh_send = "[9]"]) simp_all

text \<open>
  C2. The same for the SPQR sending and receiving chains of the initial epoch: two parties started from
  one secret in opposite directions agree on every key delivered and deliver none twice.
\<close>

theorem sparse_key_agreement:
  "case (spqr_init sk DIRECTION_A2B, spqr_init sk DIRECTION_B2A) of
     (Inr a, Inr b) \<Rightarrow>
       chan_agrees (chan_run (sparse_send 0) (sparse_recv offers 0) evs a b)
       \<and> chan_once (chan_run (sparse_send 0) (sparse_recv offers 0) evs a b)
       \<and> chan_agrees (chan_run (sparse_send 0) (sparse_recv offers 0) evs b a)
       \<and> chan_once (chan_run (sparse_send 0) (sparse_recv offers 0) evs b a)
   | _ \<Rightarrow> False"
proof -
  obtain a b where ab: "spqr_init sk DIRECTION_A2B = Inr a" "spqr_init sk DIRECTION_B2A = Inr b"
    by (fastforce simp: spqr_init_def spqr_assign_def const_defs split: prod.splits)
  obtain c d where cd: "q_sends c 0 a" "q_follows c 0 b" "q_sends d 0 b" "q_follows d 0 a"
    using spqr_init_paired [OF ab] by blast
  show ?thesis
    using sparse.agreement [OF cd(1,2), of offers evs] sparse.agreement [OF cd(3,4), of offers evs]
    by (simp only: ab sum.case prod.case)
qed

text \<open>
  C3. Whatever messages arrive and whatever is evicted, every state a session of the classical ratchet
  reaches from either initial state keeps the invariant: 32-byte keys, counters in their ranges, a
  store of at most 2,000 entries with distinct labels, each younger than 1,000 events.
\<close>

theorem ratchet_reachable_ok:
  assumes "P our_pub" and "P peer" and "length sk = 32"
    and "(ratchet_step P)\<^sup>*\<^sup>* (ratchet_init_initiator sk our_pub peer dh_out) s
      \<or> (ratchet_step P)\<^sup>*\<^sup>* (ratchet_init_responder sk our_pub) s"
  shows "ratchet_ok P s"
  using assms(4) ratchet_steps_ok [OF _ ratchet_init_initiator_ok [OF assms(1,2)]]
    ratchet_steps_ok [OF _ ratchet_init_responder_ok [of P our_pub sk, OF assms(1,3)]] by blast

theorem ratchet_reachable_ok_witness:
  "ratchet_ok (\<lambda>k. length k = 1) (ratchet_evict (ratchet_init_initiator (replicate 32 0) [1] [2] [3]) 4)"
  by (rule ratchet_reachable_ok [where our_pub = "[1]" and peer = "[2]" and sk = "replicate 32 0" and dh_out = "[3]"])
    (auto intro: ratchet_step.on_evict)

text \<open>
  C4. The same for the SPQR chains: every state a session reaches from \<open>spqr_init\<close> keeps its invariant.
\<close>

theorem spqr_reachable_ok:
  "case spqr_init sk direction of Inl _ \<Rightarrow> direction \<notin> {DIRECTION_A2B, DIRECTION_B2A}
   | Inr s0 \<Rightarrow> \<forall>s. spqr_step\<^sup>*\<^sup>* s0 s \<longrightarrow> spqr_ok s"
proof (cases "spqr_init sk direction")
  case (Inl e)
  then show ?thesis by (auto simp: spqr_init_def spqr_assign_def split: prod.splits if_splits)
next
  case (Inr s0)
  then show ?thesis using spqr_steps_ok [OF _ spqr_init_ok [OF Inr]] by simp
qed

theorem spqr_reachable_ok_witness:
  "case spqr_init [1] DIRECTION_A2B of Inl _ \<Rightarrow> False | Inr s0 \<Rightarrow> spqr_ok (spqr_evict s0 3)"
  using spqr_reachable_ok [where sk = "[1]" and direction = DIRECTION_A2B] spqr_step.on_evict [of _ 3]
  by (auto split: sum.splits)

text \<open>
  C5. Receiving on the current chain takes exactly the code's branches, in the code's order: a stored
  key is used up and the store aged; a number already passed is out of order; more than 1,000 skipped,
  too many for the store, or the last number of the chain are refused with their own errors; otherwise
  the skipped keys are stored and the key of that number is returned.
\<close>

theorem ratchet_receive_branches:
  assumes "ratchet_ok P s" "r_dhr s = Some (rh_dh h)" "r_ckr s = Some ck"
  shows "ratchet_receive s h step =
     (case dict_get (r_skipped s) (Some (rh_dh h), rh_n h) of
        Some (mk, at) \<Rightarrow>
          Inr (age_keys (s\<lparr> r_skipped := dict_del (Some (rh_dh h), rh_n h) (r_skipped s) \<rparr>), mk, False)
      | None \<Rightarrow>
          if rh_n h < r_nr s then Inl (RatchetE OutOfOrder)
          else if rh_n h - r_nr s > MAX_SKIP then Inl (RatchetE TooManySkipped)
          else if r_nr s < rh_n h \<and> skip_shortfall s (rh_n h) > 0
          then Inl (RatchetE (SkippedStoreFull (skip_shortfall s (rh_n h))))
          else if rh_n h \<ge> U32_MAX then Inl (RatchetE ChainExhausted)
          else Inr (accepted s ck (rh_n h), message_key ck (nat (rh_n h - r_nr s)), False))"
  by (rule ratchet_receive_current [OF assms])

theorem ratchet_receive_branches_witness:
  "ratchet_receive
     \<lparr> r_dhs_pub = [1], r_dhr = Some [2], r_rk = replicate 32 3, r_cks = Some (replicate 32 4),
       r_ckr = Some (replicate 32 5), r_ns = 0, r_nr = 7, r_pn = 0, r_events = 0,
       r_labels = LABELS_TACENTA, r_skipped = [] \<rparr>
     \<lparr> rh_dh = [2], rh_pn = 0, rh_n = 1008 \<rparr> (\<lambda>_. Inl (PyE ValueError)) = Inl (RatchetE TooManySkipped)"
  by (subst ratchet_receive_branches [where P = "\<lambda>_. True" and ck = "replicate 32 5"])
    (simp_all add: ratchet_ok_def const_defs dict_get_def)

text \<open>
  C6. The two root chains stay in step through an alternation: if the responder's ratchet step derives
  what the sender's new chain was started from, then after it takes a message that turns the ratchet,
  its own new sending chain is again the one the sender will derive.
\<close>

theorem ratchet_stays_in_step:
  assumes "ratchet_ok (\<lambda>_. True) b" "in_step d c a b" "sends_on c dh a"
    "step dh = Inr (d, pub, d')" "rh_dh h = dh" "ratchet_receive b h step = Inr (b', mk, True)"
  shows "\<exists>c'. in_step d' c' b' a \<and> sends_on c' pub b'"
  by (rule receive_in_step [OF assms])

theorem ratchet_stays_in_step_witness:
  "\<exists>b' mk c'. ratchet_receive (ratchet_init_responder (replicate 32 0) [1]) \<lparr> rh_dh = [2], rh_pn = 0, rh_n = 0 \<rparr>
       (\<lambda>_. Inr ([3], [4], [5])) = Inr (b', mk, True)
     \<and> in_step [5] c' b' (ratchet_init_initiator (replicate 32 0) [2] [1] [3]) \<and> sends_on c' [4] b'"
proof -
  let ?b = "ratchet_init_responder (replicate 32 0) [1]" and ?h = "\<lparr> rh_dh = [2], rh_pn = 0, rh_n = 0 \<rparr>"
  let ?a = "ratchet_init_initiator (replicate 32 0) [2] [1] [3]" and ?c = "snd (kdf_rk (replicate 32 0) [3])"
  let ?step = "\<lambda>_. Inr ([3], [4], [5])"
  obtain b' mk where run: "ratchet_receive ?b ?h ?step = Inr (b', mk, True)"
    by (simp add: ratchet_receive_def ratchet_init_responder_def dh_ratchet_def receive_on_chain_def
        skip_keys_def dict_get_def split_beta const_defs)
  have ok: "ratchet_ok (\<lambda>_. True) ?b" by (rule ratchet_init_responder_ok) simp_all
  have sync: "in_step [3] ?c ?a ?b"
    by (simp add: in_step_def ratchet_init_responder_def ratchet_init_initiator_def split_beta)
  from ratchet_stays_in_step [OF ok sync sends_on_initiator, of ?step "[4]" "[5]" ?h, OF _ _ run] run
  show ?thesis by auto
qed

text \<open>
  C7. Eviction removes exactly the \<open>count\<close> oldest stored keys: what is removed is no younger than what
  is kept, and everything else stays.
\<close>

theorem ratchet_evicts_oldest:
  assumes "dict_ok (r_skipped s)"
  shows "\<exists>vs. length vs = min (nat count) (length (r_skipped s)) \<and> distinct vs \<and> set vs \<subseteq> set (r_skipped s)
     \<and> set (r_skipped (ratchet_evict s count)) = set (r_skipped s) - set vs
     \<and> (\<forall>v \<in> set vs. \<forall>e \<in> set (r_skipped (ratchet_evict s count)). snd (snd v) \<le> snd (snd e))"
proof -
  let ?vs = "take (nat count) (sort_key stored_at (r_skipped s))"
  have "distinct ?vs" using assms by (auto simp: dict_ok_def distinct_map)
  moreover have "set ?vs \<subseteq> set (r_skipped s)" using set_take_subset by fastforce
  ultimately show ?thesis
    using ratchet_evict_spec [OF assms, where count = count] by (intro exI [of _ ?vs]) (auto simp: stored_at_def)
qed

theorem ratchet_evicts_oldest_witness:
  "let s = \<lparr> r_dhs_pub = [], r_dhr = None, r_rk = [], r_cks = None, r_ckr = None, r_ns = 0, r_nr = 0,
             r_pn = 0, r_events = 0, r_labels = LABELS_TACENTA,
             r_skipped = [((Some [1], 4), [8], 6), ((Some [1], 5), [9], 3)] \<rparr>
   in \<exists>vs. length vs = 1 \<and> set (r_skipped (ratchet_evict s 1)) = set (r_skipped s) - set vs"
proof -
  let ?s = "\<lparr> r_dhs_pub = [], r_dhr = None, r_rk = [], r_cks = None, r_ckr = None, r_ns = 0, r_nr = 0,
             r_pn = 0, r_events = 0, r_labels = LABELS_TACENTA,
             r_skipped = [((Some [1], 4), [8], 6), ((Some [1], 5), [9], 3)] \<rparr>"
  have "dict_ok (r_skipped ?s)" by (simp add: dict_ok_def)
  from ratchet_evicts_oldest [OF this, of 1] obtain vs
    where "length vs = 1" "set (r_skipped (ratchet_evict ?s 1)) = set (r_skipped ?s) - set vs"
    by auto
  then show ?thesis unfolding Let_def by blast
qed

text \<open>
  C8. The erasure code is optimal: a value cut into k chunks is recovered from any codewords with at
  least k distinct indices, in any order and with repeats, and from fewer nothing is returned.
\<close>

theorem erasure_recovers:
  assumes "int (length v) \<le> ERASURE_MAX_SIZE" "indices_ok is"
  shows "transmit v is =
     Inr (if chunk_count (int (length v)) \<le> int (card (set is)) then Some v else None)"
  by (rule transmit_eq [OF assms])

theorem erasure_recovers_witness:
  "transmit (replicate 40 7) [65535, 65535, 3] = Inr (Some (replicate 40 7))"
  by (subst erasure_recovers) (simp_all add: const_defs indices_ok_def chunk_count_def)

text \<open>
  C9. An encoder hands out the codewords of indices 0, 1, 2, ... up to 65,535, each once, and then
  reports that it is exhausted rather than wrapping around.
\<close>

theorem encoder_issues_each_index_once:
  "case encoder_for_value v of Inl _ \<Rightarrow> False
   | Inr e \<Rightarrow> issue_many n e = Inr (map (\<lambda>i. (i, word_at (enc_chunks e) i)) [0..min (int n - 1) U16_MAX])"
proof -
  obtain e where e: "encoder_for_value v = Inr e" "encoder_ok e" "\<not> enc_exhausted e" "enc_next e = 0"
    using encoder_for_value_ok [of v] by blast
  then show ?thesis by (simp add: issue_many_eq const_defs)
qed

text \<open>
  C10. The table-driven arithmetic of the field is the reference arithmetic: the products of two elements
  agree and are an element; both inverses of a nonzero element agree and multiply with it to one, and zero
  has none.
\<close>

theorem table_product_is_product:
  assumes "in_gf a" "in_gf b"
  shows "gf_mul_fast a b = gf_mul a b \<and> (\<exists>c. gf_mul a b = Inr c \<and> in_gf c)
    \<and> (if a = 0 then gf_inv a = Inl (CryptoE FieldError)
       else (\<exists>i. gf_inv a = Inr i \<and> gf_inv_fast a = Inr i \<and> gf_mul a i = Inr 1 \<and> in_gf i))"
proof -
  obtain x y where x: "a = Rep_gf x" "b = Rep_gf y" using assms by (auto simp: in_gf_iff_Rep)
  have "a = 0 \<longleftrightarrow> x = 0" by (metis x(1) Rep_gf_inject zero_gf.rep_eq)
  then show ?thesis
    by (auto simp: x gf_mul_fast_eq gf_mul_eq gf_inv_eq gf_inv_fast_eq one_gf.rep_eq)
qed

theorem table_product_is_product_witness:
  "(\<exists>c. gf_mul_fast 65535 2 = Inr c \<and> gf_mul 65535 2 = Inr c) \<and> (\<exists>i. gf_inv 65535 = Inr i \<and> gf_mul 65535 i = Inr 1)"
  using table_product_is_product [of 65535 2] by (auto simp: in_gf_def)

section \<open>Wire formats\<close>

text \<open>
  C11. Each wire decoder accepts exactly the encoder's outputs on well-formed values, and returns the value
  encoded: the composite header with its one canonical curve key, the initial message with its two, and
  the prekey bundle, for every length of the KEM key.  So every accepted input has one spelling.
\<close>

theorem wire_formats_exact:
  "(decode_composite b = Inr h \<longleftrightarrow> is_canonical_curve_key (ch_dh h) \<and> encode_composite h = Inr b)
   \<and> (decode_initial b = Inr m \<longleftrightarrow> initial_good m \<and> encode_initial m = Inr b)
   \<and> (decode_bundle b n = Inr x \<longleftrightarrow> bundle_good x \<and> encode_bundle x n = Inr b)"
  by (simp only: composite.dec_iff initial.dec_iff prekey_bundle_codec.dec_iff)

text \<open>
  The input authenticated with a message determines the associated data and the header: no two
  pairs give the same bytes.
\<close>

theorem concat_ad_injective:
  "(\<exists>b. concat_ad ad header = Inr b \<and> concat_ad ad' header' = Inr b) \<longleftrightarrow>
     ad = ad' \<and> header = header' \<and> (\<exists>b. concat_ad ad header = Inr b)"
proof (intro iffI; elim exE conjE)
  fix b assume runs: "concat_ad ad header = Inr b" "concat_ad ad' header' = Inr b"
  then have n: "length ad < 256 ^ 4" "length ad' < 256 ^ 4"
    and eq: "be_digits 4 (int (length ad)) @ ad @ header = be_digits 4 (int (length ad')) @ ad' @ header'"
    by (simp_all add: res_iff)
  have "be_digits 4 (int (length ad)) = be_digits 4 (int (length ad'))" using eq by simp
  then have "length ad = length ad'" using n be_digits_inj [of "int (length ad)" 4 "int (length ad')"] by simp
  then show "ad = ad' \<and> header = header' \<and> (\<exists>b. concat_ad ad header = Inr b)" using eq runs(1) by auto
qed auto

text \<open>
  A varint is read exactly when it is the shortest spelling of a value of 32 bits, and then
  consumes exactly that spelling.
\<close>

theorem varint_minimal:
  "read_varint b = Inr (v, r) \<longleftrightarrow> (\<exists>e. encode_varint v = Inr e \<and> b = e @ r)"
  by (simp add: varint.decp_iff)

text \<open>
  C12. What the parser of a protobuf message, ratchet body or prekey envelope, makes of an encoding.  An
  encoding longer than 16,384 bytes is refused as too long; a shorter one that leaves out a field the profile
  requires is refused as outside the profile; any other parses to exactly the values that were encoded: each
  field of the profile that was given returns with its value, the optional field of the envelope is absent when
  it was not given, and no other name appears.
\<close>

theorem protobuf_roundtrip:
  assumes "mt = RATCHET_BODY \<and> parsed = parse_ratchet_body b \<or> mt = PREKEY_ENVELOPE \<and> parsed = parse_prekey_envelope b"
    and "pb_encode vals mt = Inr b"
  shows "if int (length b) > PB_MAX_MESSAGE_LEN then parsed = Inl (ProtobufRefused TooLong)
    else if \<exists>(field, name, wire, required) \<in> set mt. required \<and> \<not> dict_in name vals
    then parsed = Inl (ProtobufRefused NotInProfile)
    else \<exists>out. parsed = Inr out
      \<and> (\<forall>name. dict_get out name = (if name \<in> (fst \<circ> snd) ` set mt then dict_get vals name else None))"
proof -
  have mt: "mt_ok mt" "parsed = pb_parse b mt"
    using assms(1) mt_ok_ratchet_body mt_ok_prekey_envelope by (auto simp: parse_ratchet_body_def parse_prekey_envelope_def)
  show ?thesis unfolding mt(2) pb_parse_encoded [OF mt(1) assms(2)] using filled_get [OF mt(1)] by simp
qed

theorem protobuf_roundtrip_witness:
  "let vals = [(''kem'', VBytes [8]), (''message'', VBytes [1, 2]), (''baseKey'', VBytes [3]), (''identityKey'', VBytes []),
               (''registrationId'', VInt 300), (''signedPrekeyId'', VInt 0), (''pqPrekeyId'', VInt 1)]
   in \<exists>b out. pb_encode vals PREKEY_ENVELOPE = Inr b \<and> parse_prekey_envelope b = Inr out
        \<and> dict_get out ''registrationId'' = Some (VInt 300) \<and> dict_get out ''prekeyId'' = None"
proof -
  let ?vals = "[(''kem'', VBytes [8]), (''message'', VBytes [1, 2]), (''baseKey'', VBytes [3]), (''identityKey'', VBytes []),
               (''registrationId'', VInt 300), (''signedPrekeyId'', VInt 0), (''pqPrekeyId'', VInt 1)]"
  obtain b where b: "pb_encode ?vals PREKEY_ENVELOPE = Inr b" "int (length b) \<le> PB_MAX_MESSAGE_LEN"
    by (simp add: pb_encode_def PREKEY_ENVELOPE_def encode_entry_def encode_field_def encode_varint_def
        encode_varint_loop.simps dict_get_def const_defs WIRE_LEN_def WIRE_VARINT_def Let_def)
  have given: "\<not> (\<exists>(field, name, wire, required) \<in> set PREKEY_ENVELOPE. required \<and> \<not> dict_in name ?vals)"
    by (simp add: PREKEY_ENVELOPE_def dict_in_def)
  obtain out where out: "parse_prekey_envelope b = Inr out"
    "\<forall>name. dict_get out name = (if name \<in> (fst \<circ> snd) ` set PREKEY_ENVELOPE then dict_get ?vals name else None)"
    using protobuf_roundtrip [of PREKEY_ENVELOPE "parse_prekey_envelope b" b ?vals] b given by auto
  then show ?thesis using b(1) by (simp add: PREKEY_ENVELOPE_def dict_get_def)
qed
text \<open>
  HKDF is a stream: a shorter output is a prefix of a longer one, and every length of up to 8,160
  bytes is produced and no longer one.
\<close>

theorem hkdf_stream:
  "(case hkdf_sha256 salt ikm info (int n) of
      Inl e \<Rightarrow> n > 8160 | Inr okm \<Rightarrow> n \<le> 8160 \<and> length okm = n)
   \<and> hkdf salt ikm info (min m n) = take m (hkdf salt ikm info n)"
proof
  show "case hkdf_sha256 salt ikm info (int n) of
      Inl e \<Rightarrow> n > 8160 | Inr okm \<Rightarrow> n \<le> 8160 \<and> length okm = n"
    using length_hkdf [of salt ikm info n] by (simp add: hkdf_sha256_def hkdf_expand_def hkdf_def)
  have "hkdf salt ikm info (min m n) = take (min m n) (hkdf salt ikm info n)" by (rule hkdf_prefix) simp
  then show "hkdf salt ikm info (min m n) = take m (hkdf salt ikm info n)" by (simp add: min_def)
qed

section \<open>Authenticated encryption and curve keys\<close>

text \<open>
  C13. Opening succeeds exactly on what sealing produces for that key, associated data and plaintext,
  and every failure, whether of length, tag or padding, is the one authentication failure.
\<close>

theorem open_exactly_sealed:
  "(aead_open k ad data = Inr pt \<longleftrightarrow> seal k ad pt = Inr data)
   \<and> (case aead_open k ad data of Inl e \<Rightarrow> e = CryptoE AuthenticationFailure
      | Inr out \<Rightarrow> seal k ad out = Inr data)"
  using open_seal_iff [of k ad data] open_error [of k ad data] by (auto split: sum.splits)

text \<open>
  C14. X25519 takes two 32-byte strings and nothing else, and returns the canonical encoding of a
  coordinate below the field's prime; the all-zero coordinate gives the all-zero output, which the
  contributory agreement refuses.
\<close>

theorem x25519_range:
  "(case x25519 k u of Inl e \<Rightarrow> \<not> (length k = 32 \<and> length u = 32) \<and> e = PyE ValueError
    | Inr out \<Rightarrow> length k = 32 \<and> length u = 32 \<and> length out = 32 \<and> le_int out < curve_p)
   \<and> x25519_contributory k (zeros 32)
       = (if length k = 32 then Inl (CryptoE NonContributory) else Inl (PyE ValueError))"
proof
  show "case x25519 k u of Inl e \<Rightarrow> \<not> (length k = 32 \<and> length u = 32) \<and> e = PyE ValueError
    | Inr out \<Rightarrow> length k = 32 \<and> length u = 32 \<and> length out = 32 \<and> le_int out < curve_p"
    using x25519_cases [of k u] by (auto split: sum.splits)
  show "x25519_contributory k (zeros 32)
      = (if length k = 32 then Inl (CryptoE NonContributory) else Inl (PyE ValueError))"
    using x25519_cases [of k "zeros 32"] x25519_zero_key [of k]
    by (auto simp: x25519_contributory_def split: sum.splits)
qed

text \<open>
  C15. A signature verifies only under an identity key, so only under a canonical curve key: there is
  no second spelling of a key under which a signature is accepted.
\<close>

theorem verified_under_identity_key:
  "case xeddsa_verify u msg sig of None \<Rightarrow> True | Some _ \<Rightarrow> is_identity_key u \<and> is_canonical_curve_key u"
  using xeddsa_verify_identity [of u msg sig] identity_key_is_canonical [of u] by (auto split: option.splits)

section \<open>Identities and records\<close>

text \<open>
  C16. Two identity keys have one verification number, whichever party computes it: sixty digits, the value
  modulo ten to the sixtieth of the hash of the two keys in order, shown as twelve groups of five.  A pair
  that are not both identity keys has no digest, so no number: the refusal names a key of the pair that is not
  one, as undecodable when it is not canonical and as an invalid identity key when it is.
\<close>

theorem verification_number_of_pair:
  "case identity_pair_digest k1 k2 of
     Inl err \<Rightarrow> \<exists>k \<in> {k1, k2}. \<not> is_identity_key k
       \<and> err = WireE (if is_canonical_curve_key k then InvalidIdentityKey else DecodeError)
   | Inr d \<Rightarrow> is_identity_key k1 \<and> is_identity_key k2 \<and> identity_pair_digest k2 k1 = Inr d
       \<and> d = sha256 (PAIR_DIGEST_LABEL @ (if bytes_le k1 k2 then k1 @ k2 else k2 @ k1))
       \<and> (\<exists>s. verification_number d = Inr s \<and> length s = 60 \<and> set s \<subseteq> set ''0123456789''
          \<and> read_decimal s = be_int d mod 10 ^ 60
          \<and> (\<exists>gs. verification_number_groups s = Inr gs \<and> length gs = 12 \<and> concat gs = s
               \<and> list_all (\<lambda>g. length g = 5) gs))"
proof (cases "identity_pair_digest k1 k2")
  case (Inl e)
  then show ?thesis using pair_digest_refused [of k1 k2 e] by simp
next
  case (Inr d)
  have "length d = 32" using Inr by (auto simp: pair_digest_iff)
  moreover have "identity_pair_digest k2 k1 = Inr d" using Inr pair_digest_commutes [of k2 k1 d] by simp
  moreover have "is_identity_key k1" "is_identity_key k2"
      "d = sha256 (PAIR_DIGEST_LABEL @ (if bytes_le k1 k2 then k1 @ k2 else k2 @ k1))"
    using Inr by (simp_all add: pair_digest_iff)
  ultimately show ?thesis using verification_number_spec [of d] by (simp only: Inr sum.case simp_thms)
qed

text \<open>
  C17. A peer's key is attributed to a contact exactly when it is an identity key and that contact's
  record alone holds it as current.
\<close>

theorem attributed_to_the_only_holder:
  "attributed_contact k rs = Inr (Some n) \<longleftrightarrow>
     is_identity_key k \<and> (\<forall>m. m < length rs \<and> same_in k (rs ! m) \<longleftrightarrow> m = n)"
  by (rule attributed_contact_iff)

text \<open>
  C18. An initiator accepts a bundle exactly when the stated expectation is well formed, its keys are
  canonical and its identity key in the prime-order subgroup, the one-time key and its id are present together,
  the identity key is the expected one (current in the known record, or in no record on first contact), the KEM
  key has the width asked for when one is, and both signatures verify; the signature check is an argument.
\<close>

theorem bundle_accepted_iff:
  "initiator_check_bundle b ex verify n = Inr () \<longleftrightarrow>
     (case ex of
        Known r \<Rightarrow> holds_record r \<and> is_wellformed r \<and> same_in (pb_identity_key b) r
      | FirstContact rs \<Rightarrow> (\<forall>r \<in> set rs. is_wellformed r \<and> \<not> same_in (pb_identity_key b) r
            \<and> \<not> retired_in (pb_identity_key b) r))
     \<and> is_identity_key (pb_identity_key b) \<and> is_canonical_curve_key (pb_signed_prekey b)
     \<and> opt_all is_canonical_curve_key (pb_one_time_prekey b)
     \<and> (pb_one_time_prekey b = None \<longleftrightarrow> pb_one_time_prekey_id b = 0)
     \<and> verify (pb_identity_key b) (0x05 # pb_signed_prekey b) (pb_signed_prekey_signature b) \<noteq> None
     \<and> (case n of None \<Rightarrow> True | Some w \<Rightarrow> int (length (pb_kem_prekey b)) = w)
     \<and> verify (pb_identity_key b) (0x08 # pb_kem_prekey b) (pb_kem_prekey_signature b) \<noteq> None"
  by (cases ex) (auto simp: initiator_check_bundle_iff expectation_wellformed_iff check_bundle_identity_iff)

theorem bundle_accepted_iff_witness:
  "initiator_check_bundle
     \<lparr> pb_identity_key = [], pb_signed_prekey = [], pb_signed_prekey_signature = [], pb_kem_prekey = [],
       pb_kem_prekey_signature = [], pb_one_time_prekey = None, pb_signed_prekey_id = 1,
       pb_one_time_prekey_id = 0, pb_kem_prekey_id = 1 \<rparr> (FirstContact []) (\<lambda>_ _ _. Some []) None \<noteq> Inr ()"
  by (simp add: bundle_accepted_iff is_identity_key_def edwards_from_u_def)

section \<open>Stored states\<close>

text \<open>
  C19. The reader of each ratchet's format accepts exactly what its writer produces from the states the
  format's rules admit, and returns that state: one spelling per state.
\<close>

theorem stored_ratchets_exact:
  "(ratchet_from_bytes b = Inr s \<longleftrightarrow> ratchet_storable s \<and> ratchet_to_bytes s = Inr b)
   \<and> (spqr_from_bytes b = Inr q \<longleftrightarrow> spqr_storable q \<and> spqr_to_bytes q = Inr b)"
  by (simp only: ratchet_codec.dec_iff spqr_codec.dec_iff)

text \<open>
  Every state a session's classical ratchet reaches, with canonical keys, can be written and is
  read back unchanged.
\<close>

theorem reachable_ratchet_restored:
  assumes "is_canonical_curve_key our_pub" "is_canonical_curve_key peer" "length sk = 32"
    and "(ratchet_step is_canonical_curve_key)\<^sup>*\<^sup>* (ratchet_init_initiator sk our_pub peer dh_out) s
      \<or> (ratchet_step is_canonical_curve_key)\<^sup>*\<^sup>* (ratchet_init_responder sk our_pub) s"
  shows "bindR (ratchet_to_bytes s) ratchet_from_bytes = Inr s"
proof -
  have ok: "ratchet_ok is_canonical_curve_key s"
    using assms(4) ratchet_steps_ok [OF _ ratchet_init_initiator_ok [OF assms(1,2)]]
      ratchet_steps_ok [OF _ ratchet_init_responder_ok [of is_canonical_curve_key our_pub sk, OF assms(1,3)]]
    by blast
  then show ?thesis
    using ratchet_ok_encodes [OF ok] ratchet_codec.dec_enc [OF ratchet_ok_storable] by auto
qed

theorem reachable_ratchet_restored_witness:
  "let s = ratchet_evict (ratchet_init_responder (zeros 32) (9 # zeros 31)) 2
   in bindR (ratchet_to_bytes s) ratchet_from_bytes = Inr s"
proof -
  have key: "is_canonical_curve_key (9 # zeros 31)"
    by code_simp
  show ?thesis
    unfolding Let_def
    by (rule reachable_ratchet_restored [OF key key]) (auto intro: ratchet_step.on_evict)
qed

text \<open>The same for the sparse ratchet: whatever state a session reaches from its start is restored.\<close>

theorem spqr_restored:
  "case spqr_init sk direction of Inl _ \<Rightarrow> direction \<notin> {DIRECTION_A2B, DIRECTION_B2A}
   | Inr s0 \<Rightarrow> \<forall>s. spqr_step\<^sup>*\<^sup>* s0 s \<longrightarrow> bindR (spqr_to_bytes s) spqr_from_bytes = Inr s"
proof (cases "spqr_init sk direction")
  case (Inl e)
  then show ?thesis by (auto simp: spqr_init_def spqr_assign_def split: prod.splits if_splits)
next
  case (Inr s0)
  have "bindR (spqr_to_bytes s) spqr_from_bytes = Inr s" if "spqr_step\<^sup>*\<^sup>* s0 s" for s
  proof -
    have ok: "spqr_ok s" using spqr_steps_ok [OF that spqr_init_ok [OF Inr]] .
    show ?thesis using spqr_ok_encodes [OF ok] spqr_codec.dec_enc [OF spqr_ok_storable [OF ok]] by auto
  qed
  then show ?thesis by (simp add: Inr)
qed

text \<open>
  C20. The triple ratchet's format is exact too: both halves by their own readers, and the direction of
  the sparse half is the one the classical half's role shows; a wrong version inside a half is never
  passed on, so a wrong version is reported exactly for the first byte.
\<close>

theorem stored_triple_exact:
  "(triple_from_bytes b = Inr t \<longleftrightarrow>
      (ratchet_storable (t_classical t) \<and> spqr_storable (t_sparse t) \<and> triple_invariant t)
      \<and> triple_to_bytes t = Inr b)
   \<and> (triple_from_bytes b = Inl (PersistE WrongVersion) \<longleftrightarrow> (\<exists>v r. b = v # r \<and> v \<noteq> STATE_VERSION))"
  by (simp add: triple_codec.dec_iff triple_storable_def triple_first_byte)

section \<open>The triple ratchet\<close>

text \<open>
  C21. Decryption with eviction ends for every message and every state a session reaches, and never ends
  by reporting a full store: what it returns is what plain decryption returns on a copy of the party in
  which only stored keys were evicted.  Of the agreement it asks that it raises neither of the two full-store
  errors itself (\<open>quiet_agreement\<close>), which the null and the scripted agreement and the Braid's do not.
\<close>

theorem eviction_always_ends:
  assumes "triple_init_initiator sk ad priv peer st = Inr p0 \<and> is_canonical_curve_key peer
      \<or> triple_init_responder sk ad priv st = Inr p0"
    and "(triple_step ag)\<^sup>*\<^sup>* p0 p" and "quiet_agreement ag"
  shows "\<exists>r w. decrypt_with_eviction ag p msg fresh = Some r \<and> evicted_from p w \<and> triple_decrypt ag w msg fresh = r
    \<and> (case r of Inl err \<Rightarrow> \<not> store_full err | Inr (p', pt) \<Rightarrow> party_ok p')"
proof -
  have ok: "party_ok p" by (rule reached_party_ok [OF assms(1,2)])
  obtain r w where r: "decrypt_with_eviction ag p msg fresh = Some r" "evicted_from p w"
      "triple_decrypt ag w msg fresh = r" "case r of Inl err \<Rightarrow> \<not> store_full err | Inr _ \<Rightarrow> True"
    using eviction_returns [OF ok assms(3), of msg fresh] by blast
  have "party_ok p'" if "r = Inr (p', pt)" for p' pt
    using triple_step_ok [OF triple_step.on_decrypt_evicting ok] assms(3) r(1) that by blast
  then show ?thesis using r by (intro exI [of _ r] exI [of _ w]) (auto split: sum.splits)
qed

theorem eviction_always_ends_witness:
  "\<exists>st p r. braid_init_responder (zeros 32) = Inr st \<and> triple_init_responder (zeros 32) [] (zeros 32) st = Inr p
     \<and> decrypt_with_eviction (braid_agreement (toy_kem [] {})) p [] (zeros 32) = Some r"
proof -
  obtain st where st: "braid_init_responder (zeros 32) = Inr st" using braid_init_ok(2) by blast
  obtain p where p: "triple_init_responder (zeros 32) [] (zeros 32) st = Inr p"
    by (rule triple_responder_starts [of "zeros 32" "zeros 32" "[]" st]) simp_all
  show ?thesis
    using st p eviction_always_ends [OF disjI2 [OF p] rtranclp.rtrancl_refl braid_agreement_quiet [OF toy_calm [of "[]" "{}"]]]
    by blast
qed

text \<open>
  C22. Whatever messages a party encrypts, decrypts or decrypts with eviction, the two ratchets it
  keeps are written in the triple ratchet's format and read back unchanged.
\<close>

theorem reachable_party_restored:
  assumes "triple_init_initiator sk ad priv peer st = Inr p0 \<and> is_canonical_curve_key peer
      \<or> triple_init_responder sk ad priv st = Inr p0"
    and "(triple_step ag)\<^sup>*\<^sup>* p0 p"
  shows "bindR (triple_to_bytes \<lparr> t_classical = p_classical p, t_sparse = p_sparse p \<rparr>) triple_from_bytes
    = Inr \<lparr> t_classical = p_classical p, t_sparse = p_sparse p \<rparr>"
  by (rule party_restored [OF reached_party_ok [OF assms]])

theorem reachable_party_restored_witness:
  "\<exists>p. triple_init_responder (zeros 32) [] (zeros 32) () = Inr p
     \<and> bindR (triple_to_bytes \<lparr> t_classical = p_classical p, t_sparse = p_sparse p \<rparr>) triple_from_bytes
       = Inr \<lparr> t_classical = p_classical p, t_sparse = p_sparse p \<rparr>"
proof -
  obtain p where p: "triple_init_responder (zeros 32) [] (zeros 32) () = Inr p"
    by (rule triple_responder_starts [of "zeros 32" "zeros 32" "[]" "()"]) simp_all
  have "(triple_step null_agreement)\<^sup>*\<^sup>* p p" by simp
  then show ?thesis using p reachable_party_restored [OF disjI2 [OF p]] by blast
qed

section \<open>The Braid\<close>

text \<open>
  C23. The KEM double keeps the law of a KEM: what it generates passes the Braid's validation, and
  decapsulating the two halves of an encapsulation to a generated key returns the encapsulated key.
\<close>

theorem double_is_a_kem:
  assumes "toy_generate seed fail_on k = (Inr (kp, header, ek), k')"
    and "toy_encaps1 seed fail_on header j = (Inr (st, ct1, key), j')"
    and "toy_encaps2 fail_on st ek = Inr ct2" and "Call_decaps \<notin> fail_on"
  shows "validate_ek_vector header ek = Inr True \<and> toy_ek_vector kp = ek \<and> toy_decaps fail_on kp ct1 ct2 = Inr key"
  using toy_generate_valid [OF assms(1)] toy_decaps_encaps [OF assms]
    toy.generate_shape [where seed = seed and fail_on = fail_on] assms(1)
  by (simp add: toy_kem_def)

theorem double_is_a_kem_witness:
  "\<exists>kp header ek k' st ct1 key j' ct2. toy_generate [1] {} 0 = (Inr (kp, header, ek), k')
     \<and> toy_encaps1 [1] {} header k' = (Inr (st, ct1, key), j') \<and> toy_encaps2 {} st ek = Inr ct2
     \<and> toy_decaps {} kp ct1 ct2 = Inr key"
proof -
  obtain kp header ek where g: "toy_generate [1] {} 0 = (Inr (kp, header, ek), 3)"
    using toy_generate_draws [of "{}" 0 "[1]"] by auto
  obtain st ct1 key where e: "toy_encaps1 [1] {} header 3 = (Inr (st, ct1, key), 4)"
    using toy_encaps1_draws [of "{}" 3 "[1]" header] by auto
  obtain ct2 where c: "toy_encaps2 {} st ek = Inr ct2" by (simp add: toy_encaps2_def Let_def)
  show ?thesis using g e c double_is_a_kem [OF g e c] by blast
qed

text \<open>
  C24. No operation of the Braid breaks it: from either start, whatever the KEM double's failures and
  whatever well-formed messages arrive, every state reached keeps the invariant, every receive of a
  header the codec accepts returns, and a send returns or raises only the draw counter's overflow.
\<close>

theorem braid_never_breaks:
  assumes "braid_init_initiator sk = Inr s0 \<or> braid_init_responder sk = Inr s0"
    and "(braid_step (toy_kem seed fail_on))\<^sup>*\<^sup>* s0 s"
  shows "braid_ok s
    \<and> (case decode_composite b of Inl _ \<Rightarrow> True
       | Inr h \<Rightarrow> \<exists>r. braid_receive (toy_kem seed fail_on) s (message_from_header h) = Inr r)
    \<and> (case fst (braid_send (toy_kem seed fail_on) s k) of Inl err \<Rightarrow> err = PyE OverflowError
       | Inr r \<Rightarrow> braid_ok (bsr_state r))"
proof -
  have ok: "braid_ok s" using assms toy.reachable_ok braid_init_ok [of sk] by fastforce
  then show ?thesis
    using toy.receive_ok [OF ok] decoded_message_ok [of b] toy_send_errors [OF ok, where seed = seed and fail_on = fail_on and k = k]
    by (fastforce split: sum.splits)
qed

theorem braid_never_breaks_witness:
  "\<exists>s. braid_init_responder [1] = Inr s \<and> braid_ok s"
  using braid_init_ok(2) [of "[1]"] braid_never_breaks [OF disjI2 rtranclp.rtrancl_refl, of "[1]"] by blast

text \<open>
  C25. Every state a Braid reaches is exported and imported unchanged, by a reader that does not know the
  key pair's layout.
\<close>

theorem reachable_braid_restored:
  assumes "braid_init_initiator sk = Inr s0 \<or> braid_init_responder sk = Inr s0"
    and "(braid_step (toy_kem seed fail_on))\<^sup>*\<^sup>* s0 s"
  shows "bindR (braid_export s) (braid_import None) = Inr s"
proof -
  have "braid_ok s" using assms toy.reachable_ok braid_init_ok [of sk] by fastforce
  then show ?thesis by (rule braid_ok_restored)
qed

theorem reachable_braid_restored_witness:
  "\<exists>s. braid_init_responder [1] = Inr s \<and> bindR (braid_export s) (braid_import None) = Inr s"
  using braid_init_ok(2) [of "[1]"] reachable_braid_restored [OF disjI2 rtranclp.rtrancl_refl, of "[1]"] by blast

text \<open>
  C26. The Braid's format is exact for either reader (with or without the key pair's layout), and so are
  the sub-formats of the erasure encoders and decoders it holds.
\<close>

theorem stored_braid_exact:
  "(braid_from_bytes view b = Inr s \<longleftrightarrow> braid_storable view s \<and> braid_to_bytes s = Inr b)
   \<and> (encoder_from_bytes b = Inr e \<longleftrightarrow> encoder_storable e \<and> encoder_to_bytes e = Inr b)
   \<and> (decoder_from_bytes b = Inr d \<longleftrightarrow> decoder_storable d \<and> decoder_to_bytes d = Inr b)"
  by (simp add: braid_codec.dec_iff encoder_codec.dec_iff decoder_codec.dec_iff)

section \<open>The session and the prekey store\<close>

text \<open>
  C27. The session's format is exact: what is accepted is what the writer produces from the sessions the
  rules admit.  The reader's comparison of its input with the session written again never refuses
  anything: leaving it out gives the same function.
\<close>

theorem stored_session_exact:
  "(session_from_bytes view b = Inr s \<longleftrightarrow> session_storable view s \<and> session_to_bytes s = Inr b)
   \<and> session_from_bytes view b =
       bindR (read_session view b) (\<lambda>s.
       bindR (session_semantic view s) (\<lambda>ok. if ok then Inr s else Inl (PersistE Inconsistent)))"
  using session_codec.dec_iff [of view b s] session_from_bytes_eq [of view b] by simp

text \<open>
  C28. The current version of the prekey store's format is exact, and a store of any version that is
  accepted, its record of older handshakes migrated, is written in the current version and read back the
  same.
\<close>

theorem stored_prekeys_exact:
  "(prekey_store_from_bytes b = Inr p \<and> b ! 0 = PREKEY_STORE_VERSION \<longleftrightarrow> store_storable p \<and> prekey_store_to_bytes p = Inr b)
   \<and> (case prekey_store_from_bytes b of Inl _ \<Rightarrow> True
      | Inr q \<Rightarrow> bindR (prekey_store_to_bytes q) prekey_store_from_bytes = Inr q)"
proof
  have v: "b ! 0 = PREKEY_STORE_VERSION \<longleftrightarrow> hd b = 5" if "b \<noteq> []" using that by (simp add: hd_conv_nth)
  have ne: "b \<noteq> []" if "prekey_store_from_bytes b = Inr p"
  proof
    assume "b = []"
    with that show False
      by (auto simp: prekey_store_from_bytes_def read_prekey_store_def pr_version_def bindR_Inr_iff split: list.splits)
  qed
  show "prekey_store_from_bytes b = Inr p \<and> b ! 0 = PREKEY_STORE_VERSION \<longleftrightarrow>
      store_storable p \<and> prekey_store_to_bytes p = Inr b"
    using v ne accepted_store_rewritten [of b p] storable_store_read [of p b] stored_head [of p b] by blast
  show "case prekey_store_from_bytes b of Inl _ \<Rightarrow> True
      | Inr q \<Rightarrow> bindR (prekey_store_to_bytes q) prekey_store_from_bytes = Inr q"
  proof (cases "prekey_store_from_bytes b")
    case (Inr q)
    then obtain b' where b': "prekey_store_to_bytes q = Inr b'" using accepted_store_rewritten(2) by blast
    with storable_store_read [OF accepted_store_rewritten(1) [OF Inr] b'] Inr show ?thesis by simp
  qed simp
qed

section \<open>Establishing a session\<close>

text \<open>
  C29. What a rotation does to a store that satisfies the rules.  Rotating the signed prekey always leaves
  one that does.  Rotating the last-resort KEM prekey does exactly when the key it wipes carries no
  marker of an older record, or when the identifiers are used up and nothing is rotated.
\<close>

theorem rotations_keep_the_rules:
  "(prekey_store_semantic p \<and> 0 < pk_next_id p
      \<and> (case rotate_signed_prekey p secret new z of Inl _ \<Rightarrow> False | Inr q \<Rightarrow> prekey_store_semantic q)
    \<longleftrightarrow> prekey_store_semantic p \<and> 0 < pk_next_id p \<and> (\<exists>q. rotate_signed_prekey p secret new z = Inr q))
   \<and> (prekey_store_semantic p \<and> 0 < pk_next_id p
      \<and> (case rotate_kem p secret pair z of Inl _ \<Rightarrow> False | Inr q \<Rightarrow> prekey_store_semantic q)
    \<longleftrightarrow> prekey_store_semantic p \<and> 0 < pk_next_id p \<and> (\<exists>q. rotate_kem p secret pair z = Inr q)
      \<and> (pk_next_id p \<ge> U32_MAX \<or> set (previous_id (pk_previous_kem p)) \<inter> set (pk_legacy_blocked p) = {}))"
proof
  show "prekey_store_semantic p \<and> 0 < pk_next_id p
      \<and> (case rotate_signed_prekey p secret new z of Inl _ \<Rightarrow> False | Inr q \<Rightarrow> prekey_store_semantic q)
    \<longleftrightarrow> prekey_store_semantic p \<and> 0 < pk_next_id p \<and> (\<exists>q. rotate_signed_prekey p secret new z = Inr q)"
    using signed_rotation_semantic [of p secret new z] by (auto split: sum.splits)
  show "prekey_store_semantic p \<and> 0 < pk_next_id p
      \<and> (case rotate_kem p secret pair z of Inl _ \<Rightarrow> False | Inr q \<Rightarrow> prekey_store_semantic q)
    \<longleftrightarrow> prekey_store_semantic p \<and> 0 < pk_next_id p \<and> (\<exists>q. rotate_kem p secret pair z = Inr q)
      \<and> (pk_next_id p \<ge> U32_MAX \<or> set (previous_id (pk_previous_kem p)) \<inter> set (pk_legacy_blocked p) = {})"
    using rotate_kem_semantic [of p secret pair z] by (cases "rotate_kem p secret pair z") auto
qed

text \<open>
  C30. A last-resort handshake under a key without a legacy marker is accepted once.  After it the store
  satisfies its rules exactly when it did before and has the markers it had, and any message whose two keys
  decode, that names a last-resort key without a marker, the current or the retired one, and that leads to the
  same shared secret is refused as a replay, whatever decrypting it would return.  What a marker ought to do is
  not part of the claim: see \<open>markers_not_consulted\<close> below.
\<close>

theorem last_resort_once:
  assumes "receive_last_resort p m (Some sk) authenticate = Inr (q, x)"
    and "on_last_resort_path p (im_kem_prekey_id m)" "on_last_resort_path p (im_kem_prekey_id m')"
    and "handshake_keys m' = Inr keys"
    and "im_kem_prekey_id m \<notin> set (pk_legacy_blocked p)" "im_kem_prekey_id m' \<notin> set (pk_legacy_blocked p)"
  shows "(prekey_store_semantic q \<longleftrightarrow> prekey_store_semantic p) \<and> pk_legacy_blocked q = pk_legacy_blocked p
    \<and> receive_last_resort q m' (Some sk) authenticate' = Inl (SessionE ReplayedLastResort)"
proof -
  obtain fp where fp: "check_last_resort p m (Some sk) = Inr fp"
    and q: "q = (case fp of None \<Rightarrow> p | Some f \<Rightarrow> p\<lparr> pk_seen := pk_seen p @ [(im_kem_prekey_id m, f)] \<rparr>)"
    using assms(1) by (auto simp: receive_last_resort_iff)
  from fp assms(2) obtain f where f: "fp = Some f"
    by (auto simp: check_last_resort_def bindR_Inr_iff split: if_splits)
  have "check_last_resort q m' (Some sk) = Inl (SessionE ReplayedLastResort)"
    using recorded_replayed [OF fp [unfolded f] assms(4)] assms(3) by (simp add: q f on_path_live)
  then show ?thesis
    using recorded_semantic [OF fp [unfolded f]] by (simp add: q f receive_last_resort_def)
qed

theorem last_resort_once_witness:
  "let m = \<lparr> im_identity = 5 # zeros 32, im_ephemeral = 5 # zeros 32, im_kem_ciphertext = [], im_signed_prekey_id = 1,
             im_one_time_prekey_id = 0, im_kem_prekey_id = 2, im_ratchet_message = [] \<rparr>;
       p = \<lparr> pk_identity_public = zeros 32, pk_signed_prekey_secret = zeros 32, pk_signed_prekey_id = 1,
             pk_signed_prekey_sig = zeros 64, pk_one_time = [], pk_kem_pair = [], pk_kem_id = 2, pk_kem_sig = zeros 64,
             pk_kem_one_time = [], pk_next_id = 3, pk_seen = [], pk_legacy_blocked = [], pk_previous_signed = None,
             pk_previous_kem = None \<rparr>
   in case receive_last_resort p m (Some (zeros 32)) (\<lambda>_. Inr ()) of Inl _ \<Rightarrow> False
      | Inr (q, _) \<Rightarrow> receive_last_resort q m (Some (zeros 32)) (\<lambda>_. Inr ()) = Inl (SessionE ReplayedLastResort)"
proof -
  let ?m = "\<lparr> im_identity = 5 # zeros 32, im_ephemeral = 5 # zeros 32, im_kem_ciphertext = [], im_signed_prekey_id = 1,
      im_one_time_prekey_id = 0, im_kem_prekey_id = 2, im_ratchet_message = [] \<rparr>"
  let ?p = "\<lparr> pk_identity_public = zeros 32, pk_signed_prekey_secret = zeros 32, pk_signed_prekey_id = 1,
      pk_signed_prekey_sig = zeros 64, pk_one_time = [], pk_kem_pair = [], pk_kem_id = 2, pk_kem_sig = zeros 64,
      pk_kem_one_time = [], pk_next_id = 3, pk_seen = [], pk_legacy_blocked = [], pk_previous_signed = None,
      pk_previous_kem = None \<rparr>"
  have key: "is_canonical_curve_key (zeros 32)" by code_simp
  then have keys: "handshake_keys ?m = Inr (zeros 32, zeros 32)" by (simp add: handshake_keys_def res_iff)
  obtain q where q: "receive_last_resort ?p ?m (Some (zeros 32)) (\<lambda>_. Inr ()) = Inr (q, ())"
    using keys by (simp add: receive_last_resort_def check_last_resort_def on_last_resort_path_def
        last_resort_fingerprint_def entries_of_def const_defs)
  show ?thesis
    using last_resort_once [OF q _ _ keys, of "\<lambda>_. Inr ()"] q
    unfolding Let_def by (simp only: sum.case prod.case) (simp add: on_last_resort_path_def)
qed

text \<open>
  C31. The initiator's checks come before the work they protect: when one refuses, the refusal is the
  result, nothing was drawn and no agreement was computed.  When all pass, two draws of 32 bytes, the
  first two blocks of the byte source, give the ephemeral key and the encapsulation's randomness, and the
  four agreements are those of the handshake.
\<close>

theorem refused_before_the_work:
  assumes "0 \<le> rg_n g" "rg_n g + 1 < 2 ^ 64"
  shows "let block = (\<lambda>i. sha256 (rg_seed g @ be_digits 8 (rg_n g + i)));
             (r, c', g') = initiator_prefix given ika ex (c, g)
         in case initiator_checks given ex of
              Inl err \<Rightarrow> r = Inl err \<and> g' = g \<and> (\<exists>n. c' = c\<lparr> ct_signatures_verified := n \<rparr>)
            | Inr b \<Rightarrow>
                r = bindR (initiator_agreements ika (block 0) (pb_identity_key b) (pb_signed_prekey b) (pb_one_time_prekey b))
                      (\<lambda>dh. Inr \<lparr> ip_identity_key = pb_identity_key b, ip_dh = dh, ip_ephemeral_secret = block 0,
                                  ip_encapsulation_m = block 1 \<rparr>)
                \<and> rg_draws g' = rg_draws g @ [32, 32]"
proof -
  have "rng_draw (g\<lparr> rg_n := rg_n g + 1, rg_draws := rg_draws g @ [32] \<rparr>) 32
      = (Inr (sha256 (rg_seed g @ be_digits 8 (rg_n g + 1))), g\<lparr> rg_n := rg_n g + 2, rg_draws := rg_draws g @ [32, 32] \<rparr>)"
    using assms draw_32 [of "g\<lparr> rg_n := rg_n g + 1, rg_draws := rg_draws g @ [32] \<rparr>"] by simp
  moreover have "rng_draw g 32 = (Inr (sha256 (rg_seed g @ be_digits 8 (rg_n g + 0))),
      g\<lparr> rg_n := rg_n g + 1, rg_draws := rg_draws g @ [32] \<rparr>)"
    using assms draw_32 [of g] by simp
  ultimately show ?thesis
    using initiator_refused [of given ex _ ika "(c, g)"] initiator_admitted [of given ex _ g _ _ _ _ ika c]
    by (cases "initiator_prefix given ika ex (c, g)"; cases "initiator_checks given ex")
      (fastforce simp: Let_def same_work_def)+
qed

theorem refused_before_the_work_witness:
  "let g = \<lparr> rg_seed = [1], rg_n = 0, rg_draws = [] \<rparr>
   in \<exists>c'. initiator_prefix (Inl []) (zeros 32) (FirstContact []) (\<lparr> ct_signatures_verified = 0, ct_agreements = 0,
     ct_encapsulations = 0, ct_private_keys_used = 0, ct_stored_state_changes = 0 \<rparr>, g) = (Inl (WireE DecodeError), c', g)"
proof -
  let ?g = "\<lparr> rg_seed = [1], rg_n = 0, rg_draws = [] \<rparr>" and ?c = "\<lparr> ct_signatures_verified = 0, ct_agreements = 0,
     ct_encapsulations = 0, ct_private_keys_used = 0, ct_stored_state_changes = 0 \<rparr>"
  have refused: "initiator_checks (Inl []) (FirstContact []) = Inl (WireE DecodeError)"
    by (simp add: initiator_checks_def check_expectation_wellformed_def bundle_of_def decode_bundle_def check_framing_def)
  show ?thesis
    using refused_before_the_work [where g = ?g and ika = "zeros 32" and given = "Inl []" and ex = "FirstContact []" and c = ?c] refused
    by (cases "initiator_prefix (Inl []) (zeros 32) (FirstContact []) (?c, ?g)") (simp add: Let_def)
qed

text \<open>
  C32. Of the initial messages that name a KEM prekey without a legacy marker, the responder admits exactly
  those that decode, name prekeys the store holds, and carry an identity key in the prime-order subgroup and a
  KEM ciphertext of the right length; and for such a message the four agreements are computed on the secrets
  the store holds, with no other failure.  A message that names a marked key is outside the claim: see
  \<open>markers_not_consulted\<close> below.
\<close>

theorem admitted_initial_message:
  "responder_prefix (Inr p) b = Inr r \<and> rp_kem_prekey_id r \<notin> set (pk_legacy_blocked p) \<longleftrightarrow>
     (\<exists>m spk opk ika eka. decode_initial b = Inr m \<and> find_signed_prekey p (im_signed_prekey_id m) = Some spk
        \<and> im_kem_prekey_id m \<in> live_kem_ids p \<union> fst ` set (pk_kem_one_time p)
        \<and> im_kem_prekey_id m \<notin> set (pk_legacy_blocked p)
        \<and> decode_ec (im_identity m) = Inr ika \<and> is_identity_key ika \<and> decode_ec (im_ephemeral m) = Inr eka
        \<and> (case opk of None \<Rightarrow> im_one_time_prekey_id m = ABSENT_ID
           | Some k \<Rightarrow> im_one_time_prekey_id m \<noteq> ABSENT_ID \<and> (im_one_time_prekey_id m, k) \<in> set (pk_one_time p))
        \<and> int (length (im_kem_ciphertext m)) = MLKEM1024_CT_LEN
        \<and> r = \<lparr> rp_identity_key = ika, rp_signed_prekey_id = im_signed_prekey_id m,
               rp_kem_prekey_id = im_kem_prekey_id m, rp_one_time_prekey_id = im_one_time_prekey_id m \<rparr>
        \<and> store_agreements p b secret = responder_agreements secret spk opk ika eka)"
    (is "_ \<longleftrightarrow> (\<exists>m spk opk ika eka. ?R m spk opk ika eka)")
proof
  assume run: "responder_prefix (Inr p) b = Inr r \<and> rp_kem_prekey_id r \<notin> set (pk_legacy_blocked p)"
  then obtain m spk ika where m: "decode_initial b = Inr m" "find_signed_prekey p (im_signed_prekey_id m) = Some spk"
      "decode_ec (im_identity m) = Inr ika"
    and ot: "im_one_time_prekey_id m = 0 \<or> im_one_time_prekey_id m \<in> fst ` set (pk_one_time p)"
    and rest: "im_kem_prekey_id m \<in> live_kem_ids p \<union> fst ` set (pk_kem_one_time p)" "is_identity_key ika"
      "int (length (im_kem_ciphertext m)) = MLKEM1024_CT_LEN"
      "r = \<lparr> rp_identity_key = ika, rp_signed_prekey_id = im_signed_prekey_id m,
               rp_kem_prekey_id = im_kem_prekey_id m, rp_one_time_prekey_id = im_one_time_prekey_id m \<rparr>"
    unfolding responder_prefix_iff by blast
  obtain opk eka where "decode_ec (im_ephemeral m) = Inr eka" "opk = None \<longleftrightarrow> im_one_time_prekey_id m = 0"
      "\<forall>k. opk = Some k \<longrightarrow> (im_one_time_prekey_id m, k) \<in> set (pk_one_time p)"
      "store_agreements p b secret = responder_agreements secret spk opk ika eka"
    using store_agreements_eq [OF m ot] by blast
  with m rest run show "\<exists>m spk opk ika eka. ?R m spk opk ika eka"
    by (intro exI [of _ m] exI [of _ spk] exI [of _ opk] exI [of _ ika] exI [of _ eka])
      (auto simp: const_defs split: option.splits)
next
  assume "\<exists>m spk opk ika eka. ?R m spk opk ika eka"
  then show "responder_prefix (Inr p) b = Inr r \<and> rp_kem_prekey_id r \<notin> set (pk_legacy_blocked p)"
    unfolding responder_prefix_iff by (force simp: const_defs split: option.splits)
qed

text \<open>
  The specification has a handshake that names a marked key refused before decapsulation
  (\<open>session-persistence.md\<close>, What a marker does).  Neither function of the reader that stands before
  decapsulation looks at the markers: changing them changes no result.
\<close>

theorem markers_not_consulted:
  "responder_prefix (Inr (p\<lparr> pk_legacy_blocked := markers \<rparr>)) b = responder_prefix (Inr p) b
   \<and> check_last_resort (p\<lparr> pk_legacy_blocked := markers \<rparr>) m sk = check_last_resort p m sk"
proof -
  let ?q = "p\<lparr> pk_legacy_blocked := markers \<rparr>"
  have same: "pk_seen ?q = pk_seen p" "pk_kem_id ?q = pk_kem_id p" "pk_previous_kem ?q = pk_previous_kem p"
      "pk_kem_pair ?q = pk_kem_pair p" "pk_kem_one_time ?q = pk_kem_one_time p" "pk_one_time ?q = pk_one_time p"
      "pk_signed_prekey_id ?q = pk_signed_prekey_id p" "pk_signed_prekey_secret ?q = pk_signed_prekey_secret p"
      "pk_previous_signed ?q = pk_previous_signed p"
    by simp_all
  show ?thesis
    unfolding responder_prefix_def store_of_def sum.case bindR_simps find_signed_prekey_def find_kem_prekey_def
      check_last_resort_def on_last_resort_path_def same
    by simp
qed

text \<open>
  C33. A repeated initial message reaches the session's decryption exactly when it decodes, the session is
  a responder's that still holds the ephemeral key it was established with, the message's ephemeral key
  agrees with that one under the ratchet's private key, and it carries the same identity.
\<close>

theorem repeated_initial_accepted:
  "receive_repeated_initial session raw decrypt_inner = Inr x \<longleftrightarrow>
     (\<exists>m e k k' out. decode_initial raw = Inr m \<and> \<not> is_initiator session
        \<and> ss_established_ephemeral session = Some e \<and> decode_ec e = Inr k \<and> decode_ec (im_ephemeral m) = Inr k'
        \<and> x25519_contributory (ss_ratchet_private session) k = Inr out
        \<and> x25519_contributory (ss_ratchet_private session) k' = Inr out
        \<and> encode_ec (ss_peer_identity_public session) = Inr (im_identity m)
        \<and> decrypt_inner (im_ratchet_message m) = Inr x)"
  unfolding receive_repeated_iff accept_repeated_iff by auto

text \<open>
  C34. An inventory statement has at most one encoding, and the decoders accept exactly the encodings:
  the unsigned one a statement's, the signed one a statement's followed by 64 bytes of signature.  The
  account handle of a statement with an encoding is the UTF-8 form of Unicode scalar values.  Everything
  else is refused as a decode failure and as nothing else.
\<close>

theorem inventory_exact:
  "(decode_unsigned b = Inr s \<longleftrightarrow> encode_unsigned s = Inr b)
   \<and> (decode_signed d = Inr (s, u, sig) \<longleftrightarrow> d = u @ sig \<and> length sig = 64 \<and> encode_unsigned s = Inr u)
   \<and> (case encode_unsigned s of Inl err \<Rightarrow> err = InventoryRefusal Chk_decode
      | Inr _ \<Rightarrow> \<exists>cps. list_all scalar_value cps \<and> iv_account_handle s = concat (map utf8_encode cps))
   \<and> (case decode_signed d of Inl err \<Rightarrow> err = InventoryRefusal Chk_decode | Inr _ \<Rightarrow> 64 \<le> length d)"
proof (intro conjI)
  show "case encode_unsigned s of Inl err \<Rightarrow> err = InventoryRefusal Chk_decode
      | Inr _ \<Rightarrow> \<exists>cps. list_all scalar_value cps \<and> iv_account_handle s = concat (map utf8_encode cps)"
    using raisesD [OF raises_encode_unsigned, of s]
    by (auto simp: encode_unsigned_iff statement_ok_def utf8_decode_iff list_all_iff split: sum.split)
  show "case decode_signed d of Inl err \<Rightarrow> err = InventoryRefusal Chk_decode | Inr _ \<Rightarrow> 64 \<le> length d"
    using raisesD [OF raises_decode_signed, of d] by (auto simp: decode_signed_iff split: sum.split)
qed (rule decode_unsigned_iff decode_signed_iff)+

text \<open>
  C35. The verifier's checks are made in the specified order and stop at the first that refuses: for any
  verdicts of the verifier's own policy, the result is that of the first refusing step of the table
  \<open>acceptance_steps\<close>, or the statement when none refuses, and the policy is asked exactly the questions up
  to that step, in that order.  A statement that does not decode is refused before any question is asked.
\<close>

theorem acceptance_in_order:
  "accept data asked (logging vd) log =
     (case decode_signed data of
        Inl err \<Rightarrow> (Inl err, log)
      | Inr (s, preimage, sig) \<Rightarrow> decided s (first_refusal (acceptance_steps s preimage sig asked vd)) log)
   \<and> accept_built s sig asked (logging vd) log =
     (case encode_unsigned s of
        Inl err \<Rightarrow> (Inl err, log)
      | Inr preimage \<Rightarrow>
          if length sig = 64 then decided s (first_refusal (acceptance_steps s preimage sig asked vd)) log
          else (Inl (InventoryRefusal Chk_decode), log))"
  by (simp add: accept_log accept_built_def bindS_def liftS_def refused_def inv_checks_log split: sum.split)

text \<open>
  C36. An issuer signs exactly the statements that have an encoding, name no device twice and carry only
  identity keys, and refuses every other; and whatever it has signed is refused by no verifier for its
  encoding, its devices or its keys.
\<close>

theorem issuer_signs_only_acceptable:
  "sign_statement k s z =
     (if signable s then bindR (xeddsa_sign k (signing_input (statement_enc s)) z) (\<lambda>sig. Inr (statement_enc s @ sig))
      else Inl IssuerRefusal)
   \<and> (case sign_statement k s z of
        Inl _ \<Rightarrow> True
      | Inr b \<Rightarrow> fst (accept b asked (logging vd) log)
          \<notin> Inl ` InventoryRefusal ` {Chk_decode, Chk_duplicate_device, Chk_identity_key})"
  using sign_statement_eq [of k s z] signed_refusals [where k = k and s = s and z = z and asked = asked and vd = vd and log = log]
  by (fastforce split: sum.split)

section \<open>Two Braids\<close>

text \<open>
  C37. Two Braids started from one secret agree: whatever the network delays, drops, reorders or repeats,
  and whenever the sides send, no epoch ever has two different keys put out for it, by either side or
  between them.  The KEM is any whose decapsulation inverts its encapsulation.
\<close>

theorem braid_sides_agree:
  assumes "kem_correct kem" and "exchange_start sk k = Inr w0" and "(exchange_step kem)\<^sup>*\<^sup>* w0 w"
    and "(e, k1) \<in> x_out w p" and "(e, k2) \<in> x_out w q"
  shows "k1 = k2"
  using exchange_ok_agrees [OF kem_correct.exchange_reachable_ok [OF assms(1,3,2)] assms(4,5)] .

theorem braid_sides_agree_witness:
  "\<exists>w0 w key. exchange_start (zeros 32) (\<lambda>_. 0) = Inr w0 \<and> (exchange_step (toy_kem [] {}))\<^sup>*\<^sup>* w0 w
     \<and> x_out w True \<inter> {1} \<times> UNIV = {(1, key)} \<and> x_out w False \<inter> {1} \<times> UNIV = {(1, key)}"
proof -
  obtain w0 w key where w: "exchange_start (zeros 32) (\<lambda>_. 0) = Inr w0" "(exchange_step (toy_kem [] {}))\<^sup>*\<^sup>* w0 w"
    "(1, key) \<in> x_out w True" "(1, key) \<in> x_out w False"
    using toy_exchange [of "zeros 32" "[]"] by blast
  have "k2 = key" if "(1, k2) \<in> x_out w p" for k2 p
    by (rule braid_sides_agree [OF toy_ok.kem_correct_axioms w(1,2) that w(3)])
  then have "x_out w p \<inter> {1} \<times> UNIV \<subseteq> {(1, key)}" for p by blast
  moreover have "{(1, key)} \<subseteq> x_out w p \<inter> {1} \<times> UNIV" for p using w(3,4) by (cases p) simp_all
  ultimately have "x_out w p \<inter> {1} \<times> UNIV = {(1, key)}" for p by (rule equalityI)
  with w(1,2) show ?thesis by blast
qed

text \<open>
  C38. An epoch of the Braid can always be completed: when the two sides stand at its start and the KEM's
  three calls return, delivering each message as it is sent leads both to the start of the next epoch,
  in each other's role and with the same next authenticator, and both have put out the epoch's key.
\<close>

theorem braid_epoch_completes:
  assumes "kem_correct kem" and "x_side w p = keys_side e a" and "x_side w (\<not> p) = waiting_side e a"
    and "1 \<le> e" and "e < U64_MAX - 1" and "auth_fits a"
    and "epoch_called kem (x_rng w p) (x_rng w (\<not> p)) x ka kb"
  shows "\<exists>key a2 w'. braid_kdf_ok (er_k x) e = Inr key \<and> auth_update a e key = Inr a2 \<and> auth_fits a2
    \<and> (exchange_step kem)\<^sup>*\<^sup>* w w' \<and> x_side w' p = waiting_side (e + 1) a2 \<and> x_side w' (\<not> p) = keys_side (e + 1) a2
    \<and> x_rng w' p = ka \<and> x_rng w' (\<not> p) = kb \<and> (e, key) \<in> x_out w' p \<and> (e, key) \<in> x_out w' (\<not> p)"
  by (rule kem_correct.epoch_completes [OF assms])

theorem braid_epoch_completes_witness:
  "\<exists>w0 w key a. exchange_start (zeros 32) (\<lambda>_. 0) = Inr w0 \<and> (exchange_step (toy_kem [1] {}))\<^sup>*\<^sup>* w0 w
     \<and> x_side w True = waiting_side 2 a \<and> x_side w False = keys_side 2 a \<and> (1, key) \<in> x_out w True \<and> (1, key) \<in> x_out w False"
proof -
  obtain w0 a where w: "exchange_start (zeros 32) (\<lambda>_. 0) = Inr w0" "auth_fits a" "x_side w0 True = keys_side 1 a"
    "x_side w0 (\<not> True) = waiting_side 1 a" "x_rng w0 = (\<lambda>_. 0 :: int)"
    using exchange_start_sides [of "zeros 32" "\<lambda>_. 0"] by auto
  obtain x where called: "epoch_called (toy_kem [1] {}) (x_rng w0 True) (x_rng w0 (\<not> True)) x 3 1"
    using toy_called [of 0 0 "[1]"] by (auto simp: w(5))
  have e: "1 \<le> (1 :: int)" "(1 :: int) < U64_MAX - 1" by (simp_all add: const_defs)
  obtain key a2 w' where "(exchange_step (toy_kem [1] {}))\<^sup>*\<^sup>* w0 w'" "x_side w' True = waiting_side (1 + 1) a2"
    "x_side w' (\<not> True) = keys_side (1 + 1) a2" "(1, key) \<in> x_out w' True" "(1, key) \<in> x_out w' (\<not> True)"
    using braid_epoch_completes [OF toy_ok.kem_correct_axioms w(3,4) e w(2) called] by blast
  with w(1) show ?thesis by (intro exI [of _ w0] exI [of _ w'] exI [of _ key] exI [of _ a2]) simp
qed

text \<open>
  C39. Honest delivery never breaks a Braid: with a KEM that reports no failure, a side can become failed
  only at the last epoch its counter allows, whatever the network delays, drops, reorders or repeats.  So no
  MAC check, key validation or length check ever refuses what the other side sent.
\<close>

theorem braid_fails_only_at_ceiling:
  assumes "kem_correct kem" and "kem_reliable kem" and "exchange_start sk k = Inr w0" and "(exchange_step kem)\<^sup>*\<^sup>* w0 w"
    and "exchange_step kem w w'" and "b_tag (x_side w p) \<noteq> FAILED" and "b_epoch (x_side w p) \<noteq> U64_MAX - 1"
  shows "b_tag (x_side w' p) \<noteq> FAILED"
  using kem_correct.exchange_step_ok [OF assms(1,5) kem_correct.exchange_reachable_ok [OF assms(1,4,3)]] assms(2,6,7) by blast

theorem braid_fails_only_at_ceiling_witness:
  "\<exists>w0 w. exchange_start (zeros 32) (\<lambda>_. 0) = Inr w0 \<and> exchange_step (toy_kem [] {}) w0 w \<and> w \<noteq> w0
     \<and> b_tag (x_side w False) \<noteq> FAILED"
proof -
  obtain w0 a where w: "exchange_start (zeros 32) (\<lambda>_. 0 :: int) = Inr w0" "x_side w0 False = waiting_side 1 a" "x_out w0 = (\<lambda>_. {})"
    "x_net w0 = (\<lambda>_. {})"
    using exchange_start_sides [of "zeros 32" "\<lambda>_. 0"] by auto
  let ?r = "sent (waiting_side 1 a) 1 AG_NONE None None"
  let ?w = "w0\<lparr> x_side := (x_side w0)(False := bsr_state ?r), x_rng := (x_rng w0)(False := x_rng w0 False),
      x_net := (x_net w0)(False := set_option (bsr_message ?r) \<union> x_net w0 False),
      x_out := (x_out w0)(False := set_option (bsr_output ?r) \<union> x_out w0 False) \<rparr>"
  have step: "exchange_step (toy_kem [] {}) w0 ?w" by (rule exchange_step.on_send) (simp add: w(2) waiting_sends)
  have "b_tag (x_side w0 False) \<noteq> FAILED" "b_epoch (x_side w0 False) \<noteq> U64_MAX - 1"
    by (simp_all add: w(2) waiting_side_def const_defs)
  from braid_fails_only_at_ceiling [OF toy_ok.kem_correct_axioms toy_reliable w(1) rtranclp.rtrancl_refl step this]
  have "b_tag (x_side ?w False) \<noteq> FAILED" .
  moreover have "?w \<noteq> w0"
  proof
    assume "?w = w0"
    then have "x_net ?w False = x_net w0 False" by (rule arg_cong)
    then show False using w(4) by (simp add: sent_def)
  qed
  ultimately show ?thesis using w(1) step by blast
qed

section \<open>A whole session\<close>

text \<open>
  C40. A session is stored and restored as a whole.  Whatever a party fed by the Braid has sent and received
  since establishment, the record made of it is written and read back unchanged, Braid and both ratchets
  included, by a reader that applies every rule tying its parts together; only an identity key outside the
  prime-order subgroup makes it refuse.  And a repeated initial message takes a stored session only to a
  record of a state the party can itself reach.
\<close>

theorem reachable_session_restored:
  assumes "kem_shapes kem"
    and start: "initiator \<and> triple_init_initiator sk ad priv spk st = Inr p0 \<and> is_canonical_curve_key spk
        \<and> braid_init_initiator sk = Inr st
      \<or> \<not> initiator \<and> triple_init_responder sk ad priv st = Inr p0 \<and> braid_init_responder sk = Inr st"
    and ad: "associated_data (if initiator then ours else peer) (if initiator then peer else ours) = Inr ad"
    and left: "left_over initiator pending established"
    and steps: "(triple_step (braid_agreement kem))\<^sup>*\<^sup>* p0 p"
  shows "\<exists>s b. session_of ad ours peer pending established p = Inr s \<and> session_to_bytes s = Inr b
    \<and> session_from_bytes None b = (if is_identity_key ours \<and> is_identity_key peer then Inr s else Inl (PersistE Inconsistent))
    \<and> from_persisted (ss_braid s) = Inr (p_agreement_state p)
    \<and> (case session_receive kem ad ours peer s raw fresh of Inl _ \<Rightarrow> True
       | Inr (s', pt) \<Rightarrow> \<exists>p'. (triple_step (braid_agreement kem))\<^sup>*\<^sup>* p0 p'
           \<and> session_of ad ours peer pending established p' = Inr s')"
proof -
  have p0: "session_ok initiator p0" "p_ad p0 = ad" using session_starts [OF start] by simp_all
  have p: "session_ok initiator p" "p_ad p = ad" using kem_shapes.session_steps_ok [OF assms(1) steps p0(1)] p0(2) by simp_all
  obtain s where s: "session_of ad ours peer pending established p = Inr s"
    and stored: "\<exists>b. session_to_bytes s = Inr b
      \<and> session_from_bytes None b = (if is_identity_key ours \<and> is_identity_key peer then Inr s else Inl (PersistE Inconsistent))"
      "from_persisted (ss_braid s) = Inr (p_agreement_state p)"
    using session_stored [OF p(1) left ad] by blast
  have "\<exists>p'. (triple_step (braid_agreement kem))\<^sup>*\<^sup>* p0 p' \<and> session_of ad ours peer pending established p' = Inr s'"
    if "session_receive kem ad ours peer s raw fresh = Inr (s', pt)" for s' pt
    using session_receive_reached [OF p(1) left, of ours peer s kem raw fresh s' pt] s that steps p(2) by (auto intro: rtranclp.rtrancl_into_rtrancl)
  then show ?thesis using s stored by (auto split: sum.splits)
qed

theorem reachable_session_restored_witness:
  "\<exists>st p s b. braid_init_responder (zeros 32) = Inr st
     \<and> triple_init_responder (zeros 32) ((0x05 # zeros 32) @ 0x05 # zeros 32) (zeros 32) st = Inr p
     \<and> session_of ((0x05 # zeros 32) @ 0x05 # zeros 32) (zeros 32) (zeros 32) None (Some (0x05 # zeros 32)) p = Inr s
     \<and> session_to_bytes s = Inr b
     \<and> session_from_bytes None b = (if is_identity_key (zeros 32) then Inr s else Inl (PersistE Inconsistent))"
proof -
  let ?ad = "(0x05 # zeros 32) @ 0x05 # zeros 32 :: bytes"
  obtain st where st: "braid_init_responder (zeros 32) = Inr st" using braid_init_ok(2) by blast
  obtain p where p: "triple_init_responder (zeros 32) ?ad (zeros 32) st = Inr p"
    by (rule triple_responder_starts [of "zeros 32" "zeros 32" ?ad st]) simp_all
  have ad: "associated_data (if False then zeros 32 else zeros 32) (if False then zeros 32 else zeros 32) = Inr ?ad"
    by (simp add: associated_data_def encode_ec_iff bindR_Inr_iff)
  have left: "left_over False None (Some (0x05 # zeros 32))"
    by (simp add: left_over_def established_ok_def is_canonical_curve_key_def const_defs le_int_def rev_zeros)
  have "\<not> False \<and> triple_init_responder (zeros 32) ?ad (zeros 32) st = Inr p \<and> braid_init_responder (zeros 32) = Inr st"
    using st p by simp
  from reachable_session_restored [OF toy.kem_shapes_axioms disjI2 [OF this] ad left rtranclp.rtrancl_refl,
      of "[]" "{}" "[]" "zeros 32"]
  show ?thesis using st p unfolding conj_absorb by blast
qed

end
